(* ===== verification/Prelude.thy ===== *)
theory Prelude
  imports Main "HOL-Library.Word" "HOL-Library.Monad_Syntax"
begin

text \<open>
  What the components share: the machine integers, the status codes and the byte-order
  helpers of \<open>picokeys.h\<close>, writes into a byte buffer (the C idiom \<open>memcpy(buf + off, ..)\<close>),
  the branch-free comparison loop, and the lemmas about them.
  A C buffer with its length is a list of bytes; a pointer into it is \<open>drop off\<close> of the list.
\<close>

unbundle bit_operations_syntax

named_theorems codec_simps

type_synonym u8 = "8 word"
type_synonym u16 = "16 word"
type_synonym u32 = "32 word"
type_synonym u64 = "64 word"
type_synonym bytes = "u8 list"

section \<open>Status codes\<close>

datatype status =
    PICOKEYS_OK
  | PICOKEYS_ERR_NO_MEMORY
  | PICOKEYS_ERR_MEMORY_FATAL
  | PICOKEYS_ERR_NULL_PARAM
  | PICOKEYS_ERR_FILE_NOT_FOUND
  | PICOKEYS_ERR_BLOCKED
  | PICOKEYS_NO_LOGIN
  | PICOKEYS_EXEC_ERROR
  | PICOKEYS_WRONG_LENGTH
  | PICOKEYS_WRONG_DATA
  | PICOKEYS_WRONG_DKEK
  | PICOKEYS_WRONG_SIGNATURE
  | PICOKEYS_WRONG_PADDING
  | PICOKEYS_VERIFICATION_FAILED
  | PICOKEYS_ERR_STALE_HANDLE

section \<open>Byte order\<close>

definition make_uint16_be :: "u8 \<Rightarrow> u8 \<Rightarrow> u16" where
  "make_uint16_be b1 b2 = push_bit 8 (ucast b1) OR ucast b2"

definition get_uint16_be :: "bytes \<Rightarrow> u16" where
  "get_uint16_be b = make_uint16_be (b ! 0) (b ! 1)"

definition put_uint16_be :: "u16 \<Rightarrow> bytes" where
  "put_uint16_be n = [ucast (drop_bit 8 n AND 0xff), ucast (n AND 0xff)]"

definition make_uint32_be :: "u8 \<Rightarrow> u8 \<Rightarrow> u8 \<Rightarrow> u8 \<Rightarrow> u32" where
  "make_uint32_be b1 b2 b3 b4 =
     push_bit 24 (ucast b1) OR push_bit 16 (ucast b2) OR push_bit 8 (ucast b3) OR ucast b4"

definition get_uint32_be :: "bytes \<Rightarrow> u32" where
  "get_uint32_be b = make_uint32_be (b ! 0) (b ! 1) (b ! 2) (b ! 3)"

definition put_uint32_be :: "u32 \<Rightarrow> bytes" where
  "put_uint32_be n =
     [ucast (drop_bit 24 n AND 0xff), ucast (drop_bit 16 n AND 0xff),
      ucast (drop_bit 8 n AND 0xff), ucast (n AND 0xff)]"

definition make_uint64_be ::
    "u8 \<Rightarrow> u8 \<Rightarrow> u8 \<Rightarrow> u8 \<Rightarrow> u8 \<Rightarrow> u8 \<Rightarrow> u8 \<Rightarrow> u8 \<Rightarrow> u64" where
  "make_uint64_be b1 b2 b3 b4 b5 b6 b7 b8 =
     push_bit 56 (ucast b1) OR push_bit 48 (ucast b2) OR push_bit 40 (ucast b3) OR
     push_bit 32 (ucast b4) OR push_bit 24 (ucast b5) OR push_bit 16 (ucast b6) OR
     push_bit 8 (ucast b7) OR ucast b8"

definition get_uint64_be :: "bytes \<Rightarrow> u64" where
  "get_uint64_be b =
     make_uint64_be (b ! 0) (b ! 1) (b ! 2) (b ! 3) (b ! 4) (b ! 5) (b ! 6) (b ! 7)"

definition put_uint64_be :: "u64 \<Rightarrow> bytes" where
  "put_uint64_be n =
     [ucast (drop_bit 56 n AND 0xff), ucast (drop_bit 48 n AND 0xff),
      ucast (drop_bit 40 n AND 0xff), ucast (drop_bit 32 n AND 0xff),
      ucast (drop_bit 24 n AND 0xff), ucast (drop_bit 16 n AND 0xff),
      ucast (drop_bit 8 n AND 0xff), ucast (n AND 0xff)]"

text \<open>One byte of a word, cut out and put back at its place, holds the word's bits there.\<close>

lemma bit_byte_of_word:
  fixes n :: "'a::len word"
  assumes "LENGTH('a) \<ge> 8"
  shows "bit (push_bit k (ucast (ucast (drop_bit k n AND 0xff) :: u8)) :: 'a word) i \<longleftrightarrow>
     k \<le> i \<and> i < k + 8 \<and> bit n i"
proof -
  have m: "(0xff :: 'a word) = mask 8"
    by (simp add: mask_eq_exp_minus_1)
  have "i < LENGTH('a)" if "bit n i"
    using that by (rule bit_imp_le_length)
  then show ?thesis
    unfolding m using assms by (auto simp: bit_simps)
qed

lemma bit_low_byte_of_word:
  fixes n :: "'a::len word"
  assumes "LENGTH('a) \<ge> 8"
  shows "bit (ucast (ucast (n AND 0xff) :: u8) :: 'a word) i \<longleftrightarrow> i < 8 \<and> bit n i"
  using bit_byte_of_word [OF assms, of 0 n i] by simp

lemmas byte_cut_simps = bit_byte_of_word bit_low_byte_of_word bit_or_iff

lemma length_put_uint [simp]:
  "length (put_uint16_be n) = 2" "length (put_uint32_be m) = 4" "length (put_uint64_be k) = 8"
  by (simp_all add: put_uint16_be_def put_uint32_be_def put_uint64_be_def)

lemma nth_byte_numerals:
  "[a, b] ! 1 = b" "[a, b, c, d] ! 1 = b" "[a, b, c, d] ! 2 = c" "[a, b, c, d] ! 3 = d"
  "[a, b, c, d, e, f, g, h] ! 1 = b" "[a, b, c, d, e, f, g, h] ! 2 = c"
  "[a, b, c, d, e, f, g, h] ! 3 = d" "[a, b, c, d, e, f, g, h] ! 4 = e"
  "[a, b, c, d, e, f, g, h] ! 5 = f" "[a, b, c, d, e, f, g, h] ! 6 = g"
  "[a, b, c, d, e, f, g, h] ! 7 = h"
  by simp_all

lemma get_put_uint16_be [simp]: "get_uint16_be (put_uint16_be n) = n"
proof (rule bit_word_eqI)
  fix i assume "i < LENGTH(16)"
  then have i: "i < 8 \<or> (8 \<le> i \<and> i < 16)" by simp linarith
  show "bit (get_uint16_be (put_uint16_be n)) i = bit n i"
    using i by (auto simp: get_uint16_be_def put_uint16_be_def make_uint16_be_def
        byte_cut_simps nth_byte_numerals)
qed

lemma get_put_uint32_be [simp]: "get_uint32_be (put_uint32_be n) = n"
proof (rule bit_word_eqI)
  fix i assume "i < LENGTH(32)"
  then have i: "i < 8 \<or> (8 \<le> i \<and> i < 16) \<or> (16 \<le> i \<and> i < 24) \<or> (24 \<le> i \<and> i < 32)"
    by simp linarith
  show "bit (get_uint32_be (put_uint32_be n)) i = bit n i"
    using i by (auto simp: get_uint32_be_def put_uint32_be_def make_uint32_be_def
        byte_cut_simps nth_byte_numerals)
qed

lemma get_put_uint64_be [simp]: "get_uint64_be (put_uint64_be n) = n"
proof (rule bit_word_eqI)
  fix i assume "i < LENGTH(64)"
  then have i: "i < 8 \<or> (8 \<le> i \<and> i < 16) \<or> (16 \<le> i \<and> i < 24) \<or> (24 \<le> i \<and> i < 32) \<or>
      (32 \<le> i \<and> i < 40) \<or> (40 \<le> i \<and> i < 48) \<or> (48 \<le> i \<and> i < 56) \<or> (56 \<le> i \<and> i < 64)"
    by simp linarith
  show "bit (get_uint64_be (put_uint64_be n)) i = bit n i"
    using i by (auto simp: get_uint64_be_def put_uint64_be_def make_uint64_be_def
        byte_cut_simps nth_byte_numerals)
qed

text \<open>And conversely: the bytes a word was read from are written back.\<close>

lemma bit_u8_out: "8 \<le> k \<Longrightarrow> \<not> bit (b :: u8) k"
  using bit_imp_le_length [of b k] by auto

lemma mask8: "(0xff :: 'a::len word) = mask 8"
  by (simp add: mask_eq_exp_minus_1)

lemma put_make_uint16 [simp]: "put_uint16_be (make_uint16_be a b) = [a, b]"
  unfolding put_uint16_be_def make_uint16_be_def mask8
  by (auto intro!: bit_word_eqI simp: bit_simps bit_u8_out)

lemma put_make_uint32 [simp]: "put_uint32_be (make_uint32_be a b c d) = [a, b, c, d]"
  unfolding put_uint32_be_def make_uint32_be_def mask8
  by (auto intro!: bit_word_eqI simp: bit_simps bit_u8_out)

lemma put_make_uint64 [simp]: "put_uint64_be (make_uint64_be a b c d e f g h) = [a, b, c, d, e, f, g, h]"
  unfolding put_uint64_be_def make_uint64_be_def mask8
  by (auto intro!: bit_word_eqI simp: bit_simps bit_u8_out)

section \<open>Writes into a buffer\<close>

text \<open>\<open>memcpy(buf + off, bs, len)\<close> on a buffer that is large enough.\<close>

definition buf_write :: "nat \<Rightarrow> 'a list \<Rightarrow> 'a list \<Rightarrow> 'a list" where
  "buf_write off bs buf = take off buf @ bs @ drop (off + length bs) buf"

definition slice :: "nat \<Rightarrow> nat \<Rightarrow> 'a list \<Rightarrow> 'a list" where
  "slice off n xs = take n (drop off xs)"

lemma length_buf_write [simp]:
  "off + length bs \<le> length buf \<Longrightarrow> length (buf_write off bs buf) = length buf"
  by (simp add: buf_write_def)

lemma length_slice [simp]: "length (slice off n xs) = min n (length xs - off)"
  by (simp add: slice_def)

lemma nth_buf_write:
  assumes "off + length bs \<le> length buf" and "i < length buf"
  shows "buf_write off bs buf ! i =
    (if off \<le> i \<and> i < off + length bs then bs ! (i - off) else buf ! i)"
  using assms by (auto simp: buf_write_def nth_append min_def)

lemma nth_slice: "i < n \<Longrightarrow> off + i < length xs \<Longrightarrow> slice off n xs ! i = xs ! (off + i)"
  by (simp add: slice_def)

lemma slice_write_same [codec_simps]:
  "off + length bs \<le> length buf \<Longrightarrow> n = length bs \<Longrightarrow> slice off n (buf_write off bs buf) = bs"
  by (simp add: slice_def buf_write_def)

lemma slice_write_other [codec_simps]:
  assumes "off + length bs \<le> length buf" and "o' + n \<le> off \<or> off + length bs \<le> o'"
  shows "slice o' n (buf_write off bs buf) = slice o' n buf"
proof (rule nth_equalityI)
  show "length (slice o' n (buf_write off bs buf)) = length (slice o' n buf)"
    using assms by simp
next
  fix i assume "i < length (slice o' n (buf_write off bs buf))"
  then have i: "i < n" "o' + i < length buf" using assms by auto
  then show "slice o' n (buf_write off bs buf) ! i = slice o' n buf ! i"
    using assms by (auto simp: nth_slice nth_buf_write)
qed

lemma slice_append_left [codec_simps]:
  "off + n \<le> length xs \<Longrightarrow> slice off n (xs @ ys) = slice off n xs"
  by (simp add: slice_def)

lemma slice_append_right [codec_simps]:
  "length xs \<le> off \<Longrightarrow> slice off n (xs @ ys) = slice (off - length xs) n ys"
  by (simp add: slice_def)

lemma slice_full [simp]: "slice 0 (length xs) xs = xs"
  by (simp add: slice_def)

lemma slice_take: "off + n \<le> m \<Longrightarrow> slice off n (take m xs) = slice off n xs"
  by (simp add: slice_def drop_take min_def)

lemma slice_slice:
  "o' + n' \<le> n \<Longrightarrow> slice o' n' (slice off n xs) = slice (off + o') n' xs"
  by (simp add: slice_def drop_take min_def add.commute)

lemma slice_join: "o' = off + k \<Longrightarrow> slice off k xs @ slice o' j xs = slice off (k + j) xs"
  unfolding slice_def take_add drop_drop by (simp add: add.commute)

lemma slice_one: "off < length xs \<Longrightarrow> [xs ! off] = slice off 1 xs"
  by (simp add: slice_def take_Suc_conv_app_nth hd_drop_conv_nth take_Suc)

text \<open>A read through a pointer sees the bytes of the slice only.\<close>

lemma get_uint_slice:
  "get_uint16_be xs = get_uint16_be (slice 0 2 xs)"
  "get_uint32_be xs = get_uint32_be (slice 0 4 xs)"
  "get_uint64_be xs = get_uint64_be (slice 0 8 xs)"
  by (simp_all add: get_uint16_be_def get_uint32_be_def get_uint64_be_def slice_def)

lemma get_uint_drop:
  "get_uint16_be (drop off xs) = get_uint16_be (slice off 2 xs)"
  "get_uint32_be (drop off xs) = get_uint32_be (slice off 4 xs)"
  "get_uint64_be (drop off xs) = get_uint64_be (slice off 8 xs)"
  by (subst get_uint_slice, simp add: slice_def)+

lemma put_get_slice:
  "off + 2 \<le> length xs \<Longrightarrow> put_uint16_be (get_uint16_be (drop off xs)) = slice off 2 xs"
  "off + 4 \<le> length xs \<Longrightarrow> put_uint32_be (get_uint32_be (drop off xs)) = slice off 4 xs"
  "off + 8 \<le> length xs \<Longrightarrow> put_uint64_be (get_uint64_be (drop off xs)) = slice off 8 xs"
  unfolding get_uint16_be_def get_uint32_be_def get_uint64_be_def put_make_uint16 put_make_uint32 put_make_uint64
  by (auto simp: slice_def list_eq_iff_nth_eq nth_Cons' numeral_eq_Suc less_Suc_eq)
lemma nth_write_same [codec_simps]:
  "off < length buf \<Longrightarrow> buf_write off [b] buf ! off = b"
  by (simp add: nth_buf_write)

lemma nth_write_other [codec_simps]:
  assumes "off + length bs \<le> length buf" and "i < off \<or> off + length bs \<le> i" and "i < length buf"
  shows "buf_write off bs buf ! i = buf ! i"
  using assms by (auto simp: nth_buf_write)

section \<open>Branch-free comparison\<close>

text \<open>\<open>for (i < n) difference |= left[i] ^ right[i]; return difference == 0;\<close>\<close>

definition diff_bytes :: "nat \<Rightarrow> bytes \<Rightarrow> bytes \<Rightarrow> u8" where
  "diff_bytes n l r = fold (\<lambda>i d. d OR (l ! i XOR r ! i)) [0..<n] 0"

lemma xor_eq_0_iff_word: "(a :: 'a::len word) XOR b = 0 \<longleftrightarrow> a = b"
  by (metis bit.xor_self word_bw_assocs(3) xor.right_neutral)

lemma diff_bytes_0_iff: "diff_bytes n l r = 0 \<longleftrightarrow> (\<forall>i<n. l ! i = r ! i)"
  by (induction n)
    (auto simp: diff_bytes_def or_eq_0_iff xor_eq_0_iff_word less_Suc_eq)

lemma diff_bytes_take:
  "n \<le> length l \<Longrightarrow> n \<le> length r \<Longrightarrow> diff_bytes n l r = 0 \<longleftrightarrow> take n l = take n r"
  by (auto simp: diff_bytes_0_iff list_eq_iff_nth_eq)

section \<open>Bit sets\<close>

text \<open>The positions of the bits set in a word: a flag word read as a set.\<close>

definition bitset :: "'a::len word \<Rightarrow> nat set" where
  "bitset w = {i. bit w i}"

lemma bitset_and_eq_0_iff: "a AND b = 0 \<longleftrightarrow> bitset a \<inter> bitset b = {}"
  by (auto simp: bitset_def bit_eq_iff bit_simps dest: bit_imp_le_length)

lemma bitset_and_absorb_iff: "a AND b = b \<longleftrightarrow> bitset b \<subseteq> bitset a"
  by (auto simp: bitset_def bit_eq_iff bit_simps dest: bit_imp_le_length)

lemma bitset_subset_mask: "a AND NOT (mask n) = 0 \<longleftrightarrow> bitset a \<subseteq> {..<n}"
  for a :: "'a::len word"
  by (auto simp: bitset_def bit_eq_iff bit_simps dest: bit_imp_le_length)

lemma bitset_exp: "k < LENGTH('a) \<Longrightarrow> bitset (2 ^ k :: 'a::len word) = {k}"
  by (auto simp: bitset_def bit_simps)

text \<open>The idiom \<open>x & (x - 1) == 0\<close> recognises the powers of two.\<close>

lemma nat_and_pred_eq_0:
  "n > 0 \<Longrightarrow> (n AND (n - 1) = 0) = (\<exists>k. n = (2::nat) ^ k)"
proof (induction n rule: less_induct)
  case (less n)
  show ?case
  proof (cases "even n")
    case True
    then obtain m where m: "n = 2 * m" by (rule evenE)
    with less.prems have pos: "m > 0" by simp
    have "odd (n - 1)" and half: "(n - 1) div 2 = m - 1"
      using m pos by (cases m; simp)+
    then have "n AND (n - 1) = 2 * (m AND (m - 1))"
      using m by (subst and_rec) simp
    moreover have "(\<exists>k. n = 2 ^ k) = (\<exists>k. m = 2 ^ k)"
    proof
      assume "\<exists>k. n = 2 ^ k"
      then obtain k where "n = 2 ^ k" ..
      with m True show "\<exists>k. m = 2 ^ k" by (cases k) auto
    next
      assume "\<exists>k. m = 2 ^ k"
      then show "\<exists>k. n = 2 ^ k" using m by (metis power_Suc)
    qed
    ultimately show ?thesis using less.IH [of m] m pos by simp
  next
    case False
    then obtain m where m: "n = 2 * m + 1" by (rule oddE)
    have "n AND (n - 1) = 2 * m"
      using m by (subst and_rec) simp
    moreover have "(\<exists>k. n = 2 ^ k) = (m = 0)"
    proof
      assume "\<exists>k. n = 2 ^ k"
      then obtain k where "n = 2 ^ k" ..
      with False show "m = 0" using m by (cases k) simp_all
    next
      assume "m = 0"
      then show "\<exists>k. n = 2 ^ k" using m by (intro exI [of _ 0]) simp
    qed
    ultimately show ?thesis by simp
  qed
qed

lemma unat_exp2 [simp]: "k < LENGTH('a) \<Longrightarrow> unat (2 ^ k :: 'a::len word) = 2 ^ k"
  by transfer (simp add: take_bit_eq_mod nat_power_eq)

lemma word_single_bit_iff:
  fixes w :: "'a::len word"
  shows "w \<noteq> 0 \<and> w AND (w - 1) = 0 \<longleftrightarrow> (\<exists>k<LENGTH('a). w = 2 ^ k)"
proof
  assume w: "w \<noteq> 0 \<and> w AND (w - 1) = 0"
  then have "unat w > 0" by (simp add: unat_gt_0)
  moreover have "unat w AND (unat w - 1) = 0"
    using w by (metis unat_0 unat_minus_one unsigned_and_eq)
  ultimately obtain k where k: "unat w = 2 ^ k"
    using nat_and_pred_eq_0 by blast
  moreover have "unat w < 2 ^ LENGTH('a)" by simp
  ultimately have "k < LENGTH('a)" by simp
  moreover from this have "unat (2 ^ k :: 'a word) = 2 ^ k" by simp
  with k have "w = 2 ^ k" by (simp add: word_unat_eq_iff)
  ultimately show "\<exists>k<LENGTH('a). w = 2 ^ k" by blast
next
  assume "\<exists>k<LENGTH('a). w = 2 ^ k"
  then obtain k where k: "k < LENGTH('a)" "w = 2 ^ k" by blast
  then have "unat w = 2 ^ k" by simp
  then have "unat w AND (unat w - 1) = 0"
    using nat_and_pred_eq_0 [of "unat w"] by auto
  moreover from k have "w \<noteq> 0" by simp
  ultimately have "unat (w AND (w - 1)) = 0"
    by (simp add: unsigned_and_eq unat_minus_one)
  then show "w \<noteq> 0 \<and> w AND (w - 1) = 0" using \<open>w \<noteq> 0\<close> by (simp add: unat_eq_zero)
qed

section \<open>The first index that satisfies a test\<close>

text \<open>\<open>for (i = 0; i < n; i++) if (P(xs[i])) return i;\<close>\<close>

fun first_index :: "('a \<Rightarrow> bool) \<Rightarrow> 'a list \<Rightarrow> nat option" where
  "first_index P [] = None"
| "first_index P (x # xs) = (if P x then Some 0 else map_option Suc (first_index P xs))"

lemma first_index_Some:
  "first_index P xs = Some i \<Longrightarrow> i < length xs \<and> P (xs ! i) \<and> (\<forall>j<i. \<not> P (xs ! j))"
proof (induction xs arbitrary: i)
  case (Cons x xs)
  then show ?case
    by (auto split: if_splits simp: less_Suc_eq_0_disj)
qed simp

lemma first_index_None: "first_index P xs = None \<longleftrightarrow> (\<forall>x\<in>set xs. \<not> P x)"
  by (induction xs) auto

end
