(* ===== verification/Object_Policy.thy ===== *)
theory Object_Policy
  imports Prelude
begin

text \<open>
  The authorization policies of \<open>fs/object_policy.c\<close>: a policy is a byte string, two header bytes
  and up to eight 14-byte rules; \<open>file_object_policy_validate\<close> checks the encoding and
  \<open>file_object_policy_authorize\<close> decides one operation against the caller's facts.
  A \<open>const_byte_array_t\<close> whose data pointer may be NULL is an option of bytes. SHA-256 (mbedtls)
  is the parameter \<open>sha256\<close>, \<open>None\<close> when the call fails.
\<close>

section \<open>Model\<close>

abbreviation (input) FILE_OBJECT_POLICY_FORMAT_VERSION :: u8 where
  "FILE_OBJECT_POLICY_FORMAT_VERSION \<equiv> 1"
abbreviation (input) FILE_OBJECT_POLICY_HEADER_SIZE :: nat where
  "FILE_OBJECT_POLICY_HEADER_SIZE \<equiv> 2"
abbreviation (input) FILE_OBJECT_POLICY_RULE_SIZE :: nat where
  "FILE_OBJECT_POLICY_RULE_SIZE \<equiv> 14"
abbreviation (input) FILE_OBJECT_POLICY_MAX_RULES :: u8 where
  "FILE_OBJECT_POLICY_MAX_RULES \<equiv> 8"
abbreviation (input) FILE_OBJECT_POLICY_NAMESPACE_ANY :: u16 where
  "FILE_OBJECT_POLICY_NAMESPACE_ANY \<equiv> 0xffff"
abbreviation (input) FILE_OBJECT_OPERATION_MASK :: u16 where
  "FILE_OBJECT_OPERATION_MASK \<equiv> 0x1fff"
abbreviation (input) FILE_OBJECT_FACT_MASK :: u32 where
  "FILE_OBJECT_FACT_MASK \<equiv> 0x7ff"
abbreviation (input) FILE_OBJECT_POLICY_RULE_FLAG_MASK :: u16 where
  "FILE_OBJECT_POLICY_RULE_FLAG_MASK \<equiv> 0"
abbreviation (input) FILE_OBJECT_POLICY_HASH_SIZE :: nat where
  "FILE_OBJECT_POLICY_HASH_SIZE \<equiv> 16"

record file_object_authorization_context =
  facts :: u32
  session_epoch :: u32
  facts_epoch :: u32
  caller_namespace :: u16

definition rule_operations :: "bytes \<Rightarrow> u16" where
  "rule_operations rule = get_uint16_be (drop 0 rule)"

definition rule_required_facts :: "bytes \<Rightarrow> u32" where
  "rule_required_facts rule = get_uint32_be (drop 2 rule)"

definition rule_forbidden_facts :: "bytes \<Rightarrow> u32" where
  "rule_forbidden_facts rule = get_uint32_be (drop 6 rule)"

definition rule_caller_namespace :: "bytes \<Rightarrow> u16" where
  "rule_caller_namespace rule = get_uint16_be (drop 10 rule)"

definition rule_flags :: "bytes \<Rightarrow> u16" where
  "rule_flags rule = get_uint16_be (drop 12 rule)"

definition file_object_policy_rule_valid :: "bytes \<Rightarrow> bool" where
  "file_object_policy_rule_valid rule =
    (let operations = rule_operations rule;
         required_facts = rule_required_facts rule;
         forbidden_facts = rule_forbidden_facts rule;
         caller_ns = rule_caller_namespace rule;
         flags = rule_flags rule
     in if operations = 0 \<or> operations AND NOT FILE_OBJECT_OPERATION_MASK \<noteq> 0 then False
        else if (required_facts OR forbidden_facts) AND NOT FILE_OBJECT_FACT_MASK \<noteq> 0
             \<or> required_facts AND forbidden_facts \<noteq> 0 then False
        else if caller_ns = 0 \<or> flags AND NOT FILE_OBJECT_POLICY_RULE_FLAG_MASK \<noteq> 0 then False
        else True)"

definition policy_rule :: "bytes \<Rightarrow> nat \<Rightarrow> bytes" where
  "policy_rule policy i = drop (FILE_OBJECT_POLICY_HEADER_SIZE + i * FILE_OBJECT_POLICY_RULE_SIZE) policy"

definition file_object_policy_validate :: "bytes option \<Rightarrow> status" where
  "file_object_policy_validate policy =
    (case policy of None \<Rightarrow> PICOKEYS_ERR_NULL_PARAM
     | Some data \<Rightarrow>
       if length data < FILE_OBJECT_POLICY_HEADER_SIZE \<or> data ! 0 \<noteq> FILE_OBJECT_POLICY_FORMAT_VERSION
          \<or> data ! 1 > FILE_OBJECT_POLICY_MAX_RULES then PICOKEYS_WRONG_DATA
       else if length data \<noteq> FILE_OBJECT_POLICY_HEADER_SIZE + unat (data ! 1) * FILE_OBJECT_POLICY_RULE_SIZE
         then PICOKEYS_WRONG_LENGTH
       else if \<exists>i \<in> set [0..<unat (data ! 1)]. \<not> file_object_policy_rule_valid (policy_rule data i)
         then PICOKEYS_WRONG_DATA
       else PICOKEYS_OK)"

text \<open>The hash buffer is zeroed first, so it holds zeros whenever the call fails.\<close>

definition file_object_policy_hash ::
    "(bytes \<Rightarrow> bytes option) \<Rightarrow> bytes option \<Rightarrow> status \<times> bytes" where
  "file_object_policy_hash sha256 policy =
    (let zero = replicate FILE_OBJECT_POLICY_HASH_SIZE 0; r = file_object_policy_validate policy
     in if r \<noteq> PICOKEYS_OK then (r, zero)
        else case sha256 (the policy) of
            None \<Rightarrow> (PICOKEYS_EXEC_ERROR, zero)
          | Some full_hash \<Rightarrow> (PICOKEYS_OK, take FILE_OBJECT_POLICY_HASH_SIZE full_hash))"

definition rule_grants :: "bytes \<Rightarrow> u16 \<Rightarrow> file_object_authorization_context \<Rightarrow> bool" where
  "rule_grants rule operation context \<longleftrightarrow>
     rule_operations rule AND operation \<noteq> 0
     \<and> (rule_caller_namespace rule = FILE_OBJECT_POLICY_NAMESPACE_ANY
        \<or> rule_caller_namespace rule = caller_namespace context)
     \<and> facts context AND rule_required_facts rule = rule_required_facts rule
     \<and> facts context AND rule_forbidden_facts rule = 0"

definition file_object_policy_authorize ::
    "bytes option \<Rightarrow> u16 \<Rightarrow> file_object_authorization_context option \<Rightarrow> bool" where
  "file_object_policy_authorize policy operation ctx =
    (case ctx of None \<Rightarrow> False
     | Some context \<Rightarrow>
       if file_object_policy_validate policy \<noteq> PICOKEYS_OK then False
       else if operation = 0 \<or> operation AND NOT FILE_OBJECT_OPERATION_MASK \<noteq> 0
            \<or> operation AND (operation - 1) \<noteq> 0 then False
       else if caller_namespace context = 0 \<or> caller_namespace context = FILE_OBJECT_POLICY_NAMESPACE_ANY
            \<or> session_epoch context = 0 \<or> session_epoch context \<noteq> facts_epoch context
            \<or> facts context AND NOT FILE_OBJECT_FACT_MASK \<noteq> 0 then False
       else \<exists>i \<in> set [0..<unat (the policy ! 1)]. rule_grants (policy_rule (the policy) i) operation context)"

section \<open>Abstract specification\<close>

text \<open>
  What a policy promises: a rule lists the operations it allows, the facts it needs and excludes,
  and the namespaces it serves; an operation is allowed when some rule allows it.
\<close>

record rule_spec =
  allowed :: "nat set"
  needs :: "nat set"
  excludes :: "nat set"
  serves :: "u16 set"

definition rule_spec_of :: "bytes \<Rightarrow> rule_spec" where
  "rule_spec_of rule = \<lparr>
     allowed = bitset (rule_operations rule),
     needs = bitset (rule_required_facts rule),
     excludes = bitset (rule_forbidden_facts rule),
     serves = (if rule_caller_namespace rule = FILE_OBJECT_POLICY_NAMESPACE_ANY then UNIV
               else {rule_caller_namespace rule}) \<rparr>"

definition policy_spec_of :: "bytes \<Rightarrow> rule_spec set" where
  "policy_spec_of data = (\<lambda>i. rule_spec_of (policy_rule data i)) ` {..<unat (data ! 1)}"

definition spec_allows :: "rule_spec set \<Rightarrow> nat \<Rightarrow> nat set \<Rightarrow> u16 \<Rightarrow> bool" where
  "spec_allows rules k fs ns \<longleftrightarrow>
     (\<exists>r\<in>rules. k \<in> allowed r \<and> needs r \<subseteq> fs \<and> excludes r \<inter> fs = {} \<and> ns \<in> serves r)"

text \<open>A context is fresh when its facts were established in the running session.\<close>

definition context_fresh :: "file_object_authorization_context \<Rightarrow> bool" where
  "context_fresh c \<longleftrightarrow> caller_namespace c \<noteq> 0 \<and> caller_namespace c \<noteq> FILE_OBJECT_POLICY_NAMESPACE_ANY
     \<and> session_epoch c \<noteq> 0 \<and> session_epoch c = facts_epoch c \<and> bitset (facts c) \<subseteq> {..<11}"

section \<open>Lemmas\<close>

lemma operation_mask: "(FILE_OBJECT_OPERATION_MASK :: u16) = mask 13"
  by (simp add: mask_eq_exp_minus_1)

lemma fact_mask: "(FILE_OBJECT_FACT_MASK :: u32) = mask 11"
  by (simp add: mask_eq_exp_minus_1)

lemma single_operation_iff:
  "(operation :: u16) \<noteq> 0 \<and> operation AND NOT FILE_OBJECT_OPERATION_MASK = 0
     \<and> operation AND (operation - 1) = 0 \<longleftrightarrow> (\<exists>k<13. operation = 2 ^ k)"
proof -
  have "operation \<noteq> 0 \<and> operation AND NOT FILE_OBJECT_OPERATION_MASK = 0
      \<and> operation AND (operation - 1) = 0 \<longleftrightarrow>
      (\<exists>k<16. operation = 2 ^ k) \<and> bitset operation \<subseteq> {..<13}"
    unfolding operation_mask bitset_subset_mask using word_single_bit_iff [of operation] by auto
  also have "\<dots> \<longleftrightarrow> (\<exists>k<16. operation = 2 ^ k \<and> k < 13)"
    using bitset_exp [where 'a = 16] by auto
  also have "\<dots> \<longleftrightarrow> (\<exists>k<13. operation = 2 ^ k)"
  proof -
    have "k < 16" if "k < 13" for k :: nat using that by simp
    then show ?thesis by blast
  qed
  finally show ?thesis .
qed

lemma rule_grants_spec:
  "k < 16 \<Longrightarrow> rule_grants rule (2 ^ k) c \<longleftrightarrow>
     spec_allows {rule_spec_of rule} k (bitset (facts c)) (caller_namespace c)"
  by (auto simp: rule_grants_def spec_allows_def rule_spec_of_def bitset_and_eq_0_iff
      bitset_and_absorb_iff bitset_exp)

lemma context_check_iff:
  "\<not> (caller_namespace c = 0 \<or> caller_namespace c = FILE_OBJECT_POLICY_NAMESPACE_ANY
       \<or> session_epoch c = 0 \<or> session_epoch c \<noteq> facts_epoch c
       \<or> facts c AND NOT FILE_OBJECT_FACT_MASK \<noteq> 0) \<longleftrightarrow> context_fresh c"
  unfolding fact_mask by (auto simp: context_fresh_def bitset_subset_mask)

text \<open>
  C19. The byte-level decision implements the abstract one: \<open>file_object_policy_authorize\<close> says yes
  exactly when the policy is well formed, the context is fresh, the operation is a single one of
  the thirteen operations, and some rule of the policy allows it, needs no fact the caller lacks
  and excludes none the caller has.
\<close>

theorem policy_authorize_refines_spec:
  "file_object_policy_authorize (Some data) operation (Some c) \<longleftrightarrow>
     file_object_policy_validate (Some data) = PICOKEYS_OK \<and> context_fresh c \<and>
     (\<exists>k<13. operation = 2 ^ k \<and>
        spec_allows (policy_spec_of data) k (bitset (facts c)) (caller_namespace c))"
proof -
  have rules: "(\<exists>i\<in>set [0..<unat (data ! 1)]. rule_grants (policy_rule data i) (2 ^ k) c) \<longleftrightarrow>
      spec_allows (policy_spec_of data) k (bitset (facts c)) (caller_namespace c)"
    if "k < 13" for k
    using that by (auto simp: rule_grants_spec policy_spec_of_def spec_allows_def)
  have "file_object_policy_authorize (Some data) operation (Some c) \<longleftrightarrow>
      file_object_policy_validate (Some data) = PICOKEYS_OK \<and> context_fresh c \<and>
      (\<exists>k<13. operation = 2 ^ k) \<and>
      (\<exists>i\<in>set [0..<unat (data ! 1)]. rule_grants (policy_rule data i) operation c)"
    unfolding file_object_policy_authorize_def context_check_iff [symmetric] single_operation_iff [symmetric]
    by auto
  then show ?thesis using rules by metis
qed

end
