(* ===== verification/Wallet_Lock.thy ===== *)
theory Wallet_Lock
  imports Prelude "HOL-Library.Product_Lexorder"
begin

text \<open>
  The retry lock of the on-device PIN (\<open>wallet_ui.c\<close>): reading the DS3231 clock, the persisted
  lock record, the gate that every PIN check passes first, and the delay schedule.
  The clock chip is reached over I2C: a \<open>rtc_port\<close> holds what the two bus transfers of one
  reading return (\<open>None\<close> when the transfer fails). The outcome of each NVS call is an input
  (\<open>nvs_result\<close>, true for ESP_OK) and every NVS write that was attempted is recorded in \<open>nvs_log\<close>.
\<close>

section \<open>Clock\<close>

record rtc_port =
  rtc_handle :: bool
  rtc_status :: "u8 option"
  rtc_raw :: "bytes option"

definition bcd_read :: "u8 \<Rightarrow> nat \<Rightarrow> nat option" where
  "bcd_read encoded maximum =
    (let high = unat (drop_bit 4 encoded); low = unat (encoded AND 15)
     in if high > 9 \<or> low > 9 \<or> high * 10 + low > maximum then None
        else Some (high * 10 + low))"

definition leap_year :: "nat \<Rightarrow> bool" where
  "leap_year year \<longleftrightarrow> year mod 4 = 0 \<and> (year mod 100 \<noteq> 0 \<or> year mod 400 = 0)"

definition days_in_month :: "nat list" where
  "days_in_month = [31,28,31,30,31,30,31,31,30,31,30,31]"

definition days_of_month :: "nat \<Rightarrow> nat \<Rightarrow> nat" where
  "days_of_month year m = days_in_month ! (m - 1) + (if m = 2 \<and> leap_year year then 1 else 0)"

text \<open>The hour register, in its 12-hour and its 24-hour form.\<close>

definition rtc_hour :: "u8 \<Rightarrow> nat option" where
  "rtc_hour r =
    (if r AND 0x40 \<noteq> 0 then
       (case bcd_read (r AND 0x1f) 12 of None \<Rightarrow> None
        | Some hour \<Rightarrow> if hour = 0 then None
            else Some (hour mod 12 + (if r AND 0x20 \<noteq> 0 then 12 else 0)))
     else bcd_read (r AND 0x3f) 23)"

text \<open>The two loops that add up the days, and the final sum.\<close>

definition rtc_days :: "nat \<Rightarrow> nat \<Rightarrow> nat \<Rightarrow> nat" where
  "rtc_days year month day =
     (\<Sum>y\<leftarrow>[2000..<year]. if leap_year y then 366 else 365)
     + (\<Sum>m\<leftarrow>[1..<month]. days_of_month year m) + (day - 1)"

definition rtc_decode :: "bytes \<Rightarrow> (nat \<times> nat \<times> nat \<times> nat \<times> nat \<times> nat) option" where
  "rtc_decode raw = do {
     sec \<leftarrow> bcd_read (raw ! 0 AND 0x7f) 59;
     minute \<leftarrow> bcd_read (raw ! 1 AND 0x7f) 59;
     day \<leftarrow> bcd_read (raw ! 4 AND 0x3f) 31;
     month \<leftarrow> bcd_read (raw ! 5 AND 0x1f) 12;
     yy \<leftarrow> bcd_read (raw ! 6) 99;
     if raw ! 5 AND 0x80 \<noteq> 0 then None else do {
       hour \<leftarrow> rtc_hour (raw ! 2);
       let year = yy + 2000;
       if year < 2020 \<or> month = 0 \<or> day = 0 then None
       else if day > days_of_month year month then None
       else Some (year, month, day, hour, minute, sec)
     }
   }"

definition rtc_total :: "nat \<times> nat \<times> nat \<times> nat \<times> nat \<times> nat \<Rightarrow> nat" where
  "rtc_total = (\<lambda>(year, month, day, hour, minute, sec).
     ((rtc_days year month day * 24 + hour) * 60 + minute) * 60 + sec)"

definition rtc_seconds :: "rtc_port \<Rightarrow> u64 option" where
  "rtc_seconds port =
    (if \<not> rtc_handle port then None
     else case rtc_status port of None \<Rightarrow> None
       | Some status_byte \<Rightarrow>
         if status_byte AND 0x80 \<noteq> 0 then None
         else case rtc_raw port of None \<Rightarrow> None
           | Some raw \<Rightarrow> map_option (\<lambda>f. word_of_nat (rtc_total f)) (rtc_decode raw))"

section \<open>Lock record\<close>

record pin_lock_record =
  version :: u32
  failures :: u32
  locked_until :: u64
  last_seen :: u64

datatype pin_gate = PIN_GATE_READY | PIN_GATE_WAIT | PIN_GATE_RTC_ERROR | PIN_GATE_FLASH_ERROR

datatype nvs_call = SetLock | CommitLock | SetHash | CommitHash | SetWipe | CommitWipe

datatype nvs_write = WriteLock pin_lock_record | WriteHash bytes | WriteWipe u8 | Commit

record pin_lock_state =
  pin_lock :: pin_lock_record
  pin_lock_storage_ok :: bool
  pin_store_open :: bool
  pin_lock_message :: "u64 \<times> u64"
  nvs_log :: "(nvs_write \<times> bool) list"

text \<open>One NVS call: it is logged with its outcome.\<close>

definition nvs_do :: "nvs_write \<Rightarrow> bool \<Rightarrow> ('a pin_lock_state_scheme) \<Rightarrow> ('a pin_lock_state_scheme)" where
  "nvs_do w ok s = s\<lparr>nvs_log := nvs_log s @ [(w, ok)]\<rparr>"

definition pin_lock_store ::
    "(nvs_call \<Rightarrow> bool) \<Rightarrow> pin_lock_record \<Rightarrow> 'a pin_lock_state_scheme \<Rightarrow> bool \<times> 'a pin_lock_state_scheme" where
  "pin_lock_store nvs_result record s =
    (if \<not> pin_lock_storage_ok s \<or> \<not> pin_store_open s then (False, s\<lparr>pin_lock_storage_ok := False\<rparr>)
     else let s = nvs_do (WriteLock record) (nvs_result SetLock) s in
       if \<not> nvs_result SetLock then (False, s\<lparr>pin_lock_storage_ok := False\<rparr>)
       else let s = nvs_do Commit (nvs_result CommitLock) s in
         if \<not> nvs_result CommitLock then (False, s\<lparr>pin_lock_storage_ok := False\<rparr>)
         else (True, s\<lparr>pin_lock := record\<rparr>))"

text \<open>
  The gate. The second component is the \<open>now_out\<close> cell: \<open>None\<close> when it is not written. A NULL
  \<open>now_out\<close> of the source is a caller that drops it.
\<close>

definition pin_lock_check ::
    "rtc_port \<Rightarrow> 'a pin_lock_state_scheme \<Rightarrow> pin_gate \<times> u64 option \<times> 'a pin_lock_state_scheme" where
  "pin_lock_check port s =
    (if \<not> pin_lock_storage_ok s \<or> \<not> pin_store_open s then (PIN_GATE_FLASH_ERROR, None, s)
     else case rtc_seconds port of None \<Rightarrow> (PIN_GATE_RTC_ERROR, None, s)
       | Some now \<Rightarrow>
         if now < last_seen (pin_lock s) then (PIN_GATE_RTC_ERROR, None, s)
         else if locked_until (pin_lock s) > now then
           (let remaining = locked_until (pin_lock s) - now
            in (PIN_GATE_WAIT, Some now, s\<lparr>pin_lock_message := (remaining div 60, remaining mod 60)\<rparr>))
         else (PIN_GATE_READY, Some now, s))"

definition lock_delay :: "u32 \<Rightarrow> u64" where
  "lock_delay n = (if n = 5 then 30 else if n = 6 then 120 else if n = 7 then 600
                   else if n \<ge> 8 then 3600 else 0)"

definition next_lock_record :: "bool \<Rightarrow> u64 \<Rightarrow> pin_lock_record \<Rightarrow> pin_lock_record" where
  "next_lock_record correct now r =
    (let next = r\<lparr>version := 1, last_seen := now\<rparr> in
     if correct then next\<lparr>failures := 0, locked_until := 0\<rparr>
     else let next = (if failures next < - 1 then next\<lparr>failures := failures next + 1\<rparr> else next);
              delay = lock_delay (failures next)
          in next\<lparr>locked_until := (if delay \<noteq> 0 then now + delay else 0)\<rparr>)"

definition pin_lock_record_result ::
    "(nvs_call \<Rightarrow> bool) \<Rightarrow> bool \<Rightarrow> u64 \<Rightarrow> 'a pin_lock_state_scheme \<Rightarrow> bool \<times> 'a pin_lock_state_scheme" where
  "pin_lock_record_result nvs_result correct now s =
     pin_lock_store nvs_result (next_lock_record correct now (pin_lock s)) s"

section \<open>Calendar\<close>

definition days_of_year :: "nat \<Rightarrow> nat" where
  "days_of_year y = (if leap_year y then 366 else 365)"

definition valid_datetime :: "nat \<times> nat \<times> nat \<times> nat \<times> nat \<times> nat \<Rightarrow> bool" where
  "valid_datetime = (\<lambda>(year, month, day, hour, minute, sec).
     2020 \<le> year \<and> year \<le> 2099 \<and> 1 \<le> month \<and> month \<le> 12 \<and> 1 \<le> day \<and>
     day \<le> days_of_month year month \<and> hour \<le> 23 \<and> minute \<le> 59 \<and> sec \<le> 59)"

lemma bcd_read_le: "bcd_read b m = Some v \<Longrightarrow> v \<le> m"
  by (auto simp: bcd_read_def Let_def split: if_splits)

lemma rtc_hour_le: "rtc_hour r = Some h \<Longrightarrow> h \<le> 23"
proof -
  assume h: "rtc_hour r = Some h"
  have "hour mod 12 < 12" for hour :: nat by simp
  then show ?thesis
    using h by (auto simp: rtc_hour_def dest: bcd_read_le split: if_splits option.splits)
qed

lemma rtc_decode_valid: "rtc_decode raw = Some f \<Longrightarrow> valid_datetime f"
  by (auto simp: rtc_decode_def valid_datetime_def bind_eq_Some_conv Let_def
      dest: bcd_read_le rtc_hour_le split: if_splits)

lemma sum_upt_mono:
  fixes f :: "nat \<Rightarrow> nat"
  assumes "a \<le> m" "m < n"
  shows "(\<Sum>k\<leftarrow>[a..<m]. f k) + f m \<le> (\<Sum>k\<leftarrow>[a..<n]. f k)"
proof -
  have "[a..<n] = [a..<m] @ m # [Suc m..<n]"
    using assms by (metis le_add_diff_inverse less_imp_le_nat upt_add_eq_append upt_conv_Cons)
  then show ?thesis by simp
qed

lemma year_of_months: "(\<Sum>m\<leftarrow>[1..<13]. days_of_month year m) = days_of_year year"
  by (simp add: upt_rec days_of_month_def days_in_month_def days_of_year_def)

lemma day_in_year:
  assumes "1 \<le> month" "month \<le> 12" "1 \<le> day" "day \<le> days_of_month year month"
  shows "(\<Sum>m\<leftarrow>[1..<month]. days_of_month year m) + (day - 1) < days_of_year year"
  using sum_upt_mono [of 1 month 13 "days_of_month year"] assms year_of_months [of year] by simp

lemma rtc_days_less:
  assumes "1 \<le> month" "month \<le> 12" "1 \<le> day" "day \<le> days_of_month year month"
    and "1 \<le> month'" "1 \<le> day'" "2000 \<le> year" "(year, month, day) < (year', month', day')"
  shows "rtc_days year month day < rtc_days year' month' day'"
proof -
  consider "year < year'" | "year = year'" "month < month'" | "year = year'" "month = month'" "day < day'"
    using assms(8) by (auto simp: less_prod_def le_eq_less_or_eq)
  then show ?thesis
  proof cases
    case 1
    have "(\<Sum>y\<leftarrow>[2000..<year]. days_of_year y) + days_of_year year \<le> (\<Sum>y\<leftarrow>[2000..<year']. days_of_year y)"
      by (rule sum_upt_mono) (use 1 assms in auto)
    then show ?thesis
      using day_in_year [OF assms(1-4)] unfolding rtc_days_def days_of_year_def [symmetric] by linarith
  next
    case 2
    have "(\<Sum>m\<leftarrow>[1..<month]. days_of_month year m) + days_of_month year month
        \<le> (\<Sum>m\<leftarrow>[1..<month']. days_of_month year m)"
      by (rule sum_upt_mono) (use 2 assms in auto)
    then show ?thesis
      using assms 2 unfolding rtc_days_def by simp
  next
    case 3
    then show ?thesis using assms by (simp add: rtc_days_def)
  qed
qed

lemma rtc_total_less:
  assumes "valid_datetime f" "valid_datetime g" "f < g"
  shows "rtc_total f < rtc_total g"
proof -
  obtain y mo d h mi sc where f: "f = (y, mo, d, h, mi, sc)" by (metis prod_cases6)
  obtain y' mo' d' h' mi' sc' where g: "g = (y', mo', d', h', mi', sc')" by (metis prod_cases6)
  have "(y, mo, d) < (y', mo', d') \<or>
      (y, mo, d) = (y', mo', d') \<and> (h < h' \<or> h = h' \<and> (mi < mi' \<or> mi = mi' \<and> sc < sc'))"
    using assms(3) unfolding f g by (auto simp: less_prod_def le_eq_less_or_eq)
  then show ?thesis
  proof
    assume "(y, mo, d) < (y', mo', d')"
    then have "rtc_days y mo d < rtc_days y' mo' d'"
      using assms unfolding f g valid_datetime_def by (intro rtc_days_less) auto
    then show ?thesis using assms unfolding f g valid_datetime_def rtc_total_def by simp
  next
    assume "(y, mo, d) = (y', mo', d') \<and> (h < h' \<or> h = h' \<and> (mi < mi' \<or> mi = mi' \<and> sc < sc'))"
    then show ?thesis using assms unfolding f g valid_datetime_def rtc_total_def by auto
  qed
qed

lemma rtc_total_less_iff:
  assumes "valid_datetime f" "valid_datetime g"
  shows "rtc_total f < rtc_total g \<longleftrightarrow> f < g"
  using rtc_total_less [OF assms] rtc_total_less [OF assms(2,1)] less_asym
  by (cases f g rule: linorder_cases) auto

lemma rtc_total_bound:
  assumes "valid_datetime f"
  shows "rtc_total f < 2 ^ 32"
proof -
  have v: "valid_datetime (2099, 12, 31, 23, 59, 59)"
    by (simp add: valid_datetime_def days_of_month_def days_in_month_def)
  have "rtc_days 2099 12 31 < 36600"
    by (simp add: rtc_days_def upt_rec days_of_month_def days_in_month_def leap_year_def)
  then have "rtc_total (2099, 12, 31, 23, 59, 59) < 2 ^ 32"
    by (simp add: rtc_total_def)
  moreover have "\<not> (2099, 12, 31, 23, 59, 59) < f"
  proof -
    obtain y mo d h mi sc where f: "f = (y, mo, d, h, mi, sc)" by (metis prod_cases6)
    have "d \<le> 31" if "mo = 12" using assms that
      unfolding f by (simp add: valid_datetime_def days_of_month_def days_in_month_def)
    then show ?thesis using assms unfolding f by (auto simp: less_prod_def valid_datetime_def)
  qed
  ultimately show ?thesis
    using rtc_total_less_iff [OF v assms] by linarith
qed

lemma rtc_seconds_Some:
  assumes "rtc_seconds p = Some t"
  obtains f where "rtc_decode (the (rtc_raw p)) = Some f" "valid_datetime f"
    "unat t = rtc_total f" "unat t < 2 ^ 32"
proof -
  obtain f where f: "rtc_decode (the (rtc_raw p)) = Some f" "t = word_of_nat (rtc_total f)"
    using assms by (auto simp: rtc_seconds_def split: if_splits option.splits)
  then have v: "valid_datetime f" by (blast intro: rtc_decode_valid)
  then have b: "rtc_total f < 2 ^ 32" by (rule rtc_total_bound)
  then have "unat t = rtc_total f" unfolding f(2) by (simp add: unat_of_nat)
  then show thesis using that f v b by simp
qed

text \<open>
  The clock reading orders instants as the calendar does: of two readings that are accepted
  (oscillator running, registers valid BCD, an existing date from 2020 on), the first is smaller
  exactly when its date and time come first. The rollback check of the lock rests on this.
\<close>

theorem rtc_seconds_orders_dates:
  assumes "rtc_seconds p = Some t" "rtc_seconds q = Some u"
  shows "t < u \<longleftrightarrow> the (rtc_decode (the (rtc_raw p))) < the (rtc_decode (the (rtc_raw q)))"
proof -
  obtain f where f: "rtc_decode (the (rtc_raw p)) = Some f" "valid_datetime f" "unat t = rtc_total f"
    using assms(1) by (rule rtc_seconds_Some)
  obtain g where g: "rtc_decode (the (rtc_raw q)) = Some g" "valid_datetime g" "unat u = rtc_total g"
    using assms(2) by (rule rtc_seconds_Some)
  show ?thesis
    using f g rtc_total_less_iff [OF f(2) g(2)] by (simp add: word_less_nat_alt)
qed

definition leap_day_evening :: rtc_port where
  "leap_day_evening = \<lparr>rtc_handle = True, rtc_status = Some 8,
     rtc_raw = Some [0x30, 0x59, 0x23, 1, 0x29, 2, 0x24]\<rparr>"

definition march_midnight :: rtc_port where
  "march_midnight = \<lparr>rtc_handle = True, rtc_status = Some 8,
     rtc_raw = Some [0, 0, 0x52, 1, 1, 3, 0x24]\<rparr>"

lemmas rtc_eval = rtc_seconds_def rtc_decode_def rtc_total_def rtc_days_def rtc_hour_def bcd_read_def
  days_of_month_def days_in_month_def leap_year_def upt_rec

lemma leap_day_evening_seconds: "rtc_seconds leap_day_evening = Some 762566370"
  by (simp add: leap_day_evening_def rtc_eval)

lemma march_midnight_seconds: "rtc_seconds march_midnight = Some 762566400"
  by (simp add: march_midnight_def rtc_eval)

theorem rtc_seconds_orders_dates_witness:
  "(762566370 :: u64) < 762566400 \<longleftrightarrow>
     the (rtc_decode (the (rtc_raw leap_day_evening))) < the (rtc_decode (the (rtc_raw march_midnight)))"
  by (rule rtc_seconds_orders_dates [OF leap_day_evening_seconds march_midnight_seconds])

section \<open>Lock schedule\<close>

definition gate_open :: "u64 \<Rightarrow> pin_lock_record \<Rightarrow> bool" where
  "gate_open now r \<longleftrightarrow> last_seen r \<le> now \<and> locked_until r \<le> now"

lemma pin_lock_check_ready:
  "pin_lock_check port s = (PIN_GATE_READY, n, s') \<Longrightarrow>
     \<exists>now. n = Some now \<and> rtc_seconds port = Some now \<and> gate_open now (pin_lock s) \<and> s' = s
       \<and> pin_lock_storage_ok s \<and> pin_store_open s"
  by (auto simp: pin_lock_check_def gate_open_def Let_def split: if_splits option.splits)

lemma pin_lock_check_lock [simp]: "pin_lock (snd (snd (pin_lock_check port s))) = pin_lock s"
  by (auto simp: pin_lock_check_def Let_def split: option.splits)

text \<open>
  A history of checked PINs: each attempt, with its verdict and its clock reading, passed the
  gate of the record it found and left the record that \<open>pin_lock_record_result\<close> stores.
\<close>

inductive lock_history :: "pin_lock_record \<Rightarrow> (bool \<times> u64) list \<Rightarrow> pin_lock_record \<Rightarrow> bool" where
  start: "lock_history r [] r"
| attempt: "lock_history r0 h r \<Longrightarrow> rtc_seconds port = Some t \<Longrightarrow> gate_open t r \<Longrightarrow>
     lock_history r0 (h @ [(c, t)]) (next_lock_record c t r)"

inductive_simps lock_history_Nil: "lock_history r [] r'"
inductive_cases lock_history_snocE: "lock_history r (h @ [(c, t)]) r'"

text \<open>The seconds a caller must wait after \<open>n\<close> wrong attempts in a row, and their sum.\<close>

definition wait_after :: "nat \<Rightarrow> nat" where
  "wait_after n = (if n = 5 then 30 else if n = 6 then 120 else if n = 7 then 600
                   else if n \<ge> 8 then 3600 else 0)"

definition total_wait :: "nat \<Rightarrow> nat" where
  "total_wait n = (\<Sum>k\<leftarrow>[0..<n]. wait_after k)"

lemma total_wait_Suc: "total_wait (Suc n) = total_wait n + wait_after n"
  by (simp add: total_wait_def)

lemma total_wait_ge_8: "total_wait (8 + n) = 750 + 3600 * n"
proof (induction n)
  case 0 show ?case by (simp add: total_wait_def upt_rec wait_after_def)
next
  case (Suc n)
  have "total_wait (8 + Suc n) = total_wait (8 + n) + wait_after (8 + n)"
    by (simp only: add_Suc_right total_wait_Suc)
  then show ?case using Suc by (simp add: wait_after_def)
qed

lemma unat_lock_delay: "unat (lock_delay f) = wait_after (unat f)"
proof -
  have "f = 5 \<longleftrightarrow> unat f = 5" "f = 6 \<longleftrightarrow> unat f = 6" "f = 7 \<longleftrightarrow> unat f = 7"
    by (auto simp: word_unat_eq_iff)
  moreover have "8 \<le> f \<longleftrightarrow> 8 \<le> unat f" by (simp add: word_le_nat_alt)
  ultimately show ?thesis by (auto simp: lock_delay_def wait_after_def)
qed

lemma lock_delay_0_iff: "lock_delay f = 0 \<longleftrightarrow> wait_after (unat f) = 0"
  by (simp add: unat_lock_delay [symmetric] unat_eq_zero)

lemma wait_after_le: "wait_after n \<le> 3600"
  by (simp add: wait_after_def)

text \<open>The record a wrong attempt leaves, read as numbers.\<close>

lemma unat_max_u32: "unat (- 1 :: u32) = 2 ^ 32 - 1"
  by (simp add: unsigned_minus_1_eq_mask mask_eq_exp_minus_1)

lemma next_failures:
  "unat (failures (next_lock_record False t r)) = min (Suc (unat (failures r))) (2 ^ 32 - 1)"
proof (cases "failures r < - 1")
  case True
  then have lt: "unat (failures r) < 2 ^ 32 - 1"
    unfolding word_less_nat_alt unat_max_u32 .
  then have "unat (failures r + 1) = Suc (unat (failures r))"
    by (simp add: unat_word_ariths)
  then show ?thesis using True lt by (simp add: next_lock_record_def Let_def)
next
  case False
  then have "failures r = - 1" by (metis antisym not_less word_n1_ge)
  then show ?thesis by (simp add: next_lock_record_def Let_def unat_max_u32)
qed

lemma next_locked_until:
  assumes "unat t < 2 ^ 32"
  shows "unat (locked_until (next_lock_record False t r)) =
    (let w = wait_after (unat (failures (next_lock_record False t r)))
     in if w = 0 then 0 else unat t + w)"
proof -
  define f where "f = failures (next_lock_record False t r)"
  have u: "locked_until (next_lock_record False t r) = (if lock_delay f \<noteq> 0 then t + lock_delay f else 0)"
    by (simp add: f_def next_lock_record_def Let_def)
  have "unat t + unat (lock_delay f) < 2 ^ LENGTH(64)"
    using assms wait_after_le [of "unat f"] by (simp add: unat_lock_delay)
  then have "unat (t + lock_delay f) = unat t + wait_after (unat f)"
    by (simp add: unat_word_ariths unat_lock_delay)
  then show ?thesis unfolding u Let_def f_def [symmetric] by (simp add: lock_delay_0_iff)
qed

lemma wait_after_saturates: "wait_after (min n (2 ^ 32 - 1)) = wait_after n"
  by (auto simp: wait_after_def min_def)

lemma wrong_history:
  assumes "lock_history r0 h r" "failures r0 = 0" "\<forall>a\<in>set h. \<not> fst a" "h \<noteq> []"
  shows "unat (failures r) = min (length h) (2 ^ 32 - 1) \<and> last_seen r = snd (last h) \<and>
    unat (locked_until r) = (if wait_after (length h) = 0 then 0 else unat (snd (last h)) + wait_after (length h)) \<and>
    unat (snd (hd h)) + total_wait (length h) \<le> unat (snd (last h))"
  using assms
proof (induction rule: lock_history.induct)
  case (start r)
  then show ?case by simp
next
  case (attempt r0 h r port t c)
  have t32: "unat t < 2 ^ 32" using attempt.hyps(2) by (rule rtc_seconds_Some)
  have c: "\<not> c" using attempt.prems by simp
  define r' where "r' = next_lock_record c t r"
  have n: "unat (failures r) = min (length h) (2 ^ 32 - 1)"
  proof (cases "h = []")
    case True
    with attempt.hyps(1) attempt.prems show ?thesis by (simp add: lock_history_Nil)
  next
    case False
    with attempt show ?thesis by simp
  qed
  then have f: "unat (failures r') = min (Suc (length h)) (2 ^ 32 - 1)"
    unfolding r'_def using c next_failures [of t r] by (auto simp: min_def)
  moreover have "last_seen r' = t" by (simp add: r'_def next_lock_record_def Let_def)
  moreover have "unat (locked_until r') =
      (if wait_after (Suc (length h)) = 0 then 0 else unat t + wait_after (Suc (length h)))"
    using next_locked_until [OF t32, of r] c f wait_after_saturates [of "Suc (length h)"]
    unfolding r'_def by (simp add: Let_def)
  moreover have "unat (snd (hd (h @ [(c, t)]))) + total_wait (Suc (length h)) \<le> unat t"
  proof (cases "h = []")
    case True
    then show ?thesis by (simp add: total_wait_Suc total_wait_def wait_after_def)
  next
    case False
    with attempt have IH: "last_seen r = snd (last h)"
      "unat (locked_until r) = (if wait_after (length h) = 0 then 0 else unat (snd (last h)) + wait_after (length h))"
      "unat (snd (hd h)) + total_wait (length h) \<le> unat (snd (last h))"
      by auto
    have "unat (last_seen r) \<le> unat t" "unat (locked_until r) \<le> unat t"
      using attempt.hyps(3) by (simp_all add: gate_open_def word_le_nat_alt)
    then show ?thesis using IH False by (auto simp: total_wait_Suc split: if_splits)
  qed
  ultimately show ?case by (simp add: r'_def)
qed

text \<open>
  C6. Guessing is slow: whoever enters \<open>8 + n\<close> wrong PINs in a row, each accepted by the gate and
  recorded, has waited at least 750 seconds plus one hour for each of the \<open>n\<close> further attempts,
  by the device's clock, between the first and the last of them. Neither restarts nor the
  saturating failure counter shorten this.
\<close>

theorem wrong_pins_cost_time:
  assumes "lock_history r0 h r" "failures r0 = 0" "\<forall>a\<in>set h. \<not> fst a" "length h = 8 + n"
  shows "unat (snd (hd h)) + 750 + 3600 * n \<le> unat (snd (last h))"
proof -
  have "h \<noteq> []" using assms(4) by auto
  then show ?thesis
    using wrong_history [OF assms(1-3)] total_wait_ge_8 [of n] assms(4) by simp
qed

definition march_at :: "u8 \<Rightarrow> rtc_port" where
  "march_at minutes = \<lparr>rtc_handle = True, rtc_status = Some 8,
     rtc_raw = Some [0, minutes, 0x52, 1, 1, 3, 0x24]\<rparr>"

lemma march_at_seconds:
  "rtc_seconds (march_at 2) = Some 762566520" "rtc_seconds (march_at 0x12) = Some 762567120"
  by (simp_all add: march_at_def rtc_eval)

definition fresh_lock :: pin_lock_record where
  "fresh_lock = \<lparr>version = 1, failures = 0, locked_until = 0, last_seen = 0\<rparr>"

definition eight_times :: "u64 list" where
  "eight_times = [762566370, 762566370, 762566370, 762566370, 762566370, 762566400, 762566520, 762567120]"

fun wrong_run :: "u64 list \<Rightarrow> pin_lock_record \<Rightarrow> pin_lock_record" where
  "wrong_run [] r = r"
| "wrong_run (t # ts) r = wrong_run ts (next_lock_record False t r)"

fun gates_open :: "u64 list \<Rightarrow> pin_lock_record \<Rightarrow> bool" where
  "gates_open [] r = True"
| "gates_open (t # ts) r = (gate_open t r \<and> gates_open ts (next_lock_record False t r))"

lemma lock_history_run:
  assumes "list_all (\<lambda>t. \<exists>p. rtc_seconds p = Some t) ts" "gates_open ts r" "lock_history r0 h r"
  shows "lock_history r0 (h @ map (Pair False) ts) (wrong_run ts r)"
  using assms
proof (induction ts arbitrary: h r)
  case (Cons t ts)
  then have "lock_history r0 (h @ [(False, t)]) (next_lock_record False t r)"
    by (auto intro: lock_history.attempt)
  with Cons.prems have "lock_history r0 ((h @ [(False, t)]) @ map (Pair False) ts)
      (wrong_run ts (next_lock_record False t r))"
    by (intro Cons.IH) simp_all
  then show ?case by simp
qed simp

lemma eight_times_readable: "list_all (\<lambda>t. \<exists>p. rtc_seconds p = Some t) eight_times"
proof -
  have "\<exists>p. rtc_seconds p = Some 762566370" "\<exists>p. rtc_seconds p = Some 762566400"
    "\<exists>p. rtc_seconds p = Some 762566520" "\<exists>p. rtc_seconds p = Some 762567120"
    by (rule exI, rule leap_day_evening_seconds, rule exI, rule march_midnight_seconds,
        rule exI, rule march_at_seconds(1), rule exI, rule march_at_seconds(2))
  then show ?thesis unfolding eight_times_def by (simp only: list.pred_inject simp_thms)
qed

lemma next_lock_record_wrong:
  "f < 4294967295 \<Longrightarrow> next_lock_record False t \<lparr>version = v, failures = f, locked_until = u, last_seen = l\<rparr> =
     \<lparr>version = 1, failures = f + 1,
      locked_until = (if lock_delay (f + 1) \<noteq> 0 then t + lock_delay (f + 1) else 0), last_seen = t\<rparr>"
proof -
  assume "f < 4294967295"
  moreover have "(- 1 :: u32) = 4294967295" by simp
  ultimately have "f < - 1" by (simp only:)
  then show ?thesis by (simp add: next_lock_record_def Let_def)
qed

lemma eight_wrong_pins: "lock_history fresh_lock (map (Pair False) eight_times) (wrong_run eight_times fresh_lock)"
proof -
  have "gates_open eight_times fresh_lock"
    by (simp add: eight_times_def fresh_lock_def gate_open_def next_lock_record_wrong lock_delay_def word_le_nat_alt)
  from lock_history_run [OF eight_times_readable this lock_history.start] show ?thesis by simp
qed

theorem wrong_pins_cost_time_witness:
  "unat (762566370 :: u64) + 750 + 3600 * 0 \<le> unat (762567120 :: u64)"
proof -
  have "unat (snd (hd (map (Pair False) eight_times))) + 750 + 3600 * 0
      \<le> unat (snd (last (map (Pair False) eight_times)))"
    by (rule wrong_pins_cost_time [OF eight_wrong_pins]) (simp_all add: fresh_lock_def eight_times_def)
  then show ?thesis by (simp add: eight_times_def)
qed

end
