(* ===== verification/Wallet_UI.thy ===== *)
theory Wallet_UI
  imports Wallet_Lock
begin

text \<open>
  The wallet's display and keypad task (\<open>wallet_ui.c\<close>): PIN entry, PIN setup and change, device
  reset, the settings menu and the local authorization that \<open>button.c\<close> consumes.
  \<open>wallet\<close> holds the file's static variables on top of those of the retry lock; \<open>wallet_env\<close>
  holds what one call reads from the outside (the tick counter, GPIO levels, the clock chip, the
  outcome of NVS calls, the random source, bcrypt).
  Drawing writes only the frame buffer and the I2C bus, so \<open>render\<close> has no counterpart here.
  \<open>const char *\<close> labels that the code compares by address are pairs of an address and a text;
  the literals of \<open>wallet_ui.c\<close> itself have address 0.
\<close>

section \<open>State\<close>

datatype pin_mode = PIN_IDLE | PIN_CREATE | PIN_RETYPE | PIN_VERIFY
  | PIN_CHANGE_CURRENT | PIN_CHANGE_NEW | PIN_CHANGE_RETYPE
  | PIN_RESET_CHALLENGE | PIN_RESET_VERIFY

type_synonym label = "nat \<times> string"

abbreviation lit :: "string \<Rightarrow> label" where "lit t \<equiv> (0, t)"

record wallet = pin_lock_state +
  pin_lock_checked_at :: u32
  pin_lock_back_previous :: bool
  pin_gate_now :: pin_gate
  ui_command :: label
  removal_latched_until :: u32
  shown_command :: label
  ui_status :: string
  waiting :: bool
  result_visible :: bool
  settings_open :: bool
  settings_detail_open :: bool
  settings_change_confirm :: bool
  settings_reset_confirm :: bool
  reset_yes_armed :: bool
  reset_success_visible :: bool
  reset_success_until :: u32
  settings_change_success :: bool
  settings_change_success_until :: u32
  settings_selection :: nat
  device_info_page :: nat
  device_info_id :: u32
  history_open :: bool
  result_until :: u32
  previous_buttons :: int
  last_poll :: u32
  pin_mode :: pin_mode
  local_auth_result :: int
  pin_entry :: bytes
  pin_first :: bytes
  pin_hash :: bytes
  pin_length :: nat
  selected_key :: nat
  pin_notice :: "string option"
  pin_back_started :: u32
  pin_back_down :: bool
  pin_back_cancelled :: bool
  suppress_settings_back_release :: bool
  pin_previous_buttons :: int
  pin_setup_at_boot :: bool
  reset_challenge :: bytes
  restarted :: bool

record wallet_env =
  tick :: u32
  tick_later :: u32
  level :: "nat \<Rightarrow> bool"
  level_again :: "nat \<Rightarrow> bool"
  rtc_refresh :: rtc_port
  rtc_submit :: rtc_port
  rtc_after :: rtc_port
  nvs_result :: "nvs_call \<Rightarrow> bool"
  crypt_rn :: "bytes \<Rightarrow> bytes \<Rightarrow> bytes option"
  gensalt_rn :: "bytes \<Rightarrow> bytes option"
  random16 :: bytes
  random32 :: u32

text \<open>The static initial values (\<open>rtc\<close> and \<open>pin_nvs\<close> live in the environment).\<close>

definition wallet_static :: wallet where
  "wallet_static = \<lparr>pin_lock = \<lparr>version = 0, failures = 0, locked_until = 0, last_seen = 0\<rparr>,
     pin_lock_storage_ok = True, pin_store_open = False, pin_lock_message = (0, 0), nvs_log = [],
     pin_lock_checked_at = 0, pin_lock_back_previous = False, pin_gate_now = PIN_GATE_READY,
     ui_command = lit ''READY'', removal_latched_until = 0, shown_command = lit ''READY'',
     ui_status = ''READY'', waiting = False, result_visible = False, settings_open = False,
     settings_detail_open = False, settings_change_confirm = False, settings_reset_confirm = False,
     reset_yes_armed = False, reset_success_visible = False, reset_success_until = 0,
     settings_change_success = False, settings_change_success_until = 0, settings_selection = 0,
     device_info_page = 0, device_info_id = 0, history_open = False, result_until = 0,
     previous_buttons = - 1, last_poll = 0, pin_mode = PIN_IDLE, local_auth_result = 0,
     pin_entry = replicate 7 0, pin_first = replicate 7 0, pin_hash = replicate 61 0,
     pin_length = 0, selected_key = 0, pin_notice = None, pin_back_started = 0,
     pin_back_down = False, pin_back_cancelled = False, suppress_settings_back_release = False,
     pin_previous_buttons = - 1, pin_setup_at_boot = False, reset_challenge = replicate 5 0,
     restarted = False\<rparr>"

text \<open>\<open>pdMS_TO_TICKS\<close> at the configured tick rate of 100 Hz, and the signed comparison
  \<open>(int32_t)(a - b) >= 0\<close> of two tick counts.\<close>

definition pdMS_TO_TICKS :: "nat \<Rightarrow> u32" where
  "pdMS_TO_TICKS ms = word_of_nat (ms * 100 div 1000)"

definition tick_reached :: "u32 \<Rightarrow> u32 \<Rightarrow> bool" where
  "tick_reached now until \<longleftrightarrow> \<not> bit (now - until) 31"

definition pin_keys :: bytes where
  "pin_keys = map (\<lambda>c. of_char c) ''123456789 0 '' @ [0]"

section \<open>Boot\<close>

text \<open>
  \<open>wallet_ui_reset_on_boot\<close>: \<open>boot_env\<close> gives what NVS and the partition table return.
  ESP_ERROR_CHECK aborts, which restarts the device; the wipe then runs again because
  \<open>wipe-pending\<close> is only removed by erasing NVS itself. The result lists the actions in order.
\<close>

datatype boot_action = ErasePart0 | EraseNvs | ReinitNvs | OpenNvs | SetResetDone | CommitResetDone | Restart | Abort

record boot_env =
  boot_nvs_init :: bool
  boot_nvs_open_ro :: bool
  boot_wipe_pending :: "u8 option"
  boot_part0 :: bool
  boot_ok :: "boot_action \<Rightarrow> bool"

fun checked_actions :: "(boot_action \<Rightarrow> bool) \<Rightarrow> boot_action list \<Rightarrow> boot_action list" where
  "checked_actions ok [] = [Restart]"
| "checked_actions ok (a # as) = a # (if ok a then checked_actions ok as else [Abort])"

definition wallet_ui_reset_on_boot :: "boot_env \<Rightarrow> boot_action list" where
  "wallet_ui_reset_on_boot b =
    (if \<not> boot_nvs_init b then []
     else if \<not> boot_nvs_open_ro b then []
     else if boot_wipe_pending b \<noteq> Some 1 then []
     else if \<not> boot_part0 b then [Abort]
     else checked_actions (boot_ok b) [ErasePart0, EraseNvs, ReinitNvs, OpenNvs, SetResetDone, CommitResetDone])"

text \<open>
  \<open>wallet_ui_init\<close>: \<open>init_env\<close> gives the outcome of each driver call. \<open>init_hash\<close> is the buffer and
  the size \<open>nvs_get_str\<close> returns, \<open>init_lock\<close> the outcome of \<open>nvs_get_blob\<close> with the record and its
  size, \<open>init_device_id\<close> the stored id.
\<close>

datatype lock_read = LockNotFound | LockError pin_lock_record | LockRead pin_lock_record nat

record init_env =
  i2c_bus_ok :: bool
  oled_added :: bool
  oled_init_ok :: bool
  init_nvs_ok :: bool
  init_nvs_open :: bool
  init_reset_done :: "u8 option"
  init_hash :: "(bytes \<times> nat) option"
  init_lock :: lock_read
  init_device_id :: "u32 option"
  init_random :: u32
  init_device_id_stored :: bool
  init_tick :: u32

abbreviation (input) sizeof_pin_hash :: nat where "sizeof_pin_hash \<equiv> 61"

abbreviation (input) sizeof_pin_lock :: nat where "sizeof_pin_lock \<equiv> 24"

definition init_pin_store :: "init_env \<Rightarrow> wallet \<Rightarrow> wallet" where
  "init_pin_store e s =
    (if \<not> (init_nvs_ok e \<and> init_nvs_open e) then s
     else
       let s = s\<lparr>pin_store_open := True\<rparr>;
           s = (if init_reset_done e = Some 1 then
                  s\<lparr>reset_success_visible := True, reset_success_until := init_tick e + pdMS_TO_TICKS 3000\<rparr>
                else s);
           s = (case init_hash e of
                  Some (h, sz) \<Rightarrow> if sz \<noteq> sizeof_pin_hash then s\<lparr>pin_hash := h[0 := 0]\<rparr> else s\<lparr>pin_hash := h\<rparr>
                | None \<Rightarrow> s\<lparr>pin_hash := (pin_hash s)[0 := 0]\<rparr>);
           s = (case init_lock e of
                  LockNotFound \<Rightarrow> s\<lparr>pin_lock := (pin_lock s)\<lparr>version := 1\<rparr>\<rparr>
                | LockError r \<Rightarrow> s\<lparr>pin_lock := r, pin_lock_storage_ok := False\<rparr>
                | LockRead r sz \<Rightarrow>
                    (if sz \<noteq> sizeof_pin_lock \<or> version r \<noteq> 1
                     then s\<lparr>pin_lock := r, pin_lock_storage_ok := False\<rparr> else s\<lparr>pin_lock := r\<rparr>))
       in case init_device_id e of
            Some i \<Rightarrow> if i \<noteq> 0 then s\<lparr>device_info_id := i\<rparr>
              else s\<lparr>device_info_id := (if \<not> init_device_id_stored e then 0
                                       else if init_random e = 0 then 1 else init_random e)\<rparr>
          | None \<Rightarrow> s\<lparr>device_info_id := (if \<not> init_device_id_stored e then 0
                                       else if init_random e = 0 then 1 else init_random e)\<rparr>)"

definition wallet_ui_init :: "init_env \<Rightarrow> wallet \<Rightarrow> wallet" where
  "wallet_ui_init e s =
    (if \<not> i2c_bus_ok e then s
     else if \<not> oled_added e then s
     else if \<not> oled_init_ok e then s
     else let s = init_pin_store e s in
       if pin_hash s ! 0 = 0 then
         s\<lparr>pin_mode := PIN_CREATE, pin_setup_at_boot := True, pin_length := 0, selected_key := 0,
           pin_previous_buttons := - 1\<rparr>
       else s)"

section \<open>PIN entry\<close>

definition pin_title :: "wallet \<Rightarrow> string" where
  "pin_title s =
    (case pin_notice s of Some n \<Rightarrow> n
     | None \<Rightarrow>
       if pin_mode s = PIN_RESET_CHALLENGE then
         ''TYPE '' @ map (\<lambda>b. char_of (unat b)) (takeWhile (\<lambda>b. b \<noteq> 0) (reset_challenge s))
       else if pin_mode s = PIN_RESET_VERIFY then ''RESET PIN''
       else if pin_mode s = PIN_CREATE then ''CREATE PIN''
       else if pin_mode s = PIN_RETYPE then ''RETYPE PIN''
       else if pin_mode s = PIN_CHANGE_CURRENT then ''CURRENT PIN''
       else if pin_mode s = PIN_CHANGE_NEW then ''NEW PIN''
       else if pin_mode s = PIN_CHANGE_RETYPE then ''RETYPE NEW PIN''
       else if snd (shown_command s) = ''REGISTER'' then ''REGISTER PIN''
       else if snd (shown_command s) = ''REMOVAL'' then ''REMOVE DEVICE''
       else ''AUTH PIN'')"

definition pin_requires_verification :: "wallet \<Rightarrow> bool" where
  "pin_requires_verification s \<longleftrightarrow>
     pin_mode s = PIN_VERIFY \<or> pin_mode s = PIN_CHANGE_CURRENT \<or> pin_mode s = PIN_RESET_VERIFY"

definition wallet_ui_prompt :: "wallet \<Rightarrow> wallet" where
  "wallet_ui_prompt s =
     (let s = s\<lparr>settings_open := False, settings_detail_open := False, settings_change_confirm := False,
                settings_reset_confirm := False, settings_change_success := False, history_open := False,
                waiting := True, result_visible := False\<rparr>;
          s = s\<lparr>shown_command := ui_command s, ui_status := ''CONFIRM'', local_auth_result := 0\<rparr>;
          s = s\<lparr>pin_entry := replicate 7 0, pin_first := replicate 7 0, pin_length := 0,
                selected_key := 0, pin_notice := None\<rparr>
      in s\<lparr>pin_mode := (if pin_hash s ! 0 \<noteq> 0 then PIN_VERIFY else PIN_CREATE),
           pin_lock_checked_at := 0, pin_lock_back_previous := False, pin_back_down := False,
           pin_back_cancelled := False, pin_previous_buttons := - 1, previous_buttons := - 1\<rparr>)"

definition pin_clear :: "wallet \<Rightarrow> wallet" where
  "pin_clear s = s\<lparr>pin_entry := replicate 7 0, pin_length := 0\<rparr>"

definition pin_first_clear :: "wallet \<Rightarrow> wallet" where
  "pin_first_clear s = s\<lparr>pin_first := replicate 7 0\<rparr>"

text \<open>A C string is the part of its buffer before the first zero byte.\<close>

definition cstr :: "bytes \<Rightarrow> bytes" where
  "cstr b = takeWhile (\<lambda>x. x \<noteq> 0) b"

definition pin_calculate :: "wallet_env \<Rightarrow> bytes \<Rightarrow> bytes \<Rightarrow> bytes option" where
  "pin_calculate e pin setting = crypt_rn e (cstr pin) (cstr setting)"

definition pin_hash_matches :: "bytes \<Rightarrow> bytes \<Rightarrow> bool" where
  "pin_hash_matches candidate stored \<longleftrightarrow>
     fold (\<lambda>i d. d OR (candidate ! i XOR stored ! i)) [0..<60] 0 = 0"

definition pin_store_new :: "wallet_env \<Rightarrow> bytes \<Rightarrow> wallet \<Rightarrow> bool \<times> wallet" where
  "pin_store_new e new_pin s =
    (case gensalt_rn e (random16 e) of None \<Rightarrow> (False, s)
     | Some salt \<Rightarrow>
       (case pin_calculate e new_pin salt of None \<Rightarrow> (False, s)
        | Some generated \<Rightarrow>
          if \<not> pin_store_open s then (False, s)
          else let s = nvs_do (WriteHash (cstr generated)) (nvs_result e SetHash) s in
            if \<not> nvs_result e SetHash then (False, s)
            else let s = nvs_do Commit (nvs_result e CommitHash) s in
              if \<not> nvs_result e CommitHash then (False, s)
              else (True, s\<lparr>pin_hash := generated\<rparr>)))"

text \<open>\<open>"%04lu"\<close> of a number below 10000, with its terminating zero.\<close>

definition decimal4 :: "nat \<Rightarrow> bytes" where
  "decimal4 n = map (\<lambda>d. 48 + word_of_nat (n div d mod 10)) [1000, 100, 10, 1] @ [0]"

definition reset_challenge_start :: "wallet_env \<Rightarrow> wallet \<Rightarrow> wallet" where
  "reset_challenge_start e s =
     (let s = pin_clear (s\<lparr>reset_challenge := decimal4 (unat (random32 e) mod 10000)\<rparr>)
      in s\<lparr>selected_key := 0, pin_notice := None, pin_back_down := False, pin_back_cancelled := False,
           pin_previous_buttons := - 1, pin_mode := PIN_RESET_CHALLENGE\<rparr>)"

definition reset_schedule_wipe :: "wallet_env \<Rightarrow> wallet \<Rightarrow> bool \<times> wallet" where
  "reset_schedule_wipe e s =
    (if \<not> pin_store_open s then (False, s)
     else let s = nvs_do (WriteWipe 1) (nvs_result e SetWipe) s in
       if \<not> nvs_result e SetWipe then (False, s)
       else (nvs_result e CommitWipe, nvs_do Commit (nvs_result e CommitWipe) s))"

section \<open>Submitting a PIN\<close>

definition submit_challenge :: "wallet \<Rightarrow> wallet" where
  "submit_challenge s =
    (if pin_length s \<noteq> 4 then s
     else let matched = (take 4 (pin_entry s) = take 4 (reset_challenge s)); s = pin_clear s
       in if matched then s\<lparr>pin_mode := PIN_RESET_VERIFY, pin_notice := None, pin_lock_checked_at := 0\<rparr>
          else s)"

definition submit_retype :: "wallet_env \<Rightarrow> wallet \<Rightarrow> wallet" where
  "submit_retype e s =
    (if take 6 (pin_first s) \<noteq> take 6 (pin_entry s) then
       (pin_first_clear (pin_clear s))\<lparr>pin_mode := PIN_CREATE, pin_notice := Some ''MISMATCH'', selected_key := 0\<rparr>
     else let (ok, s) = pin_store_new e (pin_entry s) s; s = pin_clear (pin_first_clear s) in
       if \<not> ok then s\<lparr>pin_notice := Some ''FLASH ERROR''\<rparr>
       else let s = s\<lparr>pin_mode := PIN_IDLE\<rparr> in
         if pin_setup_at_boot s then
           s\<lparr>pin_setup_at_boot := False, waiting := False, shown_command := lit ''READY'',
             ui_status := ''READY'', ui_command := lit ''READY''\<rparr>
         else s\<lparr>local_auth_result := 1\<rparr>)"

definition submit_change_retype :: "wallet_env \<Rightarrow> wallet \<Rightarrow> wallet" where
  "submit_change_retype e s =
    (if take 6 (pin_first s) \<noteq> take 6 (pin_entry s) then
       (pin_first_clear (pin_clear s))\<lparr>pin_mode := PIN_CHANGE_NEW, pin_notice := Some ''MISMATCH''\<rparr>
     else let (ok, s) = pin_store_new e (pin_entry s) s; s = pin_first_clear (pin_clear s) in
       if \<not> ok then s\<lparr>pin_mode := PIN_CHANGE_NEW, pin_notice := Some ''FLASH ERROR''\<rparr>
       else s\<lparr>pin_mode := PIN_IDLE, pin_notice := None, settings_change_success := True,
              settings_change_success_until := tick_later e + pdMS_TO_TICKS 5000\<rparr>)"

text \<open>What follows a verified attempt, by the mode it was made in.\<close>

definition submit_outcome :: "wallet_env \<Rightarrow> bool \<Rightarrow> wallet \<Rightarrow> wallet" where
  "submit_outcome e ok s =
    (if pin_mode s = PIN_CHANGE_CURRENT then
       (if ok then s\<lparr>pin_mode := PIN_CHANGE_NEW, pin_notice := None, selected_key := 0\<rparr>
        else s\<lparr>pin_notice := Some ''WRONG PIN''\<rparr>)
     else if pin_mode s = PIN_RESET_VERIFY then
       (if \<not> ok then s\<lparr>pin_notice := Some ''WRONG PIN''\<rparr>
        else let (scheduled, s) = reset_schedule_wipe e s in
          if \<not> scheduled then s\<lparr>pin_notice := Some ''FLASH ERROR''\<rparr>
          else s\<lparr>pin_mode := PIN_IDLE, settings_open := False, shown_command := lit ''RESET DEVICE'',
                 ui_status := ''RESETTING'', restarted := True\<rparr>)
     else if ok then s\<lparr>pin_mode := PIN_IDLE, local_auth_result := 1, pin_notice := None\<rparr>
     else s\<lparr>pin_notice := Some ''WRONG PIN''\<rparr>)"

definition submit_verify :: "wallet_env \<Rightarrow> wallet \<Rightarrow> wallet" where
  "submit_verify e s =
    (let (gate, now, s) = pin_lock_check (rtc_submit e) s; s = s\<lparr>pin_gate_now := gate\<rparr> in
     if gate \<noteq> PIN_GATE_READY then pin_clear s
     else
       let candidate = pin_calculate e (pin_entry s) (pin_hash s);
           ok = (case candidate of None \<Rightarrow> False | Some c \<Rightarrow> pin_hash_matches c (pin_hash s));
           s = pin_clear s
       in if candidate = None then
            s\<lparr>pin_lock_storage_ok := False, pin_gate_now := PIN_GATE_FLASH_ERROR, pin_notice := Some ''HASH ERROR''\<rparr>
          else let (stored, s) = pin_lock_record_result (nvs_result e) ok (the now) s in
            if \<not> stored then s\<lparr>pin_gate_now := PIN_GATE_FLASH_ERROR, pin_notice := Some ''FLASH ERROR''\<rparr>
            else let (gate, _, s) = pin_lock_check (rtc_after e) s
              in submit_outcome e ok (s\<lparr>pin_gate_now := gate\<rparr>))"

definition pin_submit :: "wallet_env \<Rightarrow> wallet \<Rightarrow> wallet" where
  "pin_submit e s =
    (if pin_mode s = PIN_RESET_CHALLENGE then submit_challenge s
     else if pin_length s \<noteq> 6 then s
     else if pin_mode s = PIN_CREATE then
       (pin_clear (s\<lparr>pin_first := pin_entry s\<rparr>))\<lparr>pin_mode := PIN_RETYPE, pin_notice := None\<rparr>
     else if pin_mode s = PIN_RETYPE then submit_retype e s
     else if pin_mode s = PIN_CHANGE_NEW then
       (pin_clear (s\<lparr>pin_first := pin_entry s\<rparr>))\<lparr>pin_mode := PIN_CHANGE_RETYPE, pin_notice := None\<rparr>
     else if pin_mode s = PIN_CHANGE_RETYPE then submit_change_retype e s
     else submit_verify e s)"

section \<open>Calls from the other components\<close>

definition wallet_ui_take_local_authorization :: "wallet \<Rightarrow> int \<times> wallet" where
  "wallet_ui_take_local_authorization s =
     (local_auth_result s, if local_auth_result s \<noteq> 0 then s\<lparr>local_auth_result := 0\<rparr> else s)"

definition close_menus :: "wallet \<Rightarrow> wallet" where
  "close_menus s = s\<lparr>settings_open := False, settings_detail_open := False, settings_change_confirm := False,
     settings_reset_confirm := False, settings_change_success := False, history_open := False\<rparr>"

definition contains_text :: "string \<Rightarrow> string \<Rightarrow> bool" where
  "contains_text needle hay \<longleftrightarrow> (\<exists>i\<in>{0..length hay}. take (length needle) (drop i hay) = needle)"

definition wallet_ui_result :: "u32 \<Rightarrow> string \<Rightarrow> wallet \<Rightarrow> wallet" where
  "wallet_ui_result now message s =
     (let s = close_menus (s\<lparr>removal_latched_until := 0, waiting := False\<rparr>)
      in s\<lparr>pin_mode := PIN_IDLE, pin_back_down := False, result_visible := True,
           result_until := now + pdMS_TO_TICKS 5000,
           ui_status := (if contains_text ''CANCEL'' message then ''CANCELLED'' else message),
           previous_buttons := - 1\<rparr>)"

definition wallet_ui_command :: "u32 \<Rightarrow> label \<Rightarrow> wallet \<Rightarrow> wallet" where
  "wallet_ui_command now name s =
    (if snd name = ''REMOVAL'' then
       s\<lparr>removal_latched_until := now + pdMS_TO_TICKS 15000, ui_command := name\<rparr>
     else if snd name = ''AUTH'' then
       (let until = removal_latched_until s in
        if until \<noteq> 0 \<and> 0 <s until - now then s else s\<lparr>ui_command := name\<rparr>)
     else s\<lparr>ui_command := name\<rparr>)"

section \<open>The periodic task\<close>

text \<open>Each part returns whether it ended the call (a \<open>return\<close> of the source).\<close>

definition gate_back :: "wallet \<Rightarrow> wallet" where
  "gate_back s =
     (let s = (pin_clear s)\<lparr>pin_notice := None, pin_mode := PIN_IDLE\<rparr>;
          s = (if settings_open s then
                 s\<lparr>settings_detail_open := False, settings_change_confirm := False,
                   settings_reset_confirm := False, suppress_settings_back_release := True\<rparr>
               else s\<lparr>local_auth_result := - 1\<rparr>)
      in s\<lparr>previous_buttons := - 1\<rparr>)"

definition task_gate :: "wallet_env \<Rightarrow> wallet \<Rightarrow> bool \<times> wallet" where
  "task_gate e s =
    (if \<not> pin_requires_verification s then (False, s)
     else
       let refreshed = (pin_lock_checked_at s = 0 \<or> tick e - pin_lock_checked_at s \<ge> pdMS_TO_TICKS 1000);
           s = (if refreshed then
                  let previous_gate = pin_gate_now s; (gate, _, s) = pin_lock_check (rtc_refresh e) s;
                      s = s\<lparr>pin_gate_now := gate, pin_lock_checked_at := tick e\<rparr>
                  in if previous_gate \<noteq> PIN_GATE_READY \<and> gate = PIN_GATE_READY
                     then s\<lparr>pin_notice := None\<rparr> else s
                else s)
       in if pin_gate_now s \<noteq> PIN_GATE_READY then
            (let back = \<not> level e 5;
                 s = (if back \<and> \<not> pin_lock_back_previous s then gate_back s else s)
             in (True, s\<lparr>pin_lock_back_previous := back\<rparr>))
          else (False, s\<lparr>pin_lock_back_previous := False\<rparr>))"

definition pressed_bits :: "(nat \<Rightarrow> bool) \<Rightarrow> (nat \<times> int) list \<Rightarrow> int" where
  "pressed_bits down pins = fold (\<lambda>(pin, b) p. p OR (if down pin then b else 0)) pins 0"

definition next_key :: "int \<Rightarrow> nat \<Rightarrow> nat" where
  "next_key newly key =
     (let row = key div 3; col = key mod 3;
          row = (if newly AND 1 \<noteq> 0 then (row + 3) mod 4 else row);
          row = (if newly AND 4 \<noteq> 0 then (row + 1) mod 4 else row);
          col = (if newly AND 2 \<noteq> 0 then (col + 1) mod 3 else col);
          col = (if newly AND 8 \<noteq> 0 then (col + 2) mod 3 else col);
          candidate = row * 3 + col
      in if pin_keys ! candidate = 32 then 10 else candidate)"

definition key_press :: "wallet \<Rightarrow> wallet" where
  "key_press s =
    (let required_digits = (if pin_mode s = PIN_RESET_CHALLENGE then 4 else 6) in
     if pin_length s < required_digits \<and> pin_keys ! selected_key s \<noteq> 32 then
       s\<lparr>pin_entry := (pin_entry s)[pin_length s := pin_keys ! selected_key s, Suc (pin_length s) := 0],
         pin_length := Suc (pin_length s), pin_notice := None\<rparr>
     else s)"

definition back_hold :: "u32 \<Rightarrow> int \<Rightarrow> wallet \<Rightarrow> wallet" where
  "back_hold now p s =
    (if \<not> pin_setup_at_boot s \<and> pin_back_down s \<and> p AND 32 \<noteq> 0 \<and> \<not> pin_back_cancelled s \<and>
        now - pin_back_started s \<ge> pdMS_TO_TICKS 1000 then
       let s = s\<lparr>pin_back_cancelled := True\<rparr>;
           s = (if settings_open s then
                  s\<lparr>pin_mode := PIN_IDLE, settings_detail_open := False, settings_change_confirm := False,
                    settings_reset_confirm := False, pin_notice := None, suppress_settings_back_release := True\<rparr>
                else s\<lparr>local_auth_result := - 1\<rparr>)
       in s\<lparr>pin_entry := replicate 7 0, pin_first := replicate 7 0, pin_length := 0\<rparr>
     else s)"

definition back_release :: "int \<Rightarrow> wallet \<Rightarrow> wallet" where
  "back_release p s =
    (if pin_back_down s \<and> p AND 32 = 0 then
       (if \<not> pin_back_cancelled s \<and> pin_length s \<noteq> 0 then
          s\<lparr>pin_entry := (pin_entry s)[pin_length s - 1 := 0], pin_length := pin_length s - 1\<rparr>
        else s)\<lparr>pin_back_down := False\<rparr>
     else s)"

definition keypad_bits :: "wallet_env \<Rightarrow> int" where
  "keypad_bits e =
     pressed_bits (\<lambda>pin. \<not> level e pin) [(21, 1), (18, 2), (17, 4), (10, 8), (7, 16), (5, 32), (6, 64)]"

definition keypad_edit :: "u32 \<Rightarrow> int \<Rightarrow> int \<Rightarrow> wallet \<Rightarrow> wallet" where
  "keypad_edit now p newly s =
    (let s = s\<lparr>selected_key := next_key newly (selected_key s)\<rparr>;
         s = (if newly AND 16 \<noteq> 0 then key_press s else s);
         s = (if newly AND 32 \<noteq> 0 then
                s\<lparr>pin_back_down := True, pin_back_cancelled := False, pin_back_started := now\<rparr> else s)
     in back_release p (back_hold now p s))"

definition task_keypad :: "wallet_env \<Rightarrow> wallet \<Rightarrow> wallet" where
  "task_keypad e s =
    (let p = keypad_bits e;
         newly = p AND NOT (pin_previous_buttons s);
         s = keypad_edit (tick e) p newly s;
         s = (if newly AND 64 \<noteq> 0 then pin_submit e s else s)
     in if restarted s then s else s\<lparr>pin_previous_buttons := p\<rparr>)"

definition task_timeouts :: "u32 \<Rightarrow> int \<Rightarrow> wallet \<Rightarrow> bool \<times> wallet" where
  "task_timeouts now pins s =
    (if settings_change_success s \<and> tick_reached now (settings_change_success_until s) then
       (True, s\<lparr>settings_change_success := False, settings_detail_open := False, previous_buttons := pins\<rparr>)
     else if \<not> waiting s \<and> result_visible s \<and> tick_reached now (result_until s) then
       (True, (close_menus (s\<lparr>result_visible := False\<rparr>))
          \<lparr>shown_command := lit ''READY'', ui_status := ''READY'', removal_latched_until := 0,
           ui_command := lit ''READY'', previous_buttons := pins\<rparr>)
     else (False, s))"

definition task_command :: "wallet \<Rightarrow> wallet" where
  "task_command s =
    (let next = ui_command s in
     if \<not> waiting s \<and> \<not> result_visible s \<and> next \<noteq> shown_command s \<and> snd next \<noteq> ''GET INFO'' then
       (close_menus s)\<lparr>shown_command := next, ui_status := ''WORKING'', previous_buttons := - 1\<rparr>
     else s)"

definition task_reset_confirm :: "wallet_env \<Rightarrow> int \<Rightarrow> wallet \<Rightarrow> bool \<times> wallet" where
  "task_reset_confirm e pins s =
    (if \<not> waiting s \<and> \<not> result_visible s \<and> settings_open s \<and> settings_reset_confirm s \<and> ui_status s = ''READY'' then
       (if level_again e 7 then (False, s\<lparr>reset_yes_armed := True\<rparr>)
        else if reset_yes_armed s then
          (True, (reset_challenge_start e (s\<lparr>reset_yes_armed := False, settings_reset_confirm := False\<rparr>))
             \<lparr>previous_buttons := pins\<rparr>)
        else (False, s))
     else (False, s))"

definition menu_select :: "wallet \<Rightarrow> wallet" where
  "menu_select s =
    (let s = s\<lparr>settings_detail_open := True, device_info_page := 0\<rparr>;
         s = (if settings_selection s = 1 then s\<lparr>settings_change_confirm := True\<rparr> else s)
     in if settings_selection s = 2 then s\<lparr>settings_reset_confirm := True, reset_yes_armed := False\<rparr> else s)"

definition start_change :: "wallet \<Rightarrow> wallet" where
  "start_change s =
    (pin_first_clear (pin_clear (s\<lparr>settings_change_confirm := False, pin_mode := PIN_CHANGE_CURRENT,
       pin_lock_checked_at := 0, pin_notice := None\<rparr>)))
      \<lparr>selected_key := 0, pin_back_down := False, pin_back_cancelled := False, pin_previous_buttons := - 1\<rparr>"

definition task_settings :: "int \<Rightarrow> int \<Rightarrow> wallet \<Rightarrow> wallet" where
  "task_settings pins previous s =
    (let released = (\<lambda>b. pins AND b \<noteq> 0 \<and> previous AND b = 0);
         pressed = (\<lambda>b. pins AND b = 0 \<and> previous AND b \<noteq> 0) in
     if released 1 then
       (if suppress_settings_back_release s then s\<lparr>suppress_settings_back_release := False\<rparr>
        else if settings_detail_open s then
          s\<lparr>settings_detail_open := False, settings_change_confirm := False, settings_reset_confirm := False,
            settings_change_success := False\<rparr>
        else s\<lparr>settings_open := False\<rparr>)
     else if settings_change_confirm s \<and> pressed 16 then start_change s
     else if settings_detail_open s \<and> settings_selection s = 0 \<and> pressed 16 then
       s\<lparr>device_info_page := 1 - device_info_page s\<rparr>
     else if \<not> settings_detail_open s then
       (if pressed 4 then s\<lparr>settings_selection := (settings_selection s + 2) mod 3\<rparr>
        else if pressed 8 then s\<lparr>settings_selection := (settings_selection s + 1) mod 3\<rparr>
        else if pressed 16 then menu_select s
        else s)
     else s)"

definition task_menu :: "int \<Rightarrow> wallet \<Rightarrow> wallet" where
  "task_menu pins s =
    (let previous = previous_buttons s in
     if \<not> waiting s \<and> \<not> result_visible s \<and> ui_status s = ''READY'' \<and> previous \<ge> 0 then
       (if settings_open s then task_settings pins previous s
        else if pins AND 1 \<noteq> 0 \<and> previous AND 1 = 0 \<and> \<not> history_open s then
          s\<lparr>settings_open := True, settings_selection := 0, settings_detail_open := False\<rparr>
        else if pins AND 2 \<noteq> 0 \<and> previous AND 2 = 0 \<and> \<not> settings_open s then
          s\<lparr>history_open := \<not> history_open s\<rparr>
        else s)
     else s)"

definition task_idle :: "wallet_env \<Rightarrow> wallet \<Rightarrow> wallet" where
  "task_idle e s =
    (let pins = pressed_bits (level e) [(5, 1), (6, 2), (21, 4), (17, 8), (7, 16)];
         (done, s) = task_timeouts (tick e) pins s in
     if done then s
     else let (done, s) = task_reset_confirm e pins (task_command s) in
       if done then s else (task_menu pins s)\<lparr>previous_buttons := pins\<rparr>)"

definition wallet_ui_task :: "wallet_env \<Rightarrow> wallet \<Rightarrow> wallet" where
  "wallet_ui_task e s =
    (if tick e - last_poll s < pdMS_TO_TICKS 25 then s
     else let s = s\<lparr>last_poll := tick e\<rparr> in
       if reset_success_visible s then
         (if tick_reached (tick e) (reset_success_until s) then
            s\<lparr>reset_success_visible := False, pin_previous_buttons := - 1, previous_buttons := - 1\<rparr>
          else s)
       else let (done, s) = task_gate e s in
         if done then s
         else if pin_mode s \<noteq> PIN_IDLE then task_keypad e s
         else task_idle e s)"

end
