(* ===== verification/Wallet_Safety.thy ===== *)
theory Wallet_Safety
  imports Wallet_UI
begin

text \<open>
  What one call of the wallet task keeps and what it refuses: the invariant of its buffers, the
  effects of a submitted PIN, and the conditions under which a local authorization is granted.
\<close>

section \<open>Buffers\<close>

definition keypad_inv :: "wallet \<Rightarrow> bool" where
  "keypad_inv s \<longleftrightarrow>
     length (pin_entry s) = 7 \<and> length (pin_first s) = 7 \<and> length (pin_hash s) = 61 \<and>
     length (reset_challenge s) = 5 \<and>
     pin_length s \<le> (if pin_mode s = PIN_RESET_CHALLENGE then 4 else 6) \<and>
     (\<forall>i < pin_length s. pin_entry s ! i \<in> {48..57}) \<and>
     (\<forall>i < 7. pin_length s \<le> i \<longrightarrow> pin_entry s ! i = 0) \<and>
     selected_key s < 12 \<and> pin_keys ! selected_key s \<in> {48..57} \<and>
     settings_selection s < 3 \<and> device_info_page s \<le> 1 \<and>
     local_auth_result s \<in> {-1, 0, 1}"

text \<open>bcrypt writes into the 61-byte buffer its caller passes.\<close>

definition crypt_fits :: "wallet_env \<Rightarrow> bool" where
  "crypt_fits e \<longleftrightarrow> (\<forall>p c out. crypt_rn e p c = Some out \<longrightarrow> length out = 61)"

lemma pin_keys_eq: "pin_keys = [49, 50, 51, 52, 53, 54, 55, 56, 57, 32, 48, 32, 0]"
  by (simp add: pin_keys_def)

lemma pin_keys_digits:
  assumes "k < 12" "pin_keys ! k \<noteq> 32"
  shows "pin_keys ! k \<in> {48..57}"
proof -
  have "k < length (take 12 pin_keys)" using assms(1) by (simp add: pin_keys_eq)
  then have "take 12 pin_keys ! k \<in> set (take 12 pin_keys)" by (rule nth_mem)
  then have "pin_keys ! k \<in> set (take 12 pin_keys)" using assms(1) by simp
  then show ?thesis using assms(2) by (auto simp: pin_keys_eq word_le_nat_alt)
qed

lemma next_key_cell:
  assumes "k < 12"
  shows "next_key newly k = 10 \<or> next_key newly k < 12 \<and> pin_keys ! next_key newly k \<noteq> 32"
proof -
  define r where "r = (if newly AND 1 \<noteq> 0 then (k div 3 + 3) mod 4 else k div 3)"
  define r' where "r' = (if newly AND 4 \<noteq> 0 then (r + 1) mod 4 else r)"
  define c where "c = (if newly AND 2 \<noteq> 0 then (k mod 3 + 1) mod 3 else k mod 3)"
  define c' where "c' = (if newly AND 8 \<noteq> 0 then (c + 2) mod 3 else c)"
  have "k div 3 < 4" using assms by simp
  then have "r < 4" by (simp add: r_def)
  then have "r' < 4" by (simp add: r'_def)
  moreover have "c < 3" by (simp add: c_def)
  then have "c' < 3" by (simp add: c'_def)
  ultimately have "r' * 3 + c' < 12" by linarith
  moreover have "next_key newly k = (if pin_keys ! (r' * 3 + c') = 32 then 10 else r' * 3 + c')"
    unfolding next_key_def Let_def r_def r'_def c_def c'_def by (rule refl)
  ultimately show ?thesis by simp
qed

lemma next_key_ok:
  assumes "k < 12"
  shows "next_key newly k < 12" "pin_keys ! next_key newly k \<in> {48..57}"
  using next_key_cell [OF assms, of newly] pin_keys_digits [of "next_key newly k"]
  by (auto simp: pin_keys_eq word_le_nat_alt)

text \<open>The part of the invariant that talks about the entry buffer alone.\<close>

definition entry_ok :: "bytes \<Rightarrow> nat \<Rightarrow> bool" where
  "entry_ok b n \<longleftrightarrow> length b = 7 \<and> (\<forall>i<n. b ! i \<in> {48..57}) \<and> (\<forall>i<7. n \<le> i \<longrightarrow> b ! i = 0)"

lemma entry_ok_empty [simp]: "entry_ok (replicate 7 0) 0"
  by (simp add: entry_ok_def)

lemma entry_ok_push:
  "entry_ok b n \<Longrightarrow> n < 6 \<Longrightarrow> k \<in> {48..57} \<Longrightarrow> entry_ok (b[n := k, Suc n := 0]) (Suc n)"
  by (auto simp: entry_ok_def nth_list_update less_Suc_eq)

lemma entry_ok_pop: "entry_ok b n \<Longrightarrow> n \<le> 6 \<Longrightarrow> n \<noteq> 0 \<Longrightarrow> entry_ok (b[n - Suc 0 := 0]) (n - Suc 0)"
  by (auto simp: entry_ok_def nth_list_update)

lemma entry_ok_cstr:
  assumes "entry_ok b n" "n \<le> 6"
  shows "cstr b = take n b" "length (cstr b) = n"
proof -
  have l: "length b = 7" and d: "\<And>i. i < n \<Longrightarrow> b ! i \<noteq> 0" and z: "b ! n = 0"
    using assms by (fastforce simp: entry_ok_def word_le_nat_alt)+
  then show "cstr b = take n b"
    unfolding cstr_def using assms(2) by (intro takeWhile_eq_take_P_nth) auto
  then show "length (cstr b) = n" using l assms(2) by simp
qed

lemma keypad_inv_entry:
  "keypad_inv s \<longleftrightarrow> entry_ok (pin_entry s) (pin_length s) \<and> length (pin_first s) = 7 \<and> length (pin_hash s) = 61 \<and>
     length (reset_challenge s) = 5 \<and>
     pin_length s \<le> (if pin_mode s = PIN_RESET_CHALLENGE then 4 else 6) \<and>
     selected_key s < 12 \<and> pin_keys ! selected_key s \<in> {48..57} \<and>
     settings_selection s < 3 \<and> device_info_page s \<le> 1 \<and> local_auth_result s \<in> {-1, 0, 1}"
  by (auto simp: keypad_inv_def entry_ok_def)

lemma keys_0_10 [simp]: "pin_keys ! 0 = 49" "pin_keys ! 10 = 48"
  by (simp_all add: pin_keys_eq)

named_theorems wallet_inv

lemma inv_clear [wallet_inv]: "keypad_inv s \<Longrightarrow> keypad_inv (pin_clear s)"
  by (simp add: keypad_inv_entry pin_clear_def)

lemma inv_first_clear [wallet_inv]: "keypad_inv s \<Longrightarrow> keypad_inv (pin_first_clear s)"
  by (simp add: keypad_inv_entry pin_first_clear_def)

lemma pin_clear_simps [simp]:
  "pin_length (pin_clear s) = 0" "pin_mode (pin_clear s) = pin_mode s" "pin_hash (pin_clear s) = pin_hash s"
  "pin_first (pin_clear s) = pin_first s" "local_auth_result (pin_clear s) = local_auth_result s"
  "pin_lock (pin_clear s) = pin_lock s" "nvs_log (pin_clear s) = nvs_log s"
  "pin_store_open (pin_clear s) = pin_store_open s" "pin_lock_storage_ok (pin_clear s) = pin_lock_storage_ok s"
  "reset_challenge (pin_clear s) = reset_challenge s" "restarted (pin_clear s) = restarted s"
  "pin_setup_at_boot (pin_clear s) = pin_setup_at_boot s"
  by (simp_all add: pin_clear_def)

lemma pin_first_clear_simps [simp]:
  "pin_length (pin_first_clear s) = pin_length s" "pin_mode (pin_first_clear s) = pin_mode s"
  "pin_hash (pin_first_clear s) = pin_hash s" "pin_entry (pin_first_clear s) = pin_entry s"
  "local_auth_result (pin_first_clear s) = local_auth_result s"
  "pin_lock (pin_first_clear s) = pin_lock s" "nvs_log (pin_first_clear s) = nvs_log s"
  "pin_store_open (pin_first_clear s) = pin_store_open s"
  "pin_lock_storage_ok (pin_first_clear s) = pin_lock_storage_ok s"
  "reset_challenge (pin_first_clear s) = reset_challenge s" "restarted (pin_first_clear s) = restarted s"
  "pin_setup_at_boot (pin_first_clear s) = pin_setup_at_boot s"
  by (simp_all add: pin_first_clear_def)

lemma inv_close_menus [wallet_inv]: "keypad_inv s \<Longrightarrow> keypad_inv (close_menus s)"
  by (simp add: keypad_inv_entry close_menus_def)

lemma inv_key_press [wallet_inv]: "keypad_inv s \<Longrightarrow> keypad_inv (key_press s)"
  by (auto simp: keypad_inv_entry key_press_def Let_def intro!: entry_ok_push)

lemma inv_back_hold [wallet_inv]: "keypad_inv s \<Longrightarrow> keypad_inv (back_hold now p s)"
  by (simp add: keypad_inv_entry back_hold_def Let_def)

lemma inv_back_release [wallet_inv]: "keypad_inv s \<Longrightarrow> keypad_inv (back_release p s)"
  by (auto simp: keypad_inv_entry back_release_def intro!: entry_ok_pop split: if_splits)

lemma inv_keypad_edit [wallet_inv]: "keypad_inv s \<Longrightarrow> keypad_inv (keypad_edit now p newly s)"
proof -
  assume s: "keypad_inv s"
  then have "keypad_inv (s\<lparr>selected_key := next_key newly (selected_key s)\<rparr>)"
    using next_key_ok [of "selected_key s" newly] by (simp add: keypad_inv_entry)
  then have k: "keypad_inv (if newly AND 16 \<noteq> 0 then key_press (s\<lparr>selected_key := next_key newly (selected_key s)\<rparr>)
      else s\<lparr>selected_key := next_key newly (selected_key s)\<rparr>)" (is "keypad_inv ?t")
    by (simp add: inv_key_press)
  then have "keypad_inv (if newly AND 32 \<noteq> 0
      then ?t\<lparr>pin_back_down := True, pin_back_cancelled := False, pin_back_started := now\<rparr> else ?t)"
    unfolding keypad_inv_entry by simp
  then show ?thesis
    unfolding keypad_edit_def Let_def by (intro inv_back_release inv_back_hold)
qed

text \<open>The lock operations change only their own part of the state.\<close>

lemma pin_lock_check_frame:
  "pin_lock_check port s = (g, n, s') \<Longrightarrow> \<exists>m. s' = s\<lparr>pin_lock_message := m\<rparr>"
proof -
  assume "pin_lock_check port s = (g, n, s')"
  then have "s' = s\<lparr>pin_lock_message := pin_lock_message s'\<rparr>"
    by (auto simp: pin_lock_check_def Let_def split: if_splits option.splits)
  then show ?thesis by blast
qed

lemma pin_lock_record_result_frame:
  "pin_lock_record_result nr ok now s = (stored, s') \<Longrightarrow>
     \<exists>l b g. s' = s\<lparr>pin_lock := l, pin_lock_storage_ok := b, nvs_log := g\<rparr>"
proof -
  assume "pin_lock_record_result nr ok now s = (stored, s')"
  then have "\<exists>l b g. s' = s\<lparr>pin_lock := l, pin_lock_storage_ok := b, nvs_log := g\<rparr> \<and>
      l = pin_lock s' \<and> b = pin_lock_storage_ok s' \<and> g = nvs_log s'"
    by (auto simp: pin_lock_record_result_def pin_lock_store_def nvs_do_def Let_def split: if_splits)
  then show ?thesis by blast
qed

lemma pin_store_new_frame:
  "pin_store_new e new_pin s = (ok, s') \<Longrightarrow> \<exists>h g. s' = s\<lparr>pin_hash := h, nvs_log := g\<rparr> \<and>
     (h = pin_hash s \<or> (\<exists>p c. crypt_rn e p c = Some h))"
proof -
  assume "pin_store_new e new_pin s = (ok, s')"
  then have "s' = s\<lparr>pin_hash := pin_hash s', nvs_log := nvs_log s'\<rparr> \<and>
      (pin_hash s' = pin_hash s \<or> (\<exists>p c. crypt_rn e p c = Some (pin_hash s')))"
    by (auto simp: pin_store_new_def pin_calculate_def nvs_do_def Let_def split: if_splits option.splits)
  then show ?thesis by blast
qed

lemma reset_schedule_wipe_frame:
  "reset_schedule_wipe e s = (ok, s') \<Longrightarrow> \<exists>g. s' = s\<lparr>nvs_log := g\<rparr>"
proof -
  assume "reset_schedule_wipe e s = (ok, s')"
  then have "s' = s\<lparr>nvs_log := nvs_log s'\<rparr>"
    by (auto simp: reset_schedule_wipe_def nvs_do_def Let_def split: if_splits)
  then show ?thesis by blast
qed

lemma inv_pin_lock_check [wallet_inv]: "pin_lock_check port s = (g, n, s') \<Longrightarrow> keypad_inv s \<Longrightarrow> keypad_inv s'"
  by (auto simp: keypad_inv_entry dest!: pin_lock_check_frame)

lemma inv_record_result [wallet_inv]:
  "pin_lock_record_result nr ok now s = (stored, s') \<Longrightarrow> keypad_inv s \<Longrightarrow> keypad_inv s'"
  by (auto simp: keypad_inv_entry dest!: pin_lock_record_result_frame)

lemma inv_pin_store_new [wallet_inv]:
  "pin_store_new e new_pin s = (ok, s') \<Longrightarrow> crypt_fits e \<Longrightarrow> keypad_inv s \<Longrightarrow> keypad_inv s'"
  by (auto simp: keypad_inv_entry crypt_fits_def dest!: pin_store_new_frame)

lemma inv_schedule_wipe [wallet_inv]: "reset_schedule_wipe e s = (ok, s') \<Longrightarrow> keypad_inv s \<Longrightarrow> keypad_inv s'"
  by (auto simp: keypad_inv_entry dest!: reset_schedule_wipe_frame)

lemma inv_submit_challenge [wallet_inv]: "keypad_inv s \<Longrightarrow> keypad_inv (submit_challenge s)"
  using inv_clear [of s] by (auto simp: submit_challenge_def Let_def keypad_inv_entry)

lemma inv_submit_retype [wallet_inv]:
  assumes "crypt_fits e" "keypad_inv s"
  shows "keypad_inv (submit_retype e s)"
proof (cases "pin_store_new e (pin_entry s) s")
  case (Pair ok s')
  have "keypad_inv (pin_clear (pin_first_clear s'))" "keypad_inv (pin_first_clear (pin_clear s))"
    using inv_pin_store_new [OF Pair assms] assms(2) by (simp_all add: wallet_inv)
  then show ?thesis
    unfolding submit_retype_def by (simp add: Pair Let_def keypad_inv_entry)
qed

lemma inv_submit_change_retype [wallet_inv]:
  assumes "crypt_fits e" "keypad_inv s"
  shows "keypad_inv (submit_change_retype e s)"
proof (cases "pin_store_new e (pin_entry s) s")
  case (Pair ok s')
  have "keypad_inv (pin_first_clear (pin_clear s'))" "keypad_inv (pin_first_clear (pin_clear s))"
    using inv_pin_store_new [OF Pair assms] assms(2) by (simp_all add: wallet_inv)
  then show ?thesis
    unfolding submit_change_retype_def by (simp add: Pair Let_def keypad_inv_entry)
qed

lemma inv_submit_outcome [wallet_inv]:
  assumes "keypad_inv s" "pin_length s = 0"
  shows "keypad_inv (submit_outcome e ok s)"
proof (cases "reset_schedule_wipe e s")
  case (Pair w s')
  then have "keypad_inv s'" "pin_length s' = 0"
    using inv_schedule_wipe [OF Pair assms(1)] assms(2) by (auto dest!: reset_schedule_wipe_frame)
  then show ?thesis
    using assms unfolding submit_outcome_def by (simp add: Pair keypad_inv_entry)
qed

lemma inv_gate_now [simp]: "keypad_inv (s\<lparr>pin_gate_now := g\<rparr>) \<longleftrightarrow> keypad_inv s"
  by (simp add: keypad_inv_entry)

lemma inv_pin_notice [simp]: "keypad_inv (s\<lparr>pin_notice := n\<rparr>) \<longleftrightarrow> keypad_inv s"
  by (simp add: keypad_inv_entry)

lemma inv_storage_ok [simp]: "keypad_inv (s\<lparr>pin_lock_storage_ok := b\<rparr>) \<longleftrightarrow> keypad_inv s"
  by (simp add: keypad_inv_entry)

text \<open>The verification path as one case distinction.\<close>

definition pin_verdict :: "wallet_env \<Rightarrow> wallet \<Rightarrow> bool option" where
  "pin_verdict e s = map_option (\<lambda>c. pin_hash_matches c (pin_hash s)) (pin_calculate e (pin_entry s) (pin_hash s))"

lemma submit_verify_cases:
  obtains (gate) g n s1 where "pin_lock_check (rtc_submit e) s = (g, n, s1)" "g \<noteq> PIN_GATE_READY"
      "submit_verify e s = pin_clear (s1\<lparr>pin_gate_now := g\<rparr>)"
  | (no_hash) "pin_lock_check (rtc_submit e) s = (PIN_GATE_READY, rtc_seconds (rtc_submit e), s)"
      "pin_verdict e s = None"
      "submit_verify e s = (pin_clear (s\<lparr>pin_gate_now := PIN_GATE_READY\<rparr>))\<lparr>pin_lock_storage_ok := False,
         pin_gate_now := PIN_GATE_FLASH_ERROR, pin_notice := Some ''HASH ERROR''\<rparr>"
  | (flash) now ok s2 where "rtc_seconds (rtc_submit e) = Some now" "gate_open now (pin_lock s)"
      "pin_lock_storage_ok s" "pin_store_open s" "pin_verdict e s = Some ok"
      "pin_lock_record_result (nvs_result e) ok now (pin_clear (s\<lparr>pin_gate_now := PIN_GATE_READY\<rparr>)) = (False, s2)"
      "submit_verify e s = s2\<lparr>pin_gate_now := PIN_GATE_FLASH_ERROR, pin_notice := Some ''FLASH ERROR''\<rparr>"
  | (judged) now ok s2 g n s3 where "rtc_seconds (rtc_submit e) = Some now" "gate_open now (pin_lock s)"
      "pin_lock_storage_ok s" "pin_store_open s" "pin_verdict e s = Some ok"
      "pin_lock_record_result (nvs_result e) ok now (pin_clear (s\<lparr>pin_gate_now := PIN_GATE_READY\<rparr>)) = (True, s2)"
      "pin_lock_check (rtc_after e) s2 = (g, n, s3)"
      "submit_verify e s = submit_outcome e ok (s3\<lparr>pin_gate_now := g\<rparr>)"
proof (cases "pin_lock_check (rtc_submit e) s")
  case (fields g n s1)
  show thesis
  proof (cases "g = PIN_GATE_READY")
    case False
    with fields gate show ?thesis by (simp add: submit_verify_def Let_def)
  next
    case True
    with pin_lock_check_ready [of "rtc_submit e" s n s1] fields obtain now where
      now: "n = Some now" "rtc_seconds (rtc_submit e) = Some now" "gate_open now (pin_lock s)" "s1 = s"
        "pin_lock_storage_ok s" "pin_store_open s" by auto
    show ?thesis
    proof (cases "pin_verdict e s")
      case None
      then show ?thesis using fields True now
        by (intro no_hash) (simp_all add: submit_verify_def pin_verdict_def Let_def)
    next
      case (Some ok)
      obtain stored s2 where r: "pin_lock_record_result (nvs_result e) ok now
          (pin_clear (s\<lparr>pin_gate_now := PIN_GATE_READY\<rparr>)) = (stored, s2)" by fastforce
      obtain g' n' s3 where c: "pin_lock_check (rtc_after e) s2 = (g', n', s3)" by (cases "pin_lock_check (rtc_after e) s2")
      have eq: "submit_verify e s = (if \<not> stored then s2\<lparr>pin_gate_now := PIN_GATE_FLASH_ERROR, pin_notice := Some ''FLASH ERROR''\<rparr>
          else submit_outcome e ok (s3\<lparr>pin_gate_now := g'\<rparr>))"
        using Some fields True now r c by (auto simp: submit_verify_def pin_verdict_def Let_def split: option.splits)
      show ?thesis
      proof (cases stored)
        case True
        with now Some r c eq show ?thesis by (intro judged) simp_all
      next
        case False
        with now Some r eq show ?thesis by (intro flash) simp_all
      qed
    qed
  qed
qed

lemma record_result_fields:
  "pin_lock_record_result nr ok now s = (stored, s') \<Longrightarrow> pin_length s' = pin_length s \<and> pin_mode s' = pin_mode s \<and>
     pin_hash s' = pin_hash s \<and> local_auth_result s' = local_auth_result s \<and> restarted s' = restarted s \<and>
     pin_store_open s' = pin_store_open s"
  by (auto dest!: pin_lock_record_result_frame)

lemma check_fields:
  "pin_lock_check port s = (g, n, s') \<Longrightarrow> pin_length s' = pin_length s \<and> pin_mode s' = pin_mode s \<and>
     pin_hash s' = pin_hash s \<and> local_auth_result s' = local_auth_result s \<and> restarted s' = restarted s \<and>
     pin_store_open s' = pin_store_open s \<and> pin_lock s' = pin_lock s \<and> nvs_log s' = nvs_log s \<and>
     pin_lock_storage_ok s' = pin_lock_storage_ok s \<and> pin_entry s' = pin_entry s"
  by (auto dest!: pin_lock_check_frame)

lemma inv_submit_verify [wallet_inv]: "keypad_inv s \<Longrightarrow> keypad_inv (submit_verify e s)"
proof (cases e s rule: submit_verify_cases)
  case (gate g n s1)
  moreover assume "keypad_inv s"
  ultimately show ?thesis by (simp add: wallet_inv)
next
  case no_hash
  moreover assume "keypad_inv s"
  ultimately show ?thesis by (simp add: wallet_inv)
next
  case (flash now ok s2)
  moreover assume "keypad_inv s"
  ultimately show ?thesis by (auto simp: inv_clear dest: inv_record_result)
next
  case (judged now ok s2 g n s3)
  assume "keypad_inv s"
  then have "keypad_inv (pin_clear (s\<lparr>pin_gate_now := PIN_GATE_READY\<rparr>))" by (simp add: inv_clear)
  then have "keypad_inv s3" using judged(6,7) by (blast intro: inv_pin_lock_check inv_record_result)
  moreover have "pin_length s3 = 0"
    using record_result_fields [OF judged(6)] check_fields [OF judged(7)] by simp
  ultimately show ?thesis using judged(8) by (auto intro: inv_submit_outcome)
qed

lemma inv_pin_submit [wallet_inv]:
  assumes "crypt_fits e" "keypad_inv s"
  shows "keypad_inv (pin_submit e s)"
proof -
  have "keypad_inv (pin_clear (s\<lparr>pin_first := pin_entry s\<rparr>))" if "pin_length s = 6"
    using assms(2) that by (intro inv_clear) (simp add: keypad_inv_entry entry_ok_def)
  then have "keypad_inv ((pin_clear (s\<lparr>pin_first := pin_entry s\<rparr>))\<lparr>pin_mode := m, pin_notice := n\<rparr>)"
    if "pin_length s = 6" for m n using that by (simp add: keypad_inv_entry)
  then show ?thesis
    using assms unfolding pin_submit_def by (simp add: wallet_inv)
qed

lemma inv_gate_back [wallet_inv]: "keypad_inv s \<Longrightarrow> keypad_inv (gate_back s)"
  using inv_clear [of s] by (simp add: gate_back_def Let_def keypad_inv_entry)

lemma inv_checked_at [simp]: "keypad_inv (s\<lparr>pin_lock_checked_at := t\<rparr>) \<longleftrightarrow> keypad_inv s"
  by (simp add: keypad_inv_entry)

lemma inv_back_previous [simp]: "keypad_inv (s\<lparr>pin_lock_back_previous := b\<rparr>) \<longleftrightarrow> keypad_inv s"
  by (simp add: keypad_inv_entry)

lemma inv_reset_success [simp]: "keypad_inv (s\<lparr>reset_success_visible := b\<rparr>) \<longleftrightarrow> keypad_inv s"
  by (simp add: keypad_inv_entry)

lemma inv_last_poll [simp]: "keypad_inv (s\<lparr>last_poll := t\<rparr>) \<longleftrightarrow> keypad_inv s"
  by (simp add: keypad_inv_entry)

lemma inv_previous_buttons [simp]:
  "keypad_inv (s\<lparr>previous_buttons := p\<rparr>) \<longleftrightarrow> keypad_inv s"
  "keypad_inv (s\<lparr>pin_previous_buttons := p\<rparr>) \<longleftrightarrow> keypad_inv s"
  by (simp_all add: keypad_inv_entry)

text \<open>The periodic refresh of the gate, and the task's gate part as one case distinction.\<close>

definition gate_refresh :: "wallet_env \<Rightarrow> wallet \<Rightarrow> wallet" where
  "gate_refresh e s =
    (if pin_lock_checked_at s = 0 \<or> tick e - pin_lock_checked_at s \<ge> pdMS_TO_TICKS 1000 then
       let previous_gate = pin_gate_now s; (gate, _, s) = pin_lock_check (rtc_refresh e) s;
           s = s\<lparr>pin_gate_now := gate, pin_lock_checked_at := tick e\<rparr>
       in if previous_gate \<noteq> PIN_GATE_READY \<and> gate = PIN_GATE_READY then s\<lparr>pin_notice := None\<rparr> else s
     else s)"

lemma task_gate_eq:
  "task_gate e s =
    (if \<not> pin_requires_verification s then (False, s)
     else let s = gate_refresh e s in
       if pin_gate_now s \<noteq> PIN_GATE_READY then
         (True, (if \<not> level e 5 \<and> \<not> pin_lock_back_previous s then gate_back s else s)\<lparr>pin_lock_back_previous := \<not> level e 5\<rparr>)
       else (False, s\<lparr>pin_lock_back_previous := False\<rparr>))"
  by (simp add: task_gate_def gate_refresh_def Let_def)

lemma gate_refresh_frame:
  "\<exists>m g c n. gate_refresh e s = s\<lparr>pin_lock_message := m, pin_gate_now := g, pin_lock_checked_at := c, pin_notice := n\<rparr>"
proof (cases "pin_lock_check (rtc_refresh e) s")
  case (fields g n s1)
  have "gate_refresh e s = s\<lparr>pin_lock_message := pin_lock_message (gate_refresh e s),
      pin_gate_now := pin_gate_now (gate_refresh e s),
      pin_lock_checked_at := pin_lock_checked_at (gate_refresh e s), pin_notice := pin_notice (gate_refresh e s)\<rparr>"
    using pin_lock_check_frame [OF fields] by (auto simp: gate_refresh_def fields Let_def)
  then show ?thesis by blast
qed

lemma inv_task_gate [wallet_inv]: "keypad_inv s \<Longrightarrow> keypad_inv (snd (task_gate e s))"
proof -
  assume "keypad_inv s"
  moreover obtain m g c n where
    "gate_refresh e s = s\<lparr>pin_lock_message := m, pin_gate_now := g, pin_lock_checked_at := c, pin_notice := n\<rparr>"
    using gate_refresh_frame by blast
  ultimately have "keypad_inv (gate_refresh e s)" by (simp add: keypad_inv_entry)
  then show ?thesis using \<open>keypad_inv s\<close> by (simp add: task_gate_eq Let_def wallet_inv)
qed

lemma inv_task_keypad [wallet_inv]: "crypt_fits e \<Longrightarrow> keypad_inv s \<Longrightarrow> keypad_inv (task_keypad e s)"
  by (simp add: task_keypad_def Let_def wallet_inv)

lemma inv_task_timeouts [wallet_inv]: "keypad_inv s \<Longrightarrow> keypad_inv (snd (task_timeouts now pins s))"
  by (simp add: task_timeouts_def close_menus_def keypad_inv_entry)

lemma inv_task_command [wallet_inv]: "keypad_inv s \<Longrightarrow> keypad_inv (task_command s)"
  by (simp add: task_command_def close_menus_def keypad_inv_entry Let_def)

lemma length_decimal4 [simp]: "length (decimal4 n) = 5"
  by (simp add: decimal4_def)

lemma inv_reset_challenge_start [wallet_inv]: "keypad_inv s \<Longrightarrow> keypad_inv (reset_challenge_start e s)"
  by (simp add: reset_challenge_start_def pin_clear_def keypad_inv_entry word_le_nat_alt)

lemma inv_task_reset_confirm [wallet_inv]: "keypad_inv s \<Longrightarrow> keypad_inv (snd (task_reset_confirm e pins s))"
proof -
  assume "keypad_inv s"
  then have "keypad_inv (reset_challenge_start e (s\<lparr>reset_yes_armed := False, settings_reset_confirm := False\<rparr>))"
    by (intro inv_reset_challenge_start) (simp add: keypad_inv_entry)
  with \<open>keypad_inv s\<close> show ?thesis by (simp add: task_reset_confirm_def keypad_inv_entry)
qed

lemma inv_start_change [wallet_inv]: "keypad_inv s \<Longrightarrow> keypad_inv (start_change s)"
  by (simp add: start_change_def pin_clear_def pin_first_clear_def keypad_inv_entry word_le_nat_alt)

lemma inv_menu_select [wallet_inv]: "keypad_inv s \<Longrightarrow> keypad_inv (menu_select s)"
  by (simp add: menu_select_def Let_def keypad_inv_entry)

lemma inv_task_settings [wallet_inv]: "keypad_inv s \<Longrightarrow> keypad_inv (task_settings pins previous s)"
  using inv_start_change [of s] inv_menu_select [of s]
  by (simp add: task_settings_def Let_def keypad_inv_entry)

lemma inv_task_menu [wallet_inv]: "keypad_inv s \<Longrightarrow> keypad_inv (task_menu pins s)"
  using inv_task_settings [of s pins "previous_buttons s"] by (simp add: task_menu_def Let_def keypad_inv_entry)

lemma inv_task_idle [wallet_inv]: "keypad_inv s \<Longrightarrow> keypad_inv (task_idle e s)"
  by (simp add: task_idle_def Let_def case_prod_beta wallet_inv)

lemma inv_wallet_ui_task [wallet_inv]: "crypt_fits e \<Longrightarrow> keypad_inv s \<Longrightarrow> keypad_inv (wallet_ui_task e s)"
proof -
  assume "crypt_fits e" "keypad_inv s"
  moreover from this have "keypad_inv (snd (task_gate e (s\<lparr>last_poll := tick e\<rparr>)))" by (simp add: inv_task_gate)
  ultimately show ?thesis
    by (simp add: wallet_ui_task_def Let_def case_prod_beta wallet_inv)
qed

lemma inv_wallet_ui_prompt [wallet_inv]: "keypad_inv s \<Longrightarrow> keypad_inv (wallet_ui_prompt s)"
  by (simp add: wallet_ui_prompt_def Let_def keypad_inv_entry word_le_nat_alt)

lemma inv_wallet_ui_result [wallet_inv]: "keypad_inv s \<Longrightarrow> keypad_inv (wallet_ui_result now m s)"
  by (simp add: wallet_ui_result_def close_menus_def Let_def keypad_inv_entry split: if_splits)

lemma inv_wallet_ui_command [wallet_inv]: "keypad_inv s \<Longrightarrow> keypad_inv (wallet_ui_command now c s)"
  by (simp add: wallet_ui_command_def Let_def keypad_inv_entry)

lemma inv_take [wallet_inv]: "keypad_inv s \<Longrightarrow> keypad_inv (snd (wallet_ui_take_local_authorization s))"
  by (simp add: wallet_ui_take_local_authorization_def keypad_inv_entry)

lemma init_pin_store_fields [simp]:
  "pin_entry (init_pin_store ie s) = pin_entry s" "pin_length (init_pin_store ie s) = pin_length s"
  "pin_first (init_pin_store ie s) = pin_first s" "reset_challenge (init_pin_store ie s) = reset_challenge s"
  "pin_mode (init_pin_store ie s) = pin_mode s" "selected_key (init_pin_store ie s) = selected_key s"
  "settings_selection (init_pin_store ie s) = settings_selection s"
  "device_info_page (init_pin_store ie s) = device_info_page s"
  "local_auth_result (init_pin_store ie s) = local_auth_result s" "restarted (init_pin_store ie s) = restarted s"
  by (simp_all add: init_pin_store_def Let_def split: option.split lock_read.split)

lemma init_pin_store_hash:
  "pin_hash (init_pin_store ie s) =
    (if \<not> (init_nvs_ok ie \<and> init_nvs_open ie) then pin_hash s
     else case init_hash ie of None \<Rightarrow> (pin_hash s)[0 := 0] | Some (h, z) \<Rightarrow> if z \<noteq> 61 then h[0 := 0] else h)"
  by (simp add: init_pin_store_def Let_def split: option.split lock_read.split)

lemma init_pin_store_lock:
  "pin_lock (init_pin_store ie s) =
    (if \<not> (init_nvs_ok ie \<and> init_nvs_open ie) then pin_lock s
     else case init_lock ie of LockNotFound \<Rightarrow> (pin_lock s)\<lparr>version := 1\<rparr> | LockError r \<Rightarrow> r | LockRead r z \<Rightarrow> r)"
  by (simp add: init_pin_store_def Let_def split: option.split lock_read.split)

lemma init_pin_store_log [simp]: "nvs_log (init_pin_store ie s) = nvs_log s"
  by (simp add: init_pin_store_def Let_def split: option.split lock_read.split)

lemma inv_wallet_ui_init:
  assumes "\<And>h z. init_hash ie = Some (h, z) \<Longrightarrow> length h = 61"
  shows "keypad_inv (wallet_ui_init ie wallet_static)"
proof -
  have st: "keypad_inv wallet_static" by (simp add: keypad_inv_entry wallet_static_def word_le_nat_alt)
  then have "keypad_inv (init_pin_store ie wallet_static)"
    using assms by (simp add: keypad_inv_entry init_pin_store_hash split: option.split)
  moreover have "pin_entry wallet_static = replicate 7 0" by (simp add: wallet_static_def)
  ultimately show ?thesis using st by (simp add: wallet_ui_init_def Let_def keypad_inv_entry)
qed

section \<open>Runs\<close>

text \<open>
  The state with which a call of the task reaches \<open>pin_submit\<close>, if it does.
\<close>

definition submitted :: "wallet_env \<Rightarrow> wallet \<Rightarrow> wallet option" where
  "submitted e s =
    (if tick e - last_poll s < pdMS_TO_TICKS 25 \<or> reset_success_visible s then None
     else let (done, s1) = task_gate e (s\<lparr>last_poll := tick e\<rparr>);
              newly = keypad_bits e AND NOT (pin_previous_buttons s1)
          in if done \<or> pin_mode s1 = PIN_IDLE \<or> newly AND 64 = 0 then None
             else Some (keypad_edit (tick e) (keypad_bits e) newly s1))"

text \<open>What the editing and gate parts leave alone.\<close>

definition same_store :: "wallet \<Rightarrow> wallet \<Rightarrow> bool" where
  "same_store s t \<longleftrightarrow> pin_hash t = pin_hash s \<and> pin_lock t = pin_lock s \<and> nvs_log t = nvs_log s \<and>
     pin_store_open t = pin_store_open s \<and> pin_lock_storage_ok t = pin_lock_storage_ok s \<and>
     restarted t = restarted s \<and> reset_challenge t = reset_challenge s \<and>
     pin_setup_at_boot t = pin_setup_at_boot s \<and>
     local_auth_result t \<in> {local_auth_result s, - 1}"

lemma same_store_refl [simp]: "same_store s s"
  by (simp add: same_store_def)

lemma same_store_trans: "same_store s t \<Longrightarrow> same_store t u \<Longrightarrow> same_store s u"
  by (auto simp: same_store_def)

lemma key_press_same: "same_store s (key_press s) \<and> pin_mode (key_press s) = pin_mode s"
  by (simp add: key_press_def same_store_def Let_def)

lemma back_hold_same:
  "same_store s (back_hold now p s)"
  "pin_mode (back_hold now p s) = pin_mode s \<or> pin_mode (back_hold now p s) = PIN_IDLE \<and> pin_length (back_hold now p s) = 0"
  by (simp_all add: back_hold_def same_store_def Let_def)

lemma back_release_same:
  "same_store s (back_release p s)" "pin_mode (back_release p s) = pin_mode s"
  "pin_length (back_release p s) \<le> pin_length s"
  by (simp_all add: back_release_def same_store_def)

lemma keypad_edit_same:
  "same_store s (keypad_edit now p newly s)"
  "pin_mode (keypad_edit now p newly s) = pin_mode s \<or>
     pin_mode (keypad_edit now p newly s) = PIN_IDLE \<and> pin_length (keypad_edit now p newly s) = 0"
proof -
  define t where "t = s\<lparr>selected_key := next_key newly (selected_key s)\<rparr>"
  define u where "u = (if newly AND 16 \<noteq> 0 then key_press t else t)"
  define v where "v = (if newly AND 32 \<noteq> 0 then
     u\<lparr>pin_back_down := True, pin_back_cancelled := False, pin_back_started := now\<rparr> else u)"
  have e: "keypad_edit now p newly s = back_release p (back_hold now p v)"
    by (simp add: keypad_edit_def t_def u_def v_def Let_def)
  have "same_store s t" "pin_mode t = pin_mode s" by (simp_all add: t_def same_store_def)
  moreover have "same_store t u" "pin_mode u = pin_mode t" using key_press_same [of t] by (simp_all add: u_def)
  moreover have "same_store u v" "pin_mode v = pin_mode u" by (simp_all add: v_def same_store_def)
  ultimately have "same_store s v" "pin_mode v = pin_mode s" by (auto intro: same_store_trans)
  then show "same_store s (keypad_edit now p newly s)"
    unfolding e by (blast intro: same_store_trans back_hold_same back_release_same)
  show "pin_mode (keypad_edit now p newly s) = pin_mode s \<or>
      pin_mode (keypad_edit now p newly s) = PIN_IDLE \<and> pin_length (keypad_edit now p newly s) = 0"
    using back_hold_same(2) [of now p v] back_release_same(2,3) [of p "back_hold now p v"] \<open>pin_mode v = pin_mode s\<close>
    unfolding e by auto
qed

lemma task_gate_same:
  "same_store s (snd (task_gate e s))"
  "pin_mode (snd (task_gate e s)) \<in> {pin_mode s, PIN_IDLE}"
  "\<not> fst (task_gate e s) \<Longrightarrow> pin_mode (snd (task_gate e s)) = pin_mode s"
proof -
  obtain m g c n where r:
    "gate_refresh e s = s\<lparr>pin_lock_message := m, pin_gate_now := g, pin_lock_checked_at := c, pin_notice := n\<rparr>"
    using gate_refresh_frame by blast
  show "same_store s (snd (task_gate e s))"
    by (simp add: task_gate_eq r gate_back_def pin_clear_def same_store_def Let_def)
  show "pin_mode (snd (task_gate e s)) \<in> {pin_mode s, PIN_IDLE}"
    by (simp add: task_gate_eq r gate_back_def pin_clear_def Let_def)
  show "\<not> fst (task_gate e s) \<Longrightarrow> pin_mode (snd (task_gate e s)) = pin_mode s"
    by (simp add: task_gate_eq r gate_back_def pin_clear_def Let_def split: if_splits)
qed

lemma submitted_same:
  assumes "submitted e s = Some s1"
  shows "same_store s s1" "pin_mode s1 = pin_mode s \<or> pin_mode s1 = PIN_IDLE \<and> pin_length s1 = 0"
proof -
  define t where "t = snd (task_gate e (s\<lparr>last_poll := tick e\<rparr>))"
  define newly where "newly = keypad_bits e AND NOT (pin_previous_buttons t)"
  have s1: "s1 = keypad_edit (tick e) (keypad_bits e) newly t"
    and d: "\<not> fst (task_gate e (s\<lparr>last_poll := tick e\<rparr>))"
    using assms by (auto simp: submitted_def Let_def case_prod_beta t_def newly_def split: if_splits)
  have "same_store (s\<lparr>last_poll := tick e\<rparr>) t" unfolding t_def by (rule task_gate_same)
  then have "same_store s t" by (simp add: same_store_def)
  moreover have "pin_mode t = pin_mode s"
    using task_gate_same(3) [OF d] by (simp add: t_def)
  ultimately show "same_store s s1" "pin_mode s1 = pin_mode s \<or> pin_mode s1 = PIN_IDLE \<and> pin_length s1 = 0"
    using keypad_edit_same [where s = t and now = "tick e" and p = "keypad_bits e" and newly = newly] unfolding s1 by (auto intro: same_store_trans)
qed

lemma submitted_inv: "submitted e s = Some s1 \<Longrightarrow> keypad_inv s \<Longrightarrow> keypad_inv s1"
  by (auto simp: submitted_def Let_def case_prod_beta split: if_splits intro!: inv_keypad_edit inv_task_gate)

lemma submitted_Some_D:
  assumes "submitted e s = Some s1"
  obtains t where "task_gate e (s\<lparr>last_poll := tick e\<rparr>) = (False, t)" "pin_mode t \<noteq> PIN_IDLE"
    "\<not> tick e - last_poll s < pdMS_TO_TICKS 25" "\<not> reset_success_visible s"
    "(keypad_bits e AND NOT (pin_previous_buttons t)) AND 64 \<noteq> 0"
    "s1 = keypad_edit (tick e) (keypad_bits e) (keypad_bits e AND NOT (pin_previous_buttons t)) t"
  using assms that by (cases "task_gate e (s\<lparr>last_poll := tick e\<rparr>)")
    (simp add: submitted_def Let_def split: if_splits)

lemma submitted_mode:
  assumes "submitted e s = Some s1"
  shows "pin_mode s1 \<noteq> PIN_IDLE \<or> pin_length s1 = 0"
proof -
  obtain t where "pin_mode t \<noteq> PIN_IDLE"
    "s1 = keypad_edit (tick e) (keypad_bits e) (keypad_bits e AND NOT (pin_previous_buttons t)) t"
    using assms by (rule submitted_Some_D)
  then show ?thesis
    using keypad_edit_same(2) [where s = t and now = "tick e" and p = "keypad_bits e"
        and newly = "keypad_bits e AND NOT (pin_previous_buttons t)"] by metis
qed

lemma task_submitted:
  "submitted e s = Some s1 \<Longrightarrow> \<exists>b. wallet_ui_task e s = (pin_submit e s1)\<lparr>pin_previous_buttons := b\<rparr>"
proof -
  assume "submitted e s = Some s1"
  then have "wallet_ui_task e s =
      (if restarted (pin_submit e s1) then pin_submit e s1
       else (pin_submit e s1)\<lparr>pin_previous_buttons := keypad_bits e\<rparr>)"
    by (rule submitted_Some_D) (simp add: wallet_ui_task_def task_keypad_def Let_def)
  moreover have "u = u\<lparr>pin_previous_buttons := pin_previous_buttons u\<rparr>" for u :: wallet by simp
  ultimately show ?thesis by metis
qed

text \<open>A call that submits nothing changes no secret and no lock, and only enters modes that
  ask for the current PIN or for the reset challenge.\<close>

definition quiet :: "wallet \<Rightarrow> wallet \<Rightarrow> bool" where
  "quiet s t \<longleftrightarrow> same_store (s\<lparr>reset_challenge := reset_challenge t\<rparr>) t \<and>
     (pin_mode t \<in> {pin_mode s, PIN_IDLE} \<or> pin_mode s = PIN_IDLE \<and> pin_mode t \<in> {PIN_CHANGE_CURRENT, PIN_RESET_CHALLENGE})"

lemma task_idle_quiet:
  assumes "pin_mode s = PIN_IDLE"
  shows "quiet s (task_idle e s)"
proof -
  define pins where "pins = pressed_bits (level e) [(5, 1), (6, 2), (21, 4), (17, 8), (7, 16)]"
  have q1: "quiet s (snd (task_timeouts (tick e) pins s))" "pin_mode (snd (task_timeouts (tick e) pins s)) = PIN_IDLE"
    using assms by (simp_all add: task_timeouts_def close_menus_def quiet_def same_store_def)
  define t where "t = task_command (snd (task_timeouts (tick e) pins s))"
  have q2: "quiet s t" "pin_mode t = PIN_IDLE"
    using q1 by (simp_all add: t_def task_command_def close_menus_def quiet_def same_store_def Let_def)
  have q3: "quiet s (snd (task_reset_confirm e pins t))"
    using q2 assms by (simp add: task_reset_confirm_def reset_challenge_start_def pin_clear_def
        quiet_def same_store_def Let_def)
  have q3': "pin_mode (snd (task_reset_confirm e pins t)) = PIN_IDLE" if "\<not> fst (task_reset_confirm e pins t)"
    using that q2(2) by (auto simp: task_reset_confirm_def split: if_splits)
  have q4: "quiet s (task_menu pins u)" if "quiet s u" "pin_mode u = PIN_IDLE" for u
    using that assms by (simp add: task_menu_def task_settings_def menu_select_def start_change_def pin_clear_def
        pin_first_clear_def quiet_def same_store_def Let_def)
  have q5: "quiet s (u\<lparr>previous_buttons := b\<rparr>) \<longleftrightarrow> quiet s u" for u b
    by (simp add: quiet_def same_store_def)
  show ?thesis
    using q1 q3 q3' q4 by (simp add: task_idle_def Let_def case_prod_beta pins_def [symmetric] t_def [symmetric] q5)
qed

lemma quiet_refl [simp]: "quiet s s"
  by (simp add: quiet_def same_store_def)

lemma quiet_of_same: "same_store s t \<Longrightarrow> pin_mode t \<in> {pin_mode s, PIN_IDLE} \<Longrightarrow> quiet s t"
  by (simp add: quiet_def same_store_def)

lemma quiet_after_gate:
  assumes "same_store s t" "pin_mode t = pin_mode s" "quiet t u"
  shows "quiet s u"
  using assms by (auto simp: quiet_def same_store_def)

lemma task_not_submitted:
  assumes "submitted e s = None"
  shows "quiet s (wallet_ui_task e s)"
proof (cases "tick e - last_poll s < pdMS_TO_TICKS 25 \<or> reset_success_visible s")
  case True
  have "quiet s (s\<lparr>last_poll := a\<rparr>)" "quiet s (s\<lparr>last_poll := a, reset_success_visible := b, pin_previous_buttons := c,
      previous_buttons := d\<rparr>)" for a b c d by (simp_all add: quiet_def same_store_def)
  then show ?thesis using True by (auto simp: wallet_ui_task_def Let_def)
next
  case False
  obtain d t where t: "task_gate e (s\<lparr>last_poll := tick e\<rparr>) = (d, t)" by fastforce
  have st: "same_store s t" "pin_mode t \<in> {pin_mode s, PIN_IDLE}" "\<not> d \<Longrightarrow> pin_mode t = pin_mode s"
    using task_gate_same [where s = "s\<lparr>last_poll := tick e\<rparr>" and e = e] by (simp_all add: t same_store_def)
  define newly where "newly = keypad_bits e AND NOT (pin_previous_buttons t)"
  consider "d" | "\<not> d" "pin_mode t = PIN_IDLE" | "\<not> d" "pin_mode t \<noteq> PIN_IDLE" "newly AND 64 = 0"
    using assms False by (fastforce simp: submitted_def t Let_def newly_def split: if_splits)
  then show ?thesis
  proof cases
    case 1
    then show ?thesis using False st by (simp add: wallet_ui_task_def t Let_def quiet_of_same)
  next
    case 2
    then show ?thesis using False st task_idle_quiet [of t e]
      by (simp add: wallet_ui_task_def t Let_def quiet_after_gate)
  next
    case 3
    define u where "u = keypad_edit (tick e) (keypad_bits e) newly t"
    have u: "same_store t u" "pin_mode u \<in> {pin_mode t, PIN_IDLE}"
      using keypad_edit_same [where s = t and now = "tick e" and p = "keypad_bits e" and newly = newly]
      by (auto simp: u_def)
    moreover have "wallet_ui_task e s = (if restarted u then u else u\<lparr>pin_previous_buttons := keypad_bits e\<rparr>)"
      using 3 False by (simp add: wallet_ui_task_def task_keypad_def t Let_def newly_def [symmetric] u_def)
    ultimately have "same_store t (wallet_ui_task e s)" "pin_mode (wallet_ui_task e s) \<in> {pin_mode t, PIN_IDLE}"
      by (simp_all add: same_store_def)
    then show ?thesis using st 3(1) by (blast intro: quiet_after_gate quiet_of_same)
  qed
qed

section \<open>Effects of submitting\<close>

lemma pin_hash_matches_iff:
  "pin_hash_matches c h \<longleftrightarrow> (\<forall>i<60. c ! i = h ! i)"
proof -
  have *: "fold (\<lambda>i d. d OR (c ! i XOR h ! i)) is acc = 0 \<longleftrightarrow> acc = 0 \<and> (\<forall>i\<in>set is. c ! i = h ! i)" for acc :: u8 and "is"
    by (induction "is" arbitrary: acc) (auto simp: or_eq_0_iff xor_eq_0_iff_word)
  show ?thesis by (auto simp: pin_hash_matches_def *)
qed

text \<open>
  An attempt that was compared with the stored hash and whose outcome was stored: its verdict and
  its time. \<open>wallet_ui_task\<close> shows nothing of other attempts.
\<close>

definition judgement :: "wallet_env \<Rightarrow> wallet \<Rightarrow> (bool \<times> u64) option" where
  "judgement e s =
    (if fst (pin_lock_check (rtc_submit e) s) = PIN_GATE_READY \<and> nvs_result e SetLock \<and> nvs_result e CommitLock
     then do { ok \<leftarrow> pin_verdict e s; now \<leftarrow> rtc_seconds (rtc_submit e); Some (ok, now) }
     else None)"

definition attempt :: "wallet_env \<Rightarrow> wallet \<Rightarrow> (bool \<times> u64) option" where
  "attempt e s = do {
     s1 \<leftarrow> submitted e s;
     if pin_length s1 = 6 \<and> pin_requires_verification s1 then judgement e s1 else None }"

lemma record_result_outcome:
  assumes "pin_lock_storage_ok s" "pin_store_open s"
  shows "pin_lock_record_result nr ok now s =
    (let r = next_lock_record ok now (pin_lock s) in
     if nr SetLock \<and> nr CommitLock then (True, s\<lparr>pin_lock := r, nvs_log := nvs_log s @ [(WriteLock r, True), (Commit, True)]\<rparr>)
     else (False, s\<lparr>pin_lock_storage_ok := False, nvs_log := nvs_log s @ (if nr SetLock then [(WriteLock r, True), (Commit, False)]
        else [(WriteLock r, False)])\<rparr>))"
  using assms by (simp add: pin_lock_record_result_def pin_lock_store_def nvs_do_def Let_def)

lemma gate_ready_iff:
  "fst (pin_lock_check port s) = PIN_GATE_READY \<longleftrightarrow>
     pin_lock_storage_ok s \<and> pin_store_open s \<and> (\<exists>now. rtc_seconds port = Some now \<and> gate_open now (pin_lock s))"
  by (auto simp: pin_lock_check_def gate_open_def Let_def split: option.splits)

text \<open>An attempt without a stored verdict: nothing is revealed and nothing is granted.\<close>

definition no_wipe_since :: "wallet \<Rightarrow> wallet \<Rightarrow> bool" where
  "no_wipe_since s t \<longleftrightarrow> (\<exists>g. nvs_log t = nvs_log s @ g \<and> (\<forall>w b. (WriteWipe w, b) \<notin> set g))"

definition undecided :: "wallet \<Rightarrow> wallet \<Rightarrow> bool" where
  "undecided s t \<longleftrightarrow> pin_lock t = pin_lock s \<and> pin_hash t = pin_hash s \<and> pin_mode t = pin_mode s \<and>
     local_auth_result t = local_auth_result s \<and> restarted t = restarted s \<and> pin_length t = 0 \<and>
     pin_setup_at_boot t = pin_setup_at_boot s \<and> no_wipe_since s t"

lemma submit_verify_undecided:
  assumes "judgement e s = None"
  shows "undecided s (submit_verify e s)"
proof (cases e s rule: submit_verify_cases)
  case (gate g n s1)
  then show ?thesis using pin_lock_check_frame [OF gate(1)]
    by (auto simp: undecided_def no_wipe_since_def)
next
  case no_hash
  then show ?thesis by (simp add: undecided_def no_wipe_since_def)
next
  case (flash now ok s2)
  then show ?thesis
    by (auto simp: undecided_def no_wipe_since_def record_result_outcome Let_def split: if_splits)
next
  case (judged now ok s2 g n s3)
  then have "judgement e s \<noteq> None"
    by (auto simp: judgement_def gate_ready_iff record_result_outcome Let_def split: if_splits)
  with assms show ?thesis by simp
qed

definition judged_state :: "bool \<Rightarrow> u64 \<Rightarrow> u64 \<times> u64 \<Rightarrow> pin_gate \<Rightarrow> wallet \<Rightarrow> wallet" where
  "judged_state ok now m g s = s\<lparr>pin_entry := replicate 7 0, pin_length := 0, pin_lock := next_lock_record ok now (pin_lock s),
     nvs_log := nvs_log s @ [(WriteLock (next_lock_record ok now (pin_lock s)), True), (Commit, True)],
     pin_lock_message := m, pin_gate_now := g\<rparr>"

lemma submit_verify_judged:
  assumes "judgement e s = Some (ok, now)"
  shows "pin_verdict e s = Some ok" "rtc_seconds (rtc_submit e) = Some now" "gate_open now (pin_lock s)"
    "\<exists>m. submit_verify e s = submit_outcome e ok (judged_state ok now m
       (fst (pin_lock_check (rtc_after e) (judged_state ok now m PIN_GATE_READY s))) s)"
proof -
  have j: "pin_verdict e s = Some ok" "rtc_seconds (rtc_submit e) = Some now"
    "fst (pin_lock_check (rtc_submit e) s) = PIN_GATE_READY" "nvs_result e SetLock" "nvs_result e CommitLock"
    using assms by (auto simp: judgement_def bind_eq_Some_conv split: if_splits)
  then show "pin_verdict e s = Some ok" "rtc_seconds (rtc_submit e) = Some now" by simp_all
  show "gate_open now (pin_lock s)" using j by (simp add: gate_ready_iff)
  show "\<exists>m. submit_verify e s = submit_outcome e ok (judged_state ok now m
       (fst (pin_lock_check (rtc_after e) (judged_state ok now m PIN_GATE_READY s))) s)"
  proof (cases e s rule: submit_verify_cases)
    case (judged now' ok' s2 g n s3)
    then have s2: "s2 = judged_state ok now (pin_lock_message s) PIN_GATE_READY s"
      using j by (auto simp: record_result_outcome Let_def pin_clear_def judged_state_def)
    obtain m where m: "s3 = s2\<lparr>pin_lock_message := m\<rparr>" using pin_lock_check_frame [OF judged(7)] by blast
    have "g = fst (pin_lock_check (rtc_after e) (judged_state ok now m PIN_GATE_READY s))"
      using judged(7) s2 by (auto simp: pin_lock_check_def judged_state_def Let_def split: if_splits option.splits)
    then show ?thesis using judged(5,8) j(1) m s2 by (intro exI [of _ m]) (simp add: judged_state_def)
  qed (use j in \<open>auto simp: record_result_outcome gate_ready_iff Let_def\<close>)
qed

lemma submit_verify_decided:
  assumes "judgement e s = Some (ok, now)"
  shows "pin_verdict e s = Some ok" "rtc_seconds (rtc_submit e) = Some now" "gate_open now (pin_lock s)"
    "\<exists>s3. submit_verify e s = submit_outcome e ok s3 \<and> pin_lock s3 = next_lock_record ok now (pin_lock s) \<and>
       nvs_log s3 = nvs_log s @ [(WriteLock (pin_lock s3), True), (Commit, True)] \<and> pin_mode s3 = pin_mode s \<and>
       pin_hash s3 = pin_hash s \<and> local_auth_result s3 = local_auth_result s \<and> restarted s3 = restarted s \<and>
       pin_setup_at_boot s3 = pin_setup_at_boot s \<and> pin_length s3 = 0"
  using submit_verify_judged [OF assms] by (auto simp: judged_state_def)

lemma submit_outcome_lock [simp]: "pin_lock (submit_outcome e ok s) = pin_lock s" "pin_hash (submit_outcome e ok s) = pin_hash s"
  using reset_schedule_wipe_frame [of e s]
  by (cases "reset_schedule_wipe e s"; auto simp: submit_outcome_def)+

lemma pin_store_new_lock:
  "pin_store_new e p s = (ok, t) \<Longrightarrow> pin_lock t = pin_lock s"
  by (auto dest!: pin_store_new_frame)

lemma submit_retype_lock [simp]: "pin_lock (submit_retype e s) = pin_lock s"
  by (cases "pin_store_new e (pin_entry s) s") (simp add: submit_retype_def Let_def pin_store_new_lock)

lemma submit_change_retype_lock [simp]: "pin_lock (submit_change_retype e s) = pin_lock s"
  by (cases "pin_store_new e (pin_entry s) s") (simp add: submit_change_retype_def Let_def pin_store_new_lock)

lemma submit_challenge_lock [simp]: "pin_lock (submit_challenge s) = pin_lock s"
  by (simp add: submit_challenge_def Let_def)

definition lock_after :: "(bool \<times> u64) option \<Rightarrow> pin_lock_record \<Rightarrow> pin_lock_record" where
  "lock_after a r = (case a of None \<Rightarrow> r | Some (ok, now) \<Rightarrow> next_lock_record ok now r)"

lemma submit_verify_lock: "pin_lock (submit_verify e s) = lock_after (judgement e s) (pin_lock s)"
proof (cases "judgement e s")
  case None
  then show ?thesis using submit_verify_undecided [OF None] by (simp add: undecided_def lock_after_def)
next
  case (Some a)
  obtain ok now where a: "a = (ok, now)" by fastforce
  then show ?thesis using submit_verify_decided(4) [of e s ok now] Some by (auto simp: lock_after_def)
qed

lemma pin_submit_lock:
  assumes "pin_mode s \<noteq> PIN_IDLE \<or> pin_length s = 0"
  shows "pin_lock (pin_submit e s) =
    lock_after (if pin_length s = 6 \<and> pin_requires_verification s then judgement e s else None) (pin_lock s)"
  using assms by (cases "pin_mode s")
    (simp_all add: pin_submit_def pin_requires_verification_def submit_verify_lock lock_after_def)

lemma task_lock: "pin_lock (wallet_ui_task e s) = lock_after (attempt e s) (pin_lock s)"
proof (cases "submitted e s")
  case None
  then show ?thesis using task_not_submitted [OF None]
    by (simp add: attempt_def lock_after_def quiet_def same_store_def)
next
  case (Some s1)
  obtain b where "wallet_ui_task e s = (pin_submit e s1)\<lparr>pin_previous_buttons := b\<rparr>"
    using task_submitted [OF Some] by blast
  moreover have "pin_mode s1 \<noteq> PIN_IDLE \<or> pin_length s1 = 0" "pin_lock s1 = pin_lock s"
    using submitted_mode [OF Some] submitted_same [OF Some] by (simp_all add: same_store_def)
  ultimately show ?thesis by (simp add: pin_submit_lock attempt_def Some)
qed

text \<open>What a stored new PIN leaves.\<close>

definition pin_replaced :: "wallet_env \<Rightarrow> bytes \<Rightarrow> wallet \<Rightarrow> wallet \<Rightarrow> bool" where
  "pin_replaced e pin s t \<longleftrightarrow> (\<exists>salt h. gensalt_rn e (random16 e) = Some salt \<and>
     crypt_rn e (cstr pin) (cstr salt) = Some h \<and> pin_hash t = h \<and> pin_store_open s \<and>
     nvs_log t = nvs_log s @ [(WriteHash (cstr h), True), (Commit, True)])"

lemma pin_store_new_ok:
  "pin_store_new e pin s = (True, t) \<Longrightarrow> pin_replaced e pin s t \<and> t = s\<lparr>pin_hash := pin_hash t, nvs_log := nvs_log t\<rparr>"
  by (auto simp: pin_store_new_def pin_replaced_def pin_calculate_def nvs_do_def Let_def split: if_splits option.splits)

lemma pin_store_new_failed:
  "pin_store_new e pin s = (False, t) \<Longrightarrow> pin_hash t = pin_hash s \<and> no_wipe_since s t"
  by (auto simp: pin_store_new_def pin_calculate_def nvs_do_def no_wipe_since_def Let_def
      split: if_splits option.splits)

lemma submit_retype_auth:
  assumes "local_auth_result (submit_retype e s) = 1" "local_auth_result s \<noteq> 1"
  shows "\<not> pin_setup_at_boot s" "take 6 (pin_first s) = take 6 (pin_entry s)"
    "pin_replaced e (pin_entry s) s (submit_retype e s)"
proof -
  obtain ok t where t: "pin_store_new e (pin_entry s) s = (ok, t)" by fastforce
  have "local_auth_result t = local_auth_result s" "pin_setup_at_boot t = pin_setup_at_boot s"
    using pin_store_new_frame [OF t] by auto
  then have *: "take 6 (pin_first s) = take 6 (pin_entry s) \<and> ok \<and> \<not> pin_setup_at_boot s"
    using assms by (auto simp: submit_retype_def t Let_def split: if_splits)
  then show "\<not> pin_setup_at_boot s" "take 6 (pin_first s) = take 6 (pin_entry s)" by simp_all
  show "pin_replaced e (pin_entry s) s (submit_retype e s)"
    using * pin_store_new_ok [of e "pin_entry s" s t] t \<open>pin_setup_at_boot t = _\<close>
    by (simp add: submit_retype_def Let_def pin_replaced_def)
qed

lemma submit_change_retype_auth [simp]: "local_auth_result (submit_change_retype e s) = local_auth_result s"
  using pin_store_new_frame [of e "pin_entry s" s]
  by (cases "pin_store_new e (pin_entry s) s") (auto simp: submit_change_retype_def Let_def)

lemma submit_outcome_auth:
  "local_auth_result (submit_outcome e ok s) =
    (if ok \<and> pin_mode s \<notin> {PIN_CHANGE_CURRENT, PIN_RESET_VERIFY} then 1 else local_auth_result s)"
  using reset_schedule_wipe_frame [of e s]
  by (cases "reset_schedule_wipe e s") (auto simp: submit_outcome_def)

lemma submit_outcome_log:
  "\<exists>g. nvs_log (submit_outcome e ok s) = nvs_log s @ g \<and>
     (\<forall>w b. (WriteWipe w, b) \<in> set g \<longrightarrow> ok \<and> pin_mode s = PIN_RESET_VERIFY) \<and>
     (\<forall>r b. (WriteLock r, b) \<notin> set g)"
  by (simp add: submit_outcome_def reset_schedule_wipe_def nvs_do_def Let_def)

lemma submit_verify_auth:
  assumes "local_auth_result (submit_verify e s) = 1" "local_auth_result s \<noteq> 1"
  shows "\<exists>now. judgement e s = Some (True, now) \<and> pin_mode s \<notin> {PIN_CHANGE_CURRENT, PIN_RESET_VERIFY}"
proof (cases "judgement e s")
  case None
  then show ?thesis using submit_verify_undecided [OF None] assms by (simp add: undecided_def)
next
  case (Some a)
  moreover obtain ok now where "a = (ok, now)" by fastforce
  ultimately show ?thesis using submit_verify_decided(4) [of e s ok now] assms
    by (auto simp: submit_outcome_auth split: if_splits)
qed

text \<open>
  The conditions under which an attempt counts as the right PIN: the clock is readable and past
  both the last attempt and the waiting time, the stored hash is the bcrypt hash of what was typed
  (all 60 characters), and the first thing the attempt did to flash was to write the record with
  the failure counter reset and to commit it, both with success.
\<close>

definition right_pin :: "wallet_env \<Rightarrow> wallet \<Rightarrow> wallet \<Rightarrow> bool" where
  "right_pin e s t \<longleftrightarrow> (\<exists>now h. rtc_seconds (rtc_submit e) = Some now \<and> last_seen (pin_lock s) \<le> now \<and>
     locked_until (pin_lock s) \<le> now \<and> crypt_rn e (cstr (pin_entry s)) (cstr (pin_hash s)) = Some h \<and>
     (\<forall>i<60. h ! i = pin_hash s ! i) \<and> failures (pin_lock t) = 0 \<and> last_seen (pin_lock t) = now \<and>
     (\<exists>g. nvs_log t = nvs_log s @ [(WriteLock (pin_lock t), True), (Commit, True)] @ g))"

lemma judgement_right_pin:
  assumes "judgement e s = Some (True, now)"
  shows "right_pin e s (submit_verify e s)"
proof -
  obtain s3 where s3: "submit_verify e s = submit_outcome e True s3" "pin_lock s3 = next_lock_record True now (pin_lock s)"
    "nvs_log s3 = nvs_log s @ [(WriteLock (pin_lock s3), True), (Commit, True)]"
    using submit_verify_decided(4) [OF assms] by blast
  obtain g where "nvs_log (submit_outcome e True s3) = nvs_log s3 @ g"
    using submit_outcome_log by blast
  moreover have "failures (pin_lock s3) = 0" "last_seen (pin_lock s3) = now"
    by (simp_all add: s3(2) next_lock_record_def Let_def)
  ultimately show ?thesis
    using submit_verify_decided(1-3) [OF assms] s3
    unfolding right_pin_def by (auto simp: gate_open_def pin_verdict_def pin_calculate_def pin_hash_matches_iff)
qed

lemma authorization_facts:
  assumes "keypad_inv s" "local_auth_result s \<noteq> 1" "local_auth_result (wallet_ui_task e s) = 1"
  shows "\<exists>s1. submitted e s = Some s1 \<and> pin_hash s1 = pin_hash s \<and> pin_lock s1 = pin_lock s \<and>
    length (cstr (pin_entry s1)) = 6 \<and>
    (pin_mode s = PIN_VERIFY \<and> right_pin e s1 (wallet_ui_task e s) \<or>
     pin_mode s = PIN_RETYPE \<and> \<not> pin_setup_at_boot s \<and> take 6 (pin_first s1) = take 6 (pin_entry s1) \<and>
       pin_replaced e (pin_entry s1) s1 (wallet_ui_task e s))"
proof (cases "submitted e s")
  case None
  then show ?thesis using task_not_submitted [OF None] assms by (auto simp: quiet_def same_store_def)
next
  case (Some s1)
  obtain b where t: "wallet_ui_task e s = (pin_submit e s1)\<lparr>pin_previous_buttons := b\<rparr>"
    using task_submitted [OF Some] by blast
  have s1: "pin_hash s1 = pin_hash s" "pin_lock s1 = pin_lock s" "pin_setup_at_boot s1 = pin_setup_at_boot s"
    "local_auth_result s1 \<noteq> 1" "pin_mode s1 \<noteq> PIN_IDLE \<or> pin_length s1 = 0" "keypad_inv s1"
    "pin_mode s1 = pin_mode s \<or> pin_mode s1 = PIN_IDLE \<and> pin_length s1 = 0"
    using submitted_same [OF Some] submitted_mode [OF Some] submitted_inv [OF Some] assms
    by (auto simp: same_store_def)
  have a: "local_auth_result (pin_submit e s1) = 1" using assms(3) t by simp
  have six: "pin_length s1 = 6" "pin_mode s1 = pin_mode s"
    and m: "pin_mode s1 = PIN_RETYPE \<and> pin_submit e s1 = submit_retype e s1 \<or>
      pin_requires_verification s1 \<and> pin_submit e s1 = submit_verify e s1"
    using a s1(4,5,7) by (cases "pin_mode s1"; auto simp: pin_submit_def submit_challenge_def
        pin_requires_verification_def Let_def split: if_splits)+
  have "length (cstr (pin_entry s1)) = 6"
    using s1(6) six(1) entry_ok_cstr(2) by (auto simp: keypad_inv_entry)
  moreover have "pin_mode s = PIN_VERIFY \<and> right_pin e s1 (pin_submit e s1) \<or>
     pin_mode s = PIN_RETYPE \<and> \<not> pin_setup_at_boot s \<and> take 6 (pin_first s1) = take 6 (pin_entry s1) \<and>
       pin_replaced e (pin_entry s1) s1 (pin_submit e s1)"
    using m submit_retype_auth [of e s1] submit_verify_auth [of e s1] a s1(3,4) six(2) judgement_right_pin [of e s1]
    by (auto simp: pin_requires_verification_def)
  ultimately show ?thesis
    using Some s1 t by (simp add: right_pin_def pin_replaced_def)
qed

text \<open>
  C2. The wallet grants a local authorization only for a right PIN: if a call of \<open>wallet_ui_task\<close>
  turns \<open>local_auth_result\<close> into 1, that call submitted six digits, and either the mode was
  PIN_VERIFY and the digits were the right PIN by \<open>right_pin\<close>, or no PIN dialogue of the boot was
  pending, the mode was PIN_RETYPE, the same six digits had been typed twice and their hash was
  committed to flash.
\<close>

theorem authorization_needs_pin:
  assumes "keypad_inv s" "local_auth_result s \<noteq> 1" "local_auth_result (wallet_ui_task e s) = 1"
  shows "\<exists>s1. submitted e s = Some s1 \<and> pin_hash s1 = pin_hash s \<and> pin_lock s1 = pin_lock s \<and>
    length (cstr (pin_entry s1)) = 6 \<and>
    (pin_mode s = PIN_VERIFY \<and> right_pin e s1 (wallet_ui_task e s) \<or>
     pin_mode s = PIN_RETYPE \<and> \<not> pin_setup_at_boot s \<and> take 6 (pin_first s1) = take 6 (pin_entry s1) \<and>
       pin_replaced e (pin_entry s1) s1 (wallet_ui_task e s))"
  by (rule authorization_facts [OF assms])

text \<open>A device for the examples: a stand-in for bcrypt that satisfies what the code relies on,
  and a wallet with the PIN 123456 typed in and the confirm button going down.\<close>

definition demo_crypt :: "bytes \<Rightarrow> bytes \<Rightarrow> bytes option" where
  "demo_crypt p c = (if c = [] then None else Some (take 60 (p @ replicate 60 (last c)) @ [0]))"

definition demo_env :: wallet_env where
  "demo_env = \<lparr>tick = 100, tick_later = 100, level = (\<lambda>pin. pin \<noteq> 6), level_again = (\<lambda>_. True),
     rtc_refresh = leap_day_evening, rtc_submit = leap_day_evening, rtc_after = march_midnight,
     nvs_result = (\<lambda>_. True), crypt_rn = demo_crypt, gensalt_rn = Some, random16 = replicate 16 7, random32 = 1234\<rparr>"

definition demo_hash :: bytes where
  "demo_hash = [49, 50, 51, 52, 53, 54] @ replicate 54 36 @ [0]"

definition demo_wallet :: "pin_mode \<Rightarrow> wallet" where
  "demo_wallet m = wallet_static\<lparr>pin_store_open := True, pin_mode := m, pin_hash := demo_hash, pin_length := 6,
     pin_entry := [49, 50, 51, 52, 53, 54, 0], pin_first := [49, 50, 51, 52, 53, 54, 0], pin_previous_buttons := 0\<rparr>"

lemma entry_ok_digits:
  assumes "length ds \<le> 6" "set ds \<subseteq> {48..57}"
  shows "entry_ok (ds @ replicate (7 - length ds) 0) (length ds)"
proof -
  have "ds ! i \<in> {48..57}" if "i < length ds" for i using assms(2) that nth_mem by blast
  then show ?thesis using assms(1) by (auto simp: entry_ok_def nth_append)
qed

lemma numeral_6_eq_6: "(6 :: nat) = Suc (Suc (Suc (Suc (Suc (Suc 0)))))" by simp

lemma demo_entry: "entry_ok [49, 50, 51, 52, 53, 54, 0] 6"
proof -
  have "entry_ok ([49, 50, 51, 52, 53, 54] @ replicate (7 - 6) 0) 6"
    using entry_ok_digits [of "[49, 50, 51, 52, 53, 54]"] by (simp add: word_le_nat_alt numeral_6_eq_6)
  then show ?thesis by simp
qed

lemma demo_inv: "m \<noteq> PIN_RESET_CHALLENGE \<Longrightarrow> keypad_inv (demo_wallet m)"
  by (simp add: demo_wallet_def wallet_static_def keypad_inv_entry demo_hash_def demo_entry word_le_nat_alt)

lemma demo_wallet_fields [simp]:
  "pin_lock (demo_wallet m) = \<lparr>version = 0, failures = 0, locked_until = 0, last_seen = 0\<rparr>"
  "pin_lock_storage_ok (demo_wallet m)" "pin_store_open (demo_wallet m)" "pin_lock_checked_at (demo_wallet m) = 0"
  "pin_gate_now (demo_wallet m) = PIN_GATE_READY" "\<not> reset_success_visible (demo_wallet m)"
  "last_poll (demo_wallet m) = 0" "pin_previous_buttons (demo_wallet m) = 0" "selected_key (demo_wallet m) = 0"
  "\<not> pin_back_down (demo_wallet m)" "pin_mode (demo_wallet m) = m" "pin_length (demo_wallet m) = 6"
  "\<not> pin_lock_back_previous (demo_wallet m)" "pin_hash (demo_wallet m) = demo_hash"
  "pin_entry (demo_wallet m) = [49, 50, 51, 52, 53, 54, 0]" "local_auth_result (demo_wallet m) = 0"
  "nvs_log (demo_wallet m) = []" "\<not> restarted (demo_wallet m)"
  by (simp_all add: demo_wallet_def wallet_static_def)

lemma demo_env_fields [simp]:
  "tick demo_env = 100" "rtc_refresh demo_env = leap_day_evening" "rtc_submit demo_env = leap_day_evening"
  "rtc_after demo_env = march_midnight" "nvs_result demo_env c" "crypt_rn demo_env = demo_crypt"
  by (simp_all add: demo_env_def)

lemma demo_keys [simp]: "keypad_bits demo_env = 64" "next_key 64 0 = 0"
  by (simp_all add: keypad_bits_def pressed_bits_def demo_env_def next_key_def)

definition demo_polled :: "pin_mode \<Rightarrow> wallet" where
  "demo_polled m = (demo_wallet m)\<lparr>last_poll := 100, pin_lock_checked_at := 100\<rparr>"

lemma demo_gate_refresh: "gate_refresh demo_env ((demo_wallet m)\<lparr>last_poll := 100\<rparr>) = demo_polled m"
  by (simp add: gate_refresh_def pin_lock_check_def leap_day_evening_seconds demo_polled_def
      demo_wallet_def wallet_static_def)

lemma demo_task_gate:
  assumes "m \<in> {PIN_VERIFY, PIN_RESET_VERIFY, PIN_CHANGE_CURRENT}"
  shows "task_gate demo_env ((demo_wallet m)\<lparr>last_poll := 100\<rparr>) = (False, demo_polled m)"
proof -
  have "pin_requires_verification ((demo_wallet m)\<lparr>last_poll := 100\<rparr>)"
    using assms by (auto simp: pin_requires_verification_def)
  then show ?thesis
    by (simp add: task_gate_eq demo_gate_refresh) (simp add: demo_polled_def demo_wallet_def wallet_static_def)
qed

lemma demo_submitted:
  assumes "m \<in> {PIN_VERIFY, PIN_RESET_VERIFY, PIN_CHANGE_CURRENT}"
  shows "submitted demo_env (demo_wallet m) = Some (demo_polled m)"
proof -
  have "keypad_edit 100 64 64 (demo_polled m) = demo_polled m"
    by (simp add: keypad_edit_def back_hold_def back_release_def demo_polled_def demo_wallet_def wallet_static_def)
  moreover have "pin_mode (demo_polled m) \<noteq> PIN_IDLE" "pin_previous_buttons (demo_polled m) = 0"
    using assms by (auto simp: demo_polled_def)
  moreover have "\<not> (100 :: u32) < pdMS_TO_TICKS 25" by (simp add: pdMS_TO_TICKS_def word_less_nat_alt)
  ultimately show ?thesis using assms by (simp add: submitted_def demo_task_gate)
qed

lemma cstr_terminated: "0 \<notin> set xs \<Longrightarrow> cstr (xs @ 0 # ys) = xs"
  by (induction xs) (auto simp: cstr_def)

lemma demo_judgement: "judgement demo_env (demo_polled m) = Some (True, 762566370)"
proof -
  have "cstr [49, 50, 51, 52, 53, 54, 0 :: u8] = [49, 50, 51, 52, 53, 54]" by (simp add: cstr_def)
  moreover have "demo_crypt [49, 50, 51, 52, 53, 54] (cstr demo_hash) = Some demo_hash"
    using cstr_terminated [of "[49, 50, 51, 52, 53, 54] @ replicate 54 36" "[]"] by (simp add: demo_crypt_def demo_hash_def)
  ultimately have "pin_verdict demo_env (demo_polled m) = Some True"
    by (simp add: pin_verdict_def pin_calculate_def demo_polled_def pin_hash_matches_iff)
  then show ?thesis
    by (simp add: judgement_def gate_ready_iff leap_day_evening_seconds gate_open_def demo_polled_def)
qed

lemma demo_task:
  assumes "m \<in> {PIN_VERIFY, PIN_RESET_VERIFY, PIN_CHANGE_CURRENT}"
  shows "\<exists>b. wallet_ui_task demo_env (demo_wallet m) = (submit_verify demo_env (demo_polled m))\<lparr>pin_previous_buttons := b\<rparr>"
proof -
  have "pin_submit demo_env (demo_polled m) = submit_verify demo_env (demo_polled m)"
    using assms by (auto simp: pin_submit_def demo_polled_def)
  then show ?thesis using task_submitted [OF demo_submitted [OF assms]] by simp
qed

lemma demo_authorized: "local_auth_result (wallet_ui_task demo_env (demo_wallet PIN_VERIFY)) = 1"
proof -
  obtain s3 where s3: "submit_verify demo_env (demo_polled PIN_VERIFY) = submit_outcome demo_env True s3"
      "pin_mode s3 = PIN_VERIFY"
    using submit_verify_decided(4) [OF demo_judgement, of PIN_VERIFY] by (auto simp: demo_polled_def)
  then show ?thesis using demo_task [of PIN_VERIFY] by (auto simp: submit_outcome_auth)
qed

theorem authorization_needs_pin_witness:
  "\<exists>s1. submitted demo_env (demo_wallet PIN_VERIFY) = Some s1 \<and>
     right_pin demo_env s1 (wallet_ui_task demo_env (demo_wallet PIN_VERIFY))"
  using authorization_needs_pin [OF demo_inv _ demo_authorized] by auto

end
