(* ===== verification/Wallet_Runs.thy ===== *)
theory Wallet_Runs
  imports Wallet_Safety
begin

text \<open>
  Properties of every run of the wallet since boot: any interleaving of task polls with the calls
  of the other components. The buffers stay sound, the attempts follow the retry schedule, and
  changing the PIN or wiping the device needs the current PIN.
\<close>

section \<open>Runs of the device\<close>

inductive wallet_run :: "init_env \<Rightarrow> (wallet_env \<times> wallet) list \<Rightarrow> wallet \<Rightarrow> bool" for ie where
  boot: "(\<And>h z. init_hash ie = Some (h, z) \<Longrightarrow> length h = 61) \<Longrightarrow> wallet_run ie [] (wallet_ui_init ie wallet_static)"
| task: "wallet_run ie tr s \<Longrightarrow> \<not> restarted s \<Longrightarrow> crypt_fits e \<Longrightarrow> wallet_run ie (tr @ [(e, s)]) (wallet_ui_task e s)"
| prompt: "wallet_run ie tr s \<Longrightarrow> \<not> restarted s \<Longrightarrow> wallet_run ie tr (wallet_ui_prompt s)"
| take: "wallet_run ie tr s \<Longrightarrow> \<not> restarted s \<Longrightarrow> wallet_run ie tr (snd (wallet_ui_take_local_authorization s))"
| result: "wallet_run ie tr s \<Longrightarrow> \<not> restarted s \<Longrightarrow> wallet_run ie tr (wallet_ui_result now m s)"
| command: "wallet_run ie tr s \<Longrightarrow> \<not> restarted s \<Longrightarrow> wallet_run ie tr (wallet_ui_command now c s)"

text \<open>
  C7. Memory safety of PIN entry: in every state the device reaches, through any interleaving of
  task polls, prompts, results and commands, the digit buffers keep their sizes, the write position
  is at most 6 (4 during the reset challenge), so the digit and its terminator are written inside
  the 7-byte buffer, the typed prefix consists of digits and the rest is zero, and the cursor is on
  a digit key.
\<close>

theorem keypad_buffers_safe: "wallet_run ie tr s \<Longrightarrow> keypad_inv s"
  by (induction rule: wallet_run.induct) (simp_all add: inv_wallet_ui_init wallet_inv)

text \<open>
  The verdict a call of the task lets the user see, read from the states before and after it and
  from nothing else: the notice WRONG PIN appears, or the authorization is granted, the dialogue
  for a new PIN opens, or the wipe is scheduled.
\<close>

definition revealed :: "wallet \<Rightarrow> wallet \<Rightarrow> bool option" where
  "revealed s t =
    (if \<not> pin_requires_verification s then None
     else if pin_notice s \<noteq> Some ''WRONG PIN'' \<and> pin_notice t = Some ''WRONG PIN'' then Some False
     else if pin_mode s = PIN_VERIFY \<and> local_auth_result t = 1 \<or> pin_mode t = PIN_CHANGE_NEW \<or>
       (\<exists>b. (WriteWipe 1, b) \<in> set (drop (length (nvs_log s)) (nvs_log t))) then Some True
     else None)"

text \<open>
  The guesses of a run: the verdicts it lets the user see, each with the time read at that call.
\<close>

definition guesses :: "(wallet_env \<times> wallet) list \<Rightarrow> (bool \<times> u64) list" where
  "guesses tr = concat (map (\<lambda>(e, s). case revealed s (wallet_ui_task e s) of None \<Rightarrow> []
     | Some ok \<Rightarrow> [(ok, the (rtc_seconds (rtc_submit e)))]) tr)"

text \<open>Apart from a submission, a call takes the notice away or keeps it and adds no digit under it.\<close>

definition notice_kept :: "wallet \<Rightarrow> wallet \<Rightarrow> bool" where
  "notice_kept s t \<longleftrightarrow> pin_notice t = None \<or> pin_notice t = pin_notice s \<and> pin_length t \<le> pin_length s"

lemma notice_kept_trans: "notice_kept s t \<Longrightarrow> notice_kept t u \<Longrightarrow> notice_kept s u"
  by (auto simp: notice_kept_def)

lemma notice_kept_refl [simp]: "notice_kept s s" by (simp add: notice_kept_def)

lemma keypad_edit_notice: "notice_kept s (keypad_edit now p newly s)"
  "pin_length (keypad_edit now p newly s) \<le> Suc (pin_length s)"
proof -
  define t where "t = s\<lparr>selected_key := next_key newly (selected_key s)\<rparr>"
  define u where "u = (if newly AND 16 \<noteq> 0 then key_press t else t)"
  define v where "v = (if newly AND 32 \<noteq> 0 then
     u\<lparr>pin_back_down := True, pin_back_cancelled := False, pin_back_started := now\<rparr> else u)"
  have e: "keypad_edit now p newly s = back_release p (back_hold now p v)"
    by (simp add: keypad_edit_def t_def u_def v_def Let_def)
  have v: "notice_kept s v" "pin_length v \<le> Suc (pin_length s)"
    by (simp_all add: v_def u_def t_def key_press_def notice_kept_def Let_def)
  have h: "notice_kept v (back_hold now p v)" "pin_length (back_hold now p v) \<le> pin_length v"
    by (simp_all add: back_hold_def notice_kept_def Let_def)
  have r: "notice_kept w (back_release p w)" for w
    by (simp add: back_release_def notice_kept_def)
  show "notice_kept s (keypad_edit now p newly s)" unfolding e
    using v(1) h(1) r by (blast intro: notice_kept_trans)
  show "pin_length (keypad_edit now p newly s) \<le> Suc (pin_length s)"
    unfolding e using v(2) h(2) back_release_same(3) by (meson le_trans)
qed

lemma task_gate_notice: "notice_kept s (snd (task_gate e s))"  "pin_length (snd (task_gate e s)) \<le> pin_length s"
proof -
  have "notice_kept s (gate_refresh e s) \<and> pin_length (gate_refresh e s) = pin_length s"
    by (auto simp: gate_refresh_def pin_lock_check_def notice_kept_def Let_def split: option.splits)
  then show "notice_kept s (snd (task_gate e s))"  "pin_length (snd (task_gate e s)) \<le> pin_length s"
    by (auto simp: task_gate_eq gate_back_def pin_clear_def notice_kept_def Let_def)
qed

lemma task_idle_notice: "notice_kept s (task_idle e s)"
proof -
  have 1: "notice_kept s (snd (task_timeouts now pins s))" for now pins
    by (simp add: task_timeouts_def close_menus_def notice_kept_def)
  have 2: "notice_kept s (task_command s)" for s
    by (simp add: task_command_def close_menus_def notice_kept_def Let_def)
  have 3: "notice_kept s (snd (task_reset_confirm e pins s))" for s pins
    by (simp add: task_reset_confirm_def reset_challenge_start_def notice_kept_def Let_def)
  have 4: "notice_kept s (task_menu pins s)" for s pins
    by (simp add: task_menu_def task_settings_def menu_select_def start_change_def pin_clear_def
        pin_first_clear_def notice_kept_def Let_def)
  have 5: "notice_kept s (u\<lparr>previous_buttons := b\<rparr>) \<longleftrightarrow> notice_kept s u" for u b
    by (simp add: notice_kept_def)
  show ?thesis
    unfolding task_idle_def Let_def case_prod_beta
    using 1 2 3 4 by (simp add: 5 split del: if_split split: if_split) (meson notice_kept_trans)
qed

lemma task_not_submitted_notice:
  assumes "submitted e s = None"
  shows "notice_kept s (wallet_ui_task e s)"
proof -
  obtain d t where t: "task_gate e (s\<lparr>last_poll := tick e\<rparr>) = (d, t)" by fastforce
  have k: "notice_kept s t"
    using task_gate_notice(1) [where s = "s\<lparr>last_poll := tick e\<rparr>" and e = e] by (simp add: t notice_kept_def)
  have p: "notice_kept s (u\<lparr>pin_previous_buttons := b\<rparr>) \<longleftrightarrow> notice_kept s u" for u b
    by (simp add: notice_kept_def)
  show ?thesis
  proof (cases "tick e - last_poll s < pdMS_TO_TICKS 25 \<or> reset_success_visible s")
    case True
    then show ?thesis by (auto simp: wallet_ui_task_def notice_kept_def Let_def)
  next
    case False
    then show ?thesis using assms k notice_kept_trans [OF k keypad_edit_notice(1)] notice_kept_trans [OF k task_idle_notice]
      by (auto simp: wallet_ui_task_def submitted_def t task_keypad_def Let_def p split: if_splits)
  qed
qed

lemma submitted_notice:
  assumes "submitted e s = Some s1"
  shows "notice_kept s s1" "pin_length s1 \<le> Suc (pin_length s)"
proof -
  obtain t where t: "task_gate e (s\<lparr>last_poll := tick e\<rparr>) = (False, t)"
    "s1 = keypad_edit (tick e) (keypad_bits e) (keypad_bits e AND NOT (pin_previous_buttons t)) t"
    using assms by (rule submitted_Some_D)
  have "notice_kept s t" "pin_length t \<le> pin_length s"
    using task_gate_notice [where s = "s\<lparr>last_poll := tick e\<rparr>" and e = e] by (simp_all add: t(1) notice_kept_def)
  then show "notice_kept s s1" "pin_length s1 \<le> Suc (pin_length s)"
    using keypad_edit_notice [where s = t and now = "tick e" and p = "keypad_bits e"
        and newly = "keypad_bits e AND NOT (pin_previous_buttons t)"]
    unfolding t(2) by (auto intro: notice_kept_trans)
qed

text \<open>A verdict shown earlier is not mistaken for a new one.\<close>

definition verdict_fresh :: "wallet \<Rightarrow> bool" where
  "verdict_fresh s \<longleftrightarrow> (pin_notice s = Some ''WRONG PIN'' \<longrightarrow> pin_length s = 0) \<and>
     (pin_mode s = PIN_VERIFY \<longrightarrow> local_auth_result s \<noteq> 1)"

lemma undecided_notice:
  assumes "judgement e s = None"
  shows "pin_notice (submit_verify e s) \<in> {pin_notice s, Some ''HASH ERROR'', Some ''FLASH ERROR''}"
proof (cases e s rule: submit_verify_cases)
  case (gate g n s1)
  then show ?thesis using pin_lock_check_frame [OF gate(1)] by (auto simp: pin_clear_def)
next
  case (judged now ok s2 g n s3)
  then have "judgement e s \<noteq> None"
    by (auto simp: judgement_def gate_ready_iff record_result_outcome Let_def split: if_splits)
  with assms show ?thesis by simp
qed auto

lemma decided_revealed:
  assumes "judgement e s = Some (ok, now)" "pin_requires_verification s"
    "pin_notice s \<noteq> Some ''WRONG PIN''"
  shows "revealed s (submit_verify e s) = Some ok"
proof -
  obtain m g where m: "submit_verify e s = submit_outcome e ok (judged_state ok now m g s)"
    using submit_verify_judged(4) [OF assms(1)] by blast
  have "pin_store_open s" using assms(1) by (auto simp: judgement_def gate_ready_iff split: if_splits)
  then show ?thesis using assms(2,3)
    by (cases ok) (auto simp: m revealed_def submit_outcome_def judged_state_def pin_requires_verification_def
        reset_schedule_wipe_def nvs_do_def Let_def)
qed

lemma undecided_revealed:
  assumes "judgement e s = None" "pin_mode s = PIN_VERIFY \<Longrightarrow> local_auth_result s \<noteq> 1"
  shows "revealed s (submit_verify e s) = None"
  using submit_verify_undecided [OF assms(1)] undecided_notice [OF assms(1)] assms(2)
  by (auto simp: revealed_def undecided_def no_wipe_since_def pin_requires_verification_def)

text \<open>The submitted state differs from the polled one in nothing a verdict is read from.\<close>

lemma revealed_submitted:
  assumes "submitted e s = Some s1" "pin_length s1 = 6" "verdict_fresh s"
  shows "revealed s t = revealed s1 t" "pin_notice s1 \<noteq> Some ''WRONG PIN''"
    "pin_mode s1 = PIN_VERIFY \<Longrightarrow> local_auth_result s1 \<noteq> 1"
proof -
  have m: "pin_mode s1 = pin_mode s" "same_store s s1" using submitted_same [OF assms(1)] assms(2) by auto
  have n: "pin_notice s \<noteq> Some ''WRONG PIN''" using submitted_notice(2) [OF assms(1)] assms(2,3) by (auto simp: verdict_fresh_def)
  then show "pin_notice s1 \<noteq> Some ''WRONG PIN''" using submitted_notice(1) [OF assms(1)] by (auto simp: notice_kept_def)
  with n m show "revealed s t = revealed s1 t"
    by (simp add: revealed_def same_store_def pin_requires_verification_def)
  show "pin_mode s1 = PIN_VERIFY \<Longrightarrow> local_auth_result s1 \<noteq> 1" using m assms(3) by (auto simp: same_store_def verdict_fresh_def)
qed

lemma quiet_facts:
  assumes "quiet s t"
  shows "nvs_log t = nvs_log s" "local_auth_result t = local_auth_result s \<or> local_auth_result t = - 1"
    "pin_mode t = PIN_VERIFY \<Longrightarrow> pin_mode s = PIN_VERIFY" "pin_mode t = PIN_CHANGE_NEW \<Longrightarrow> pin_mode s = PIN_CHANGE_NEW"
  using assms by (auto simp: quiet_def same_store_def)

lemma task_revealed:
  assumes "verdict_fresh s"
  shows "revealed s (wallet_ui_task e s) = map_option fst (attempt e s)"
proof (cases "submitted e s")
  case None
  note q = quiet_facts [OF task_not_submitted [OF None]]
  have "pin_notice (wallet_ui_task e s) = Some ''WRONG PIN'' \<Longrightarrow> pin_notice s = Some ''WRONG PIN''"
    using task_not_submitted_notice [OF None] by (simp add: notice_kept_def)
  moreover have "pin_mode s = PIN_VERIFY \<Longrightarrow> local_auth_result (wallet_ui_task e s) \<noteq> 1"
    using q(2) assms unfolding verdict_fresh_def by linarith
  moreover have "pin_requires_verification s \<Longrightarrow> pin_mode (wallet_ui_task e s) \<noteq> PIN_CHANGE_NEW"
    using q(4) by (auto simp: pin_requires_verification_def)
  ultimately show ?thesis using q(1) by (simp add: attempt_def None revealed_def) blast
next
  case (Some s1)
  obtain b where t: "wallet_ui_task e s = (pin_submit e s1)\<lparr>pin_previous_buttons := b\<rparr>"
    using task_submitted [OF Some] by blast
  have r: "revealed u (v\<lparr>pin_previous_buttons := b\<rparr>) = revealed u v" for u v by (simp add: revealed_def)
  have ss: "same_store s s1" "pin_mode s1 = pin_mode s \<or> pin_mode s1 = PIN_IDLE \<and> pin_length s1 = 0"
    using submitted_same [OF Some] by auto
  show ?thesis
  proof (cases "pin_length s1 = 6 \<and> pin_requires_verification s1")
    case True
    note f = revealed_submitted [OF Some _ assms]
    have "pin_submit e s1 = submit_verify e s1" using True by (auto simp: pin_submit_def pin_requires_verification_def)
    then have "revealed s (wallet_ui_task e s) = revealed s1 (submit_verify e s1)" using f(1) True by (simp add: t r)
    moreover have "revealed s1 (submit_verify e s1) = map_option fst (judgement e s1)"
      using decided_revealed [of e s1] undecided_revealed [of e s1] f(2,3) True by (cases "judgement e s1") auto
    ultimately show ?thesis using True by (simp add: attempt_def Some)
  next
    case False
    have "revealed s (pin_submit e s1) = None"
    proof (cases "pin_requires_verification s")
      case True
      then have "pin_submit e s1 = s1" using False ss(2) by (auto simp: pin_submit_def pin_requires_verification_def)
      moreover have "pin_notice s1 = Some ''WRONG PIN'' \<Longrightarrow> pin_notice s = Some ''WRONG PIN''"
        using submitted_notice(1) [OF Some] by (simp add: notice_kept_def)
      moreover have "pin_mode s = PIN_VERIFY \<Longrightarrow> local_auth_result s1 \<noteq> 1" "nvs_log s1 = nvs_log s"
        using ss(1) assms by (auto simp: same_store_def verdict_fresh_def)
      moreover have "pin_mode s1 \<noteq> PIN_CHANGE_NEW" using ss(2) True by (auto simp: pin_requires_verification_def)
      ultimately show ?thesis by (simp add: revealed_def) blast
    qed (simp add: revealed_def)
    then show ?thesis using False by (auto simp: attempt_def Some t r)
  qed
qed

lemma submit_verify_fresh:
  assumes "verdict_fresh s" "pin_requires_verification s"
  shows "verdict_fresh (submit_verify e s)"
proof (cases "judgement e s")
  case None
  then show ?thesis using submit_verify_undecided [OF None] assms by (simp add: undecided_def verdict_fresh_def)
next
  case (Some a)
  moreover obtain ok now where "a = (ok, now)" by fastforce
  ultimately obtain s3 where "submit_verify e s = submit_outcome e ok s3" "pin_length s3 = 0"
    "pin_mode s3 = pin_mode s" "local_auth_result s3 = local_auth_result s"
    using submit_verify_decided(4) [of e s ok now] by blast
  then show ?thesis using assms
    by (simp add: verdict_fresh_def submit_outcome_def reset_schedule_wipe_def nvs_do_def Let_def pin_requires_verification_def)
qed

lemma pin_submit_fresh:
  assumes "verdict_fresh s" "pin_mode s \<noteq> PIN_IDLE \<or> pin_length s = 0"
  shows "verdict_fresh (pin_submit e s)"
proof -
  obtain ok t where t: "pin_store_new e (pin_entry s) s = (ok, t)" by fastforce
  then have m: "pin_mode t = pin_mode s" using pin_store_new_frame by fastforce
  have "verdict_fresh (submit_retype e s)" if "pin_mode s = PIN_RETYPE"
    using that by (simp add: submit_retype_def t m verdict_fresh_def pin_clear_def pin_first_clear_def Let_def)
  moreover have "verdict_fresh (submit_change_retype e s)"
    by (simp add: submit_change_retype_def t verdict_fresh_def pin_clear_def pin_first_clear_def Let_def)
  moreover have "verdict_fresh (submit_challenge s)"
    using assms by (simp add: submit_challenge_def verdict_fresh_def pin_clear_def Let_def)
  moreover have "verdict_fresh (submit_verify e s)" if "pin_requires_verification s"
    using assms(1) that by (rule submit_verify_fresh)
  ultimately show ?thesis using assms
    by (cases "pin_mode s") (simp_all add: pin_submit_def pin_requires_verification_def verdict_fresh_def pin_clear_def)
qed

lemma task_fresh:
  assumes "verdict_fresh s"
  shows "verdict_fresh (wallet_ui_task e s)"
proof (cases "submitted e s")
  case None
  note q = quiet_facts [OF task_not_submitted [OF None]]
  have "pin_notice (wallet_ui_task e s) = Some ''WRONG PIN'' \<Longrightarrow> pin_length (wallet_ui_task e s) = 0"
    using task_not_submitted_notice [OF None] assms unfolding notice_kept_def verdict_fresh_def by auto
  moreover have "pin_mode s = PIN_VERIFY \<Longrightarrow> local_auth_result (wallet_ui_task e s) \<noteq> 1"
    using q(2) assms unfolding verdict_fresh_def by linarith
  ultimately show ?thesis using q(3) unfolding verdict_fresh_def by blast
next
  case (Some s1)
  have "pin_mode s1 = PIN_VERIFY \<Longrightarrow> local_auth_result s1 \<noteq> 1"
    using submitted_same [OF Some] assms by (auto simp: same_store_def verdict_fresh_def)
  moreover have "pin_notice s1 = Some ''WRONG PIN'' \<Longrightarrow> pin_length s1 = 0"
    using submitted_notice(1) [OF Some] assms unfolding notice_kept_def verdict_fresh_def by auto
  ultimately have "verdict_fresh s1" by (simp add: verdict_fresh_def)
  then have "verdict_fresh (pin_submit e s1)" using submitted_mode [OF Some] by (rule pin_submit_fresh)
  then show ?thesis using task_submitted [OF Some] by (auto simp: verdict_fresh_def)
qed

lemma run_fresh: "wallet_run ie tr s \<Longrightarrow> verdict_fresh s"
proof (induction rule: wallet_run.induct)
  case boot
  have "pin_notice (init_pin_store ie wallet_static) = None"
    by (simp add: init_pin_store_def wallet_static_def Let_def split: option.split lock_read.split)
  moreover have "pin_mode (init_pin_store ie wallet_static) = PIN_IDLE"
    by (simp add: init_pin_store_def wallet_static_def Let_def split: option.split lock_read.split)
  ultimately show ?case by (simp add: verdict_fresh_def wallet_ui_init_def wallet_static_def Let_def)
next
  case task then show ?case by (simp add: task_fresh)
qed (simp_all add: verdict_fresh_def wallet_ui_prompt_def wallet_ui_take_local_authorization_def wallet_ui_result_def
      close_menus_def wallet_ui_command_def Let_def)
lemma lock_other [simp]:
  "pin_lock (wallet_ui_prompt s) = pin_lock s" "pin_lock (snd (wallet_ui_take_local_authorization s)) = pin_lock s"
  "pin_lock (wallet_ui_result now m s) = pin_lock s" "pin_lock (wallet_ui_command now c s) = pin_lock s"
  by (simp_all add: wallet_ui_prompt_def wallet_ui_take_local_authorization_def wallet_ui_result_def
      close_menus_def wallet_ui_command_def Let_def)

lemma attempt_gate:
  assumes "attempt e s = Some (ok, now)"
  shows "rtc_seconds (rtc_submit e) = Some now" "gate_open now (pin_lock s)"
proof -
  obtain s1 where s1: "submitted e s = Some s1" "judgement e s1 = Some (ok, now)"
    using assms by (auto simp: attempt_def bind_eq_Some_conv split: if_splits)
  then show "rtc_seconds (rtc_submit e) = Some now" "gate_open now (pin_lock s)"
    using submit_verify_decided(2,3) [OF s1(2)] submitted_same(1) [OF s1(1)] by (simp_all add: same_store_def)
qed

text \<open>
  C5. No run of the device gets around the retry schedule: the verdicts the user sees (a notice
  WRONG PIN, a granted authorization, the dialogue for a new PIN, a scheduled wipe), in the order
  they are seen and with the clock read at each, form a lock history that starts from the record
  loaded at boot and ends in the record the device holds. So every verdict passed the gate of the
  record its predecessors left and moved that record on; a verdict whose record could not be stored
  is never seen, and the record moves for no other reason.
\<close>

theorem guesses_follow_schedule:
  "wallet_run ie tr s \<Longrightarrow> lock_history (pin_lock (wallet_ui_init ie wallet_static)) (guesses tr) (pin_lock s)"
proof (induction rule: wallet_run.induct)
  case boot
  show ?case by (simp add: guesses_def lock_history.start)
next
  case (task tr s e)
  have r: "revealed s (wallet_ui_task e s) = map_option fst (attempt e s)"
    using run_fresh [OF task.hyps(1)] by (rule task_revealed)
  show ?case
  proof (cases "attempt e s")
    case None
    with task r show ?thesis by (simp add: guesses_def task_lock lock_after_def)
  next
    case (Some a)
    obtain ok now where "a = (ok, now)" by fastforce
    with Some task r show ?thesis
      using attempt_gate [of e s ok now] lock_history.attempt [of _ "guesses tr" "pin_lock s" "rtc_submit e" now ok]
      by (simp add: guesses_def task_lock lock_after_def)
  qed
qed simp_all

section \<open>Who may change the PIN and wipe the device\<close>

lemma submit_retype_mode:
  "pin_mode s = PIN_RETYPE \<Longrightarrow> pin_mode (submit_retype e s) \<in> {PIN_CREATE, PIN_RETYPE} \<Longrightarrow>
     pin_hash (submit_retype e s) = pin_hash s"
  "pin_mode s = PIN_RETYPE \<Longrightarrow> pin_mode (submit_retype e s) \<in> {PIN_CREATE, PIN_RETYPE, PIN_IDLE}"
  using pin_store_new_frame [of e "pin_entry s" s] pin_store_new_failed [of e "pin_entry s" s]
  by (cases "pin_store_new e (pin_entry s) s"; force simp: submit_retype_def Let_def split: if_splits)+

lemma submit_change_retype_mode:
  "pin_mode (submit_change_retype e s) = PIN_CHANGE_NEW \<Longrightarrow> pin_hash (submit_change_retype e s) = pin_hash s"
  "pin_mode (submit_change_retype e s) \<in> {PIN_CHANGE_NEW, PIN_IDLE}"
  using pin_store_new_failed [of e "pin_entry s" s]
  by (cases "pin_store_new e (pin_entry s) s"; force simp: submit_change_retype_def Let_def split: if_splits)+

lemma submit_outcome_mode:
  "pin_mode (submit_outcome e ok s) \<in>
    (if \<not> ok then {pin_mode s} else if pin_mode s = PIN_CHANGE_CURRENT then {PIN_CHANGE_NEW}
     else if pin_mode s = PIN_RESET_VERIFY then {PIN_RESET_VERIFY, PIN_IDLE} else {PIN_IDLE})"
  using reset_schedule_wipe_frame [of e s]
  by (cases "reset_schedule_wipe e s") (auto simp: submit_outcome_def)

lemma submit_verify_mode:
  "pin_mode (submit_verify e s) = pin_mode s \<or> pin_mode (submit_verify e s) = PIN_IDLE \<or>
     pin_mode (submit_verify e s) = PIN_CHANGE_NEW \<and> pin_mode s = PIN_CHANGE_CURRENT \<and> right_pin e s (submit_verify e s)"
  "pin_hash (submit_verify e s) = pin_hash s"
proof -
  show "pin_hash (submit_verify e s) = pin_hash s"
    using submit_verify_undecided [of e s] submit_verify_decided(4) [of e s]
    by (cases "judgement e s") (auto simp: undecided_def)
  show "pin_mode (submit_verify e s) = pin_mode s \<or> pin_mode (submit_verify e s) = PIN_IDLE \<or>
     pin_mode (submit_verify e s) = PIN_CHANGE_NEW \<and> pin_mode s = PIN_CHANGE_CURRENT \<and> right_pin e s (submit_verify e s)"
  proof (cases "judgement e s")
    case None
    then show ?thesis using submit_verify_undecided [OF None] by (simp add: undecided_def)
  next
    case (Some a)
    obtain ok now where a: "a = (ok, now)" by fastforce
    obtain s3 where s3: "submit_verify e s = submit_outcome e ok s3" "pin_mode s3 = pin_mode s"
      using submit_verify_decided(4) [of e s ok now] Some a by auto
    show ?thesis
      using submit_outcome_mode [of e ok s3] judgement_right_pin [of e s now] Some a s3
      by (cases ok) (auto split: if_splits)
  qed
qed

lemma submit_verify_wipe:
  assumes "(WriteWipe w, b) \<in> set (nvs_log (submit_verify e s))" "(WriteWipe w, b) \<notin> set (nvs_log s)"
  shows "pin_mode s = PIN_RESET_VERIFY \<and> right_pin e s (submit_verify e s)"
proof (cases "judgement e s")
  case None
  then show ?thesis using submit_verify_undecided [OF None] assms by (auto simp: undecided_def no_wipe_since_def)
next
  case (Some a)
  obtain ok now where a: "a = (ok, now)" by fastforce
  obtain s3 where s3: "submit_verify e s = submit_outcome e ok s3" "pin_mode s3 = pin_mode s"
      "nvs_log s3 = nvs_log s @ [(WriteLock (pin_lock s3), True), (Commit, True)]"
    using submit_verify_decided(4) [of e s ok now] Some a by auto
  obtain g where g: "nvs_log (submit_verify e s) = nvs_log s3 @ g"
      "\<And>w b. (WriteWipe w, b) \<in> set g \<Longrightarrow> ok \<and> pin_mode s3 = PIN_RESET_VERIFY"
    using submit_outcome_log [of e ok s3] s3(1) by auto
  then have "ok \<and> pin_mode s3 = PIN_RESET_VERIFY" using assms s3(3) by auto
  then show ?thesis using judgement_right_pin [of e s now] Some a s3(2) by simp
qed

lemma submit_other_wipe:
  "(WriteWipe w, b) \<in> set (nvs_log (submit_retype e s)) \<Longrightarrow> (WriteWipe w, b) \<in> set (nvs_log s)"
  "(WriteWipe w, b) \<in> set (nvs_log (submit_change_retype e s)) \<Longrightarrow> (WriteWipe w, b) \<in> set (nvs_log s)"
  using pin_store_new_failed [of e "pin_entry s" s] pin_store_new_ok [of e "pin_entry s" s]
  by (cases "pin_store_new e (pin_entry s) s"; cases "fst (pin_store_new e (pin_entry s) s)";
      fastforce simp: submit_retype_def submit_change_retype_def Let_def no_wipe_since_def pin_replaced_def split: if_splits)+

text \<open>The mode changes of one submission, with their reasons.\<close>

definition challenge_typed :: "wallet \<Rightarrow> bool" where
  "challenge_typed s \<longleftrightarrow> pin_mode s = PIN_RESET_CHALLENGE \<and> pin_length s = 4 \<and>
     take 4 (pin_entry s) = take 4 (reset_challenge s)"

lemma submit_challenge_mode:
  "pin_mode s = PIN_RESET_CHALLENGE \<Longrightarrow> pin_mode (submit_challenge s) = PIN_RESET_CHALLENGE \<or>
     pin_mode (submit_challenge s) = PIN_RESET_VERIFY \<and> challenge_typed s"
  "nvs_log (submit_challenge s) = nvs_log s" "pin_hash (submit_challenge s) = pin_hash s"
  by (simp_all add: submit_challenge_def challenge_typed_def Let_def)

lemma pin_submit_into:
  assumes "pin_mode s \<noteq> PIN_IDLE \<or> pin_length s = 0"
  shows "pin_mode (pin_submit e s) \<in> {PIN_CREATE, PIN_RETYPE} \<Longrightarrow>
      pin_mode s \<in> {PIN_CREATE, PIN_RETYPE} \<and> pin_hash (pin_submit e s) = pin_hash s"
    and "pin_mode (pin_submit e s) \<in> {PIN_CHANGE_NEW, PIN_CHANGE_RETYPE} \<Longrightarrow> pin_hash (pin_submit e s) = pin_hash s \<and>
      (pin_mode s \<in> {PIN_CHANGE_NEW, PIN_CHANGE_RETYPE} \<or> pin_mode s = PIN_CHANGE_CURRENT \<and> right_pin e s (pin_submit e s))"
    and "pin_mode (pin_submit e s) = PIN_RESET_VERIFY \<Longrightarrow> pin_mode s = PIN_RESET_VERIFY \<or> challenge_typed s"
    and "(WriteWipe w, b) \<in> set (nvs_log (pin_submit e s)) \<Longrightarrow> (WriteWipe w, b) \<in> set (nvs_log s) \<or>
      pin_mode s = PIN_RESET_VERIFY \<and> right_pin e s (pin_submit e s)"
    and "pin_hash (pin_submit e s) \<noteq> pin_hash s \<Longrightarrow> pin_mode s \<in> {PIN_RETYPE, PIN_CHANGE_RETYPE}"
  using assms submit_verify_mode [of e s] submit_retype_mode [of s e] submit_change_retype_mode [of e s]
    submit_challenge_mode [of s] submit_verify_wipe [of w b e s] submit_other_wipe [of w b e s]
  by (cases "pin_mode s"; cases "pin_length s = 6"; auto simp: pin_submit_def)+

text \<open>
  What the trace of a run must contain for the state it reaches: a change of the PIN or a wipe
  needs the current PIN, a wipe also the challenge, and a PIN is created only when there is none.
\<close>

definition proved_pin :: "(wallet_env \<times> wallet) list \<Rightarrow> pin_mode \<Rightarrow> bytes \<Rightarrow> bool" where
  "proved_pin tr m h \<longleftrightarrow> (\<exists>(e, s)\<in>set tr. \<exists>s1. submitted e s = Some s1 \<and> pin_mode s1 = m \<and> pin_hash s1 = h \<and>
     right_pin e s1 (wallet_ui_task e s))"

definition typed_challenge :: "(wallet_env \<times> wallet) list \<Rightarrow> bool" where
  "typed_challenge tr \<longleftrightarrow> (\<exists>(e, s)\<in>set tr. \<exists>s1. submitted e s = Some s1 \<and> challenge_typed s1)"

definition mode_justified :: "(wallet_env \<times> wallet) list \<Rightarrow> wallet \<Rightarrow> bool" where
  "mode_justified tr s \<longleftrightarrow>
     (pin_mode s \<in> {PIN_CREATE, PIN_RETYPE} \<longrightarrow> pin_hash s ! 0 = 0) \<and>
     (pin_mode s \<in> {PIN_CHANGE_NEW, PIN_CHANGE_RETYPE} \<longrightarrow> proved_pin tr PIN_CHANGE_CURRENT (pin_hash s)) \<and>
     (pin_mode s = PIN_RESET_VERIFY \<longrightarrow> typed_challenge tr) \<and>
     (\<forall>w b. (WriteWipe w, b) \<in> set (nvs_log s) \<longrightarrow> typed_challenge tr \<and> (\<exists>h. proved_pin tr PIN_RESET_VERIFY h))"

lemma proved_pin_mono [simp]: "proved_pin tr m h \<Longrightarrow> proved_pin (tr @ [x]) m h"
  by (auto simp: proved_pin_def)

lemma typed_challenge_mono [simp]: "typed_challenge tr \<Longrightarrow> typed_challenge (tr @ [x])"
  by (auto simp: typed_challenge_def)

lemma mode_justified_mono: "mode_justified tr s \<Longrightarrow> mode_justified (tr @ [x]) s"
  unfolding mode_justified_def by (intro conjI impI allI) (blast intro: proved_pin_mono typed_challenge_mono)+

lemma mode_justified_cong:
  "mode_justified tr s \<Longrightarrow> pin_hash t = pin_hash s \<Longrightarrow> nvs_log t = nvs_log s \<Longrightarrow>
     pin_mode t = pin_mode s \<or> pin_mode t \<in> {PIN_IDLE, PIN_VERIFY, PIN_CHANGE_CURRENT, PIN_RESET_CHALLENGE} \<or>
       pin_mode t = PIN_CREATE \<and> pin_hash s ! 0 = 0 \<Longrightarrow> mode_justified tr t"
  unfolding mode_justified_def by (elim disjE) (simp_all, elim disjE, simp_all)

lemma mode_justified_quiet:
  assumes "quiet s t" "mode_justified tr s"
  shows "mode_justified tr t"
proof (rule mode_justified_cong [OF assms(2)])
  show "pin_hash t = pin_hash s" "nvs_log t = nvs_log s" using assms(1) by (simp_all add: quiet_def same_store_def)
  show "pin_mode t = pin_mode s \<or> pin_mode t \<in> {PIN_IDLE, PIN_VERIFY, PIN_CHANGE_CURRENT, PIN_RESET_CHALLENGE} \<or>
      pin_mode t = PIN_CREATE \<and> pin_hash s ! 0 = 0" using assms(1) by (auto simp: quiet_def)
qed

lemma task_mode_justified:
  assumes "mode_justified tr s"
  shows "mode_justified (tr @ [(e, s)]) (wallet_ui_task e s)"
proof (cases "submitted e s")
  case None
  have "mode_justified tr (wallet_ui_task e s)"
    using task_not_submitted [OF None] assms by (rule mode_justified_quiet)
  then show ?thesis by (rule mode_justified_mono)
next
  case (Some s1)
  obtain b where t: "wallet_ui_task e s = (pin_submit e s1)\<lparr>pin_previous_buttons := b\<rparr>"
    using task_submitted [OF Some] by blast
  have r: "right_pin e s1 (wallet_ui_task e s) \<longleftrightarrow> right_pin e s1 (pin_submit e s1)"
    by (simp add: t right_pin_def)
  have s1: "pin_mode s1 = PIN_IDLE \<or> pin_mode s1 = pin_mode s" "pin_hash s1 = pin_hash s" "nvs_log s1 = nvs_log s"
    using submitted_same [OF Some] by (auto simp: same_store_def)
  have p: "proved_pin (tr @ [(e, s)]) (pin_mode s1) (pin_hash s1)" if "right_pin e s1 (pin_submit e s1)"
    using Some r that by (auto simp: proved_pin_def)
  have c: "typed_challenge (tr @ [(e, s)])" if "challenge_typed s1"
    using Some that by (auto simp: typed_challenge_def)
  note into = pin_submit_into [OF submitted_mode [OF Some], where e = e]
  have old: "pin_mode s \<in> {PIN_CREATE, PIN_RETYPE} \<Longrightarrow> pin_hash s ! 0 = 0"
    "pin_mode s \<in> {PIN_CHANGE_NEW, PIN_CHANGE_RETYPE} \<Longrightarrow> proved_pin tr PIN_CHANGE_CURRENT (pin_hash s)"
    "pin_mode s = PIN_RESET_VERIFY \<Longrightarrow> typed_challenge tr"
    "(WriteWipe w, b) \<in> set (nvs_log s) \<Longrightarrow> typed_challenge tr \<and> (\<exists>h. proved_pin tr PIN_RESET_VERIFY h)" for w b
    using assms by (auto simp: mode_justified_def)
  have 1: "pin_hash (pin_submit e s1) ! 0 = 0" if "pin_mode (pin_submit e s1) \<in> {PIN_CREATE, PIN_RETYPE}"
    using into(1) [OF that] s1 old(1) by auto
  have 2: "proved_pin (tr @ [(e, s)]) PIN_CHANGE_CURRENT (pin_hash (pin_submit e s1))"
    if "pin_mode (pin_submit e s1) \<in> {PIN_CHANGE_NEW, PIN_CHANGE_RETYPE}"
    using into(2) [OF that] s1 old(2) p by auto
  have 3: "typed_challenge (tr @ [(e, s)])" if "pin_mode (pin_submit e s1) = PIN_RESET_VERIFY"
    using into(3) [OF that] s1 old(3) c by auto
  have 4: "typed_challenge (tr @ [(e, s)]) \<and> (\<exists>h. proved_pin (tr @ [(e, s)]) PIN_RESET_VERIFY h)"
    if "(WriteWipe w, x) \<in> set (nvs_log (pin_submit e s1))" for w x
    using into(4) [OF that]
  proof
    assume "(WriteWipe w, x) \<in> set (nvs_log s1)"
    then show ?thesis using old(4) [of w x] s1(3) by (auto intro: proved_pin_mono)
  next
    assume "pin_mode s1 = PIN_RESET_VERIFY \<and> right_pin e s1 (pin_submit e s1)"
    then show ?thesis using old(3) s1(1) p by auto
  qed
  show ?thesis
    unfolding mode_justified_def using 1 2 3 4 t by simp
qed

lemma run_mode_justified: "wallet_run ie tr s \<Longrightarrow> mode_justified tr s"
proof (induction rule: wallet_run.induct)
  case boot
  have "mode_justified [] wallet_static" "mode_justified [] (init_pin_store ie wallet_static)"
    by (simp_all add: mode_justified_def wallet_static_def init_pin_store_log)
  moreover from this(2) have "mode_justified [] ((init_pin_store ie wallet_static)\<lparr>pin_mode := PIN_CREATE,
      pin_setup_at_boot := True, pin_length := 0, selected_key := 0, pin_previous_buttons := - 1\<rparr>)"
    if "pin_hash (init_pin_store ie wallet_static) ! 0 = 0"
    by (rule mode_justified_cong) (simp_all add: that)
  ultimately show ?case by (simp add: wallet_ui_init_def Let_def)
next
  case (task tr s e)
  then show ?case by (blast intro: task_mode_justified)
next
  case (prompt tr s)
  then show ?case by (auto simp: wallet_ui_prompt_def Let_def elim!: mode_justified_cong)
next
  case (take tr s)
  then show ?case by (auto simp: wallet_ui_take_local_authorization_def elim!: mode_justified_cong)
next
  case (result tr s now m)
  then show ?case by (auto simp: wallet_ui_result_def close_menus_def Let_def elim!: mode_justified_cong)
next
  case (command tr s now c)
  then show ?case by (auto simp: wallet_ui_command_def Let_def elim!: mode_justified_cong)
qed

text \<open>
  C4. The PIN of a device is replaced only by someone who has just proved to know it: if a call of
  the task changes the stored hash and a PIN was set, the call was in PIN_CHANGE_RETYPE, and some
  earlier call since the hash was stored verified the current PIN under the retry lock. (When none
  is set, the call retyped a first PIN.)
\<close>

theorem pin_change_needs_current_pin:
  assumes "wallet_run ie tr s" "pin_hash (wallet_ui_task e s) \<noteq> pin_hash s" "pin_hash s ! 0 \<noteq> 0"
  shows "pin_mode s = PIN_CHANGE_RETYPE \<and> proved_pin tr PIN_CHANGE_CURRENT (pin_hash s)"
proof (cases "submitted e s")
  case None
  then show ?thesis using task_not_submitted [OF None] assms(2) by (simp add: quiet_def same_store_def)
next
  case (Some s1)
  obtain b where t: "wallet_ui_task e s = (pin_submit e s1)\<lparr>pin_previous_buttons := b\<rparr>"
    using task_submitted [OF Some] by blast
  have "pin_hash (pin_submit e s1) \<noteq> pin_hash s1" using assms(2) t submitted_same(1) [OF Some] by (simp add: same_store_def)
  then have "pin_mode s1 \<in> {PIN_RETYPE, PIN_CHANGE_RETYPE}"
    using pin_submit_into(5) [OF submitted_mode [OF Some], where e = e] by simp
  then have "pin_mode s \<in> {PIN_RETYPE, PIN_CHANGE_RETYPE}" using submitted_same(2) [OF Some] by auto
  then show ?thesis using run_mode_justified [OF assms(1)] assms(3) by (auto simp: mode_justified_def)
qed

text \<open>
  C3. A wipe is scheduled only after both factors: if the wipe flag was written to flash in a run,
  then in that run the four digits shown as the reset challenge were typed, and the device PIN was
  verified under the retry lock in the mode PIN_RESET_VERIFY.
\<close>

theorem wipe_needs_challenge_and_pin:
  assumes "wallet_run ie tr s" "(WriteWipe w, b) \<in> set (nvs_log s)"
  shows "typed_challenge tr \<and> (\<exists>h. proved_pin tr PIN_RESET_VERIFY h)"
  using run_mode_justified [OF assms(1)] assms(2) by (auto simp: mode_justified_def)

section \<open>Example runs\<close>

text \<open>
  A device whose PIN is 111111, so that every digit is the key the cursor starts on. \<open>poll down s\<close>
  is a poll two ticks after the last one with the buttons \<open>down\<close> held.
\<close>

definition ones_hash :: bytes where
  "ones_hash = replicate 6 49 @ replicate 54 36 @ [0]"

definition poll :: "nat set \<Rightarrow> wallet \<Rightarrow> wallet_env" where
  "poll down s = demo_env\<lparr>tick := last_poll s + 2, level := (\<lambda>p. p \<notin> down), level_again := (\<lambda>p. p \<notin> down),
     rtc_after := leap_day_evening, random32 := 1111\<rparr>"

lemma poll_fields [simp]:
  "tick (poll d s) = last_poll s + 2" "level (poll d s) p \<longleftrightarrow> p \<notin> d" "level_again (poll d s) p \<longleftrightarrow> p \<notin> d"
  "rtc_refresh (poll d s) = leap_day_evening" "rtc_submit (poll d s) = leap_day_evening"
  "rtc_after (poll d s) = leap_day_evening" "nvs_result (poll d s) c" "crypt_rn (poll d s) = demo_crypt"
  "gensalt_rn (poll d s) = Some" "random16 (poll d s) = replicate 16 7" "random32 (poll d s) = 1111"
  by (simp_all add: poll_def demo_env_def)

lemma poll_bits [simp]:
  "keypad_bits (poll {} s) = 0" "keypad_bits (poll {7} s) = 16" "keypad_bits (poll {6} s) = 64"
  by (simp_all add: keypad_bits_def pressed_bits_def)

lemma poll_crypt [simp]: "crypt_fits (poll d s)"
  by (auto simp: crypt_fits_def demo_crypt_def split: if_splits)

lemma poll_due [simp]: "\<not> (2 :: u32) < pdMS_TO_TICKS 25"
  by (simp add: pdMS_TO_TICKS_def)

definition dialing :: "pin_mode \<Rightarrow> nat \<Rightarrow> int \<Rightarrow> wallet \<Rightarrow> bool" where
  "dialing m n d s \<longleftrightarrow> pin_mode s = m \<and> pin_length s = n \<and> pin_entry s = replicate n 49 @ replicate (7 - n) 0 \<and>
     selected_key s = 0 \<and> pin_previous_buttons s = d \<and> pin_gate_now s = PIN_GATE_READY \<and> \<not> pin_back_down s \<and>
     \<not> reset_success_visible s \<and> pin_lock_storage_ok s \<and> pin_store_open s \<and> gate_open 762566370 (pin_lock s) \<and>
     pin_hash s = (if m = PIN_CREATE \<or> m = PIN_RETYPE then replicate 61 0 else ones_hash) \<and>
     (m = PIN_RESET_CHALLENGE \<longrightarrow> reset_challenge s = decimal4 1111) \<and> \<not> restarted s"

lemma gate_passes:
  assumes "pin_lock_storage_ok s" "pin_store_open s" "gate_open 762566370 (pin_lock s)" "pin_gate_now s = PIN_GATE_READY"
  shows "\<exists>c n b. task_gate (poll d u) s = (False, s\<lparr>pin_lock_checked_at := c, pin_lock_back_previous := b\<rparr>)"
proof -
  have g: "pin_lock_check leap_day_evening s = (PIN_GATE_READY, Some 762566370, s)"
    using assms by (auto simp: pin_lock_check_def leap_day_evening_seconds gate_open_def)
  have gs: "s\<lparr>pin_gate_now := PIN_GATE_READY\<rparr> = s" using assms(4) by simp
  obtain c where r: "gate_refresh (poll d u) s = s\<lparr>pin_lock_checked_at := c\<rparr>"
  proof (cases "pin_lock_checked_at s = 0 \<or> tick (poll d u) - pin_lock_checked_at s \<ge> pdMS_TO_TICKS 1000")
    case True
    then have "gate_refresh (poll d u) s = s\<lparr>pin_lock_checked_at := tick (poll d u)\<rparr>"
      using assms(4) gs by (simp add: gate_refresh_def g)
    then show ?thesis by (rule that)
  next
    case False
    then have "gate_refresh (poll d u) s = s\<lparr>pin_lock_checked_at := pin_lock_checked_at s\<rparr>"
      by (simp add: gate_refresh_def)
    then show ?thesis by (rule that)
  qed
  show ?thesis
  proof (cases "pin_requires_verification s")
    case True
    then have "task_gate (poll d u) s = (False, s\<lparr>pin_lock_checked_at := c, pin_lock_back_previous := False\<rparr>)"
      using assms(4) by (simp add: task_gate_eq r)
    then show ?thesis by blast
  next
    case False
    then have "task_gate (poll d u) s =
        (False, s\<lparr>pin_lock_checked_at := pin_lock_checked_at s, pin_lock_back_previous := pin_lock_back_previous s\<rparr>)"
      by (simp add: task_gate_eq)
    then show ?thesis by blast
  qed
qed

text \<open>A poll in a PIN dialogue, up to the fields that no example looks at.\<close>

lemma dialing_poll:
  assumes "dialing m n d s" "m \<noteq> PIN_IDLE"
  obtains t where "dialing m n d t" "last_poll t = last_poll s + 2"
    "wallet_ui_task (poll k s) s = task_keypad (poll k s) t" "pin_first t = pin_first s" "nvs_log t = nvs_log s"
    "pin_setup_at_boot t = pin_setup_at_boot s"
proof -
  let ?s = "s\<lparr>last_poll := last_poll s + 2\<rparr>"
  obtain c b where g: "task_gate (poll k s) ?s = (False, ?s\<lparr>pin_lock_checked_at := c, pin_lock_back_previous := b\<rparr>)"
    using gate_passes [of ?s k s] assms by (auto simp: dialing_def)
  show thesis
    using assms g by (intro that [of "?s\<lparr>pin_lock_checked_at := c, pin_lock_back_previous := b\<rparr>"])
      (simp_all add: dialing_def wallet_ui_task_def)
qed

lemma next_key_same [simp]: "next_key 16 0 = 0" "next_key 64 0 = 0" "next_key 0 0 = 0"
  by (simp_all add: next_key_def)

lemma press_one:
  assumes "dialing m n 0 s" "m \<noteq> PIN_IDLE" "n < (if m = PIN_RESET_CHALLENGE then 4 else 6)"
  shows "dialing m (Suc n) 16 (wallet_ui_task (poll {7} s) s)"
    "pin_first (wallet_ui_task (poll {7} s) s) = pin_first s"
    "pin_setup_at_boot (wallet_ui_task (poll {7} s) s) = pin_setup_at_boot s"
proof -
  obtain t where t: "dialing m n 0 t" "wallet_ui_task (poll {7} s) s = task_keypad (poll {7} s) t"
    "pin_first t = pin_first s" "pin_setup_at_boot t = pin_setup_at_boot s"
    using dialing_poll [OF assms(1,2)] by metis
  have n: "n < 6" using assms(3) by (auto split: if_splits)
  then have e: "(replicate n 49 @ replicate (7 - n) 0)[n := 49, Suc n := 0] = replicate (Suc n) 49 @ replicate (7 - Suc n) (0 :: u8)"
    by (intro nth_equalityI) (auto simp: nth_append nth_list_update less_Suc_eq simp del: replicate_Suc)
  have "keypad_edit (last_poll s + 2) 16 16 t = t\<lparr>selected_key := 0,
      pin_entry := replicate (Suc n) 49 @ replicate (7 - Suc n) 0, pin_length := Suc n, pin_notice := None\<rparr>"
    using t(1) assms(3) e by (simp add: keypad_edit_def key_press_def back_hold_def back_release_def dialing_def)
  then have "wallet_ui_task (poll {7} s) s = t\<lparr>selected_key := 0, pin_entry := replicate (Suc n) 49 @ replicate (7 - Suc n) 0,
      pin_length := Suc n, pin_notice := None, pin_previous_buttons := 16\<rparr>"
    using t(1,2) by (simp add: task_keypad_def dialing_def)
  then show "dialing m (Suc n) 16 (wallet_ui_task (poll {7} s) s)"
    "pin_first (wallet_ui_task (poll {7} s) s) = pin_first s"
    "pin_setup_at_boot (wallet_ui_task (poll {7} s) s) = pin_setup_at_boot s"
    using t by (simp_all add: dialing_def)
qed

lemma release_all:
  assumes "dialing m n d s" "m \<noteq> PIN_IDLE"
  shows "dialing m n 0 (wallet_ui_task (poll {} s) s)" "pin_first (wallet_ui_task (poll {} s) s) = pin_first s"
    "pin_setup_at_boot (wallet_ui_task (poll {} s) s) = pin_setup_at_boot s"
proof -
  obtain t where t: "dialing m n d t" "wallet_ui_task (poll {} s) s = task_keypad (poll {} s) t"
    "pin_first t = pin_first s" "pin_setup_at_boot t = pin_setup_at_boot s"
    using dialing_poll [OF assms] by metis
  have "keypad_edit (last_poll s + 2) 0 0 t = t"
    using t(1) by (simp add: keypad_edit_def back_hold_def back_release_def dialing_def)
  then have "wallet_ui_task (poll {} s) s = t\<lparr>pin_previous_buttons := 0\<rparr>"
    using t(1,2) by (simp add: task_keypad_def dialing_def)
  then show "dialing m n 0 (wallet_ui_task (poll {} s) s)" "pin_first (wallet_ui_task (poll {} s) s) = pin_first s"
    "pin_setup_at_boot (wallet_ui_task (poll {} s) s) = pin_setup_at_boot s"
    using t by (simp_all add: dialing_def)
qed

text \<open>The confirm button at the end of each entry.\<close>

lemma confirm:
  assumes "dialing m n 0 s" "m \<noteq> PIN_IDLE"
  obtains t where "dialing m n 0 t" "wallet_ui_task (poll {6} s) s =
      (if restarted (pin_submit (poll {6} s) t) then pin_submit (poll {6} s) t
       else (pin_submit (poll {6} s) t)\<lparr>pin_previous_buttons := 64\<rparr>)"
    "pin_first t = pin_first s" "pin_setup_at_boot t = pin_setup_at_boot s"
proof -
  obtain t where t: "dialing m n 0 t" "wallet_ui_task (poll {6} s) s = task_keypad (poll {6} s) t"
    "pin_first t = pin_first s" "pin_setup_at_boot t = pin_setup_at_boot s"
    using dialing_poll [OF assms] by metis
  have "keypad_edit (last_poll s + 2) 64 64 t = t"
    using t(1) by (simp add: keypad_edit_def back_hold_def back_release_def dialing_def)
  then show thesis using t by (intro that [of t]) (simp_all add: task_keypad_def dialing_def)
qed

lemma ones_verdict:
  assumes "dialing m 6 d s" "m \<noteq> PIN_CREATE" "m \<noteq> PIN_RETYPE"
  shows "judgement (poll k u) s = Some (True, 762566370)"
proof -
  have "cstr (replicate 6 49 @ [0] :: bytes) = replicate 6 49"
    by (rule cstr_terminated) simp
  moreover have "cstr ones_hash = replicate 6 49 @ replicate 54 36"
    using cstr_terminated [of "replicate 6 49 @ replicate 54 36" "[]"] by (simp add: ones_hash_def)
  moreover have "demo_crypt (replicate 6 49) (replicate 6 49 @ replicate 54 36) = Some ones_hash"
    by (simp add: demo_crypt_def ones_hash_def)
  ultimately have "pin_verdict (poll k u) s = Some True"
    using assms by (simp add: pin_verdict_def pin_calculate_def dialing_def pin_hash_matches_iff)
  then show ?thesis
    using assms by (simp add: judgement_def gate_ready_iff leap_day_evening_seconds dialing_def)
qed

lemma confirm_challenge:
  assumes "dialing PIN_RESET_CHALLENGE 4 0 s"
  shows "dialing PIN_RESET_VERIFY 0 64 (wallet_ui_task (poll {6} s) s)"
proof -
  obtain t where t: "dialing PIN_RESET_CHALLENGE 4 0 t" "wallet_ui_task (poll {6} s) s =
      (if restarted (pin_submit (poll {6} s) t) then pin_submit (poll {6} s) t
       else (pin_submit (poll {6} s) t)\<lparr>pin_previous_buttons := 64\<rparr>)"
    using confirm [OF assms] by blast
  have "decimal4 1111 = [49, 49, 49, 49, 0]" by (simp add: decimal4_def)
  moreover have "replicate 4 49 = [49, 49, 49, 49 :: u8]" by (simp add: numeral_eq_Suc)
  ultimately have "take 4 (decimal4 1111) = replicate 4 49" by simp
  then show ?thesis
    using t by (simp add: pin_submit_def submit_challenge_def pin_clear_def dialing_def)
qed

lemma confirm_wipe:
  assumes "dialing PIN_RESET_VERIFY 6 0 s"
  shows "(WriteWipe 1, True) \<in> set (nvs_log (wallet_ui_task (poll {6} s) s))"
proof -
  obtain t where t: "dialing PIN_RESET_VERIFY 6 0 t" "wallet_ui_task (poll {6} s) s =
      (if restarted (pin_submit (poll {6} s) t) then pin_submit (poll {6} s) t
       else (pin_submit (poll {6} s) t)\<lparr>pin_previous_buttons := 64\<rparr>)"
    using confirm [OF assms] by blast
  obtain m where "submit_verify (poll {6} s) t = submit_outcome (poll {6} s) True (judged_state True 762566370 m
       (fst (pin_lock_check (rtc_after (poll {6} s)) (judged_state True 762566370 m PIN_GATE_READY t))) t)"
    using submit_verify_judged(4) [OF ones_verdict [OF t(1), simplified]] by blast
  then show ?thesis using t
    by (simp add: pin_submit_def dialing_def submit_outcome_def reset_schedule_wipe_def nvs_do_def judged_state_def)
qed

text \<open>
  Typing lemmas for every set of runs that may be extended by a poll of the wallet task.
\<close>

locale polled =
  fixes R :: "(wallet_env \<times> wallet) list \<Rightarrow> wallet \<Rightarrow> bool"
  assumes task: "R tr s \<Longrightarrow> \<not> restarted s \<Longrightarrow> crypt_fits e \<Longrightarrow> R (tr @ [(e, s)]) (wallet_ui_task e s)"
begin

lemma type_ones:
  assumes "R tr s" "dialing m 0 0 s" "m \<noteq> PIN_IDLE" "n \<le> (if m = PIN_RESET_CHALLENGE then 4 else 6)"
  shows "\<exists>tr' t. R tr' t \<and> dialing m n 0 t \<and> pin_first t = pin_first s \<and> pin_setup_at_boot t = pin_setup_at_boot s"
  using assms(4)
proof (induction n)
  case 0
  then show ?case using assms by blast
next
  case (Suc n)
  then obtain tr' t where t: "R tr' t" "dialing m n 0 t" "pin_first t = pin_first s"
    "pin_setup_at_boot t = pin_setup_at_boot s" by auto
  let ?u = "wallet_ui_task (poll {7} t) t"
  have u: "dialing m (Suc n) 16 ?u" "pin_first ?u = pin_first s" "pin_setup_at_boot ?u = pin_setup_at_boot s"
    using press_one [OF t(2) assms(3)] Suc.prems t(3,4) by simp_all
  have "R (tr' @ [(poll {7} t, t)]) ?u" using t(2) by (intro task [OF t(1)]) (simp_all add: dialing_def)
  then have "R ((tr' @ [(poll {7} t, t)]) @ [(poll {} ?u, ?u)]) (wallet_ui_task (poll {} ?u) ?u)"
    using u(1) by (elim task) (simp_all add: dialing_def)
  then show ?case using release_all [OF u(1) assms(3)] u(2,3) by metis
qed

text \<open>From an empty entry to the confirm button after a full one.\<close>

lemma type_and_confirm:
  assumes "R tr s" "dialing m 0 d s" "m \<noteq> PIN_IDLE" "n \<le> (if m = PIN_RESET_CHALLENGE then 4 else 6)"
  shows "\<exists>tr' t tr''. R tr' t \<and> dialing m n 0 t \<and> pin_first t = pin_first s \<and>
    pin_setup_at_boot t = pin_setup_at_boot s \<and> R tr'' (wallet_ui_task (poll {6} t) t)"
proof -
  let ?u = "wallet_ui_task (poll {} s) s"
  have "R (tr @ [(poll {} s, s)]) ?u" using assms by (elim task) (simp_all add: dialing_def)
  then obtain tr' t where t: "R tr' t" "dialing m n 0 t" "pin_first t = pin_first ?u"
    "pin_setup_at_boot t = pin_setup_at_boot ?u"
    using type_ones [OF _ release_all(1) [OF assms(2,3)] assms(3,4)] by blast
  moreover have "R (tr' @ [(poll {6} t, t)]) (wallet_ui_task (poll {6} t) t)"
    using t by (elim task) (simp_all add: dialing_def)
  moreover have "pin_first t = pin_first s" "pin_setup_at_boot t = pin_setup_at_boot s"
    using t(3,4) release_all(2,3) [OF assms(2,3)] by simp_all
  ultimately show ?thesis by blast
qed

end

interpretation wallet_polled: polled "wallet_run ie" for ie
  by unfold_locales (rule wallet_run.task)

text \<open>The way through the settings menu.\<close>

definition ones_init :: init_env where
  "ones_init = \<lparr>i2c_bus_ok = True, oled_added = True, oled_init_ok = True, init_nvs_ok = True, init_nvs_open = True,
     init_reset_done = None, init_hash = Some (ones_hash, 61), init_lock = LockNotFound, init_device_id = Some 7,
     init_random = 0, init_device_id_stored = True, init_tick = 0\<rparr>"

definition in_menu :: "u32 \<Rightarrow> int \<Rightarrow> bool \<Rightarrow> nat \<Rightarrow> bool \<Rightarrow> bool \<Rightarrow> bool \<Rightarrow> bool \<Rightarrow> wallet" where
  "in_menu lp pv so sel det cc rc ar = wallet_static\<lparr>pin_store_open := True, pin_hash := ones_hash,
     pin_lock := \<lparr>version = 1, failures = 0, locked_until = 0, last_seen = 0\<rparr>, device_info_id := 7,
     last_poll := lp, previous_buttons := pv, settings_open := so, settings_selection := sel, settings_detail_open := det,
     settings_change_confirm := cc, settings_reset_confirm := rc, reset_yes_armed := ar\<rparr>"

lemma ones_hash_set: "ones_hash ! 0 = 49" "length ones_hash = 61"
  by (simp_all add: ones_hash_def nth_append)

lemma ones_boot: "wallet_ui_init ones_init wallet_static = in_menu 0 (- 1) False 0 False False False False"
  by (simp add: wallet_ui_init_def init_pin_store_def ones_init_def in_menu_def wallet_static_def ones_hash_set Let_def)

lemma in_menu_task:
  "wallet_ui_task (poll k (in_menu lp pv so sel det cc rc ar)) (in_menu lp pv so sel det cc rc ar) =
    (let pins = pressed_bits (\<lambda>p. p \<notin> k) [(5, 1), (6, 2), (21, 4), (17, 8), (7, 16)];
         (done, s) = task_reset_confirm (poll k (in_menu lp pv so sel det cc rc ar)) pins (in_menu (lp + 2) pv so sel det cc rc ar)
     in if done then s else (task_menu pins s)\<lparr>previous_buttons := pins\<rparr>)"
proof -
  let ?s = "in_menu lp pv so sel det cc rc ar" and ?t = "in_menu (lp + 2) pv so sel det cc rc ar"
  have f: "last_poll ?s = lp" "\<not> reset_success_visible ?s" "\<not> reset_success_visible ?t" "?s\<lparr>last_poll := lp + 2\<rparr> = ?t" "pin_mode ?t = PIN_IDLE"
    "\<not> pin_requires_verification ?t" "\<not> settings_change_success ?t" "\<not> result_visible ?t" "ui_command ?t = shown_command ?t"
    "level (poll k ?s) = (\<lambda>p. p \<notin> k)"
    by (simp_all add: in_menu_def wallet_static_def pin_requires_verification_def fun_eq_iff)
  have "wallet_ui_task (poll k ?s) ?s = task_idle (poll k ?s) ?t"
    using f by (simp add: wallet_ui_task_def task_gate_eq Let_def)
  then show ?thesis
    using f by (simp add: task_idle_def task_timeouts_def task_command_def Let_def)
qed

lemma menu_bits [simp]:
  "pressed_bits (\<lambda>p. p \<notin> {}) [(5, 1), (6, 2), (21, 4), (17, 8), (7, 16)] = 31"
  "pressed_bits (\<lambda>p. p \<notin> {5}) [(5, 1), (6, 2), (21, 4), (17, 8), (7, 16)] = 30"
  "pressed_bits (\<lambda>p. p \<notin> {21}) [(5, 1), (6, 2), (21, 4), (17, 8), (7, 16)] = 27"
  "pressed_bits (\<lambda>p. p \<notin> {17}) [(5, 1), (6, 2), (21, 4), (17, 8), (7, 16)] = 23"
  "pressed_bits (\<lambda>p. p \<notin> {7}) [(5, 1), (6, 2), (21, 4), (17, 8), (7, 16)] = 15"
  by (simp_all add: pressed_bits_def)

lemma menu_step:
  assumes "wallet_run ie tr (in_menu lp pv so sel det cc rc ar)"
    "wallet_ui_task (poll k (in_menu lp pv so sel det cc rc ar)) (in_menu lp pv so sel det cc rc ar) = t"
  shows "\<exists>tr'. wallet_run ie tr' t"
proof -
  have "\<not> restarted (in_menu lp pv so sel det cc rc ar)" by (simp add: in_menu_def wallet_static_def)
  from wallet_run.task [OF assms(1) this, of "poll k (in_menu lp pv so sel det cc rc ar)"] assms(2)
  show ?thesis by auto
qed

lemmas menu_eval = in_menu_task task_reset_confirm_def task_menu_def task_settings_def menu_select_def

lemma menu_polls:
  "wallet_ui_task (poll {} (in_menu 0 (- 1) False 0 False False False False)) (in_menu 0 (- 1) False 0 False False False False)
     = in_menu 2 31 False 0 False False False False"
  "wallet_ui_task (poll {5} (in_menu 2 31 False 0 False False False False)) (in_menu 2 31 False 0 False False False False)
     = in_menu 4 30 False 0 False False False False"
  "wallet_ui_task (poll {} (in_menu 4 30 False 0 False False False False)) (in_menu 4 30 False 0 False False False False)
     = in_menu 6 31 True 0 False False False False"
  "wallet_ui_task (poll {21} (in_menu 6 31 True 0 False False False False)) (in_menu 6 31 True 0 False False False False)
     = in_menu 8 27 True 2 False False False False"
  "wallet_ui_task (poll {} (in_menu 8 27 True 2 False False False False)) (in_menu 8 27 True 2 False False False False)
     = in_menu 10 31 True 2 False False False False"
  "wallet_ui_task (poll {7} (in_menu 10 31 True 2 False False False False)) (in_menu 10 31 True 2 False False False False)
     = in_menu 12 15 True 2 True False True False"
  "wallet_ui_task (poll {} (in_menu 12 15 True 2 True False True False)) (in_menu 12 15 True 2 True False True False)
     = in_menu 14 31 True 2 True False True True"
  unfolding menu_eval menu_bits by (simp_all add: in_menu_def wallet_static_def Let_def)

lemma menu_open_run: "\<exists>tr. wallet_run ones_init tr (in_menu 6 31 True 0 False False False False)"
proof -
  have "wallet_run ones_init [] (in_menu 0 (- 1) False 0 False False False False)"
    using wallet_run.boot [of ones_init] by (simp add: ones_boot) (simp add: ones_init_def ones_hash_set)
  then obtain tr where "wallet_run ones_init tr (in_menu 2 31 False 0 False False False False)"
    using menu_step [OF _ menu_polls(1)] by blast
  then obtain tr where "wallet_run ones_init tr (in_menu 4 30 False 0 False False False False)"
    using menu_step [OF _ menu_polls(2)] by blast
  then show ?thesis using menu_step [OF _ menu_polls(3)] by blast
qed

lemma menu_reset_run: "\<exists>tr. wallet_run ones_init tr (in_menu 14 31 True 2 True False True True)"
proof -
  obtain tr where "wallet_run ones_init tr (in_menu 6 31 True 0 False False False False)"
    using menu_open_run by blast
  then obtain tr where "wallet_run ones_init tr (in_menu 8 27 True 2 False False False False)"
    using menu_step [OF _ menu_polls(4)] by blast
  then obtain tr where "wallet_run ones_init tr (in_menu 10 31 True 2 False False False False)"
    using menu_step [OF _ menu_polls(5)] by blast
  then obtain tr where "wallet_run ones_init tr (in_menu 12 15 True 2 True False True False)"
    using menu_step [OF _ menu_polls(6)] by blast
  then show ?thesis using menu_step [OF _ menu_polls(7)] by blast
qed

lemma reset_run_challenge: "\<exists>tr s. wallet_run ones_init tr s \<and> dialing PIN_RESET_CHALLENGE 0 0 s"
proof -
  let ?s = "in_menu 14 31 True 2 True False True True"
  let ?t = "wallet_ui_task (poll {7} ?s) ?s"
  have d: "dialing PIN_RESET_CHALLENGE 0 (- 1) ?t"
    unfolding in_menu_task menu_bits
    by (simp add: task_reset_confirm_def reset_challenge_start_def pin_clear_def dialing_def gate_open_def
        in_menu_def wallet_static_def)
  obtain tr where "wallet_run ones_init tr ?t" using menu_reset_run menu_step by blast
  then have "wallet_run ones_init (tr @ [(poll {} ?t, ?t)]) (wallet_ui_task (poll {} ?t) ?t)"
    using d by (elim wallet_run.task) (simp_all add: dialing_def)
  then show ?thesis using release_all(1) [OF d] by blast
qed

lemma reset_run: "\<exists>tr s. wallet_run ones_init tr s \<and> (WriteWipe 1, True) \<in> set (nvs_log s)"
proof -
  obtain tr s where s: "wallet_run ones_init tr s" "dialing PIN_RESET_CHALLENGE 0 0 s" using reset_run_challenge by blast
  from wallet_polled.type_and_confirm [OF s, of 4] obtain tr t where t: "dialing PIN_RESET_CHALLENGE 4 0 t"
    "wallet_run ones_init tr (wallet_ui_task (poll {6} t) t)" by auto
  from wallet_polled.type_and_confirm [OF t(2) confirm_challenge [OF t(1)], of 6] obtain tr u where u: "dialing PIN_RESET_VERIFY 6 0 u"
    "wallet_run ones_init tr (wallet_ui_task (poll {6} u) u)" by auto
  then show ?thesis using confirm_wipe [OF u(1)] by blast
qed

theorem wipe_needs_challenge_and_pin_witness:
  "\<exists>tr s. wallet_run ones_init tr s \<and> (WriteWipe 1, True) \<in> set (nvs_log s) \<and> typed_challenge tr"
  using reset_run wipe_needs_challenge_and_pin by blast

lemma menu_change_polls:
  "wallet_ui_task (poll {17} (in_menu 6 31 True 0 False False False False)) (in_menu 6 31 True 0 False False False False)
     = in_menu 8 23 True 1 False False False False"
  "wallet_ui_task (poll {} (in_menu 8 23 True 1 False False False False)) (in_menu 8 23 True 1 False False False False)
     = in_menu 10 31 True 1 False False False False"
  "wallet_ui_task (poll {7} (in_menu 10 31 True 1 False False False False)) (in_menu 10 31 True 1 False False False False)
     = in_menu 12 15 True 1 True True False False"
  "wallet_ui_task (poll {} (in_menu 12 15 True 1 True True False False)) (in_menu 12 15 True 1 True True False False)
     = in_menu 14 31 True 1 True True False False"
  unfolding menu_eval menu_bits by (simp_all add: in_menu_def wallet_static_def Let_def)

lemma change_run_current: "\<exists>tr s. wallet_run ones_init tr s \<and> dialing PIN_CHANGE_CURRENT 0 (- 1) s"
proof -
  let ?s = "in_menu 14 31 True 1 True True False False"
  let ?t = "wallet_ui_task (poll {7} ?s) ?s"
  have d: "dialing PIN_CHANGE_CURRENT 0 (- 1) ?t"
    unfolding menu_eval menu_bits
    by (simp add: start_change_def pin_clear_def pin_first_clear_def dialing_def gate_open_def
        in_menu_def wallet_static_def Let_def)
  obtain tr where "wallet_run ones_init tr (in_menu 8 23 True 1 False False False False)"
    using menu_open_run menu_step [OF _ menu_change_polls(1)] by blast
  then obtain tr where "wallet_run ones_init tr (in_menu 10 31 True 1 False False False False)"
    using menu_step [OF _ menu_change_polls(2)] by blast
  then obtain tr where "wallet_run ones_init tr (in_menu 12 15 True 1 True True False False)"
    using menu_step [OF _ menu_change_polls(3)] by blast
  then obtain tr where "wallet_run ones_init tr ?s"
    using menu_step [OF _ menu_change_polls(4)] by blast
  then show ?thesis using menu_step d by blast
qed

lemma confirm_current:
  assumes "dialing PIN_CHANGE_CURRENT 6 0 s"
  shows "dialing PIN_CHANGE_NEW 0 64 (wallet_ui_task (poll {6} s) s)"
proof -
  obtain t where t: "dialing PIN_CHANGE_CURRENT 6 0 t" "wallet_ui_task (poll {6} s) s =
      (if restarted (pin_submit (poll {6} s) t) then pin_submit (poll {6} s) t
       else (pin_submit (poll {6} s) t)\<lparr>pin_previous_buttons := 64\<rparr>)"
    using confirm [OF assms] by blast
  obtain m where m: "submit_verify (poll {6} s) t = submit_outcome (poll {6} s) True (judged_state True 762566370 m
       (fst (pin_lock_check (rtc_after (poll {6} s)) (judged_state True 762566370 m PIN_GATE_READY t))) t)"
    using submit_verify_judged(4) [OF ones_verdict [OF t(1), simplified]] by blast
  have "fst (pin_lock_check leap_day_evening (judged_state True 762566370 m PIN_GATE_READY t)) = PIN_GATE_READY"
    using t(1) by (simp add: gate_ready_iff leap_day_evening_seconds judged_state_def gate_open_def dialing_def
        next_lock_record_def Let_def)
  then show ?thesis using t m
    by (simp add: pin_submit_def dialing_def submit_outcome_def judged_state_def gate_open_def next_lock_record_def Let_def)
qed

lemma confirm_new:
  assumes "dialing PIN_CHANGE_NEW 6 0 s"
  shows "dialing PIN_CHANGE_RETYPE 0 64 (wallet_ui_task (poll {6} s) s)"
    "pin_first (wallet_ui_task (poll {6} s) s) = replicate 6 49 @ [0]"
proof -
  obtain t where t: "dialing PIN_CHANGE_NEW 6 0 t" "wallet_ui_task (poll {6} s) s =
      (if restarted (pin_submit (poll {6} s) t) then pin_submit (poll {6} s) t
       else (pin_submit (poll {6} s) t)\<lparr>pin_previous_buttons := 64\<rparr>)"
    using confirm [OF assms] by blast
  then show "dialing PIN_CHANGE_RETYPE 0 64 (wallet_ui_task (poll {6} s) s)"
    "pin_first (wallet_ui_task (poll {6} s) s) = replicate 6 49 @ [0]"
    by (simp_all add: pin_submit_def pin_clear_def dialing_def)
qed

lemma ones_stored:
  assumes "pin_store_open t"
  shows "pin_store_new (poll k u) (replicate 6 49 @ [0]) t = (True, t\<lparr>pin_hash := replicate 6 49 @ replicate 54 7 @ [0],
      nvs_log := nvs_log t @ [(WriteHash (cstr (replicate 6 49 @ replicate 54 7 @ [0])), True), (Commit, True)]\<rparr>)"
proof -
  have "cstr (replicate 6 49 @ [0] :: bytes) = replicate 6 49" by (rule cstr_terminated) simp
  moreover have "cstr (replicate 16 7 :: bytes) = replicate 16 7" by (simp add: cstr_def)
  moreover have "demo_crypt (replicate 6 49) (replicate 16 7) = Some (replicate 6 49 @ replicate 54 7 @ [0])"
    by (simp add: demo_crypt_def)
  ultimately show ?thesis using assms by (simp add: pin_store_new_def pin_calculate_def nvs_do_def)
qed

lemma confirm_retype:
  assumes "dialing PIN_CHANGE_RETYPE 6 0 s" "pin_first s = replicate 6 49 @ [0]"
  shows "pin_hash (wallet_ui_task (poll {6} s) s) \<noteq> pin_hash s"
proof -
  obtain t where t: "dialing PIN_CHANGE_RETYPE 6 0 t" "wallet_ui_task (poll {6} s) s =
      (if restarted (pin_submit (poll {6} s) t) then pin_submit (poll {6} s) t
       else (pin_submit (poll {6} s) t)\<lparr>pin_previous_buttons := 64\<rparr>)" "pin_first t = pin_first s"
    using confirm [OF assms(1)] by blast
  have "pin_hash (wallet_ui_task (poll {6} s) s) = replicate 6 49 @ replicate 54 7 @ [0]"
    using t assms(2) ones_stored [of t "{6}" s] by (simp add: pin_submit_def submit_change_retype_def dialing_def)
  moreover have "pin_hash s = ones_hash" using assms(1) by (simp add: dialing_def)
  ultimately show ?thesis by (simp add: ones_hash_def)
qed

lemma change_run:
  "\<exists>tr s. wallet_run ones_init tr s \<and> pin_hash (wallet_ui_task (poll {6} s) s) \<noteq> pin_hash s \<and> pin_hash s ! 0 \<noteq> 0"
proof -
  obtain tr s where s: "wallet_run ones_init tr s" "dialing PIN_CHANGE_CURRENT 0 (- 1) s" using change_run_current by blast
  from wallet_polled.type_and_confirm [OF s, of 6] obtain tr t where t: "dialing PIN_CHANGE_CURRENT 6 0 t"
    "wallet_run ones_init tr (wallet_ui_task (poll {6} t) t)" by auto
  from wallet_polled.type_and_confirm [OF t(2) confirm_current [OF t(1)], of 6] obtain tr u where u: "dialing PIN_CHANGE_NEW 6 0 u"
    "wallet_run ones_init tr (wallet_ui_task (poll {6} u) u)" by auto
  from wallet_polled.type_and_confirm [OF u(2) confirm_new(1) [OF u(1)], of 6] obtain tr v where v: "dialing PIN_CHANGE_RETYPE 6 0 v"
    "wallet_run ones_init tr v" "pin_first v = replicate 6 49 @ [0]" using confirm_new(2) [OF u(1)] by auto
  moreover from v(1) have "pin_hash v ! 0 \<noteq> 0" by (simp add: dialing_def ones_hash_set)
  ultimately show ?thesis using confirm_retype [OF v(1,3)] by blast
qed

theorem pin_change_needs_current_pin_witness:
  "\<exists>tr s. wallet_run ones_init tr s \<and> pin_mode s = PIN_CHANGE_RETYPE \<and> proved_pin tr PIN_CHANGE_CURRENT (pin_hash s)"
  using change_run pin_change_needs_current_pin by blast

theorem keypad_buffers_safe_witness: "keypad_inv (in_menu 14 31 True 2 True False True True)"
  using menu_reset_run keypad_buffers_safe by blast

lemma guessed_run: "\<exists>tr s. wallet_run ones_init tr s \<and> guesses tr \<noteq> []"
proof -
  obtain tr s where s: "wallet_run ones_init tr s" "dialing PIN_CHANGE_CURRENT 0 (- 1) s" using change_run_current by blast
  from wallet_polled.type_and_confirm [OF s, of 6] obtain tr t where t: "wallet_run ones_init tr t" "dialing PIN_CHANGE_CURRENT 6 0 t"
    by auto
  have "pin_mode (wallet_ui_task (poll {6} t) t) = PIN_CHANGE_NEW" "pin_requires_verification t"
    using confirm_current [OF t(2)] t(2) by (simp_all add: dialing_def pin_requires_verification_def)
  then have "guesses (tr @ [(poll {6} t, t)]) \<noteq> []" by (auto simp: guesses_def revealed_def)
  moreover have "wallet_run ones_init (tr @ [(poll {6} t, t)]) (wallet_ui_task (poll {6} t) t)"
    using t by (elim wallet_run.task) (simp_all add: dialing_def)
  ultimately show ?thesis by blast
qed

theorem guesses_follow_schedule_witness:
  "\<exists>tr s. wallet_run ones_init tr s \<and> guesses tr \<noteq> [] \<and>
     lock_history (pin_lock (wallet_ui_init ones_init wallet_static)) (guesses tr) (pin_lock s)"
  using guessed_run guesses_follow_schedule by blast

end
