(* ===== verification/Button.thy ===== *)
theory Button
  imports Wallet_Runs
begin

text \<open>
  The user-presence dialogue (\<open>button.c\<close>, the ESP32 build): it starts when the worker asks for
  presence, hands the screen to \<open>wallet_ui_prompt\<close>, and ends when \<open>wallet_ui.c\<close> publishes a local
  authorization. \<open>device\<close> holds the statics of \<open>button.c\<close> together with the wallet. GPIO levels,
  \<open>board_millis\<close> and \<open>is_busy\<close> are inputs; what is put into the queue to the worker and the emitted
  signals are recorded in order.
\<close>

datatype button_event = BUTTON_EV_PRESSED | BUTTON_EV_TIMEOUT | BUTTON_EV_CANCELLED | BUTTON_EV_NONE

datatype queue_flag = EV_BUTTON_PRESSED | EV_BUTTON_TIMEOUT | EV_BUTTON_CANCELLED

datatype signal = SIGNAL_USER_PRESENCE_REQUEST nat | SIGNAL_USER_PRESENCE_COMPLETED
  | SIGNAL_USER_PRESENCE_TIMEOUT | SIGNAL_USER_PRESENCE_CANCELLED

record device =
  dev_wallet :: wallet
  req_button_pending :: bool
  async_button_wait :: bool
  async_button_pressed :: bool
  async_button_started :: u32
  async_button_timeout :: u32
  async_button_led_mode :: u32
  led_mode :: u32
  approve_armed :: bool
  approve_raw :: bool
  approve_stable :: bool
  cancel_raw :: bool
  physical_cancel :: bool
  approve_changed :: u32
  cancel_changed :: u32
  cancel_button :: bool
  button_pressed_state :: bool
  button_pressed_time :: u32
  button_press :: u8
  button_hold_state :: bool
  button_hold_started :: u32
  button_last_poll :: u32
  button_pressed_duration :: u32
  usb_to_card_q :: "queue_flag list"
  signals :: "signal list"
  pressed_calls :: "u8 list"

record button_env =
  gpio5 :: bool
  gpio5_poll :: bool
  gpio6_poll :: bool
  millis :: u32
  millis_poll :: u32
  button_busy :: bool
  pressed_cb :: bool
  result_tick :: u32

definition button_wait_start :: "u32 \<Rightarrow> bool \<Rightarrow> bool \<Rightarrow> u32 \<Rightarrow> device \<Rightarrow> device" where
  "button_wait_start now level5 level6 mode_button d =
    (let button_timeout = 30000;
         d = d\<lparr>signals := signals d @ [SIGNAL_USER_PRESENCE_REQUEST (unat button_timeout div 1000)]\<rparr>;
         d = d\<lparr>dev_wallet := wallet_ui_prompt (dev_wallet d)\<rparr>;
         d = d\<lparr>async_button_wait := True, async_button_started := now\<rparr>;
         d = d\<lparr>async_button_pressed := False, physical_cancel := False, approve_armed := False,
               approve_raw := level5, approve_stable := level5, cancel_raw := level6,
               approve_changed := now, cancel_changed := now\<rparr>
     in d\<lparr>async_button_timeout := button_timeout, async_button_led_mode := led_mode d,
          req_button_pending := True, led_mode := mode_button\<rparr>)"

text \<open>The two debounced inputs of one poll: the approve key and the cancel key.\<close>

definition debounce_approve :: "u32 \<Rightarrow> bool \<Rightarrow> device \<Rightarrow> device" where
  "debounce_approve now pressed d =
    (let d = (if pressed \<noteq> approve_raw d then d\<lparr>approve_raw := pressed, approve_changed := now\<rparr> else d) in
     if now - approve_changed d \<ge> 30 then
       (let d = d\<lparr>approve_stable := approve_raw d\<rparr>
        in if \<not> approve_stable d then d\<lparr>approve_armed := True\<rparr> else d)
     else d)"

definition debounce_cancel :: "u32 \<Rightarrow> bool \<Rightarrow> device \<Rightarrow> device" where
  "debounce_cancel now cancel d =
    (let d = (if cancel \<noteq> cancel_raw d then d\<lparr>cancel_raw := cancel, cancel_changed := now\<rparr> else d) in
     if cancel_raw d \<and> now - cancel_changed d \<ge> 30 then
       (let d = (if \<not> cancel_button d then d\<lparr>physical_cancel := True\<rparr> else d) in d\<lparr>cancel_button := True\<rparr>)
     else d)"

definition poll_result :: "u32 \<Rightarrow> bool \<Rightarrow> device \<Rightarrow> button_event" where
  "poll_result now pressed d =
    (if cancel_button d then BUTTON_EV_CANCELLED
     else if now - async_button_started d \<ge> async_button_timeout d then BUTTON_EV_TIMEOUT
     else if async_button_pressed d \<and> \<not> pressed then BUTTON_EV_PRESSED
     else BUTTON_EV_NONE)"

definition result_flag :: "button_event \<Rightarrow> queue_flag" where
  "result_flag r = (if r = BUTTON_EV_PRESSED then EV_BUTTON_PRESSED
     else if r = BUTTON_EV_TIMEOUT then EV_BUTTON_TIMEOUT else EV_BUTTON_CANCELLED)"

definition finish_wait :: "u32 \<Rightarrow> button_event \<Rightarrow> device \<Rightarrow> device" where
  "finish_wait now result d =
    (let d = d\<lparr>async_button_wait := False\<rparr>;
         overruled = (result = BUTTON_EV_PRESSED \<and> cancel_raw d);
         d = (if overruled then d\<lparr>physical_cancel := True\<rparr> else d);
         result = (if overruled then BUTTON_EV_CANCELLED else result);
         message = (if result = BUTTON_EV_PRESSED then ''APPROVED''
                    else if result = BUTTON_EV_TIMEOUT then ''TIMED OUT''
                    else if physical_cancel d then ''GPIO SIX CANCEL'' else ''HOST CANCEL'');
         d = d\<lparr>dev_wallet := wallet_ui_result now message (dev_wallet d)\<rparr>;
         d = d\<lparr>req_button_pending := False, led_mode := async_button_led_mode d\<rparr>;
         d = d\<lparr>usb_to_card_q := usb_to_card_q d @ [result_flag result]\<rparr>
     in d\<lparr>signals := signals d @
          [if result = BUTTON_EV_PRESSED then SIGNAL_USER_PRESENCE_COMPLETED
           else if result = BUTTON_EV_TIMEOUT then SIGNAL_USER_PRESENCE_TIMEOUT
           else SIGNAL_USER_PRESENCE_CANCELLED]\<rparr>)"

definition poll_local :: "button_env \<Rightarrow> int \<Rightarrow> device \<Rightarrow> device" where
  "poll_local e local_authorization d =
    (let now = millis_poll e;
         pressed = (if local_authorization < 0 then gpio5_poll e else False);
         d = (if local_authorization < 0 then d\<lparr>cancel_button := True\<rparr> else d\<lparr>async_button_pressed := True\<rparr>);
         d = debounce_approve now pressed d;
         pressed = approve_stable d;
         d = debounce_cancel now (gpio6_poll e) d;
         pressed = (if \<not> approve_armed d then False else pressed);
         d = (if \<not> async_button_pressed d \<and> pressed then d\<lparr>async_button_pressed := True\<rparr> else d);
         result = poll_result now pressed d
     in if result = BUTTON_EV_NONE then d else finish_wait (result_tick e) result d)"

definition button_wait_poll :: "button_env \<Rightarrow> device \<Rightarrow> device" where
  "button_wait_poll e d =
    (if \<not> async_button_wait d then d
     else let (local_authorization, w) = wallet_ui_take_local_authorization (dev_wallet d);
              d = d\<lparr>dev_wallet := w\<rparr>
          in if local_authorization = 0 then d else poll_local e local_authorization d)"

definition button_hold :: "u32 \<Rightarrow> bool \<Rightarrow> device \<Rightarrow> device" where
  "button_hold now current d =
    (if current \<and> \<not> button_hold_state d then d\<lparr>button_hold_started := now, button_pressed_duration := 0\<rparr>
     else if \<not> current \<and> button_hold_state d then
       d\<lparr>button_pressed_duration := (if button_hold_started d = 0 then 0 else now - button_hold_started d),
         button_hold_started := 0\<rparr>
     else if current \<and> button_hold_state d \<and> button_hold_started d \<noteq> 0 then
       d\<lparr>button_pressed_duration := now - button_hold_started d\<rparr>
     else d)\<lparr>button_hold_state := current\<rparr>"

definition button_clicks :: "u32 \<Rightarrow> bool \<Rightarrow> device \<Rightarrow> device" where
  "button_clicks now current d =
    (let d = (if current \<noteq> button_pressed_state d then
                (if \<not> current then
                   (if button_pressed_time d = 0 \<or> button_pressed_time d + 1000 > now
                    then d\<lparr>button_press := button_press d + 1\<rparr> else d)\<lparr>button_pressed_time := now\<rparr>
                 else d)\<lparr>button_pressed_state := current\<rparr>
              else d)
     in if button_pressed_time d > 0 \<and> button_press d > 0 \<and> button_pressed_time d + 1000 < now \<and> \<not> button_pressed_state d then
          d\<lparr>pressed_calls := pressed_calls d @ [button_press d], button_pressed_time := 0, button_press := 0\<rparr>
        else d)"

definition button_task :: "button_env \<Rightarrow> device \<Rightarrow> device" where
  "button_task e d =
    (let now = millis e in
     if now > 1000 \<and> now - button_last_poll d \<ge> 10 \<and> (async_button_wait d \<or> \<not> button_busy e) then
       let d = d\<lparr>button_last_poll := now\<rparr> in
       if async_button_wait d then button_wait_poll e d
       else let d = button_hold now (gpio5 e) d
         in if pressed_cb e then button_clicks now (gpio5 e) d else d
     else d)"

section \<open>Outcome of a poll\<close>

text \<open>The verdict of one poll that found a local decision, computed from its inputs.\<close>

definition decision :: "button_env \<Rightarrow> device \<Rightarrow> queue_flag" where
  "decision e d =
    (if local_auth_result (dev_wallet d) < 0 \<or> cancel_button d \<or>
        gpio6_poll e \<and> cancel_raw d \<and> millis_poll e - cancel_changed d \<ge> 30 then EV_BUTTON_CANCELLED
     else if millis_poll e - async_button_started d \<ge> async_button_timeout d then EV_BUTTON_TIMEOUT
     else if gpio6_poll e then EV_BUTTON_CANCELLED
     else EV_BUTTON_PRESSED)"

lemma debounce_approve_simps [simp]:
  "cancel_button (debounce_approve now p d) = cancel_button d" "cancel_raw (debounce_approve now p d) = cancel_raw d"
  "cancel_changed (debounce_approve now p d) = cancel_changed d"
  "async_button_started (debounce_approve now p d) = async_button_started d"
  "async_button_timeout (debounce_approve now p d) = async_button_timeout d"
  "async_button_pressed (debounce_approve now p d) = async_button_pressed d"
  "usb_to_card_q (debounce_approve now p d) = usb_to_card_q d" "dev_wallet (debounce_approve now p d) = dev_wallet d"
  by (simp_all add: debounce_approve_def Let_def)

lemma debounce_cancel_simps [simp]:
  "cancel_raw (debounce_cancel now c d) = c"
  "cancel_button (debounce_cancel now c d) \<longleftrightarrow> cancel_button d \<or> c \<and> now - (if c = cancel_raw d then cancel_changed d else now) \<ge> 30"
  "approve_armed (debounce_cancel now c d) = approve_armed d" "approve_stable (debounce_cancel now c d) = approve_stable d"
  "async_button_started (debounce_cancel now c d) = async_button_started d"
  "async_button_timeout (debounce_cancel now c d) = async_button_timeout d"
  "async_button_pressed (debounce_cancel now c d) = async_button_pressed d"
  "usb_to_card_q (debounce_cancel now c d) = usb_to_card_q d" "dev_wallet (debounce_cancel now c d) = dev_wallet d"
  by (auto simp: debounce_cancel_def Let_def)

lemma debounce_approve_armed:
  "\<not> approve_armed d \<Longrightarrow> approve_armed (debounce_approve now p d) \<Longrightarrow> \<not> approve_stable (debounce_approve now p d)"
  by (auto simp: debounce_approve_def Let_def split: if_splits)

lemma finish_wait_simps [simp]:
  "async_button_wait (finish_wait now r d) = False" "req_button_pending (finish_wait now r d) = False"
  "usb_to_card_q (finish_wait now r d) =
     usb_to_card_q d @ [if r = BUTTON_EV_PRESSED \<and> cancel_raw d then EV_BUTTON_CANCELLED else result_flag r]"
  by (auto simp: finish_wait_def result_flag_def Let_def)

lemma poll_undecided:
  "local_auth_result (dev_wallet d) = 0 \<Longrightarrow> button_wait_poll e d = d"
  by (simp add: button_wait_poll_def wallet_ui_take_local_authorization_def)

lemma poll_decided:
  assumes "async_button_wait d" "\<not> approve_armed d" "local_auth_result (dev_wallet d) \<noteq> 0"
  shows "usb_to_card_q (button_wait_poll e d) = usb_to_card_q d @ [decision e d]"
    "\<not> async_button_wait (button_wait_poll e d)" "\<not> req_button_pending (button_wait_poll e d)"
proof -
  define a where "a = local_auth_result (dev_wallet d)"
  define d0 where "d0 = d\<lparr>dev_wallet := (dev_wallet d)\<lparr>local_auth_result := 0\<rparr>\<rparr>"
  define d1 where "d1 = (if a < 0 then d0\<lparr>cancel_button := True\<rparr> else d0\<lparr>async_button_pressed := True\<rparr>)"
  define d2 where "d2 = debounce_approve (millis_poll e) (if a < 0 then gpio5_poll e else False) d1"
  define d3 where "d3 = debounce_cancel (millis_poll e) (gpio6_poll e) d2"
  define p where "p = (if \<not> approve_armed d3 then False else approve_stable d2)"
  define d4 where "d4 = (if \<not> async_button_pressed d3 \<and> p then d3\<lparr>async_button_pressed := True\<rparr> else d3)"
  have poll: "button_wait_poll e d = (if poll_result (millis_poll e) p d4 = BUTTON_EV_NONE then d4
      else finish_wait (result_tick e) (poll_result (millis_poll e) p d4) d4)"
  proof -
    have "button_wait_poll e d = poll_local e a d0"
      using assms(1,3) by (simp add: button_wait_poll_def wallet_ui_take_local_authorization_def a_def d0_def)
    then show ?thesis unfolding poll_local_def Let_def d1_def d2_def d3_def p_def d4_def .
  qed
  have "\<not> approve_armed d1" using assms(2) by (simp add: d1_def d0_def)
  then have p: "\<not> p" using debounce_approve_armed by (auto simp: p_def d3_def d2_def)
  have d4: "d4 = d3" using p by (simp add: d4_def)
  have f: "cancel_button d3 \<longleftrightarrow> cancel_button d1 \<or> gpio6_poll e \<and>
      30 \<le> millis_poll e - (if gpio6_poll e = cancel_raw d then cancel_changed d else millis_poll e)"
    "async_button_started d3 = async_button_started d" "async_button_timeout d3 = async_button_timeout d"
    "async_button_pressed d3 = async_button_pressed d1" "usb_to_card_q d3 = usb_to_card_q d" "cancel_raw d3 = gpio6_poll e"
    by (simp_all add: d3_def d2_def d1_def d0_def)
  have "cancel_button d1 \<longleftrightarrow> a < 0 \<or> cancel_button d" "a > 0 \<Longrightarrow> async_button_pressed d1"
    by (auto simp: d1_def d0_def)
  then show "usb_to_card_q (button_wait_poll e d) = usb_to_card_q d @ [decision e d]"
    "\<not> async_button_wait (button_wait_poll e d)" "\<not> req_button_pending (button_wait_poll e d)"
    using assms(3) p unfolding poll d4
    by (auto simp: poll_result_def f decision_def a_def [symmetric] result_flag_def split: if_splits)
qed

section \<open>Runs of the device\<close>

definition device_boot :: "init_env \<Rightarrow> u32 \<Rightarrow> device" where
  "device_boot ie mounted = \<lparr>dev_wallet = wallet_ui_init ie wallet_static, req_button_pending = False,
     async_button_wait = False, async_button_pressed = False, async_button_started = 0, async_button_timeout = 0,
     async_button_led_mode = mounted, led_mode = mounted, approve_armed = False, approve_raw = False,
     approve_stable = False, cancel_raw = False, physical_cancel = False, approve_changed = 0, cancel_changed = 0,
     cancel_button = False, button_pressed_state = False, button_pressed_time = 0, button_press = 0,
     button_hold_state = False, button_hold_started = 0, button_last_poll = 0, button_pressed_duration = 0,
     usb_to_card_q = [], signals = [], pressed_calls = []\<rparr>"

text \<open>
  The core-0 loop calls \<open>button_task\<close> and \<open>wallet_ui_task\<close>; the worker asks for presence (and waits
  for the answer, so it does not ask twice), names commands, and the USB stack raises or clears the
  host's cancellation.
\<close>

inductive device_run :: "(wallet_env \<times> wallet) list \<Rightarrow> device \<Rightarrow> bool" where
  boot: "(\<And>h z. init_hash ie = Some (h, z) \<Longrightarrow> length h = 61) \<Longrightarrow> device_run [] (device_boot ie mounted)"
| start: "device_run tr d \<Longrightarrow> \<not> async_button_wait d \<Longrightarrow> device_run tr (button_wait_start now l5 l6 m d)"
| button: "device_run tr d \<Longrightarrow> device_run tr (button_task be d)"
| wallet: "device_run tr d \<Longrightarrow> \<not> restarted (dev_wallet d) \<Longrightarrow> crypt_fits e \<Longrightarrow>
     device_run (tr @ [(e, dev_wallet d)]) (d\<lparr>dev_wallet := wallet_ui_task e (dev_wallet d)\<rparr>)"
| command: "device_run tr d \<Longrightarrow> device_run tr (d\<lparr>dev_wallet := wallet_ui_command now c (dev_wallet d)\<rparr>)"
| host_cancel: "device_run tr d \<Longrightarrow> device_run tr (d\<lparr>cancel_button := b\<rparr>)"

text \<open>A call of the wallet task in which the user proved the PIN, or set the first one.\<close>

definition granting :: "wallet_env \<Rightarrow> wallet \<Rightarrow> bool" where
  "granting e s \<longleftrightarrow> (\<exists>s1. submitted e s = Some s1 \<and> length (cstr (pin_entry s1)) = 6 \<and>
     (pin_mode s = PIN_VERIFY \<and> right_pin e s1 (wallet_ui_task e s) \<or>
      pin_mode s = PIN_RETYPE \<and> take 6 (pin_first s1) = take 6 (pin_entry s1) \<and>
        pin_replaced e (pin_entry s1) s1 (wallet_ui_task e s)))"

definition grants :: "(wallet_env \<times> wallet) list \<Rightarrow> nat" where
  "grants tr = length (filter (\<lambda>(e, s). granting e s) tr)"

definition approvals :: "device \<Rightarrow> nat" where
  "approvals d = count_list (usb_to_card_q d) EV_BUTTON_PRESSED"

definition open_grant :: "device \<Rightarrow> nat" where
  "open_grant d = (if local_auth_result (dev_wallet d) = 1 then 1 else 0)"

definition device_inv :: "(wallet_env \<times> wallet) list \<Rightarrow> device \<Rightarrow> bool" where
  "device_inv tr d \<longleftrightarrow> keypad_inv (dev_wallet d) \<and> (async_button_wait d \<longrightarrow> \<not> approve_armed d) \<and>
     approvals d + open_grant d \<le> grants tr"

lemma button_hold_simps [simp]:
  "dev_wallet (button_hold now c d) = dev_wallet d" "async_button_wait (button_hold now c d) = async_button_wait d"
  "usb_to_card_q (button_hold now c d) = usb_to_card_q d"
  by (simp_all add: button_hold_def)

lemma button_clicks_simps [simp]:
  "dev_wallet (button_clicks now c d) = dev_wallet d" "async_button_wait (button_clicks now c d) = async_button_wait d"
  "usb_to_card_q (button_clicks now c d) = usb_to_card_q d"
  by (simp_all add: button_clicks_def Let_def)

lemma button_task_not_waiting:
  assumes "\<not> async_button_wait d"
  shows "dev_wallet (button_task e d) = dev_wallet d" "async_button_wait (button_task e d) = async_button_wait d"
    "usb_to_card_q (button_task e d) = usb_to_card_q d"
  using assms by (simp_all add: button_task_def Let_def)

lemma button_task_cases:
  obtains (same) "dev_wallet (button_task e d) = dev_wallet d" "async_button_wait (button_task e d) = async_button_wait d"
      "usb_to_card_q (button_task e d) = usb_to_card_q d" "async_button_wait d \<Longrightarrow> approve_armed (button_task e d) = approve_armed d"
  | (poll) "async_button_wait d" "button_task e d = button_wait_poll e (d\<lparr>button_last_poll := millis e\<rparr>)"
proof (cases "async_button_wait d")
  case False
  then show thesis using same button_task_not_waiting by blast
next
  case True
  then show thesis using same poll
    by (cases "millis e > 1000 \<and> millis e - button_last_poll d \<ge> 10") (auto simp: button_task_def Let_def)
qed

lemma wallet_ui_prompt_auth [simp]: "local_auth_result (wallet_ui_prompt s) = 0"
  by (simp add: wallet_ui_prompt_def Let_def)

lemma wallet_ui_result_auth [simp]: "local_auth_result (wallet_ui_result now m s) = local_auth_result s"
  by (simp add: wallet_ui_result_def close_menus_def Let_def)

lemma wallet_ui_result_setup [simp]: "pin_setup_at_boot (wallet_ui_result now m s) = pin_setup_at_boot s"
  by (simp add: wallet_ui_result_def close_menus_def Let_def)

lemma wallet_ui_command_auth [simp]: "local_auth_result (wallet_ui_command now c s) = local_auth_result s"
  by (simp add: wallet_ui_command_def Let_def)

lemma finish_wait_wallet: "\<exists>m. dev_wallet (finish_wait t r d) = wallet_ui_result t m (dev_wallet d)"
  by (simp add: finish_wait_def Let_def) blast

lemma poll_local_wallet:
  "dev_wallet (poll_local e a d) = dev_wallet d \<or>
     (\<exists>m. dev_wallet (poll_local e a d) = wallet_ui_result (result_tick e) m (dev_wallet d))"
proof -
  define d1 where "d1 = (if a < 0 then d\<lparr>cancel_button := True\<rparr> else d\<lparr>async_button_pressed := True\<rparr>)"
  define d2 where "d2 = debounce_approve (millis_poll e) (if a < 0 then gpio5_poll e else False) d1"
  define d3 where "d3 = debounce_cancel (millis_poll e) (gpio6_poll e) d2"
  define p where "p = (if \<not> approve_armed d3 then False else approve_stable d2)"
  define d4 where "d4 = (if \<not> async_button_pressed d3 \<and> p then d3\<lparr>async_button_pressed := True\<rparr> else d3)"
  have "poll_local e a d = (if poll_result (millis_poll e) p d4 = BUTTON_EV_NONE then d4
      else finish_wait (result_tick e) (poll_result (millis_poll e) p d4) d4)"
    unfolding poll_local_def Let_def d1_def d2_def d3_def p_def d4_def ..
  moreover have "dev_wallet d4 = dev_wallet d" by (simp add: d4_def d3_def d2_def d1_def)
  ultimately show ?thesis
    using finish_wait_wallet [of "result_tick e" "poll_result (millis_poll e) p d4" d4] by auto
qed

lemma poll_decided_wallet:
  assumes "async_button_wait d" "local_auth_result (dev_wallet d) \<noteq> 0"
  shows "local_auth_result (dev_wallet (button_wait_poll e d)) = 0"
    "keypad_inv (dev_wallet d) \<Longrightarrow> keypad_inv (dev_wallet (button_wait_poll e d))"
    "pin_setup_at_boot (dev_wallet (button_wait_poll e d)) = pin_setup_at_boot (dev_wallet d)"
proof -
  let ?w = "(dev_wallet d)\<lparr>local_auth_result := 0\<rparr>"
  have "button_wait_poll e d = poll_local e (local_auth_result (dev_wallet d)) (d\<lparr>dev_wallet := ?w\<rparr>)"
    using assms by (simp add: button_wait_poll_def wallet_ui_take_local_authorization_def)
  then have "dev_wallet (button_wait_poll e d) = ?w \<or>
      (\<exists>m. dev_wallet (button_wait_poll e d) = wallet_ui_result (result_tick e) m ?w)"
    using poll_local_wallet [of e "local_auth_result (dev_wallet d)" "d\<lparr>dev_wallet := ?w\<rparr>"] by simp
  moreover have "keypad_inv ?w" if "keypad_inv (dev_wallet d)" using that by (simp add: keypad_inv_entry)
  ultimately show "local_auth_result (dev_wallet (button_wait_poll e d)) = 0"
    "keypad_inv (dev_wallet d) \<Longrightarrow> keypad_inv (dev_wallet (button_wait_poll e d))"
    "pin_setup_at_boot (dev_wallet (button_wait_poll e d)) = pin_setup_at_boot (dev_wallet d)"
    by (auto simp: inv_wallet_ui_result)
qed

lemma decision_pressed: "decision e d = EV_BUTTON_PRESSED \<Longrightarrow> local_auth_result (dev_wallet d) \<ge> 0"
  by (auto simp: decision_def split: if_splits)

lemma poll_inv:
  assumes "device_inv tr d" "async_button_wait d"
  shows "device_inv tr (button_wait_poll e d)"
proof (cases "local_auth_result (dev_wallet d) = 0")
  case True
  with assms show ?thesis by (simp add: poll_undecided)
next
  case False
  have k: "keypad_inv (dev_wallet d)" "\<not> approve_armed d" using assms by (simp_all add: device_inv_def)
  note q = poll_decided [OF assms(2) k(2) False, of e] and w = poll_decided_wallet [OF assms(2) False, of e]
  have "local_auth_result (dev_wallet d) \<in> {- 1, 0, 1}" using k(1) by (simp add: keypad_inv_entry)
  then have "approvals (button_wait_poll e d) \<le> approvals d + open_grant d"
    using q(1) decision_pressed [of e d] False by (auto simp: approvals_def open_grant_def)
  then show ?thesis using assms(1) q(2) w k by (simp add: device_inv_def open_grant_def)
qed

lemma grants_snoc: "grants (tr @ [(e, s)]) = grants tr + (if granting e s then 1 else 0)"
  by (simp add: grants_def)

lemma run_inv: "device_run tr d \<Longrightarrow> device_inv tr d"
proof (induction rule: device_run.induct)
  case (boot ie mounted)
  then have k: "keypad_inv (wallet_ui_init ie wallet_static)" by (rule inv_wallet_ui_init)
  have "local_auth_result (wallet_ui_init ie wallet_static) = 0"
    by (simp add: wallet_ui_init_def Let_def) (simp add: wallet_static_def)
  with k show ?case by (simp add: device_inv_def device_boot_def approvals_def open_grant_def)
next
  case (start tr d now l5 l6 m)
  then show ?case
    by (simp add: device_inv_def button_wait_start_def approvals_def open_grant_def inv_wallet_ui_prompt Let_def)
next
  case (button tr d e)
  show ?case
  proof (cases e d rule: button_task_cases)
    case same
    with button.IH show ?thesis by (simp add: device_inv_def approvals_def open_grant_def)
  next
    case poll
    have "device_inv tr (d\<lparr>button_last_poll := millis e\<rparr>)"
      using button.IH by (simp add: device_inv_def approvals_def open_grant_def)
    with poll show ?thesis by (simp add: poll_inv)
  qed
next
  case (wallet tr d e)
  let ?s = "dev_wallet d"
  have k: "keypad_inv ?s" using wallet.IH by (simp add: device_inv_def)
  have "granting e ?s" if "local_auth_result ?s \<noteq> 1" "local_auth_result (wallet_ui_task e ?s) = 1"
    using authorization_facts [OF k that] by (auto simp: granting_def)
  then show ?case
    using wallet by (auto simp: device_inv_def approvals_def open_grant_def grants_snoc inv_wallet_ui_task split: if_splits)
next
  case (command tr d now c)
  then show ?case by (simp add: device_inv_def approvals_def open_grant_def inv_wallet_ui_command)
next
  case (host_cancel tr d b)
  then show ?case by (simp add: device_inv_def approvals_def open_grant_def)
qed

text \<open>
  C1. Every approval the worker receives was paid for with a PIN of its own: in any run of the
  device, the number of EV_BUTTON_PRESSED events put into the queue is at most the number of calls
  of the wallet task in which the right PIN was proved (or the first PIN was set). An approval is
  never produced by a key press alone, and one PIN entry never answers two requests.
\<close>

theorem approvals_need_pins: "device_run tr d \<Longrightarrow> approvals d \<le> grants tr"
  using run_inv [of tr d] by (simp add: device_inv_def)

text \<open>
  The outcome of a poll in a waiting device is determined: without a local decision nothing
  changes at all; with one the wait ends, the pending flag is cleared and exactly the event of
  \<open>decision\<close> is queued. Cancellation wins over timeout and timeout over approval.
\<close>

theorem poll_outcome:
  assumes "device_run tr d" "async_button_wait d"
  shows "if local_auth_result (dev_wallet d) = 0 then button_wait_poll e d = d
    else \<not> async_button_wait (button_wait_poll e d) \<and> \<not> req_button_pending (button_wait_poll e d) \<and>
      usb_to_card_q (button_wait_poll e d) = usb_to_card_q d @ [decision e d]"
  using run_inv [OF assms(1)] assms(2) poll_undecided [of d e] poll_decided [of d e] by (simp add: device_inv_def)

text \<open>
  C32. \<open>button.c\<close> takes a high GPIO 6 for the cancel key, while \<open>wallet_ui.c\<close>, which enables the
  pull-up, takes a low one for the confirm key: if the confirm key is no longer held when the poll
  finds the local authorization, and the prompt was shown at least 30 ms ago with the key released,
  the request is answered as cancelled although the PIN was right.
\<close>

theorem released_confirm_key_cancels:
  assumes "device_run tr d" "async_button_wait d" "local_auth_result (dev_wallet d) = 1"
    "gpio6_poll e" "cancel_raw d" "millis_poll e - cancel_changed d \<ge> 30"
  shows "usb_to_card_q (button_wait_poll e d) = usb_to_card_q d @ [EV_BUTTON_CANCELLED]"
  using run_inv [OF assms(1)] poll_decided(1) [of d e] assms by (simp add: device_inv_def decision_def)

section \<open>A request that is never answered\<close>

definition stranded_modes :: "pin_mode set" where
  "stranded_modes = {PIN_CHANGE_CURRENT, PIN_CHANGE_NEW, PIN_CHANGE_RETYPE, PIN_RESET_CHALLENGE, PIN_RESET_VERIFY}"

definition stranded :: "wallet \<Rightarrow> bool" where
  "stranded s \<longleftrightarrow> local_auth_result s = 0 \<and>
     (pin_mode s = PIN_IDLE \<or> settings_open s \<and> pin_mode s \<in> stranded_modes)"

lemma stranded_last_poll [simp]: "stranded (s\<lparr>last_poll := t\<rparr>) \<longleftrightarrow> stranded s"
  by (simp add: stranded_def)

lemma stranded_gate: "stranded s \<Longrightarrow> stranded (snd (task_gate e s))"
proof -
  assume s: "stranded s"
  obtain m g c n where r:
    "gate_refresh e s = s\<lparr>pin_lock_message := m, pin_gate_now := g, pin_lock_checked_at := c, pin_notice := n\<rparr>"
    using gate_refresh_frame by blast
  have "pin_requires_verification s \<Longrightarrow> settings_open s"
    using s by (auto simp: stranded_def pin_requires_verification_def)
  then show ?thesis
    using s by (auto simp: task_gate_eq r gate_back_def pin_clear_def stranded_def Let_def)
qed

lemma stranded_edit:
  assumes "stranded s" "pin_mode s \<noteq> PIN_IDLE"
  shows "stranded (keypad_edit now p newly s)"
proof -
  have o: "settings_open s" "pin_mode s \<in> stranded_modes" "local_auth_result s = 0"
    using assms by (auto simp: stranded_def)
  have k: "settings_open (key_press t) = settings_open t" for t by (simp add: key_press_def Let_def)
  have h: "settings_open (back_hold now p t) = settings_open t"
    "settings_open t \<Longrightarrow> local_auth_result (back_hold now p t) = local_auth_result t" for t
    by (simp_all add: back_hold_def Let_def)
  have r: "settings_open (back_release p t) = settings_open t" "local_auth_result (back_release p t) = local_auth_result t" for t
    by (simp_all add: back_release_def)
  have kl: "local_auth_result (key_press t) = local_auth_result t" for t by (simp add: key_press_def Let_def)
  have "settings_open (keypad_edit now p newly s)" "local_auth_result (keypad_edit now p newly s) = 0"
    using o by (simp_all add: keypad_edit_def Let_def k kl h r)
  then show ?thesis using keypad_edit_same(2) [where s = s and now = now and p = p and newly = newly] o
    by (auto simp: stranded_def)
qed

lemma stranded_idle:
  assumes "stranded s" "pin_mode s = PIN_IDLE"
  shows "stranded (task_idle e s)"
proof -
  define pins where "pins = pressed_bits (level e) [(5, 1), (6, 2), (21, 4), (17, 8), (7, 16)]"
  have q1: "stranded (snd (task_timeouts (tick e) pins s))" "pin_mode (snd (task_timeouts (tick e) pins s)) = PIN_IDLE"
    using assms by (simp_all add: task_timeouts_def close_menus_def stranded_def)
  define t where "t = task_command (snd (task_timeouts (tick e) pins s))"
  have q2: "stranded t" "pin_mode t = PIN_IDLE"
    using q1 by (simp_all add: t_def task_command_def close_menus_def stranded_def Let_def)
  have q3: "stranded (snd (task_reset_confirm e pins t))"
    using q2 by (simp add: task_reset_confirm_def reset_challenge_start_def pin_clear_def
        stranded_def stranded_modes_def Let_def)
  have q3': "pin_mode (snd (task_reset_confirm e pins t)) = PIN_IDLE" if "\<not> fst (task_reset_confirm e pins t)"
    using that q2(2) by (auto simp: task_reset_confirm_def split: if_splits)
  have q4: "stranded (task_menu pins u)" if "stranded u" "pin_mode u = PIN_IDLE" for u
    using that by (simp add: task_menu_def task_settings_def menu_select_def start_change_def pin_clear_def
        pin_first_clear_def stranded_def stranded_modes_def Let_def)
  have q5: "stranded (u\<lparr>previous_buttons := b\<rparr>) \<longleftrightarrow> stranded u" for u b by (simp add: stranded_def)
  show ?thesis
    using q1 q3 q3' q4 by (simp add: task_idle_def Let_def case_prod_beta pins_def [symmetric] t_def [symmetric] q5)
qed

lemma submit_outcome_open:
  "settings_open (submit_outcome e ok s) = settings_open s \<or> pin_mode (submit_outcome e ok s) = PIN_IDLE"
  using reset_schedule_wipe_frame [of e s]
  by (cases "reset_schedule_wipe e s") (auto simp: submit_outcome_def)

lemma submit_verify_open:
  "settings_open (submit_verify e s) = settings_open s \<or> pin_mode (submit_verify e s) = PIN_IDLE"
proof (cases e s rule: submit_verify_cases)
  case (gate g n s1)
  then show ?thesis using pin_lock_check_frame [OF gate(1)] by (auto simp: pin_clear_def)
next
  case no_hash
  then show ?thesis by (simp add: pin_clear_def)
next
  case (flash now ok s2)
  then show ?thesis using pin_lock_record_result_frame [OF flash(6)] by (auto simp: pin_clear_def)
next
  case (judged now ok s2 g n s3)
  have "settings_open s3 = settings_open s"
    using pin_lock_record_result_frame [OF judged(6)] pin_lock_check_frame [OF judged(7)] by (auto simp: pin_clear_def)
  then show ?thesis using submit_outcome_open [of e ok "s3\<lparr>pin_gate_now := g\<rparr>"] judged(8) by simp
qed

lemma submit_verify_no_auth:
  assumes "pin_mode s \<in> {PIN_CHANGE_CURRENT, PIN_RESET_VERIFY}"
  shows "local_auth_result (submit_verify e s) = local_auth_result s"
proof (cases "judgement e s")
  case None
  then show ?thesis using submit_verify_undecided [OF None] by (simp add: undecided_def)
next
  case (Some a)
  moreover obtain ok now where "a = (ok, now)" by fastforce
  ultimately show ?thesis using submit_verify_decided(4) [of e s ok now] assms
    by (auto simp: submit_outcome_auth)
qed

lemma stranded_submit:
  assumes "stranded s" "pin_mode s \<noteq> PIN_IDLE \<or> pin_length s = 0"
  shows "stranded (pin_submit e s)"
proof (cases "pin_mode s = PIN_IDLE")
  case True
  with assms show ?thesis by (simp add: pin_submit_def)
next
  case False
  then have o: "settings_open s" "pin_mode s \<in> stranded_modes" "local_auth_result s = 0"
    using assms by (auto simp: stranded_def)
  have c: "stranded (submit_challenge s)" if "pin_mode s = PIN_RESET_CHALLENGE"
    using o that by (simp add: submit_challenge_def pin_clear_def stranded_def stranded_modes_def Let_def)
  have r: "stranded (submit_change_retype e s)"
  proof (cases "pin_store_new e (pin_entry s) s")
    case (Pair ok t)
    have "settings_open t" "local_auth_result t = 0" using pin_store_new_frame [OF Pair] o by auto
    then show ?thesis using o
      by (simp add: submit_change_retype_def Pair pin_clear_def pin_first_clear_def stranded_def stranded_modes_def Let_def)
  qed
  have v: "stranded (submit_verify e s)" if "pin_mode s \<in> {PIN_CHANGE_CURRENT, PIN_RESET_VERIFY}"
    using submit_verify_no_auth [OF that] submit_verify_open [of e s] submit_verify_mode(1) [of e s] o
    by (auto simp: stranded_def stranded_modes_def)
  have n: "stranded ((pin_clear (s\<lparr>pin_first := pin_entry s\<rparr>))\<lparr>pin_mode := PIN_CHANGE_RETYPE, pin_notice := None\<rparr>)"
    using o by (simp add: pin_clear_def stranded_def stranded_modes_def)
  show ?thesis
    using c r v n assms(1) o(2) by (auto simp: pin_submit_def stranded_modes_def)
qed

lemma stranded_task:
  assumes "stranded s"
  shows "stranded (wallet_ui_task e s)"
proof (cases "tick e - last_poll s < pdMS_TO_TICKS 25 \<or> reset_success_visible s")
  case True
  have "stranded (s\<lparr>last_poll := a, reset_success_visible := b, pin_previous_buttons := c, previous_buttons := d\<rparr>)" for a b c d
    using assms by (simp add: stranded_def)
  then show ?thesis using True assms by (auto simp: wallet_ui_task_def Let_def)
next
  case False
  obtain d t where t: "task_gate e (s\<lparr>last_poll := tick e\<rparr>) = (d, t)" by fastforce
  have st: "stranded t" using stranded_gate [of "s\<lparr>last_poll := tick e\<rparr>" e] assms t by simp
  show ?thesis
  proof (cases "d \<or> pin_mode t = PIN_IDLE")
    case True
    then show ?thesis using False st stranded_idle [of t e] by (auto simp: wallet_ui_task_def t Let_def)
  next
    case nd: False
    define u where "u = keypad_edit (tick e) (keypad_bits e) (keypad_bits e AND NOT (pin_previous_buttons t)) t"
    have u: "stranded u" "pin_mode u \<noteq> PIN_IDLE \<or> pin_length u = 0"
      using stranded_edit [OF st] nd keypad_edit_same(2) [where s = t and now = "tick e" and p = "keypad_bits e"
          and newly = "keypad_bits e AND NOT (pin_previous_buttons t)"]
      by (auto simp: u_def)
    have b: "stranded (if restarted v then v else v\<lparr>pin_previous_buttons := c\<rparr>) \<longleftrightarrow> stranded v" for v c
      by (simp add: stranded_def)
    have "wallet_ui_task e s = task_keypad e t" using False nd by (simp add: wallet_ui_task_def t Let_def)
    then show ?thesis
      using u stranded_submit [OF u] by (simp add: task_keypad_def Let_def u_def [symmetric] b)
  qed
qed

text \<open>Everything that can happen while the worker waits for its answer.\<close>

inductive waiting_steps :: "device \<Rightarrow> device \<Rightarrow> bool" where
  none: "waiting_steps d d"
| button: "waiting_steps d d1 \<Longrightarrow> waiting_steps d (button_task be d1)"
| wallet: "waiting_steps d d1 \<Longrightarrow> waiting_steps d (d1\<lparr>dev_wallet := wallet_ui_task e (dev_wallet d1)\<rparr>)"
| command: "waiting_steps d d1 \<Longrightarrow> waiting_steps d (d1\<lparr>dev_wallet := wallet_ui_command now c (dev_wallet d1)\<rparr>)"
| host_cancel: "waiting_steps d d1 \<Longrightarrow> waiting_steps d (d1\<lparr>cancel_button := b\<rparr>)"

lemma stranded_forever:
  assumes "waiting_steps d d'" "async_button_wait d" "stranded (dev_wallet d)"
  shows "async_button_wait d' \<and> stranded (dev_wallet d') \<and> usb_to_card_q d' = usb_to_card_q d"
  using assms
proof (induction rule: waiting_steps.induct)
  case (button d d1 be)
  then have d1: "async_button_wait d1" "local_auth_result (dev_wallet d1) = 0" by (simp_all add: stranded_def)
  show ?case
  proof (cases be d1 rule: button_task_cases)
    case same
    with button show ?thesis by simp
  next
    case poll
    moreover have "button_wait_poll be (d1\<lparr>button_last_poll := millis be\<rparr>) = d1\<lparr>button_last_poll := millis be\<rparr>"
      using d1 by (intro poll_undecided) simp
    ultimately show ?thesis using button by simp
  qed
next
  case (wallet d d1 e)
  then show ?case by (simp add: stranded_task)
next
  case (command d d1 now c)
  moreover have "stranded (wallet_ui_command now c s) \<longleftrightarrow> stranded s" for s
    by (simp add: stranded_def wallet_ui_command_def Let_def)
  ultimately show ?case by simp
qed simp_all

text \<open>
  While the PIN dialogue of the first boot is open, no PIN is stored, the mode is one of its two
  modes and no decision is published: a long press of the back key is ignored there.
\<close>

definition setting_up :: "wallet \<Rightarrow> bool" where
  "setting_up s \<longleftrightarrow> pin_hash s ! 0 = 0 \<and> pin_mode s \<in> {PIN_CREATE, PIN_RETYPE} \<and> local_auth_result s = 0"

lemma setup_edit:
  assumes "setting_up s" "pin_setup_at_boot s"
  shows "setting_up (keypad_edit now p newly s) \<and> pin_setup_at_boot (keypad_edit now p newly s)"
proof -
  have h: "back_hold now p u = u" if "pin_setup_at_boot u" for u
    using that by (simp add: back_hold_def)
  have r: "setting_up (back_release p u) \<longleftrightarrow> setting_up u" "pin_setup_at_boot (back_release p u) = pin_setup_at_boot u" for u
    by (simp_all add: back_release_def setting_up_def)
  have k: "setting_up (key_press u) \<longleftrightarrow> setting_up u" "pin_setup_at_boot (key_press u) = pin_setup_at_boot u" for u
    by (simp_all add: key_press_def setting_up_def Let_def)
  have f: "setting_up (u\<lparr>selected_key := n\<rparr>) \<longleftrightarrow> setting_up u"
    "setting_up (u\<lparr>pin_back_down := x, pin_back_cancelled := y, pin_back_started := z\<rparr>) \<longleftrightarrow> setting_up u" for u n x y z
    by (simp_all add: setting_up_def)
  show ?thesis using assms by (simp add: keypad_edit_def Let_def h r k f)
qed

lemma setup_submit:
  assumes "setting_up s" "pin_setup_at_boot s"
  shows "if pin_setup_at_boot (pin_submit e s) then setting_up (pin_submit e s) else stranded (pin_submit e s)"
proof -
  obtain ok t where t: "pin_store_new e (pin_entry s) s = (ok, t)" by fastforce
  then have f: "pin_mode t = pin_mode s" "pin_setup_at_boot t" "local_auth_result t = 0" "\<not> ok \<Longrightarrow> pin_hash t = pin_hash s"
    using pin_store_new_frame [OF t] pin_store_new_failed [of e "pin_entry s" s t] assms by (auto simp: setting_up_def)
  have "if pin_setup_at_boot (submit_retype e s) then setting_up (submit_retype e s) else stranded (submit_retype e s)"
    using assms f by (auto simp: submit_retype_def t setting_up_def stranded_def pin_clear_def pin_first_clear_def Let_def)
  then show ?thesis using assms by (auto simp: pin_submit_def setting_up_def pin_clear_def)
qed

lemma setup_task:
  assumes "setting_up s" "pin_setup_at_boot s"
  shows "if pin_setup_at_boot (wallet_ui_task e s) then setting_up (wallet_ui_task e s) else stranded (wallet_ui_task e s)"
proof (cases "tick e - last_poll s < pdMS_TO_TICKS 25 \<or> reset_success_visible s")
  case True
  then show ?thesis using assms by (auto simp: wallet_ui_task_def setting_up_def Let_def)
next
  case False
  define t where "t = s\<lparr>last_poll := tick e\<rparr>"
  define u where "u = keypad_edit (tick e) (keypad_bits e) (keypad_bits e AND NOT (pin_previous_buttons t)) t"
  have t: "setting_up t" "pin_setup_at_boot t" using assms by (simp_all add: t_def setting_up_def)
  then have u: "setting_up u" "pin_setup_at_boot u" unfolding u_def using setup_edit by blast+
  have "pin_mode t \<noteq> PIN_IDLE" "task_gate e t = (False, t)"
    using t(1) by (auto simp: setting_up_def task_gate_def pin_requires_verification_def)
  then have "wallet_ui_task e s = task_keypad e t" using False by (simp add: wallet_ui_task_def t_def Let_def)
  moreover have "setting_up (if restarted v then v else v\<lparr>pin_previous_buttons := c\<rparr>) \<longleftrightarrow> setting_up v"
    "stranded (if restarted v then v else v\<lparr>pin_previous_buttons := c\<rparr>) \<longleftrightarrow> stranded v"
    "pin_setup_at_boot (if restarted v then v else v\<lparr>pin_previous_buttons := c\<rparr>) = pin_setup_at_boot v" for v c
    by (simp_all add: setting_up_def stranded_def)
  ultimately show ?thesis
    using u setup_submit [OF u, of e] by (simp add: task_keypad_def Let_def u_def [symmetric])
qed

lemma setup_only_at_boot:
  assumes "pin_setup_at_boot (wallet_ui_task e s)"
  shows "pin_setup_at_boot s"
proof (cases "submitted e s")
  case None
  then show ?thesis using task_not_submitted [OF None] assms by (simp add: quiet_def same_store_def)
next
  case (Some s1)
  have "pin_setup_at_boot (pin_submit e s1)" using task_submitted [OF Some] assms by auto
  moreover have "pin_setup_at_boot (submit_verify e s1) = pin_setup_at_boot s1"
  proof (cases "judgement e s1")
    case None
    then show ?thesis using submit_verify_undecided [OF None] by (simp add: undecided_def)
  next
    case (Some a)
    moreover obtain ok now where "a = (ok, now)" by fastforce
    ultimately obtain s3 where "submit_verify e s1 = submit_outcome e ok s3" "pin_setup_at_boot s3 = pin_setup_at_boot s1"
      using submit_verify_decided(4) [of e s1 ok now] by blast
    then show ?thesis by (simp add: submit_outcome_def reset_schedule_wipe_def nvs_do_def Let_def)
  qed
  moreover obtain ok t where t: "pin_store_new e (pin_entry s1) s1 = (ok, t)" by fastforce
  then have "pin_setup_at_boot t = pin_setup_at_boot s1" using pin_store_new_frame by fastforce
  ultimately have "pin_setup_at_boot s1"
    by (auto simp: pin_submit_def submit_challenge_def submit_retype_def submit_change_retype_def t Let_def split: if_splits)
  then show ?thesis using submitted_same(1) [OF Some] by (simp add: same_store_def)
qed

lemma setup_run: "device_run tr d \<Longrightarrow> pin_setup_at_boot (dev_wallet d) \<Longrightarrow> setting_up (dev_wallet d)"
proof (induction rule: device_run.induct)
  case (boot ie mounted)
  have "local_auth_result (init_pin_store ie wallet_static) = 0" "\<not> pin_setup_at_boot (init_pin_store ie wallet_static)"
    by (simp_all add: init_pin_store_def wallet_static_def Let_def split: option.split lock_read.split)
  then show ?case using boot.prems
    by (auto simp: device_boot_def wallet_ui_init_def setting_up_def wallet_static_def Let_def split: if_splits)
next
  case (start tr d now l5 l6 m)
  then show ?case by (simp add: button_wait_start_def wallet_ui_prompt_def setting_up_def Let_def)
next
  case (button tr d be)
  show ?case
  proof (cases be d rule: button_task_cases)
    case same
    with button show ?thesis by simp
  next
    case poll
    let ?d = "d\<lparr>button_last_poll := millis be\<rparr>"
    have "local_auth_result (dev_wallet d) = 0"
      using button poll poll_decided_wallet(3) [of ?d be] by (cases "local_auth_result (dev_wallet d) = 0") (auto simp: setting_up_def)
    then have "button_task be d = ?d" using poll poll_undecided [of ?d be] by simp
    then show ?thesis using button by simp
  qed
next
  case (wallet tr d e)
  then have "pin_setup_at_boot (dev_wallet d)" using setup_only_at_boot [of e "dev_wallet d"] by simp
  then show ?case using wallet setup_task [of "dev_wallet d" e] by simp
next
  case (command tr d now c)
  then show ?case by (simp add: wallet_ui_command_def setting_up_def Let_def split: if_splits)
next
  case (host_cancel tr d b)
  then show ?case by simp
qed

text \<open>
  C33. A request that arrives while the first PIN is being set up at boot is never answered: in
  every run of the device, from the poll that ends the set-up by storing that PIN, with a request
  waiting, no later poll, key press, command, timeout or host cancellation ends the wait or queues
  an event, and the wallet publishes no decision.
\<close>

theorem first_pin_strands_request:
  assumes "device_run tr d" "async_button_wait d" "pin_setup_at_boot (dev_wallet d)"
    "\<not> pin_setup_at_boot (wallet_ui_task e (dev_wallet d))"
    "waiting_steps (d\<lparr>dev_wallet := wallet_ui_task e (dev_wallet d)\<rparr>) d'"
  shows "async_button_wait d' \<and> usb_to_card_q d' = usb_to_card_q d \<and> local_auth_result (dev_wallet d') = 0"
  using stranded_forever [OF assms(5)] setup_task [OF setup_run [OF assms(1,3)] assms(3), of e] assms(2,4)
  by (simp add: stranded_def)

section \<open>Examples\<close>

text \<open>A presence request on the device of the example runs, answered with the PIN 111111.\<close>

interpretation device_polled: polled "\<lambda>tr s. device_run tr (d\<lparr>dev_wallet := s\<rparr>)" for d
proof
  fix tr s e
  assume "device_run tr (d\<lparr>dev_wallet := s\<rparr>)" "\<not> restarted s" "crypt_fits e"
  then show "device_run (tr @ [(e, s)]) (d\<lparr>dev_wallet := wallet_ui_task e s\<rparr>)"
    using device_run.wallet [of tr "d\<lparr>dev_wallet := s\<rparr>" e] by simp
qed

definition demo_request :: device where
  "demo_request = button_wait_start 5000 True True 9 (device_boot ones_init 1)"

lemma demo_request_run: "device_run [] demo_request"
  unfolding demo_request_def
  by (rule device_run.start, rule device_run.boot) (simp_all add: ones_init_def ones_hash_set device_boot_def)

lemma demo_request_fields [simp]:
  "async_button_wait demo_request" "cancel_raw demo_request" "cancel_changed demo_request = 5000"
  "async_button_started demo_request = 5000" "async_button_timeout demo_request = 30000"
  "\<not> cancel_button demo_request" "usb_to_card_q demo_request = []" "\<not> approve_armed demo_request"
  by (simp_all add: demo_request_def button_wait_start_def device_boot_def Let_def)

lemma demo_request_dialing: "dialing PIN_VERIFY 0 (- 1) (dev_wallet demo_request)"
proof -
  have "dev_wallet demo_request = wallet_ui_prompt (in_menu 0 (- 1) False 0 False False False False)"
    by (simp add: demo_request_def button_wait_start_def device_boot_def ones_boot Let_def)
  then show ?thesis
    by (simp add: wallet_ui_prompt_def Let_def dialing_def gate_open_def in_menu_def wallet_static_def ones_hash_set)
qed

lemma confirm_verify:
  assumes "dialing PIN_VERIFY 6 0 s"
  shows "local_auth_result (wallet_ui_task (poll {6} s) s) = 1"
proof -
  obtain t where t: "dialing PIN_VERIFY 6 0 t" "wallet_ui_task (poll {6} s) s =
      (if restarted (pin_submit (poll {6} s) t) then pin_submit (poll {6} s) t
       else (pin_submit (poll {6} s) t)\<lparr>pin_previous_buttons := 64\<rparr>)"
    using confirm [OF assms] by blast
  obtain m where "submit_verify (poll {6} s) t = submit_outcome (poll {6} s) True (judged_state True 762566370 m
       (fst (pin_lock_check (rtc_after (poll {6} s)) (judged_state True 762566370 m PIN_GATE_READY t))) t)"
    using submit_verify_judged(4) [OF ones_verdict [OF t(1), simplified]] by blast
  then show ?thesis using t by (simp add: pin_submit_def dialing_def submit_outcome_def judged_state_def)
qed

lemma demo_authorized_run:
  "\<exists>tr s. device_run tr (demo_request\<lparr>dev_wallet := s\<rparr>) \<and> local_auth_result s = 1"
proof -
  have "device_run [] (demo_request\<lparr>dev_wallet := dev_wallet demo_request\<rparr>)" using demo_request_run by simp
  from device_polled.type_and_confirm [OF this demo_request_dialing, of 6] obtain t tr where
    "dialing PIN_VERIFY 6 0 t" "device_run tr (demo_request\<lparr>dev_wallet := wallet_ui_task (poll {6} t) t\<rparr>)" by auto
  then show ?thesis using confirm_verify by blast
qed

definition demo_poll :: "bool \<Rightarrow> button_env" where
  "demo_poll l6 = \<lparr>gpio5 = True, gpio5_poll = True, gpio6_poll = l6, millis = 9000, millis_poll = 9000,
     button_busy = False, pressed_cb = False, result_tick = 900\<rparr>"

lemma demo_approved_run: "\<exists>tr d. device_run tr d \<and> approvals d = 1"
proof -
  obtain tr s where r: "device_run tr (demo_request\<lparr>dev_wallet := s\<rparr>)" "local_auth_result s = 1"
    using demo_authorized_run by blast
  let ?d = "demo_request\<lparr>dev_wallet := s\<rparr>" and ?e = "demo_poll False"
  have t: "button_task ?e ?d = button_wait_poll ?e (?d\<lparr>button_last_poll := 9000\<rparr>)"
    by (simp add: button_task_def demo_poll_def) (simp add: demo_request_def button_wait_start_def device_boot_def Let_def)
  have "usb_to_card_q (button_wait_poll ?e (?d\<lparr>button_last_poll := 9000\<rparr>)) =
      [decision ?e (?d\<lparr>button_last_poll := 9000\<rparr>)]"
    using poll_decided(1) [of "?d\<lparr>button_last_poll := 9000\<rparr>" ?e] r(2) by simp
  moreover have "decision ?e (?d\<lparr>button_last_poll := 9000\<rparr>) = EV_BUTTON_PRESSED"
    using r(2) by (simp add: decision_def demo_poll_def word_le_nat_alt)
  ultimately have "approvals (button_task ?e ?d) = 1" unfolding t approvals_def by simp
  then show ?thesis using device_run.button [OF r(1)] by blast
qed

theorem approvals_need_pins_witness: "\<exists>tr d. device_run tr d \<and> approvals d = 1 \<and> 1 \<le> grants tr"
  using demo_approved_run approvals_need_pins by metis

theorem poll_outcome_witness:
  "\<exists>s. \<not> async_button_wait (button_wait_poll (demo_poll False) (demo_request\<lparr>dev_wallet := s\<rparr>))"
proof -
  obtain tr s where r: "device_run tr (demo_request\<lparr>dev_wallet := s\<rparr>)" "local_auth_result s = 1"
    using demo_authorized_run by blast
  from poll_outcome [OF r(1), of "demo_poll False"] r(2) show ?thesis by auto
qed

theorem released_confirm_key_cancels_witness:
  "\<exists>s. local_auth_result s = 1 \<and>
     usb_to_card_q (button_wait_poll (demo_poll True) (demo_request\<lparr>dev_wallet := s\<rparr>)) = [EV_BUTTON_CANCELLED]"
proof -
  obtain tr s where r: "device_run tr (demo_request\<lparr>dev_wallet := s\<rparr>)" "local_auth_result s = 1"
    using demo_authorized_run by blast
  from released_confirm_key_cancels [OF r(1), of "demo_poll True"] r(2) show ?thesis
    by (auto simp: demo_poll_def word_le_nat_alt)
qed

text \<open>
  A first set-up: no PIN is stored at boot, a request arrives, and 111111 is typed twice.
\<close>

definition fresh_init :: init_env where
  "fresh_init = ones_init\<lparr>init_hash := None\<rparr>"

definition setup_request :: device where
  "setup_request = button_wait_start 5000 True True 9 (device_boot fresh_init 1)"

lemma setup_request_fields [simp]:
  "async_button_wait setup_request" "usb_to_card_q setup_request = []" "device_run [] setup_request"
proof -
  show "async_button_wait setup_request" "usb_to_card_q setup_request = []"
    by (simp_all add: setup_request_def button_wait_start_def device_boot_def Let_def)
  show "device_run [] setup_request"
    unfolding setup_request_def
    by (rule device_run.start, rule device_run.boot) (simp_all add: fresh_init_def device_boot_def)
qed

lemma setup_request_wallet:
  "dialing PIN_CREATE 0 (- 1) (dev_wallet setup_request)" "pin_setup_at_boot (dev_wallet setup_request)"
proof -
  have "dev_wallet setup_request = wallet_ui_prompt (wallet_ui_init fresh_init wallet_static)"
    by (simp add: setup_request_def button_wait_start_def device_boot_def Let_def)
  moreover have "(replicate 61 0)[0 := 0] = replicate 61 (0 :: u8)" by (simp add: list_update_same_conv)
  ultimately show "dialing PIN_CREATE 0 (- 1) (dev_wallet setup_request)" "pin_setup_at_boot (dev_wallet setup_request)"
    by (simp_all add: wallet_ui_init_def init_pin_store_def fresh_init_def ones_init_def wallet_ui_prompt_def
        wallet_static_def dialing_def gate_open_def Let_def)
qed

lemma confirm_create:
  assumes "dialing PIN_CREATE 6 0 s"
  shows "dialing PIN_RETYPE 0 64 (wallet_ui_task (poll {6} s) s)"
    "pin_first (wallet_ui_task (poll {6} s) s) = replicate 6 49 @ [0]"
    "pin_setup_at_boot (wallet_ui_task (poll {6} s) s) = pin_setup_at_boot s"
proof -
  obtain t where "dialing PIN_CREATE 6 0 t" "wallet_ui_task (poll {6} s) s =
      (if restarted (pin_submit (poll {6} s) t) then pin_submit (poll {6} s) t
       else (pin_submit (poll {6} s) t)\<lparr>pin_previous_buttons := 64\<rparr>)" "pin_setup_at_boot t = pin_setup_at_boot s"
    using confirm [OF assms] by blast
  then show "dialing PIN_RETYPE 0 64 (wallet_ui_task (poll {6} s) s)"
    "pin_first (wallet_ui_task (poll {6} s) s) = replicate 6 49 @ [0]"
    "pin_setup_at_boot (wallet_ui_task (poll {6} s) s) = pin_setup_at_boot s"
    by (simp_all add: pin_submit_def pin_clear_def dialing_def)
qed

lemma confirm_first_pin:
  assumes "dialing PIN_RETYPE 6 0 s" "pin_first s = replicate 6 49 @ [0]" "pin_setup_at_boot s"
  shows "\<not> pin_setup_at_boot (wallet_ui_task (poll {6} s) s)"
proof -
  obtain t where t: "dialing PIN_RETYPE 6 0 t" "wallet_ui_task (poll {6} s) s =
      (if restarted (pin_submit (poll {6} s) t) then pin_submit (poll {6} s) t
       else (pin_submit (poll {6} s) t)\<lparr>pin_previous_buttons := 64\<rparr>)" "pin_first t = pin_first s"
    "pin_setup_at_boot t = pin_setup_at_boot s"
    using confirm [OF assms(1)] by blast
  then show ?thesis
    using assms ones_stored [of t "{6}" s] by (simp add: pin_submit_def submit_retype_def dialing_def Let_def)
qed

lemma setup_request_run:
  "\<exists>tr s. device_run tr (setup_request\<lparr>dev_wallet := s\<rparr>) \<and> pin_setup_at_boot s \<and>
     \<not> pin_setup_at_boot (wallet_ui_task (poll {6} s) s)"
proof -
  have "device_run [] (setup_request\<lparr>dev_wallet := dev_wallet setup_request\<rparr>)" by simp
  from device_polled.type_and_confirm [OF this setup_request_wallet(1), of 6] obtain t tr where
    t: "dialing PIN_CREATE 6 0 t" "device_run tr (setup_request\<lparr>dev_wallet := wallet_ui_task (poll {6} t) t\<rparr>)"
      "pin_setup_at_boot t" using setup_request_wallet(2) by auto
  from device_polled.type_and_confirm [OF t(2) confirm_create(1) [OF t(1)], of 6] obtain u tr' where
    "dialing PIN_RETYPE 6 0 u" "device_run tr' (setup_request\<lparr>dev_wallet := u\<rparr>)"
    "pin_setup_at_boot u" "pin_first u = replicate 6 49 @ [0]"
    using confirm_create(2,3) [OF t(1)] t(3) by auto
  then show ?thesis using confirm_first_pin by blast
qed

text \<open>After the PIN is stored, neither the host's cancellation nor a poll past the timeout ends the wait.\<close>

theorem first_pin_strands_request_witness:
  "\<exists>tr d e. device_run tr d \<and> async_button_wait d \<and> pin_setup_at_boot (dev_wallet d) \<and>
     \<not> pin_setup_at_boot (wallet_ui_task e (dev_wallet d)) \<and>
     async_button_wait (button_task ((demo_poll True)\<lparr>millis := 60000, millis_poll := 60000\<rparr>)
       (d\<lparr>dev_wallet := wallet_ui_task e (dev_wallet d), cancel_button := True\<rparr>))"
proof -
  obtain tr s where s: "device_run tr (setup_request\<lparr>dev_wallet := s\<rparr>)" "pin_setup_at_boot s"
    "\<not> pin_setup_at_boot (wallet_ui_task (poll {6} s) s)" using setup_request_run by blast
  let ?d = "setup_request\<lparr>dev_wallet := s\<rparr>" and ?e = "poll {6} s"
  have "waiting_steps (?d\<lparr>dev_wallet := wallet_ui_task ?e (dev_wallet ?d)\<rparr>)
      (button_task ((demo_poll True)\<lparr>millis := 60000, millis_poll := 60000\<rparr>)
        (?d\<lparr>dev_wallet := wallet_ui_task ?e (dev_wallet ?d), cancel_button := True\<rparr>))"
    using waiting_steps.button [OF waiting_steps.host_cancel [OF waiting_steps.none]] by simp
  from first_pin_strands_request [OF s(1) _ _ _ this] s show ?thesis
    by (intro exI [of _ tr] exI [of _ ?d] exI [of _ ?e]) simp
qed

end
