(* ===== verification/Apdu.thy ===== *)
theory Apdu
  imports Prelude
begin

text \<open>
  ISO 7816 command and response handling (\<open>apdu.c\<close>) and application selection (\<open>main.c\<close>): parsing a
  command, command chaining, dispatch, and the GET RESPONSE protocol that hands out a long
  response in pieces. \<open>apdu_state\<close> holds the statics; \<open>hdr\<close> is the receive buffer that starts with the
  header, \<open>rdata\<close> the response buffer, and the pointers into them are offsets. The callbacks of the
  registered applications are parameters (\<open>app_ops\<close>).
\<close>

section \<open>State\<close>

record app =
  app_aid :: bytes
  app_process :: bool

record apdu_state =
  hdr :: bytes
  nc :: u32
  ne :: u32
  apdu_data :: nat
  sw :: u16
  rdata :: bytes
  rlen :: u16
  rdata_gr :: "nat option"
  rdata_bk :: u16
  response_pending :: bool
  is_chaining :: bool
  chain_buf :: bytes
  chain_ptr :: "nat option"
  chain_header :: bytes
  apps :: "app list"
  current_app :: "nat option"

abbreviation CLA :: "apdu_state \<Rightarrow> u8" where "CLA s \<equiv> hdr s ! 0"
abbreviation INS :: "apdu_state \<Rightarrow> u8" where "INS s \<equiv> hdr s ! 1"
abbreviation P1 :: "apdu_state \<Rightarrow> u8" where "P1 s \<equiv> hdr s ! 2"
abbreviation P2 :: "apdu_state \<Rightarrow> u8" where "P2 s \<equiv> hdr s ! 3"

abbreviation (input) sizeof_chain_buf :: nat where "sizeof_chain_buf \<equiv> 2038"

definition set_res_sw :: "u8 \<Rightarrow> u8 \<Rightarrow> apdu_state \<Rightarrow> apdu_state" where
  "set_res_sw sw1 sw2 s =
    (let s = s\<lparr>sw := make_uint16_be sw1 sw2\<rparr> in
     if sw1 \<noteq> 0x90 \<and> sw1 \<noteq> 0x61 then s\<lparr>rlen := 0\<rparr> else s)"

section \<open>Applications\<close>

text \<open>
  \<open>select_aid a forced\<close> is the callback of application \<open>a\<close> (true for PICOKEYS_OK), \<open>unload\<close> its
  \<open>unload\<close> hook, \<open>run_app\<close> its \<open>process_apdu\<close>.
\<close>

record app_ops =
  select_aid :: "nat \<Rightarrow> bool \<Rightarrow> apdu_state \<Rightarrow> bool \<times> apdu_state"
  unload_app :: "nat \<Rightarrow> apdu_state \<Rightarrow> apdu_state"
  run_app :: "nat \<Rightarrow> apdu_state \<Rightarrow> apdu_state"

definition aid_matches :: "bytes \<Rightarrow> bytes \<Rightarrow> bool" where
  "aid_matches own aid \<longleftrightarrow> length aid \<ge> length own \<and> take (length own) aid = own"

definition app_exists :: "bytes \<Rightarrow> apdu_state \<Rightarrow> bool" where
  "app_exists aid s \<longleftrightarrow> list_ex (\<lambda>a. aid_matches (app_aid a) aid) (apps s)"

definition register_app :: "app \<Rightarrow> apdu_state \<Rightarrow> bool \<times> apdu_state" where
  "register_app a s =
    (if app_exists (app_aid a) s then (True, s)
     else if length (apps s) < 16 then (True, s\<lparr>apps := apps s @ [a]\<rparr>)
     else (False, s))"

definition current_matches :: "bytes \<Rightarrow> apdu_state \<Rightarrow> nat option" where
  "current_matches aid s =
    (case current_app s of None \<Rightarrow> None
     | Some c \<Rightarrow> if aid_matches (app_aid (apps s ! c)) aid then Some c else None)"

fun select_loop :: "app_ops \<Rightarrow> bytes \<Rightarrow> nat list \<Rightarrow> apdu_state \<Rightarrow> bool \<times> apdu_state" where
  "select_loop ops aid [] s = (False, s)"
| "select_loop ops aid (a # as) s =
    (if aid_matches (app_aid (apps s ! a)) aid then
       (case current_matches aid s of
          Some c \<Rightarrow> (True, snd (select_aid ops c True s))
        | None \<Rightarrow>
          let s = (case current_app s of None \<Rightarrow> s | Some c \<Rightarrow> unload_app ops c s);
              (ok, s) = select_aid ops a True (s\<lparr>current_app := Some a\<rparr>)
          in if ok then (True, s) else select_loop ops aid as s)
     else select_loop ops aid as s)"

definition select_app :: "app_ops \<Rightarrow> bytes \<Rightarrow> apdu_state \<Rightarrow> bool \<times> apdu_state" where
  "select_app ops aid s =
    (case current_matches aid s of
       Some c \<Rightarrow> (True, snd (select_aid ops c False s))
     | None \<Rightarrow> select_loop ops aid [0..<length (apps s)] s)"

section \<open>Processing a command\<close>

definition is_select :: "apdu_state \<Rightarrow> bool" where
  "is_select s \<longleftrightarrow> INS s = 0xA4 \<and> P1 s = 0x04 \<and> (P2 s = 0x00 \<or> P2 s = 0x04)"

definition header_bytes :: "apdu_state \<Rightarrow> bytes" where
  "header_bytes s = [CLA s AND NOT 0x10, INS s, P1 s, P2 s]"

definition chain_reset :: "apdu_state \<Rightarrow> apdu_state" where
  "chain_reset s = s\<lparr>chain_buf := replicate sizeof_chain_buf 0, chain_ptr := None, is_chaining := False\<rparr>"

definition chain_used :: "apdu_state \<Rightarrow> nat" where
  "chain_used s = (case chain_ptr s of None \<Rightarrow> 0 | Some p \<Rightarrow> p)"

definition chain_more :: "apdu_state \<Rightarrow> apdu_state" where
  "chain_more s =
    (if is_chaining s \<and> header_bytes s \<noteq> chain_header s then set_res_sw 0x68 0x83 (chain_reset s)
     else
       let s = (if \<not> is_chaining s then s\<lparr>chain_ptr := Some 0, chain_header := header_bytes s\<rparr> else s) in
       if chain_used s + unat (nc s) \<ge> sizeof_chain_buf then set_res_sw 0x67 0x00 (chain_reset s)
       else set_res_sw 0x90 0x00
         (s\<lparr>chain_buf := buf_write (chain_used s) (slice (apdu_data s) (unat (nc s)) (hdr s)) (chain_buf s),
            chain_ptr := Some (chain_used s + unat (nc s)), is_chaining := True\<rparr>))"

text \<open>The last command of a chain: the collected data are put in front of its own. The flag tells
  whether processing goes on.\<close>

definition chain_last :: "apdu_state \<Rightarrow> bool \<times> apdu_state" where
  "chain_last s =
    (let (go, s) =
       (if is_chaining s \<and> (is_select s \<or> header_bytes s \<noteq> chain_header s) then
          (let sel = is_select s; s = chain_reset s
           in if sel then (True, s) else (False, set_res_sw 0x68 0x83 s))
        else (True, s))
     in if \<not> go then (False, s)
        else if is_chaining s then
          (if chain_used s + unat (nc s) \<ge> sizeof_chain_buf then (False, set_res_sw 0x67 0x00 (chain_reset s))
           else
             let u = chain_used s; d = apdu_data s;
                 h = buf_write (d + u) (slice d (unat (nc s)) (hdr s)) (hdr s);
                 h = buf_write d (take u (chain_buf s)) h
             in (True, chain_reset (s\<lparr>hdr := h, nc := nc s + word_of_nat u\<rparr>)))
        else (True, s))"

definition dispatch :: "app_ops \<Rightarrow> apdu_state \<Rightarrow> apdu_state" where
  "dispatch ops s =
    (if CLA s AND 0x10 = 0 \<and> CLA s AND 0x0C \<noteq> 0 then set_res_sw 0x6E 0x00 s
     else if is_select s then
       (let (ok, s) = select_app ops (slice (apdu_data s) (unat (nc s)) (hdr s)) s
        in if ok then set_res_sw 0x90 0x00 s else set_res_sw 0x6A 0x82 s)
     else case current_app s of
       Some c \<Rightarrow> if app_process (apps s ! c) then run_app ops c s else set_res_sw 0x6A 0x82 s
     | None \<Rightarrow> set_res_sw 0x6A 0x82 s)"

definition process_apdu :: "app_ops \<Rightarrow> apdu_state \<Rightarrow> apdu_state" where
  "process_apdu ops s =
    (if CLA s AND 0x10 \<noteq> 0 then chain_more s
     else let (go, s) = chain_last s in if go then dispatch ops s else s)"

section \<open>Receiving a command\<close>

text \<open>The length fields. On every path the source assigns the fields it has reached before it
  gives up; the flag is false when it returns early.\<close>

definition set_lengths :: "nat \<Rightarrow> apdu_state \<Rightarrow> bool \<times> apdu_state" where
  "set_lengths sz s =
    (let s = s\<lparr>nc := 0, ne := 0\<rparr>; h = hdr s;
         full = (\<lambda>n x. if x = 0 then n else x :: u32) in
     if sz = 4 then (True, s\<lparr>ne := 256\<rparr>)
     else if sz = 5 then (True, s\<lparr>ne := full 256 (ucast (h ! 4))\<rparr>)
     else if h ! 4 = 0 \<and> sz \<ge> 7 then
       (if sz = 7 then (True, s\<lparr>ne := full 65536 (ucast (get_uint16_be (drop 5 h)))\<rparr>)
        else
          let s = s\<lparr>ne := 0, nc := ucast (get_uint16_be (drop 5 h)), apdu_data := 7\<rparr>;
              expected = unat (nc s) + 7
          in if sz \<noteq> expected \<and> sz \<noteq> expected + 2 then (False, s)
             else if sz = expected + 2 then (True, s\<lparr>ne := full 65536 (ucast (get_uint16_be (drop (sz - 2) h)))\<rparr>)
             else (True, s))
     else
       let s = s\<lparr>nc := ucast (h ! 4), apdu_data := 5, ne := 0\<rparr>; expected = unat (nc s) + 5
       in if sz \<noteq> expected \<and> sz \<noteq> expected + 1 then (False, s)
          else if sz = expected + 1 then (True, s\<lparr>ne := full 256 (ucast (h ! (sz - 1)))\<rparr>)
          else (True, s))"

text \<open>Where a piece of the response ends, the two bytes there are saved and \<open>61 xx\<close> is written over
  them; the next GET RESPONSE puts them back first.\<close>

definition split_response :: "nat \<Rightarrow> nat \<Rightarrow> apdu_state \<Rightarrow> apdu_state" where
  "split_response gr n s =
    (let rest = unat (rlen s) - n;
         s = s\<lparr>rdata_gr := Some gr, rdata_bk := make_uint16_be (rdata s ! gr) (rdata s ! Suc gr)\<rparr>;
         s = s\<lparr>rdata := buf_write gr [0x61, if rest \<ge> 256 then 0 else word_of_nat rest] (rdata s)\<rparr>
     in s\<lparr>rlen := rlen s - word_of_nat n, response_pending := True\<rparr>)"

definition get_response :: "apdu_state \<Rightarrow> bytes \<times> apdu_state" where
  "get_response s =
    (let gr = the (rdata_gr s);
         s = s\<lparr>rdata := buf_write gr (put_uint16_be (rdata_bk s)) (rdata s)\<rparr> in
     if unat (rlen s) \<le> unat (ne s) then
       (slice gr (unat (rlen s + 2)) (rdata s),
        s\<lparr>sw := 0, rlen := 0, rdata_gr := Some 0, response_pending := False\<rparr>)
     else
       let n = unat (ne s); t = split_response (gr + n) n s
       in (slice gr (unat (ucast (ne s + 2) :: u16)) (rdata t), t))"

text \<open>\<open>apdu_process\<close>: the flag says that a new command is ready; the second component is the piece of
  response that was handed to the transport.\<close>

definition apdu_process :: "bytes option \<Rightarrow> apdu_state \<Rightarrow> bool \<times> bytes option \<times> apdu_state" where
  "apdu_process buffer s =
    (case buffer of None \<Rightarrow> (False, None, s)
     | Some b \<Rightarrow>
       if length b < 4 \<or> length b > 65535 then (False, None, s)
       else
         let (ok, s) = set_lengths (length b) (s\<lparr>hdr := buf_write 0 b (hdr s)\<rparr>) in
         if \<not> ok then (False, None, s)
         else if INS s = 0xc0 then
           (if \<not> response_pending s \<or> rdata_gr s = None then (True, None, s\<lparr>rdata_gr := Some 0\<rparr>)
            else let (piece, s) = get_response s in (False, Some piece, s))
         else (True, None, s\<lparr>sw := 0, rlen := 0, rdata_gr := Some 0, response_pending := False\<rparr>))"

definition apdu_finish :: "apdu_state \<Rightarrow> apdu_state" where
  "apdu_finish s = s\<lparr>rdata := buf_write (unat (rlen s)) (put_uint16_be (sw s)) (rdata s)\<rparr>"

definition apdu_next :: "apdu_state \<Rightarrow> u16 \<times> apdu_state" where
  "apdu_next s =
    (if sw s \<noteq> 0 then
       (if unat (rlen s) \<le> unat (ne s) then (rlen s + 2, s\<lparr>response_pending := False\<rparr>)
        else (ucast (ne s + 2), split_response (unat (ne s)) (unat (ne s)) s))
     else (0, s\<lparr>response_pending := False\<rparr>))"

definition apdu_limit_response :: "u16 \<Rightarrow> u16 \<Rightarrow> apdu_state \<Rightarrow> u16 \<times> apdu_state" where
  "apdu_limit_response size_next max_size s =
    (if sw s = 0 \<or> max_size < 2 \<or> size_next \<le> max_size then (size_next, s)
     else let n = unat (max_size - 2) in
       if unat (rlen s) \<le> n then (size_next, s)
       else (max_size, split_response n n s))"

text \<open>One round of \<open>apdu_thread\<close>, for the event \<open>m\<close> it took from its queue: the flags it puts into the
  other queue, \<open>None\<close> for the state when the thread ends.\<close>

datatype card_event = EV_CMD_AVAILABLE | EV_VERIFY_CMD_AVAILABLE | EV_MODIFY_CMD_AVAILABLE | EV_EXIT | EV_OTHER nat

datatype card_flag = Ack card_event | EV_EXEC_FINISHED u16

definition apdu_round :: "app_ops \<Rightarrow> card_event \<Rightarrow> apdu_state \<Rightarrow> card_flag list \<times> apdu_state option" where
  "apdu_round ops m s =
    (let acks = (if m \<noteq> EV_CMD_AVAILABLE then [Ack m] else []) in
     if m = EV_EXIT then (acks, None)
     else
       let s = (if m = EV_VERIFY_CMD_AVAILABLE \<or> m = EV_MODIFY_CMD_AVAILABLE then set_res_sw 0x6f 0x00 s
                else process_apdu ops s);
           (n, s) = apdu_next (apdu_finish s)
       in (acks @ [EV_EXEC_FINISHED n], Some s))"

section \<open>Long responses\<close>

text \<open>The pieces in which a response should reach the host that asks for \<open>n\<close> bytes, then for each of
  the \<open>ns\<close>: every piece but the last carries \<open>61 xx\<close>, the last one the status word.\<close>

definition more_byte :: "nat \<Rightarrow> u8" where
  "more_byte rest = (if rest \<ge> 256 then 0 else word_of_nat rest)"

fun pieces :: "nat list \<Rightarrow> bytes \<Rightarrow> u16 \<Rightarrow> bytes list" where
  "pieces [] data w = []"
| "pieces (n # ns) data w =
    (if length data \<le> n then [data @ put_uint16_be w]
     else (take n data @ [0x61, more_byte (length data - n)]) # pieces ns (drop n data) w)"

text \<open>The GET RESPONSE commands of the host, as \<open>apdu_process\<close> receives them, and the pieces it hands
  to the transport while a response is pending.\<close>

definition get_response_command :: "u8 \<Rightarrow> bytes" where
  "get_response_command le = [0x00, 0xc0, 0x00, 0x00, le]"

definition le_value :: "u8 \<Rightarrow> nat" where
  "le_value le = (if le = 0 then 256 else unat le)"

fun ask_responses :: "u8 list \<Rightarrow> apdu_state \<Rightarrow> bytes list" where
  "ask_responses [] s = []"
| "ask_responses (le # les) s =
    (case apdu_process (Some (get_response_command le)) s of
       (_, Some piece, s) \<Rightarrow> piece # ask_responses les s
     | (_, None, _) \<Rightarrow> [])"

lemma buf_write_twice:
  "length xs = length ys \<Longrightarrow> off + length xs \<le> length buf \<Longrightarrow> buf_write off xs (buf_write off ys buf) = buf_write off xs buf"
  by (simp add: buf_write_def)

lemma buf_write_self2:
  "Suc off < length buf \<Longrightarrow> buf_write off [buf ! off, buf ! Suc off] buf = buf"
  by (simp add: buf_write_def Cons_nth_drop_Suc)

lemma slice_split: "slice off (m + n) xs = slice off m xs @ slice (off + m) n xs"
  by (simp add: slice_def take_add add.commute)

text \<open>What a pending response still holds.\<close>

definition pending :: "apdu_state \<Rightarrow> bytes \<Rightarrow> u16 \<Rightarrow> bool" where
  "pending s data w \<longleftrightarrow> response_pending s \<and> length data \<le> 65533 \<and> unat (rlen s) = length data \<and>
     (\<exists>g. rdata_gr s = Some g \<and> g + length data + 2 \<le> length (rdata s) \<and>
        slice g (length data + 2) (buf_write g (put_uint16_be (rdata_bk s)) (rdata s)) = data @ put_uint16_be w)"

lemma split_response_pending:
  assumes "n < length data" "length data \<le> 65533" "unat (rlen s) = length data" "g + length data + 2 \<le> length (rdata s)"
    "slice g (length data + 2) (rdata s) = data @ put_uint16_be w"
  shows "pending (split_response (g + n) n s) (drop n data) w"
    "slice g (n + 2) (rdata (split_response (g + n) n s)) = take n data @ [0x61, more_byte (length data - n)]"
proof -
  let ?t = "split_response (g + n) n s"
  have t: "rdata ?t = buf_write (g + n) [0x61, more_byte (length data - n)] (rdata s)" "rdata_gr ?t = Some (g + n)"
    "rdata_bk ?t = make_uint16_be (rdata s ! (g + n)) (rdata s ! Suc (g + n))" "response_pending ?t"
    "rlen ?t = rlen s - word_of_nat n"
    using assms(3) by (simp_all add: split_response_def more_byte_def Let_def)
  have r: "buf_write (g + n) (put_uint16_be (rdata_bk ?t)) (rdata ?t) = rdata s"
    using assms(1,4) by (simp add: t buf_write_twice buf_write_self2)
  have "unat (rlen ?t) = length data - n"
    using assms(1-3) by (simp add: t(5) unat_sub_if' unat_of_nat)
  moreover have "slice (g + n) (length data - n + 2) (rdata s) = drop n data @ put_uint16_be w"
  proof -
    have "slice (g + n) (length data - n + 2) (rdata s) = drop n (slice g (length data + 2) (rdata s))"
      using assms(1) by (simp add: slice_def drop_take add.commute Suc_diff_le)
    then show ?thesis using assms(1,5) by simp
  qed
  ultimately show "pending ?t (drop n data) w"
    using assms(1,2,4) r t(2,4) by (auto simp: pending_def t(1))
  have "slice g n (rdata s) = take n data"
  proof -
    have "slice g n (rdata s) = take n (slice g (length data + 2) (rdata s))" using assms(1) by (simp add: slice_def)
    then show ?thesis using assms(1,5) by simp
  qed
  then show "slice g (n + 2) (rdata ?t) = take n data @ [0x61, more_byte (length data - n)]"
    using assms(1,4) unfolding slice_split t(1) by (simp add: codec_simps)
qed

lemma get_response_pending:
  assumes "pending s data w" "unat (ne s) = n" "data \<noteq> []"
  shows "if length data \<le> n then fst (get_response s) = data @ put_uint16_be w \<and> \<not> response_pending (snd (get_response s))
    else fst (get_response s) = take n data @ [0x61, more_byte (length data - n)] \<and>
      pending (snd (get_response s)) (drop n data) w"
proof -
  obtain g where g: "rdata_gr s = Some g" "g + length data + 2 \<le> length (rdata s)" "unat (rlen s) = length data"
    "slice g (length data + 2) (buf_write g (put_uint16_be (rdata_bk s)) (rdata s)) = data @ put_uint16_be w"
    "length data \<le> 65533"
    using assms(1) by (auto simp: pending_def)
  define r where "r = s\<lparr>rdata := buf_write g (put_uint16_be (rdata_bk s)) (rdata s)\<rparr>"
  have r: "unat (rlen r) = length data" "g + length data + 2 \<le> length (rdata r)"
    "slice g (length data + 2) (rdata r) = data @ put_uint16_be w" "ne r = ne s" using g by (simp_all add: r_def)
  show ?thesis
  proof (cases "length data \<le> n")
    case True
    have "unat (rlen s + 2) = length data + 2" using g by (simp add: unat_word_ariths)
    then show ?thesis using True g assms(2) by (simp add: get_response_def Let_def)
  next
    case False
    then have "unat (ucast (ne s + 2) :: u16) = n + 2"
      using g(5) assms(2) by (simp add: unsigned_ucast_eq unsigned_take_bit_eq unat_word_ariths take_bit_nat_eq_self_iff)
    moreover have "get_response s = (slice g (unat (ucast (ne s + 2) :: u16)) (rdata (split_response (g + n) n r)),
        split_response (g + n) n r)"
      using False g assms(2) by (simp add: get_response_def Let_def r_def)
    ultimately show ?thesis
      using False split_response_pending [OF _ g(5) r(1,2,3), of n] by simp
  qed
qed

lemma get_response_header:
  "buf_write 0 (get_response_command le) h ! 4 = le" "buf_write 0 (get_response_command le) h ! 1 = 0xc0"
  by (simp_all add: buf_write_def get_response_command_def)

lemma get_response_received:
  assumes "response_pending s" "rdata_gr s \<noteq> None"
  shows "\<exists>s1. apdu_process (Some (get_response_command le)) s = (False, Some (fst (get_response s1)), snd (get_response s1)) \<and>
    unat (ne s1) = le_value le \<and> (\<forall>data w. pending s data w \<longrightarrow> pending s1 data w)"
proof -
  define s1 where "s1 = s\<lparr>hdr := buf_write 0 (get_response_command le) (hdr s), nc := 0,
      ne := (if ucast le = (0 :: u32) then 256 else ucast le)\<rparr>"
  have h: "buf_write 0 (get_response_command le) (hdr s) ! 4 = le" "buf_write 0 (get_response_command le) (hdr s) ! 1 = 0xc0"
    by (rule get_response_header)+
  have "set_lengths 5 (s\<lparr>hdr := buf_write 0 (get_response_command le) (hdr s)\<rparr>) = (True, s1)"
    by (simp add: set_lengths_def s1_def h Let_def)
  moreover have "INS s1 = 0xc0" using h(2) by (simp add: s1_def)
  moreover have "length (get_response_command le) = 5" by (simp add: get_response_command_def)
  moreover have "response_pending s1 \<and> rdata_gr s1 \<noteq> None" using assms by (simp add: s1_def)
  ultimately have "apdu_process (Some (get_response_command le)) s = (False, Some (fst (get_response s1)), snd (get_response s1))"
    by (simp add: apdu_process_def case_prod_beta)
  moreover have u: "unat (ucast le :: u32) = unat le"
    using unsigned_less [of le, where 'a = nat] by (simp add: unsigned_ucast_eq take_bit_nat_eq_self_iff)
  then have "(ucast le = (0 :: u32)) = (le = 0)" by (simp add: word_unat_eq_iff)
  with u have "unat (ne s1) = le_value le" by (simp add: s1_def le_value_def)
  moreover have "pending s1 data w" if "pending s data w" for data w using that by (simp add: pending_def s1_def)
  ultimately show ?thesis by blast
qed

lemma ask_not_pending:
  assumes "\<not> response_pending s"
  shows "fst (snd (apdu_process (Some (get_response_command le)) s)) = None"
proof -
  have "length (get_response_command le) = 5" by (simp add: get_response_command_def)
  moreover have "buf_write 0 (get_response_command le) (hdr s) ! Suc 0 = 0xc0"
    using get_response_header(2) by simp
  ultimately show ?thesis
    using assms by (simp add: apdu_process_def set_lengths_def Let_def)
qed

lemma ask_responses_pending:
  "pending s data w \<Longrightarrow> data \<noteq> [] \<Longrightarrow> ask_responses les s = pieces (map le_value les) data w"
proof (induction les arbitrary: s data)
  case Nil
  then show ?case by simp
next
  case (Cons le les)
  have "response_pending s" "rdata_gr s \<noteq> None" using Cons.prems by (auto simp: pending_def)
  from get_response_received [OF this, of le] obtain s1 where
    p: "apdu_process (Some (get_response_command le)) s = (False, Some (fst (get_response s1)), snd (get_response s1))"
    and n: "unat (ne s1) = le_value le" and pend: "pending s1 data w" using Cons.prems(1) by blast
  show ?case
  proof (cases "length data \<le> le_value le")
    case True
    then have "fst (get_response s1) = data @ put_uint16_be w" "\<not> response_pending (snd (get_response s1))"
      using get_response_pending [OF pend n Cons.prems(2)] by simp_all
    moreover have "ask_responses les t = []" if "\<not> response_pending t" for t
    proof (cases les)
      case (Cons l ls)
      then show ?thesis using ask_not_pending [OF that, of l]
        by (cases "apdu_process (Some (get_response_command l)) t") (auto split: option.splits)
    qed simp
    ultimately show ?thesis using True p by simp
  next
    case False
    then have "fst (get_response s1) = take (le_value le) data @ [0x61, more_byte (length data - le_value le)]"
      "pending (snd (get_response s1)) (drop (le_value le) data) w"
      using get_response_pending [OF pend n Cons.prems(2)] by simp_all
    then show ?thesis using False p Cons.IH [of "snd (get_response s1)" "drop (le_value le) data"] by simp
  qed
qed

lemma response_pieces_eq:
  assumes "sw s \<noteq> 0" "unat (rlen s) + 2 \<le> length (rdata s)" "unat (rlen s) \<le> 65533"
    "apdu_next (apdu_finish s) = (n, t)"
  shows "take (unat n) (rdata t) # ask_responses les t =
    pieces (unat (ne s) # map le_value les) (take (unat (rlen s)) (rdata s)) (sw s)"
proof -
  define data where "data = take (unat (rlen s)) (rdata s)"
  define f where "f = apdu_finish s"
  have len: "length data = unat (rlen s)" using assms(2) by (simp add: data_def)
  have f: "sw f = sw s" "rlen f = rlen s" "ne f = ne s" "length (rdata f) = length (rdata s)"
    using assms(2) by (simp_all add: f_def apdu_finish_def)
  have sl: "slice 0 (length data + 2) (rdata f) = data @ put_uint16_be (sw s)"
    unfolding slice_split using assms(2) len
    by (simp add: f_def apdu_finish_def codec_simps) (simp add: slice_def data_def)
  show ?thesis
  proof (cases "unat (rlen s) \<le> unat (ne s)")
    case True
    then have nt: "n = rlen s + 2" "t = f\<lparr>response_pending := False\<rparr>"
      using assms(1,4) f by (simp_all add: apdu_next_def f_def [symmetric])
    have "unat n = length data + 2" using assms(3) len by (simp add: nt(1) unat_word_ariths)
    then have "take (unat n) (rdata t) = data @ put_uint16_be (sw s)" using sl nt(2) by (simp add: slice_def)
    moreover have "ask_responses les t = []"
    proof (cases les)
      case (Cons l ls)
      have "\<not> response_pending t" by (simp add: nt(2))
      then show ?thesis using ask_not_pending [of t l] Cons
        by (cases "apdu_process (Some (get_response_command l)) t") (auto split: option.splits)
    qed simp
    ultimately show ?thesis using True len by (simp add: data_def [symmetric])
  next
    case False
    let ?n = "unat (ne s)"
    have nt: "n = ucast (ne s + 2)" "t = split_response (0 + ?n) ?n f"
      using assms(1,4) f False by (simp_all add: apdu_next_def f_def [symmetric])
    have un: "unat n = ?n + 2"
      using False assms(3)
      by (simp add: nt(1) unsigned_ucast_eq unsigned_take_bit_eq unat_word_ariths take_bit_nat_eq_self_iff)
    have lt: "?n < length data" using False len by simp
    have "pending t (drop ?n data) (sw s)" "slice 0 (?n + 2) (rdata t) = take ?n data @ [0x61, more_byte (length data - ?n)]"
      unfolding nt(2) using split_response_pending [OF lt, of f 0 "sw s"] assms(2,3) len f sl by simp_all
    then show ?thesis
      using ask_responses_pending [of t "drop ?n data" "sw s" les] lt un by (simp add: slice_def data_def [symmetric])
  qed
qed

text \<open>
  C34. Long responses arrive whole: after a command has left \<open>rlen\<close> bytes of response and a status
  word, the piece that \<open>apdu_next\<close> announces followed by the pieces that GET RESPONSE commands
  obtain are the reference pieces: consecutive parts of the response, each but the last followed by
  \<open>61 xx\<close>, the last by the status word. The bytes that \<open>61 xx\<close> overwrites in the response buffer are
  always restored.
\<close>

theorem response_pieces:
  assumes "sw s \<noteq> 0" "unat (rlen s) + 2 \<le> length (rdata s)" "unat (rlen s) \<le> 65533"
    "apdu_next (apdu_finish s) = (n, t)"
  shows "take (unat n) (rdata t) # ask_responses les t =
    pieces (unat (ne s) # map le_value les) (take (unat (rlen s)) (rdata s)) (sw s)"
  by (rule response_pieces_eq [OF assms])

definition demo_apdu :: apdu_state where
  "demo_apdu = \<lparr>hdr = replicate 8 0, nc = 0, ne = 2, apdu_data = 5, sw = 0x9000, rdata = [10, 11, 12, 13, 14, 0, 0, 0], rlen = 5,
     rdata_gr = None, rdata_bk = 0, response_pending = False, is_chaining = False, chain_buf = replicate 2038 0,
     chain_ptr = None, chain_header = [], apps = [], current_app = None\<rparr>"

theorem response_pieces_witness:
  "take 4 (rdata (snd (apdu_next (apdu_finish demo_apdu)))) # ask_responses [1, 0] (snd (apdu_next (apdu_finish demo_apdu))) =
     [[10, 11, 0x61, 3], [12, 0x61, 2], [13, 14, 0x90, 0]]"
proof -
  obtain n t where nt: "apdu_next (apdu_finish demo_apdu) = (n, t)" by fastforce
  have d: "sw demo_apdu = 0x9000" "unat (rlen demo_apdu) = 5" "unat (ne demo_apdu) = 2"
    "rdata demo_apdu = [10, 11, 12, 13, 14, 0, 0, 0]" by (simp_all add: demo_apdu_def)
  have n: "n = 4" using nt by (auto simp: apdu_next_def apdu_finish_def demo_apdu_def)
  from response_pieces [OF _ _ _ nt, of "[1, 0]"] show ?thesis
    by (simp add: nt n d le_value_def more_byte_def put_uint16_be_def)
qed

section \<open>Command chaining\<close>

text \<open>A command with its data in the receive buffer, and the first commands of a chain.\<close>

definition received :: "u8 \<Rightarrow> bytes \<Rightarrow> bytes \<Rightarrow> apdu_state \<Rightarrow> apdu_state" where
  "received cla h d s = s\<lparr>hdr := (cla # h) @ [word_of_nat (length d)] @ d @ replicate 2100 0,
     nc := word_of_nat (length d), apdu_data := 5\<rparr>"

fun chained :: "app_ops \<Rightarrow> u8 \<Rightarrow> bytes \<Rightarrow> bytes list \<Rightarrow> apdu_state \<Rightarrow> apdu_state" where
  "chained ops cla h [] s = s"
| "chained ops cla h (d # ds) s = chained ops cla h ds (process_apdu ops (received (cla OR 0x10) h d s))"

definition chain_holds :: "u8 \<Rightarrow> bytes \<Rightarrow> bytes \<Rightarrow> apdu_state \<Rightarrow> bool" where
  "chain_holds cla h data s \<longleftrightarrow> is_chaining s \<and> chain_header s = cla # h \<and> length (chain_buf s) = 2038 \<and>
     chain_ptr s = Some (length data) \<and> take (length data) (chain_buf s) = data \<and> length data < 2038"

lemma received_simps:
  assumes "length h = 3" "length d < 2038"
  shows "slice 5 (unat (nc (received cla h d s))) (hdr (received cla h d s)) = d" "unat (nc (received cla h d s)) = length d"
    "header_bytes (received cla h d s) = (cla AND NOT 0x10) # h" "apdu_data (received cla h d s) = 5"
    "CLA (received cla h d s) = cla" "length (hdr (received cla h d s)) = length d + 2105"
proof -
  obtain a b c where h: "h = [a, b, c]" using assms(1) by (auto simp: length_Suc_conv numeral_eq_Suc)
  have u: "unat (word_of_nat (length d) :: u32) = length d" using assms(2) by (simp add: unat_of_nat)
  show "slice 5 (unat (nc (received cla h d s))) (hdr (received cla h d s)) = d"
    by (simp add: received_def h u slice_def)
  show "unat (nc (received cla h d s)) = length d" by (simp add: received_def u)
  show "header_bytes (received cla h d s) = (cla AND NOT 0x10) # h" by (simp add: received_def header_bytes_def h)
  show "apdu_data (received cla h d s) = 5" by (simp add: received_def)
  show "CLA (received cla h d s) = cla" by (simp add: received_def)
  show "length (hdr (received cla h d s)) = length d + 2105" by (simp add: received_def h)
qed

lemma received_other [simp]:
  "is_chaining (received cla h d s) = is_chaining s" "chain_header (received cla h d s) = chain_header s"
  "chain_buf (received cla h d s) = chain_buf s" "chain_ptr (received cla h d s) = chain_ptr s"
  by (simp_all add: received_def)

lemma set_res_sw_chain [simp]:
  "is_chaining (set_res_sw a b s) = is_chaining s" "chain_header (set_res_sw a b s) = chain_header s"
  "chain_buf (set_res_sw a b s) = chain_buf s" "chain_ptr (set_res_sw a b s) = chain_ptr s"
  by (simp_all add: set_res_sw_def Let_def)

lemma chain_bit:
  assumes "(cla :: u8) AND 0x10 = 0"
  shows "(cla OR 0x10) AND 0x10 \<noteq> 0" "(cla OR 0x10) AND NOT 0x10 = cla" "cla AND NOT 0x10 = cla"
proof -
  have b: "bit (0x10 :: u8) i \<longleftrightarrow> i = 4" for i
    using bit_exp_iff [of 4 i, where 'a = "8 word"] by auto
  have n: "\<not> bit cla 4" using assms by (metis b bit_0_eq bit_and_iff bot_apply bot_bool_def)
  have "bit ((cla OR 0x10) AND 0x10) 4" by (simp add: bit_and_iff bit_or_iff b)
  then show "(cla OR 0x10) AND 0x10 \<noteq> 0" by (metis bit_0_eq bot_apply bot_bool_def)
  have "bit ((cla OR 0x10) AND NOT 0x10) i = bit cla i" "bit (cla AND NOT 0x10) i = bit cla i" if "i < LENGTH(8)" for i
    using n that unfolding bit_and_iff bit_or_iff bit_not_iff b by (auto simp: possible_bit_def)
  then show "(cla OR 0x10) AND NOT 0x10 = cla" "cla AND NOT 0x10 = cla"
    by (blast intro: bit_word_eqI)+
qed

lemma chained_step:
  assumes "length h = 3" "cla AND 0x10 = 0" "length data + length d < 2038"
    "chain_holds cla h data s \<or> data = [] \<and> \<not> is_chaining s \<and> length (chain_buf s) = 2038"
  shows "chain_holds cla h (data @ d) (process_apdu ops (received (cla OR 0x10) h d s))"
proof -
  let ?r = "received (cla OR 0x10) h d s"
  have d: "length d < 2038" using assms(3) by simp
  note r = received_simps [OF assms(1) d, of "cla OR 0x10" s]
  have hb: "header_bytes ?r = cla # h" using r(3) chain_bit [OF assms(2)] by simp
  have p: "process_apdu ops ?r = chain_more ?r" using r(5) chain_bit [OF assms(2)] by (simp add: process_apdu_def)
  define q where "q = (if \<not> is_chaining ?r then ?r\<lparr>chain_ptr := Some 0, chain_header := header_bytes ?r\<rparr> else ?r)"
  have q: "chain_used q = length data" "nc q = nc ?r" "apdu_data q = 5" "hdr q = hdr ?r" "length (chain_buf q) = 2038"
    "take (length data) (chain_buf q) = data" "chain_header q = cla # h"
    using assms(4) hb r(4) by (auto simp: q_def chain_used_def chain_holds_def)
  have "\<not> (is_chaining ?r \<and> header_bytes ?r \<noteq> chain_header ?r)" using assms(4) hb by (auto simp: chain_holds_def)
  then have "chain_more ?r = set_res_sw 0x90 0x00 (q\<lparr>chain_buf := buf_write (length data) d (chain_buf q),
      chain_ptr := Some (length data + length d), is_chaining := True\<rparr>)"
    using q r assms(3) unfolding chain_more_def Let_def q_def [symmetric] by auto
  then show ?thesis
    using q assms(3) by (simp add: p chain_holds_def) (simp add: buf_write_def)
qed

lemma chained_holds:
  assumes "length h = 3" "cla AND 0x10 = 0" "\<not> is_chaining s" "length (chain_buf s) = 2038" "ds \<noteq> []"
    "length (concat ds) < 2038"
  shows "chain_holds cla h (concat ds) (chained ops cla h ds s)"
proof -
  have *: "chain_holds cla h (data @ concat ds) (chained ops cla h ds t)"
    if "chain_holds cla h data t" "length (data @ concat ds) < 2038" for data t ds
    using that
  proof (induction ds arbitrary: data t)
    case (Cons d ds)
    then have "chain_holds cla h (data @ d) (process_apdu ops (received (cla OR 0x10) h d t))"
      using chained_step [OF assms(1,2), of data d t ops] by simp
    then show ?case using Cons.IH [of "data @ d"] Cons.prems(2) by simp
  qed simp
  obtain d ds' where ds: "ds = d # ds'" using assms(5) by (cases ds) auto
  have "chain_holds cla h d (process_apdu ops (received (cla OR 0x10) h d s))"
    using chained_step [OF assms(1,2), of "[]" d s ops] assms(3,4,6) ds by simp
  then show ?thesis using * [of d _ ds'] assms(6) ds by simp
qed

text \<open>
  C35. Command chaining delivers the concatenated data: after commands with the chaining bit and the
  same header, the command without it is dispatched with the data of all of them followed by its
  own, its length adjusted, and the chain is over; provided that the data fit the chain buffer and
  the last command is not a SELECT.
\<close>

theorem chaining_concatenates:
  assumes "length h = 3" "cla AND 0x10 = 0" "\<not> is_chaining s" "length (chain_buf s) = 2038" "ds \<noteq> []"
    "length (concat ds) + length d < 2038" "\<not> is_select (received cla h d s)"
  shows "\<exists>t. process_apdu ops (received cla h d (chained ops cla h ds s)) = dispatch ops t \<and>
    slice (apdu_data t) (unat (nc t)) (hdr t) = concat ds @ d \<and> take 4 (hdr t) = cla # h \<and> \<not> is_chaining t"
proof -
  let ?u = "chained ops cla h ds s" and ?data = "concat ds"
  let ?r = "received cla h d ?u"
  have dl: "length d < 2038" using assms(6) by simp
  have c: "chain_holds cla h ?data ?u" using chained_holds [OF assms(1-5)] assms(6) by simp
  note r = received_simps [OF assms(1) dl, of cla ?u]
  have hb: "header_bytes ?r = cla # h" using r(3) chain_bit [OF assms(2)] by simp
  have ns: "\<not> is_select ?r" using assms(7) by (simp add: is_select_def received_def)
  have used: "chain_used ?r = length ?data" using c by (simp add: chain_used_def chain_holds_def)
  define hh where "hh = buf_write 5 ?data (buf_write (5 + length ?data) d (hdr ?r))"
  define t where "t = chain_reset (?r\<lparr>hdr := hh, nc := nc ?r + word_of_nat (length ?data)\<rparr>)"
  have "chain_last ?r = (True, t)"
    using c hb ns used r assms(6) by (simp add: chain_last_def chain_holds_def t_def hh_def Let_def)
  then have p: "process_apdu ops ?r = dispatch ops t"
    using r(5) assms(2) by (simp add: process_apdu_def)
  have un: "unat (nc t) = length ?data + length d"
  proof -
    have "nc t = word_of_nat (length d) + word_of_nat (length ?data)" by (simp add: t_def chain_reset_def received_def)
    then have "nc t = word_of_nat (length ?data + length d)" by simp
    then show ?thesis using assms(6) by (simp add: unat_of_nat del: of_nat_add)
  qed
  have len: "length (hdr ?r) = length d + 2105" using r(6) .
  have "slice 5 (length ?data + length d) hh = ?data @ d"
    unfolding slice_split hh_def using len assms(6) by (simp add: codec_simps)
  moreover have "take 4 hh = cla # h"
  proof -
    have "take 4 hh = take 4 (hdr ?r)" using len assms(6) by (simp add: hh_def buf_write_def min_def)
    then show ?thesis using assms(1) by (simp add: received_def)
  qed
  ultimately have "slice (apdu_data t) (unat (nc t)) (hdr t) = ?data @ d \<and> take 4 (hdr t) = cla # h \<and> \<not> is_chaining t"
    by (simp add: un) (simp add: t_def chain_reset_def received_def)
  with p show ?thesis by blast
qed

theorem chaining_concatenates_witness:
  "\<exists>ops t. slice (apdu_data t) (unat (nc t)) (hdr t) = [1, 2, 3] \<and>
     process_apdu ops (received 0x80 [0x51, 0, 0] [3] (chained ops 0x80 [0x51, 0, 0] [[1], [2]] demo_apdu)) = dispatch ops t"
proof -
  let ?ops = "\<lparr>select_aid = \<lambda>_ _ s. (True, s), unload_app = \<lambda>_ s. s, run_app = \<lambda>_ s. s\<rparr>"
  have "\<not> is_select (received 0x80 [0x51, 0, 0] [3] demo_apdu)" by (simp add: is_select_def received_def)
  from chaining_concatenates [OF _ _ _ _ _ _ this, of "[[1], [2]]" ?ops] show ?thesis
    by (auto simp: demo_apdu_def)
qed

section \<open>Length fields\<close>

text \<open>The encodings of ISO 7816-4: data of at most 255 bytes and an expected length of at most 256 in
  the short form, 65535 and 65536 in the extended form.\<close>

definition encode_command :: "bool \<Rightarrow> bytes \<Rightarrow> bytes \<Rightarrow> nat option \<Rightarrow> bytes" where
  "encode_command ext h d le =
    (if ext then
       h @ (if d = [] then [] else 0 # put_uint16_be (word_of_nat (length d)) @ d) @
       (case le of None \<Rightarrow> [] | Some n \<Rightarrow> (if d = [] then [0] else []) @ put_uint16_be (word_of_nat n))
     else
       h @ (if d = [] then [] else word_of_nat (length d) # d) @ (case le of None \<Rightarrow> [] | Some n \<Rightarrow> [word_of_nat n]))"

definition command_fits :: "bool \<Rightarrow> bytes \<Rightarrow> bytes \<Rightarrow> nat option \<Rightarrow> bool" where
  "command_fits ext h d le \<longleftrightarrow> length h = 4 \<and> length d < (if ext then 65536 else 256) \<and>
     (case le of None \<Rightarrow> True | Some n \<Rightarrow> 1 \<le> n \<and> n \<le> (if ext then 65536 else 256))"

text \<open>
  The expected length the code takes from a command: the one it names, none for data without one, and 256
  for a header alone, which by ISO 7816-4 asks for no response data.
\<close>

definition expected_length :: "bytes \<Rightarrow> nat option \<Rightarrow> nat" where
  "expected_length d le = (case le of None \<Rightarrow> if d = [] then 256 else 0 | Some n \<Rightarrow> n)"

lemma unat_up_u32: "unat (ucast (a :: u8) :: u32) = unat a" "unat (ucast (b :: u16) :: u32) = unat b"
  using unsigned_less [of a, where 'a = nat] unsigned_less [of b, where 'a = nat]
  by (simp_all add: unsigned_ucast_eq take_bit_nat_eq_self_iff)

lemma full_length_u8:
  assumes "1 \<le> n" "n \<le> 256"
  shows "unat (if ucast (word_of_nat n :: u8) = (0 :: u32) then 256 else ucast (word_of_nat n :: u8) :: u32) = n"
proof (cases "n = 256")
  case True
  then have "(word_of_nat n :: u8) = 0" by simp
  then show ?thesis using True by simp
next
  case False
  then have u: "unat (word_of_nat n :: u8) = n" using assms by (simp add: unat_of_nat)
  then have "ucast (word_of_nat n :: u8) \<noteq> (0 :: u32)" using assms(1) unat_up_u32(1) [of "word_of_nat n"] by auto
  then show ?thesis using u by (simp add: unat_up_u32)
qed

lemma full_length_u16:
  assumes "1 \<le> n" "n \<le> 65536"
  shows "unat (if ucast (word_of_nat n :: u16) = (0 :: u32) then 65536 else ucast (word_of_nat n :: u16) :: u32) = n"
proof (cases "n = 65536")
  case True
  then have "(word_of_nat n :: u16) = 0" by simp
  then show ?thesis using True by simp
next
  case False
  then have u: "unat (word_of_nat n :: u16) = n" using assms by (simp add: unat_of_nat)
  then have "ucast (word_of_nat n :: u16) \<noteq> (0 :: u32)" using assms(1) unat_up_u32(2) [of "word_of_nat n"] by auto
  then show ?thesis using u by (simp add: unat_up_u32)
qed

definition lengths_read :: "bool \<times> apdu_state \<Rightarrow> bytes \<Rightarrow> nat \<Rightarrow> bool" where
  "lengths_read r d n \<longleftrightarrow> fst r \<and> unat (nc (snd r)) = length d \<and> unat (ne (snd r)) = n \<and>
     (d \<noteq> [] \<longrightarrow> slice (apdu_data (snd r)) (length d) (hdr (snd r)) = d)"

lemma get_uint16_append: "get_uint16_be (put_uint16_be n @ ys) = n"
  using get_put_uint16_be [of n] by (simp add: get_uint16_be_def put_uint16_be_def)

lemma short_lengths:
  assumes "command_fits False h d le"
  shows "lengths_read (set_lengths (length (encode_command False h d le)) (s\<lparr>hdr := encode_command False h d le @ rest\<rparr>))
    d (expected_length d le)"
proof -
  obtain a b c e where h: "h = [a, b, c, e]" using assms by (auto simp: command_fits_def length_Suc_conv numeral_eq_Suc)
  consider (header) "d = []" "le = None" | (no_data) n where "d = []" "le = Some n" | (data) "d \<noteq> []" by (cases le) auto
  then show ?thesis
  proof cases
    case header
    then show ?thesis by (simp add: lengths_read_def set_lengths_def encode_command_def expected_length_def h Let_def)
  next
    case (no_data n)
    then have n: "1 \<le> n" "n \<le> 256" using assms by (auto simp: command_fits_def)
    then show ?thesis using no_data full_length_u8 [OF n]
      by (simp add: lengths_read_def set_lengths_def encode_command_def expected_length_def h Let_def split: if_splits)
  next
    case data
    note False = this
    then have l: "unat (word_of_nat (length d) :: u8) = length d" "length d \<noteq> 0" "length d < 256"
      using assms by (simp_all add: command_fits_def unat_of_nat)
    then have z: "(word_of_nat (length d) :: u8) \<noteq> 0" by auto
    show ?thesis
    proof (cases le)
      case None
      then show ?thesis using False l z
        by (simp add: lengths_read_def set_lengths_def encode_command_def expected_length_def h unat_up_u32 slice_def Let_def)
    next
      case (Some n)
      then have "1 \<le> n" "n \<le> 256" using assms by (auto simp: command_fits_def)
      from full_length_u8 [OF this] show ?thesis using False l z Some
        by (simp add: lengths_read_def set_lengths_def encode_command_def expected_length_def h unat_up_u32 slice_def
            nth_append Let_def split: if_splits)
    qed
  qed
qed

lemma set_lengths_extended:
  assumes "hdr s ! 4 = 0"
  shows "set_lengths 7 s = (True, s\<lparr>nc := 0, ne := (let x = ucast (get_uint16_be (drop 5 (hdr s))) in if x = 0 then 65536 else x)\<rparr>)"
    "7 < sz \<Longrightarrow> l = get_uint16_be (drop 5 (hdr s)) \<Longrightarrow> sz = unat l + 7 \<Longrightarrow>
      set_lengths sz s = (True, s\<lparr>nc := ucast l, ne := 0, apdu_data := 7\<rparr>)"
    "7 < sz \<Longrightarrow> l = get_uint16_be (drop 5 (hdr s)) \<Longrightarrow> sz = unat l + 9 \<Longrightarrow>
      set_lengths sz s = (True, s\<lparr>nc := ucast l, apdu_data := 7,
        ne := (let x = ucast (get_uint16_be (drop (sz - 2) (hdr s))) in if x = 0 then 65536 else x)\<rparr>)"
  using assms by (simp_all add: set_lengths_def Let_def unat_up_u32)

lemma extended_lengths:
  assumes "command_fits True h d le"
  shows "lengths_read (set_lengths (length (encode_command True h d le)) (s\<lparr>hdr := encode_command True h d le @ rest\<rparr>))
    d (expected_length d le)"
proof -
  let ?b = "encode_command True h d le" and ?l = "word_of_nat (length d) :: u16"
  have h: "length h = 4" using assms by (simp add: command_fits_def)
  consider (header) "d = []" "le = None" | (no_data) n where "d = []" "le = Some n" | (data) "d \<noteq> []" by (cases le) auto
  then show ?thesis
  proof cases
    case header
    then show ?thesis using h by (simp add: lengths_read_def set_lengths_def encode_command_def expected_length_def Let_def)
  next
    case (no_data n)
    then have n: "1 \<le> n" "n \<le> 65536" using assms by (auto simp: command_fits_def)
    have b: "?b = h @ 0 # put_uint16_be (word_of_nat n)" using no_data by (simp add: encode_command_def)
    have "set_lengths 7 (s\<lparr>hdr := ?b @ rest\<rparr>) = (True, s\<lparr>hdr := ?b @ rest, nc := 0,
        ne := (let x = ucast (get_uint16_be (drop 5 (?b @ rest))) in if x = 0 then 65536 else x)\<rparr>)"
      using set_lengths_extended(1) [of "s\<lparr>hdr := ?b @ rest\<rparr>"] b h by (simp add: nth_append)
    moreover have "get_uint16_be (drop 5 (?b @ rest)) = word_of_nat n" using b h by (simp add: get_uint16_append)
    ultimately show ?thesis using no_data full_length_u16 [OF n] b h
      by (simp add: lengths_read_def expected_length_def Let_def split: if_splits)
  next
    case data
    note False = this
    then have l: "unat ?l = length d" "0 < length d" using assms by (simp_all add: command_fits_def unat_of_nat)
    define tl where "tl = (case le of None \<Rightarrow> [] | Some n \<Rightarrow> put_uint16_be (word_of_nat n))"
    have b: "?b = h @ 0 # put_uint16_be ?l @ d @ tl" using False by (simp add: encode_command_def tl_def split: option.split)
    have z: "(?b @ rest) ! 4 = 0" "get_uint16_be (drop 5 (?b @ rest)) = ?l" "slice 7 (length d) (?b @ rest) = d"
      using b h by (simp_all add: nth_append get_uint16_append slice_def)
    have lb: "length ?b = length d + 7 + length tl" using b h by simp
    let ?s = "s\<lparr>hdr := ?b @ rest\<rparr>"
    have zs: "hdr ?s ! 4 = 0" "?l = get_uint16_be (drop 5 (hdr ?s))" using z by simp_all
    show ?thesis
    proof (cases le)
      case None
      then have "length ?b = unat ?l + 7" "7 < length ?b" using lb l by (simp_all add: tl_def)
      then have "set_lengths (length ?b) ?s = (True, ?s\<lparr>nc := ucast ?l, ne := 0, apdu_data := 7\<rparr>)"
        using set_lengths_extended(2) [OF zs(1) _ zs(2)] by blast
      then show ?thesis using None False z(3) l by (simp add: lengths_read_def expected_length_def unat_up_u32)
    next
      case (Some n)
      then have n: "1 \<le> n" "n \<le> 65536" using assms by (auto simp: command_fits_def)
      define pre where "pre = h @ 0 # put_uint16_be ?l @ d"
      have "?b @ rest = pre @ put_uint16_be (word_of_nat n) @ rest" using b Some by (simp add: tl_def pre_def)
      moreover have "length ?b - 2 = length pre" using lb h Some by (simp add: tl_def pre_def)
      ultimately have "get_uint16_be (drop (length ?b - 2) (?b @ rest)) = word_of_nat n"
        by (metis append_eq_conv_conj get_uint16_append)
      then have g: "get_uint16_be (drop (length ?b - 2) (hdr ?s)) = word_of_nat n" by simp
      have "7 < length ?b" "length ?b = unat ?l + 9" using lb l Some by (simp_all add: tl_def)
      note set_lengths_extended(3) [OF zs(1) this(1) zs(2) this(2), unfolded g]
      then show ?thesis using Some z(3) l full_length_u16 [OF n]
        by (simp add: lengths_read_def expected_length_def unat_up_u32 Let_def split: if_splits)
    qed
  qed
qed

text \<open>
  C36. Every well-formed command other than GET RESPONSE (instruction C0, which continues a response) is understood:
  for any header and any data and expected length that fit the short or the extended form, in each of the
  four cases of ISO 7816-4, \<open>apdu_process\<close> reads back from the encoded command the header, the data length,
  the data and the expected length, and announces a new command. The expected length is the one the command
  names and 0 for data without one; for a header alone, which by ISO 7816-4 expects no response data, the
  code takes 256.
\<close>

theorem commands_parsed:
  assumes "command_fits ext h d le" "length (encode_command ext h d le) \<le> 65535" "h ! 1 \<noteq> 0xc0"
  shows "\<exists>t. apdu_process (Some (encode_command ext h d le)) s = (True, None, t) \<and>
    lengths_read (True, t) d (expected_length d le) \<and> take 4 (hdr t) = h \<and> rlen t = 0 \<and> sw t = 0"
proof -
  let ?b = "encode_command ext h d le"
  have h4: "length h = 4" using assms(1) by (simp add: command_fits_def)
  then have pre: "take 4 ?b = h" and len: "4 \<le> length ?b" by (simp_all add: encode_command_def)
  have w: "buf_write 0 ?b (hdr s) = ?b @ drop (length ?b) (hdr s)" by (simp add: buf_write_def)
  obtain ok t where t: "set_lengths (length ?b) (s\<lparr>hdr := buf_write 0 ?b (hdr s)\<rparr>) = (ok, t)" by fastforce
  have "lengths_read (set_lengths (length ?b) (s\<lparr>hdr := ?b @ rest\<rparr>)) d (expected_length d le)" for rest
    using assms(1) short_lengths extended_lengths by (cases ext) auto
  from this [of "drop (length ?b) (hdr s)"] t have r: "lengths_read (ok, t) d (expected_length d le)"
    unfolding w by simp
  have ht: "hdr t = ?b @ drop (length ?b) (hdr s)"
    using t unfolding w by (auto simp: set_lengths_def Let_def split: if_splits)
  then have th: "take 4 (hdr t) = h" using pre len by simp
  moreover have "INS t = h ! 1" using th by (metis nth_take one_less_numeral_iff semiring_norm(76))
  ultimately show ?thesis
    using assms(2,3) len r t by (simp add: apdu_process_def lengths_read_def)
qed

theorem commands_parsed_witness:
  "\<exists>t. apdu_process (Some [0x00, 0x84, 0x00, 0x00, 0x02, 0xaa, 0xbb, 0x00]) demo_apdu = (True, None, t) \<and>
     unat (nc t) = 2 \<and> unat (ne t) = 256"
proof -
  have "command_fits False [0x00, 0x84, 0x00, 0x00] [0xaa, 0xbb] (Some 256)" by (simp add: command_fits_def)
  moreover have "encode_command False [0x00, 0x84, 0x00, 0x00] [0xaa, 0xbb] (Some 256) =
      [0x00, 0x84, 0x00, 0x00, 0x02, 0xaa, 0xbb, 0x00]" by (simp add: encode_command_def)
  ultimately show ?thesis
    using commands_parsed [of False "[0x00, 0x84, 0x00, 0x00]" "[0xaa, 0xbb]" "Some 256" demo_apdu]
    by (auto simp: lengths_read_def expected_length_def)
qed

end
