(* ===== verification/Tlv.thy ===== *)
theory Tlv
  imports Prelude
begin

text \<open>
  BER-TLV reading and length formatting (\<open>tlv.c\<close>). A context is its byte buffer, \<open>None\<close> for a null
  data pointer; the walking pointer is an offset into it, \<open>None\<close> for the null pointer with which a
  walk starts.
\<close>

type_synonym tlv_ctx = "bytes option"

record tlv_item =
  tlv_tag :: u16
  tlv_value :: bytes

definition tlv_ctx_init :: "bytes \<Rightarrow> tlv_ctx" where
  "tlv_ctx_init data = Some data"

definition tlv_ctx_clear :: "tlv_ctx \<Rightarrow> tlv_ctx" where
  "tlv_ctx_clear ctx = None"

definition tlv_len :: "tlv_ctx \<Rightarrow> nat" where
  "tlv_len ctx = (case ctx of None \<Rightarrow> 0 | Some data \<Rightarrow> length data)"

definition tlv_get_uint :: "bytes \<Rightarrow> u32" where
  "tlv_get_uint data =
     fold (\<lambda>lt d. push_bit 8 d OR ucast (data ! lt)) [1..<min (length data) 4] (ucast (data ! 0))"

definition tlv_format_len :: "u16 \<Rightarrow> bytes" where
  "tlv_format_len len =
    (if len < 128 then [ucast len]
     else if len < 256 then [0x81, ucast len]
     else 0x82 # put_uint16_be len)"

definition tlv_len_tag :: "u16 \<Rightarrow> u16 \<Rightarrow> u16" where
  "tlv_len_tag tag len =
    (let ret = 1 + word_of_nat (length (tlv_format_len len)) + len in if tag > 0x00ff then ret + 1 else ret)"

text \<open>The three parts of a walk step: tag, length and the bounds check of the value. Each returns
  the offset it has reached.\<close>

definition read_tag :: "bytes \<Rightarrow> nat \<Rightarrow> (u16 \<times> nat) option" where
  "read_tag data p =
    (let tg = ucast (data ! p) in
     if tg AND 0x1f = 0x1f then
       (if Suc p \<ge> length data then None else Some (push_bit 8 tg OR ucast (data ! Suc p), p + 2))
     else Some (tg, Suc p))"

definition read_len :: "bytes \<Rightarrow> nat \<Rightarrow> (u16 \<times> nat) option" where
  "read_len data p =
    (if p \<ge> length data then Some (0, p)
     else let tgl = ucast (data ! p) :: u16; p = Suc p in
       if tgl = 0x82 then
         (if length data - p < 2 then None
          else Some (push_bit 8 (ucast (data ! p)) OR ucast (data ! Suc p), p + 2))
       else if tgl = 0x81 then
         (if p \<ge> length data then None else Some (ucast (data ! p), Suc p))
       else Some (tgl, p))"

definition tlv_walk :: "tlv_ctx \<Rightarrow> nat option \<Rightarrow> (nat \<times> tlv_item) option" where
  "tlv_walk ctxi p =
    (case ctxi of None \<Rightarrow> None
     | Some data \<Rightarrow>
       let p = (case p of None \<Rightarrow> 0 | Some q \<Rightarrow> q) in
       if p \<ge> length data then None
       else do {
         (tg, p) \<leftarrow> read_tag data p;
         (tgl, p) \<leftarrow> read_len data p;
         if unat tgl > length data - p then None
         else Some (p + unat tgl, \<lparr>tlv_tag = tg, tlv_value = take (unat tgl) (drop p data)\<rparr>)
       })"

lemma read_tag_step: "read_tag data p = Some (tg, q) \<Longrightarrow> p < length data \<Longrightarrow> p < q \<and> q \<le> length data"
  by (auto simp: read_tag_def Let_def split: if_splits)

lemma read_len_step: "read_len data p = Some (n, q) \<Longrightarrow> p \<le> length data \<Longrightarrow> p \<le> q \<and> q \<le> length data"
  by (auto simp: read_len_def Let_def split: if_splits)

lemma tlv_walk_step:
  assumes "tlv_walk (Some data) p = Some (q, item)"
  shows "case_option 0 id p < q" "q \<le> length data"
    "\<exists>n. tlv_value item = take (q - n) (drop n data) \<and> n \<le> q"
proof -
  obtain p0 where p0: "p0 = case_option 0 id p" by simp
  obtain tg p1 tgl p2 where s: "p0 < length data" "read_tag data p0 = Some (tg, p1)" "read_len data p1 = Some (tgl, p2)"
    "unat tgl \<le> length data - p2" "q = p2 + unat tgl" "tlv_value item = take (unat tgl) (drop p2 data)"
    using assms unfolding p0
    by (cases p) (auto simp: tlv_walk_def Let_def bind_eq_Some_conv split: if_splits)
  then have "p0 < p1 \<and> p1 \<le> length data" using read_tag_step by blast
  moreover from this s(3) have "p1 \<le> p2 \<and> p2 \<le> length data" using read_len_step by blast
  ultimately show "case_option 0 id p < q" "q \<le> length data" using s p0 by auto
  show "\<exists>n. tlv_value item = take (q - n) (drop n data) \<and> n \<le> q" using s(5,6) by (intro exI [of _ p2]) simp
qed

lemma tlv_walk_shrinks:
  "tlv_walk (Some data) (Some p) = Some (q, item) \<Longrightarrow> length data - q < length data - p"
  using tlv_walk_step [of data "Some p" q item] by simp

text \<open>The search loop, which ends because each step moves the offset forward.\<close>

function tlv_find_from :: "bytes \<Rightarrow> u16 \<Rightarrow> nat option \<Rightarrow> bytes option" where
  "tlv_find_from data itag p =
    (case tlv_walk (Some data) p of None \<Rightarrow> None
     | Some (q, item) \<Rightarrow> if itag = tlv_tag item then Some (tlv_value item) else tlv_find_from data itag (Some q))"
  by pat_completeness auto

termination
  by (relation "measure (\<lambda>(data, itag, p). Suc (length data) - case_option 0 Suc p)")
    (auto dest: tlv_walk_shrinks split: option.splits)

definition tlv_find_tag :: "tlv_ctx \<Rightarrow> u16 \<Rightarrow> bytes option" where
  "tlv_find_tag ctxi itag = (case ctxi of None \<Rightarrow> None | Some data \<Rightarrow> tlv_find_from data itag None)"

section \<open>Encoding and decoding\<close>

text \<open>
  The encoding that the callers produce: the tag in one byte, or in two when its first byte has its
  low five bits set, the length of \<open>tlv_format_len\<close>, and the value.
\<close>

definition tag_bytes :: "u16 \<Rightarrow> bytes" where
  "tag_bytes tag = (if tag > 0x00ff then put_uint16_be tag else [ucast tag])"

definition tag_valid :: "u16 \<Rightarrow> bool" where
  "tag_valid tag \<longleftrightarrow> (if tag > 0x00ff then drop_bit 8 tag AND 0x1f = 0x1f else tag AND 0x1f \<noteq> 0x1f)"

definition tlv_encode :: "tlv_item \<Rightarrow> bytes" where
  "tlv_encode item = tag_bytes (tlv_tag item) @ tlv_format_len (word_of_nat (length (tlv_value item))) @ tlv_value item"

definition item_valid :: "tlv_item \<Rightarrow> bool" where
  "item_valid item \<longleftrightarrow> tag_valid (tlv_tag item) \<and> length (tlv_value item) < 2 ^ 16"

lemma ucast_small_u16: "tag \<le> (0xff :: u16) \<Longrightarrow> ucast (ucast tag :: u8) = tag"
proof -
  assume "tag \<le> 0xff"
  then have "unat tag < 256" by (simp add: word_le_nat_alt)
  then show ?thesis by (simp add: word_unat_eq_iff unsigned_ucast_eq unsigned_take_bit_eq take_bit_nat_eq_self_iff)
qed

lemma read_tag_encoded:
  assumes "tag_valid tag"
  shows "read_tag (pre @ tag_bytes tag @ post) (length pre) = Some (tag, length pre + length (tag_bytes tag))"
proof (cases "tag > 0x00ff")
  case False
  then have "ucast (ucast tag :: u8) = tag" by (intro ucast_small_u16) simp
  then show ?thesis using False assms by (simp add: read_tag_def tag_bytes_def tag_valid_def)
next
  case True
  have h: "ucast (ucast (drop_bit 8 tag AND 0xff) :: u8) = drop_bit 8 tag"
  proof (rule bit_word_eqI)
    fix i
    show "bit (ucast (ucast (drop_bit 8 tag AND 0xff) :: u8) :: u16) i = bit (drop_bit 8 tag) i"
      using bit_imp_le_length [of tag "8 + i"] bit_low_byte_of_word [of "drop_bit 8 tag" i] by (auto simp: bit_simps)
  qed
  have "push_bit 8 (drop_bit 8 tag) OR ucast (ucast (tag AND 0xff) :: u8) = tag"
    using get_put_uint16_be [of tag] h by (simp add: get_uint16_be_def make_uint16_be_def put_uint16_be_def)
  then show ?thesis using True assms h
    by (simp add: read_tag_def tag_bytes_def tag_valid_def put_uint16_be_def nth_append)
qed

lemma unat_length_u16: "n < 2 ^ 16 \<Longrightarrow> unat (word_of_nat n :: u16) = n"
  by (simp add: unat_of_nat)

lemma read_len_encoded:
  fixes len :: u16
  shows "read_len (pre @ tlv_format_len len @ post) (length pre) = Some (len, length pre + length (tlv_format_len len))"
proof -
  consider "len < 128" | "\<not> len < 128" "len < 256" | "\<not> len < 256" by blast
  then show ?thesis
  proof cases
    case 1
    then have "ucast (ucast len :: u8) = len" by (intro ucast_small_u16) (simp add: word_le_nat_alt word_less_nat_alt)
    moreover have "len \<noteq> 0x82" "len \<noteq> 0x81" using 1 by auto
    ultimately show ?thesis using 1 by (simp add: read_len_def tlv_format_len_def)
  next
    case 2
    then have "ucast (ucast len :: u8) = len" by (intro ucast_small_u16) (simp add: word_le_nat_alt word_less_nat_alt)
    then show ?thesis using 2 by (simp add: read_len_def tlv_format_len_def nth_append)
  next
    case 3
    then have "\<not> len < 128" by (simp add: word_less_nat_alt)
    moreover have "push_bit 8 (ucast (put_uint16_be len ! 0)) OR ucast (put_uint16_be len ! 1) = len"
      using get_put_uint16_be [of len] by (simp add: get_uint16_be_def make_uint16_be_def)
    ultimately show ?thesis using 3
      by (simp add: read_len_def tlv_format_len_def nth_append put_uint16_be_def)
  qed
qed

lemma tlv_walk_encoded:
  assumes "item_valid item"
  shows "tlv_walk (Some (pre @ tlv_encode item @ post)) (Some (length pre)) =
    Some (length pre + length (tlv_encode item), item)"
proof -
  let ?len = "word_of_nat (length (tlv_value item)) :: u16"
  have u: "unat ?len = length (tlv_value item)" using assms by (simp add: item_valid_def unat_length_u16)
  have t: "read_tag (pre @ tag_bytes (tlv_tag item) @ tlv_format_len ?len @ tlv_value item @ post) (length pre) =
      Some (tlv_tag item, length pre + length (tag_bytes (tlv_tag item)))"
    using assms by (intro read_tag_encoded) (simp add: item_valid_def)
  have l: "read_len (pre @ tag_bytes (tlv_tag item) @ tlv_format_len ?len @ tlv_value item @ post)
      (length pre + length (tag_bytes (tlv_tag item))) =
      Some (?len, length pre + length (tag_bytes (tlv_tag item)) + length (tlv_format_len ?len))"
    using read_len_encoded [of "pre @ tag_bytes (tlv_tag item)" ?len "tlv_value item @ post"] by simp
  have "length (tag_bytes (tlv_tag item)) > 0" by (simp add: tag_bytes_def put_uint16_be_def)
  then show ?thesis
    by (simp add: tlv_walk_def tlv_encode_def t l u)
qed

text \<open>All items of a buffer, in the order the walk meets them.\<close>

function tlv_items_from :: "bytes \<Rightarrow> nat \<Rightarrow> tlv_item list" where
  "tlv_items_from data p =
    (case tlv_walk (Some data) (Some p) of None \<Rightarrow> [] | Some (q, item) \<Rightarrow> item # tlv_items_from data q)"
  by pat_completeness auto

termination
  by (relation "measure (\<lambda>(data, p). length data - p)") (auto dest: tlv_walk_shrinks)

declare tlv_items_from.simps [simp del] tlv_find_from.simps [simp del]

definition tlv_encode_all :: "tlv_item list \<Rightarrow> bytes" where
  "tlv_encode_all items = concat (map tlv_encode items)"

lemma tlv_items_append:
  "list_all item_valid items \<Longrightarrow> tlv_items_from (pre @ tlv_encode_all items) (length pre) = items"
proof (induction items arbitrary: pre)
  case Nil
  then show ?case by (simp add: tlv_items_from.simps tlv_walk_def tlv_encode_all_def)
next
  case (Cons item items)
  have "tlv_walk (Some (pre @ tlv_encode_all (item # items))) (Some (length pre)) =
      Some (length pre + length (tlv_encode item), item)"
    using tlv_walk_encoded [of item pre "tlv_encode_all items"] Cons.prems by (simp add: tlv_encode_all_def)
  then have "tlv_items_from (pre @ tlv_encode_all (item # items)) (length pre) =
      item # tlv_items_from ((pre @ tlv_encode item) @ tlv_encode_all items) (length (pre @ tlv_encode item))"
    by (simp add: tlv_items_from.simps [of _ "length pre"] tlv_encode_all_def)
  then show ?case using Cons.IH [of "pre @ tlv_encode item"] Cons.prems by simp
qed

lemma tlv_find_from_items:
  "tlv_find_from data itag (Some p) = map_option tlv_value (find (\<lambda>i. tlv_tag i = itag) (tlv_items_from data p))"
proof (induction data p rule: tlv_items_from.induct)
  case (1 data p)
  show ?case
  proof (cases "tlv_walk (Some data) (Some p)")
    case None
    then show ?thesis by (simp add: tlv_find_from.simps [of _ _ "Some p"] tlv_items_from.simps [of _ p])
  next
    case (Some a)
    obtain q item where a: "a = (q, item)" by fastforce
    have "tlv_find_from data itag (Some q) =
        map_option tlv_value (find (\<lambda>i. tlv_tag i = itag) (tlv_items_from data q))"
      by (rule 1 [OF Some]) (simp add: a)
    then show ?thesis
      unfolding tlv_find_from.simps [of data itag "Some p"] tlv_items_from.simps [of data p] Some a by simp
  qed
qed

lemma tlv_find_from_None: "tlv_find_from data itag None = tlv_find_from data itag (Some 0)"
  by (simp add: tlv_find_from.simps [of _ _ None] tlv_find_from.simps [of _ _ "Some 0"] tlv_walk_def)

text \<open>
  C37. Reading back what was written: in the concatenation of encoded items (tags well formed, values
  below 64 KiB), \<open>tlv_find_tag\<close> returns the value of the first item with the tag it is asked for, and
  fails when there is none.
\<close>

theorem tlv_find_tag_encoded:
  assumes "list_all item_valid items"
  shows "tlv_find_tag (Some (tlv_encode_all items)) itag = map_option tlv_value (find (\<lambda>i. tlv_tag i = itag) items)"
  using tlv_items_append [OF assms, of "[]"]
  by (simp add: tlv_find_tag_def tlv_find_from_None tlv_find_from_items)

theorem tlv_find_tag_encoded_witness:
  "tlv_find_tag (Some (tlv_encode_all [\<lparr>tlv_tag = 0x71, tlv_value = [1, 2]\<rparr>, \<lparr>tlv_tag = 0x7f49, tlv_value = [9]\<rparr>])) 0x7f49
     = Some [9]"
proof -
  have "list_all item_valid [\<lparr>tlv_tag = 0x71, tlv_value = [1, 2]\<rparr>, \<lparr>tlv_tag = 0x7f49, tlv_value = [9]\<rparr>]"
    by (simp add: item_valid_def tag_valid_def)
  from tlv_find_tag_encoded [OF this, of "0x7f49"] show ?thesis by simp
qed

text \<open>
  C38. A walk over any bytes whatever stays inside the buffer: a step that yields an item moves the
  offset strictly forward, not past the end, and the value it yields is a part of the buffer that
  ends at the new offset.
\<close>

theorem tlv_walk_stays_inside:
  assumes "tlv_walk (Some data) p = Some (q, item)"
  shows "case_option 0 id p < q \<and> q \<le> length data \<and> (\<exists>n\<le>q. tlv_value item = take (q - n) (drop n data))"
  using tlv_walk_step [OF assms] by blast

theorem tlv_walk_stays_inside_witness:
  "\<exists>q item. tlv_walk (Some [0x30, 0x81, 0x01, 0xaa]) None = Some (q, item) \<and> q \<le> 4 \<and> tlv_value item = [0xaa]"
proof -
  have w: "tlv_walk (Some [0x30, 0x81, 0x01, 0xaa]) None = Some (4, \<lparr>tlv_tag = 0x30, tlv_value = [0xaa]\<rparr>)"
    by (simp add: tlv_walk_def read_tag_def read_len_def)
  from tlv_walk_stays_inside [OF w] w show ?thesis by simp
qed

lemma length_tlv_encode:
  assumes "length (tlv_value item) \<le> 65530"
  shows "length (tlv_encode item) = unat (tlv_len_tag (tlv_tag item) (word_of_nat (length (tlv_value item))))"
proof -
  let ?n = "length (tlv_value item)" and ?len = "word_of_nat (length (tlv_value item)) :: u16"
  let ?k = "length (tlv_format_len ?len)"
  have k: "?k \<le> 3" by (simp add: tlv_format_len_def)
  have "tlv_len_tag (tlv_tag item) ?len = word_of_nat (length (tag_bytes (tlv_tag item)) + ?k + ?n)"
    by (simp add: tlv_len_tag_def tag_bytes_def Let_def)
  moreover have "length (tag_bytes (tlv_tag item)) \<le> 2" by (simp add: tag_bytes_def)
  ultimately show ?thesis
    using k assms unat_length_u16 [of "length (tag_bytes (tlv_tag item)) + ?k + ?n"] by (simp add: tlv_encode_def)
qed

end
