(* ===== verification/Object_Container.thy ===== *)
theory Object_Container
  imports Prelude
begin

text \<open>
  The object container format of \<open>fs/object_container.c\<close>: descriptors, the authenticated
  manifest, the framing of object records, the additional data that binds a record to its place,
  and sealing and unsealing through a record protector. The two providers, the authenticator and
  the protector, are function pointers in the code: here records of functions, with the
  authenticator's context threaded through its calls. What the format relies on of them is
  stated in the locales \<open>mac_authenticator\<close> and \<open>record_protector\<close>; the theory
  \<open>Object_Crypto\<close> interprets both on the provider the firmware uses.
\<close>

section \<open>Sizes, flags and data\<close>

abbreviation (input) FILE_OBJECT_AUTH_TAG_SIZE :: nat where "FILE_OBJECT_AUTH_TAG_SIZE \<equiv> 16"
abbreviation (input) FILE_OBJECT_MANIFEST_HEADER_SIZE :: nat where "FILE_OBJECT_MANIFEST_HEADER_SIZE \<equiv> 32"
abbreviation (input) FILE_OBJECT_DESCRIPTOR_SIZE :: nat where "FILE_OBJECT_DESCRIPTOR_SIZE \<equiv> 36"
abbreviation (input) FILE_OBJECT_MANIFEST_MAX_OBJECTS :: nat where "FILE_OBJECT_MANIFEST_MAX_OBJECTS \<equiv> 8"
abbreviation (input) FILE_OBJECT_EXTENSION_HEADER_SIZE :: nat where "FILE_OBJECT_EXTENSION_HEADER_SIZE \<equiv> 4"
abbreviation (input) FILE_OBJECT_RECORD_HEADER_SIZE :: nat where "FILE_OBJECT_RECORD_HEADER_SIZE \<equiv> 40"
abbreviation (input) FILE_OBJECT_RECORD_NONCE_SIZE :: nat where "FILE_OBJECT_RECORD_NONCE_SIZE \<equiv> 12"
abbreviation (input) FILE_OBJECT_RECORD_NONCE_OFFSET :: nat where "FILE_OBJECT_RECORD_NONCE_OFFSET \<equiv> 28"
abbreviation (input) FILE_OBJECT_RECORD_AAD_SIZE :: nat where "FILE_OBJECT_RECORD_AAD_SIZE \<equiv> 55"
abbreviation (input) FILE_OBJECT_POLICY_HASH_SIZE :: nat where "FILE_OBJECT_POLICY_HASH_SIZE \<equiv> 16"
abbreviation (input) UINT16_MAX :: nat where "UINT16_MAX \<equiv> 65535"
abbreviation (input) SIZE_MAX :: nat where "SIZE_MAX \<equiv> 4294967295"

definition file_object_manifest_magic :: bytes where
  "file_object_manifest_magic = [0x50, 0x4b, 0x4f, 0x43]"

definition file_object_record_magic :: bytes where
  "file_object_record_magic = [0x50, 0x4b, 0x4f, 0x52]"

record file_object_descriptor =
  d_object_type :: u16
  d_object_tag :: u16
  d_generation :: u32
  d_logical_size :: u32
  d_record_id :: u64
  d_stored_size :: u32
  d_policy_id :: u16
  d_key_domain :: u8
  d_protection :: u8
  d_flags :: u16
  d_extension_offset :: u16
  d_extension_size :: u16
  d_transaction_group :: u16

text \<open>
  \<open>m_objects\<close> is the array of eight descriptors; the C union's other member \<open>object\<close>
  is its first element.
\<close>

record file_object_manifest =
  m_flags :: u16
  m_namespace_id :: u16
  m_container_kind :: u16
  m_container_id :: u32
  m_generation :: u32
  m_previous_generation :: u32
  m_extension_offset :: u16
  m_extension_size :: u16
  m_total_size :: u16
  m_object_count :: u16
  m_has_object :: bool
  m_objects :: "file_object_descriptor list"

abbreviation m_object :: "file_object_manifest \<Rightarrow> file_object_descriptor" where
  "m_object m \<equiv> m_objects m ! 0"

record file_object_record_info =
  i_record_id :: u64
  i_stored_size :: u32
  i_logical_size :: u32
  i_generation :: u32
  i_protection :: u8
  i_payload_offset :: u32
  i_tag_offset :: u32

record file_object_record_identity =
  id_namespace_id :: u16
  id_container_kind :: u16
  id_container_id :: u32
  id_object_type :: u16
  id_object_tag :: u16
  id_generation :: u32
  id_logical_size :: u32
  id_policy_id :: u16
  id_policy_hash :: bytes
  id_key_domain :: u8
  id_protection :: u8
  id_flags :: u16
  id_record_id :: u64

text \<open>\<open>byte_buffer_t\<close>: a buffer of \<open>capacity\<close> bytes of which \<open>len\<close> are in use.\<close>

record byte_buffer =
  b_data :: "bytes option"
  b_len :: nat
  b_capacity :: nat

definition buffer_wf :: "byte_buffer \<Rightarrow> bool" where
  "buffer_wf b \<longleftrightarrow> b_len b \<le> b_capacity b \<and>
     (case b_data b of None \<Rightarrow> b_capacity b = 0 | Some d \<Rightarrow> length d = b_capacity b)"

definition BYTE_BUFFER :: "bytes option \<Rightarrow> nat \<Rightarrow> byte_buffer" where
  "BYTE_BUFFER d capacity = \<lparr>b_data = d, b_len = 0, b_capacity = capacity\<rparr>"

section \<open>The authenticator\<close>

record 'c file_object_authenticator =
  auth_start :: "('c \<Rightarrow> status \<times> 'c) option"
  auth_update :: "('c \<Rightarrow> bytes \<Rightarrow> status \<times> 'c) option"
  auth_finish :: "('c \<Rightarrow> status \<times> bytes \<times> 'c) option"
  auth_abort :: "('c \<Rightarrow> 'c) option"

definition file_object_manifest_auth_valid :: "'c file_object_authenticator option \<Rightarrow> bool" where
  "file_object_manifest_auth_valid auth = (case auth of None \<Rightarrow> False
     | Some a \<Rightarrow> auth_start a \<noteq> None \<and> auth_update a \<noteq> None \<and> auth_finish a \<noteq> None)"

definition file_object_manifest_auth_abort :: "'c file_object_authenticator \<Rightarrow> 'c \<Rightarrow> 'c" where
  "file_object_manifest_auth_abort a c = (case auth_abort a of None \<Rightarrow> c | Some f \<Rightarrow> f c)"

definition file_object_manifest_authenticate ::
    "'c file_object_authenticator \<Rightarrow> 'c \<Rightarrow> bytes \<Rightarrow> status \<times> bytes \<times> 'c" where
  "file_object_manifest_authenticate a c data =
     (case the (auth_start a) c of (r, c1) \<Rightarrow>
        if r \<noteq> PICOKEYS_OK then (r, [], file_object_manifest_auth_abort a c1)
        else (case the (auth_update a) c1 data of (r, c2) \<Rightarrow>
          (case (if r = PICOKEYS_OK then the (auth_finish a) c2 else (r, [], c2)) of
             (r, tag, c3) \<Rightarrow>
               if r \<noteq> PICOKEYS_OK then (r, [], file_object_manifest_auth_abort a c3)
               else (r, tag, c3))))"

definition file_object_manifest_tag_equal :: "bytes \<Rightarrow> bytes \<Rightarrow> bool" where
  "file_object_manifest_tag_equal l r \<longleftrightarrow> diff_bytes FILE_OBJECT_AUTH_TAG_SIZE l r = 0"

section \<open>Descriptors\<close>

definition file_object_descriptor_core_valid :: "file_object_descriptor \<Rightarrow> bool" where
  "file_object_descriptor_core_valid d =
    (if d_object_type d = 0 \<or> d_object_type d = 0xffff \<or> d_generation d = 0 \<or> d_record_id d = 0
     then False
     else if d_protection d < 1 \<or> d_protection d > 3 \<or> d_flags d AND NOT 0x003f \<noteq> 0 \<or>
       d_flags d AND 0x0001 \<noteq> 0
     then False
     else if (d_flags d AND 0x0010 \<noteq> 0) \<noteq> (d_transaction_group d \<noteq> 0) then False
     else if (d_extension_offset d = 0) \<noteq> (d_extension_size d = 0) then False
     else True)"

definition file_object_descriptor_valid :: "file_object_descriptor \<Rightarrow> u16 \<Rightarrow> u16 \<Rightarrow> bool" where
  "file_object_descriptor_valid d extension_start extension_end =
    (if \<not> file_object_descriptor_core_valid d then False
     else if d_extension_size d > 0 \<and>
       (d_extension_offset d < extension_start \<or> d_extension_offset d > extension_end \<or>
        uint (d_extension_size d) > uint extension_end - uint (d_extension_offset d))
     then False
     else True)"

text \<open>The loop over the array: the descriptor before the current one, if any, is the argument.\<close>

fun descriptors_valid_from ::
    "file_object_descriptor option \<Rightarrow> file_object_descriptor list \<Rightarrow> u16 \<Rightarrow> u16 \<Rightarrow> bool" where
  "descriptors_valid_from p [] s e = True"
| "descriptors_valid_from p (d # ds) s e =
     (if \<not> file_object_descriptor_valid d s e then False
      else if (case p of None \<Rightarrow> False | Some q \<Rightarrow>
        d_object_type q > d_object_type d \<or>
        (d_object_type q = d_object_type d \<and> d_object_tag q \<ge> d_object_tag d))
      then False
      else descriptors_valid_from (Some d) ds s e)"

definition file_object_descriptors_valid ::
    "file_object_descriptor list \<Rightarrow> u16 \<Rightarrow> u16 \<Rightarrow> u16 \<Rightarrow> bool" where
  "file_object_descriptors_valid objects object_count s e =
     descriptors_valid_from None (take (unat object_count) objects) s e"

text \<open>
  The extension area is a list of entries: kind, flags, a two-byte length and the value.
  \<open>extensions.data + offset\<close> is the rest of the list.
\<close>

function extensions_from :: "(u8 \<Rightarrow> bool) option \<Rightarrow> bytes \<Rightarrow> nat \<Rightarrow> status" where
  "extensions_from supported ext offset =
    (if offset < length ext then
       (if length ext - offset < FILE_OBJECT_EXTENSION_HEADER_SIZE then PICOKEYS_WRONG_DATA
        else
         (let kind = ext ! offset; flags = ext ! (offset + 1);
              value_size = unat (get_uint16_be (drop (offset + 2) ext)) in
          if kind = 0 \<or> flags AND NOT 0x01 \<noteq> 0 \<or>
            value_size > length ext - offset - FILE_OBJECT_EXTENSION_HEADER_SIZE
          then PICOKEYS_WRONG_DATA
          else if flags AND 0x01 \<noteq> 0 \<and>
            \<not> (case supported of None \<Rightarrow> False | Some f \<Rightarrow> f kind)
          then PICOKEYS_WRONG_DATA
          else extensions_from supported ext
            (offset + FILE_OBJECT_EXTENSION_HEADER_SIZE + value_size)))
     else if offset = length ext then PICOKEYS_OK else PICOKEYS_WRONG_DATA)"
  by auto
termination
  by (relation "measure (\<lambda>(_, ext, offset). length ext - offset)") auto

definition file_object_extensions_validate :: "bytes \<Rightarrow> (u8 \<Rightarrow> bool) option \<Rightarrow> status" where
  "file_object_extensions_validate ext supported = extensions_from supported ext 0"

definition file_object_extension_accept_all :: "u8 \<Rightarrow> bool" where
  "file_object_extension_accept_all kind = True"

text \<open>The writes of the encoder are at consecutive offsets: the area is their concatenation.\<close>

definition file_object_descriptor_encode :: "file_object_descriptor \<Rightarrow> bytes" where
  "file_object_descriptor_encode d =
     put_uint16_be (d_object_type d) @ put_uint16_be (d_object_tag d) @
     put_uint32_be (d_generation d) @ put_uint32_be (d_logical_size d) @
     put_uint64_be (d_record_id d) @ put_uint32_be (d_stored_size d) @
     put_uint16_be (d_policy_id d) @ [d_key_domain d] @ [d_protection d] @
     put_uint16_be (d_flags d) @ put_uint16_be (d_extension_offset d) @
     put_uint16_be (d_extension_size d) @ put_uint16_be (d_transaction_group d)"

definition file_object_descriptor_decode :: "bytes \<Rightarrow> file_object_descriptor" where
  "file_object_descriptor_decode data =
    \<lparr>d_object_type = get_uint16_be (drop 0 data),
     d_object_tag = get_uint16_be (drop 2 data),
     d_generation = get_uint32_be (drop 4 data),
     d_logical_size = get_uint32_be (drop 8 data),
     d_record_id = get_uint64_be (drop 12 data),
     d_stored_size = get_uint32_be (drop 20 data),
     d_policy_id = get_uint16_be (drop 24 data),
     d_key_domain = data ! 26,
     d_protection = data ! 27,
     d_flags = get_uint16_be (drop 28 data),
     d_extension_offset = get_uint16_be (drop 30 data),
     d_extension_size = get_uint16_be (drop 32 data),
     d_transaction_group = get_uint16_be (drop 34 data)\<rparr>"

definition zero_descriptor :: file_object_descriptor where
  "zero_descriptor = \<lparr>d_object_type = 0, d_object_tag = 0, d_generation = 0, d_logical_size = 0,
     d_record_id = 0, d_stored_size = 0, d_policy_id = 0, d_key_domain = 0, d_protection = 0,
     d_flags = 0, d_extension_offset = 0, d_extension_size = 0, d_transaction_group = 0\<rparr>"

section \<open>The manifest\<close>

text \<open>
  The loop that validates the extensions each descriptor owns; the area is the extension bytes
  the descriptor's offset and size select.
\<close>

fun descriptor_extensions_validate ::
    "(file_object_descriptor \<Rightarrow> bytes) \<Rightarrow> (u8 \<Rightarrow> bool) option \<Rightarrow>
     file_object_descriptor list \<Rightarrow> status" where
  "descriptor_extensions_validate area supported [] = PICOKEYS_OK"
| "descriptor_extensions_validate area supported (d # ds) =
     (if d_extension_size d > 0 then
        (let r = file_object_extensions_validate (area d) supported in
         if r \<noteq> PICOKEYS_OK then r else descriptor_extensions_validate area supported ds)
      else descriptor_extensions_validate area supported ds)"

definition manifest_effective_count :: "file_object_manifest \<Rightarrow> u16" where
  "manifest_effective_count m =
     (if m_object_count m = 0 \<and> m_has_object m then 1 else m_object_count m)"

definition manifest_header_bytes :: "file_object_manifest \<Rightarrow> u16 \<Rightarrow> u16 \<Rightarrow> u16 \<Rightarrow> bytes" where
  "manifest_header_bytes m object_count extensions_size total_size =
     file_object_manifest_magic @ [1] @ [32] @
     put_uint16_be (m_flags m) @ put_uint16_be (m_namespace_id m) @
     put_uint16_be (m_container_kind m) @ put_uint32_be (m_container_id m) @
     put_uint32_be (m_generation m) @ put_uint32_be (m_previous_generation m) @
     put_uint16_be object_count @ [36] @ [0] @
     put_uint16_be extensions_size @ put_uint16_be total_size"

definition manifest_body_bytes ::
    "file_object_manifest \<Rightarrow> u16 \<Rightarrow> bytes \<Rightarrow> u16 \<Rightarrow> bytes" where
  "manifest_body_bytes m object_count ext total_size =
     manifest_header_bytes m object_count (of_nat (length ext)) total_size @
     concat (map file_object_descriptor_encode (take (unat object_count) (m_objects m))) @ ext"

definition file_object_manifest_build ::
    "file_object_manifest \<Rightarrow> bytes option \<Rightarrow> nat \<Rightarrow> 'c file_object_authenticator option \<Rightarrow> 'c \<Rightarrow>
     byte_buffer \<Rightarrow> status \<times> byte_buffer \<times> 'c" where
  "file_object_manifest_build m ext_data ext_len auth c output =
    (if (ext_data = None \<and> ext_len > 0) \<or> ext_len > UINT16_MAX \<or>
        \<not> file_object_manifest_auth_valid auth \<or>
        b_len output > b_capacity output \<or> b_data output = None
     then (PICOKEYS_ERR_NULL_PARAM, output, c)
     else
      (let ext = (case ext_data of None \<Rightarrow> [] | Some e \<Rightarrow> take ext_len e);
           object_count = manifest_effective_count m in
       if unat object_count > FILE_OBJECT_MANIFEST_MAX_OBJECTS
       then (PICOKEYS_WRONG_DATA, output, c)
       else
        (let descriptor_bytes = unat object_count * FILE_OBJECT_DESCRIPTOR_SIZE;
             total_size = FILE_OBJECT_MANIFEST_HEADER_SIZE + descriptor_bytes + length ext +
               FILE_OBJECT_AUTH_TAG_SIZE in
         if m_generation m = 0 \<or> m_previous_generation m \<ge> m_generation m
         then (PICOKEYS_WRONG_DATA, output, c)
         else if total_size > UINT16_MAX \<or> b_capacity output - b_len output < total_size
         then (PICOKEYS_WRONG_LENGTH, output, c)
         else
          (let extension_start = FILE_OBJECT_MANIFEST_HEADER_SIZE + descriptor_bytes;
               extension_end = extension_start + length ext in
           if \<not> file_object_descriptors_valid (m_objects m) object_count
               (of_nat extension_start) (of_nat extension_end)
           then (PICOKEYS_WRONG_DATA, output, c)
           else
            (let r = file_object_extensions_validate ext
                   (Some file_object_extension_accept_all);
                 r' = (if r \<noteq> PICOKEYS_OK then r
                   else descriptor_extensions_validate
                     (\<lambda>d. slice (unat (d_extension_offset d) - extension_start)
                       (unat (d_extension_size d)) ext)
                     (Some file_object_extension_accept_all)
                     (take (unat object_count) (m_objects m))) in
             if r' \<noteq> PICOKEYS_OK then (r', output, c)
             else
              (let body = manifest_body_bytes m object_count ext (of_nat total_size) in
               case file_object_manifest_authenticate (the auth) c body of (r, tag, c') \<Rightarrow>
                 if r \<noteq> PICOKEYS_OK
                 then (r, output\<lparr>b_data := Some (buf_write (b_len output)
                         (replicate total_size 0) (the (b_data output)))\<rparr>, c')
                 else (PICOKEYS_OK,
                       output\<lparr>b_data := Some (buf_write (b_len output) (body @ tag)
                           (the (b_data output))),
                         b_len := b_len output + total_size\<rparr>, c')))))))"

definition manifest_header_fields :: "bytes \<Rightarrow> nat \<Rightarrow> file_object_manifest" where
  "manifest_header_fields data object_count =
    \<lparr>m_flags = get_uint16_be (drop 6 data),
     m_namespace_id = get_uint16_be (drop 8 data),
     m_container_kind = get_uint16_be (drop 10 data),
     m_container_id = get_uint32_be (drop 12 data),
     m_generation = get_uint32_be (drop 16 data),
     m_previous_generation = get_uint32_be (drop 20 data),
     m_extension_offset =
       of_nat (FILE_OBJECT_MANIFEST_HEADER_SIZE + object_count * FILE_OBJECT_DESCRIPTOR_SIZE),
     m_extension_size = get_uint16_be (drop 28 data),
     m_total_size = get_uint16_be (drop 30 data),
     m_object_count = get_uint16_be (drop 24 data),
     m_has_object = object_count > 0,
     m_objects = replicate FILE_OBJECT_MANIFEST_MAX_OBJECTS zero_descriptor\<rparr>"

definition manifest_decode_objects :: "bytes \<Rightarrow> nat \<Rightarrow> file_object_descriptor list" where
  "manifest_decode_objects data object_count =
     map (\<lambda>i. file_object_descriptor_decode
        (drop (FILE_OBJECT_MANIFEST_HEADER_SIZE + i * FILE_OBJECT_DESCRIPTOR_SIZE) data))
       [0..<object_count] @
     replicate (FILE_OBJECT_MANIFEST_MAX_OBJECTS - object_count) zero_descriptor"

definition file_object_manifest_parse ::
    "bytes option \<Rightarrow> 'c file_object_authenticator option \<Rightarrow> 'c \<Rightarrow> (u8 \<Rightarrow> bool) option \<Rightarrow>
     (status + file_object_manifest) \<times> 'c" where
  "file_object_manifest_parse src auth c supported =
    (if src = None \<or> \<not> file_object_manifest_auth_valid auth
     then (Inl PICOKEYS_ERR_NULL_PARAM, c)
     else
      (let data = the src in
       if length data < FILE_OBJECT_MANIFEST_HEADER_SIZE + FILE_OBJECT_AUTH_TAG_SIZE \<or>
         length data > UINT16_MAX
       then (Inl PICOKEYS_WRONG_LENGTH, c)
       else
        (let object_count = unat (get_uint16_be (drop 24 data));
             extensions_size = unat (get_uint16_be (drop 28 data));
             total_size = unat (get_uint16_be (drop 30 data)) in
         if slice 0 4 data \<noteq> file_object_manifest_magic \<or> data ! 4 \<noteq> 1 \<or> data ! 5 \<noteq> 32 \<or>
           object_count > FILE_OBJECT_MANIFEST_MAX_OBJECTS \<or> data ! 26 \<noteq> 36 \<or> data ! 27 \<noteq> 0 \<or>
           total_size \<noteq> length data
         then (Inl PICOKEYS_WRONG_DATA, c)
         else
          (let descriptor_bytes = object_count * FILE_OBJECT_DESCRIPTOR_SIZE;
               expected_size = FILE_OBJECT_MANIFEST_HEADER_SIZE + descriptor_bytes +
                 extensions_size + FILE_OBJECT_AUTH_TAG_SIZE in
           if expected_size \<noteq> length data then (Inl PICOKEYS_WRONG_DATA, c)
           else
            (case file_object_manifest_authenticate (the auth) c
                (take (length data - FILE_OBJECT_AUTH_TAG_SIZE) data) of
              (r, calculated_tag, c') \<Rightarrow>
               let r = (if r = PICOKEYS_OK \<and>
                     \<not> file_object_manifest_tag_equal calculated_tag
                       (drop (length data - FILE_OBJECT_AUTH_TAG_SIZE) data)
                   then PICOKEYS_WRONG_SIGNATURE else r) in
               if r \<noteq> PICOKEYS_OK then (Inl r, c')
               else
                (let extension_start = FILE_OBJECT_MANIFEST_HEADER_SIZE + descriptor_bytes;
                     extension_end = extension_start + extensions_size;
                     r = file_object_extensions_validate
                       (slice extension_start extensions_size data) supported in
                 if r \<noteq> PICOKEYS_OK then (Inl r, c')
                 else
                  (let header = manifest_header_fields data object_count in
                   if m_generation header = 0 \<or>
                     m_previous_generation header \<ge> m_generation header
                   then (Inl PICOKEYS_WRONG_DATA, c')
                   else
                    (let parsed = header\<lparr>m_objects :=
                           manifest_decode_objects data object_count\<rparr> in
                     if \<not> file_object_descriptors_valid (m_objects parsed)
                         (of_nat object_count) (of_nat extension_start) (of_nat extension_end)
                     then (Inl PICOKEYS_WRONG_DATA, c')
                     else
                      (let r = descriptor_extensions_validate
                           (\<lambda>d. slice (unat (d_extension_offset d))
                             (unat (d_extension_size d)) data)
                           supported (take object_count (m_objects parsed)) in
                       if r \<noteq> PICOKEYS_OK then (Inl r, c') else (Inr parsed, c'))))))))))"

section \<open>Records\<close>

definition file_object_record_header_build :: "file_object_descriptor \<Rightarrow> status + bytes" where
  "file_object_record_header_build d =
    (if \<not> file_object_descriptor_core_valid d then Inl PICOKEYS_WRONG_DATA
     else Inr (file_object_record_magic @ [1] @ [d_protection d] @ put_uint16_be 40 @
       put_uint64_be (d_record_id d) @ put_uint32_be (d_stored_size d) @
       put_uint32_be (d_logical_size d) @ put_uint32_be (d_generation d) @
       put_uint64_be (d_record_id d) @ put_uint32_be (d_generation d)))"

definition file_object_record_header_parse ::
    "bytes option \<Rightarrow> file_object_descriptor \<Rightarrow> status + file_object_record_info" where
  "file_object_record_header_parse src d =
    (if src = None then Inl PICOKEYS_ERR_NULL_PARAM
     else if \<not> file_object_descriptor_core_valid d then Inl PICOKEYS_WRONG_DATA
     else
      (let rec = the src;
           expected_size = FILE_OBJECT_RECORD_HEADER_SIZE + unat (d_stored_size d) +
             FILE_OBJECT_AUTH_TAG_SIZE in
       if length rec < FILE_OBJECT_RECORD_HEADER_SIZE + FILE_OBJECT_AUTH_TAG_SIZE \<or>
         expected_size > SIZE_MAX \<or> length rec \<noteq> expected_size
       then Inl PICOKEYS_WRONG_LENGTH
       else
        (let record_id = get_uint64_be (drop 8 rec);
             stored_size = get_uint32_be (drop 16 rec);
             logical_size = get_uint32_be (drop 20 rec);
             generation = get_uint32_be (drop 24 rec);
             nonce_record_id = get_uint64_be (drop 28 rec);
             nonce_generation = get_uint32_be (drop 36 rec) in
         if slice 0 4 rec \<noteq> file_object_record_magic \<or> rec ! 4 \<noteq> 1 \<or>
           rec ! 5 \<noteq> d_protection d \<or> get_uint16_be (drop 6 rec) \<noteq> 40 \<or>
           record_id \<noteq> d_record_id d \<or> stored_size \<noteq> d_stored_size d \<or>
           logical_size \<noteq> d_logical_size d \<or> generation \<noteq> d_generation d \<or>
           nonce_record_id \<noteq> record_id \<or> nonce_generation \<noteq> generation
         then Inl PICOKEYS_WRONG_DATA
         else Inr \<lparr>i_record_id = record_id, i_stored_size = stored_size,
           i_logical_size = logical_size, i_generation = generation, i_protection = rec ! 5,
           i_payload_offset = 40, i_tag_offset = 40 + stored_size\<rparr>)))"

definition record_identity :: "file_object_manifest \<Rightarrow> bytes \<Rightarrow> file_object_record_identity" where
  "record_identity m policy_hash =
    \<lparr>id_namespace_id = m_namespace_id m, id_container_kind = m_container_kind m,
     id_container_id = m_container_id m, id_object_type = d_object_type (m_object m),
     id_object_tag = d_object_tag (m_object m), id_generation = d_generation (m_object m),
     id_logical_size = d_logical_size (m_object m), id_policy_id = d_policy_id (m_object m),
     id_policy_hash = take FILE_OBJECT_POLICY_HASH_SIZE policy_hash,
     id_key_domain = d_key_domain (m_object m), id_protection = d_protection (m_object m),
     id_flags = d_flags (m_object m), id_record_id = d_record_id (m_object m)\<rparr>"

definition record_aad_bytes :: "file_object_record_identity \<Rightarrow> bytes" where
  "record_aad_bytes i =
     file_object_record_magic @ [1] @ put_uint16_be (id_namespace_id i) @
     put_uint16_be (id_container_kind i) @ put_uint32_be (id_container_id i) @
     put_uint16_be (id_object_type i) @ put_uint16_be (id_object_tag i) @
     put_uint32_be (id_generation i) @ put_uint32_be (id_logical_size i) @
     put_uint16_be (id_policy_id i) @ id_policy_hash i @ [id_key_domain i] @
     [id_protection i] @ put_uint16_be (id_flags i) @ put_uint64_be (id_record_id i)"

definition file_object_record_identity_build ::
    "file_object_manifest \<Rightarrow> bytes \<Rightarrow> status + (file_object_record_identity \<times> bytes)" where
  "file_object_record_identity_build m policy_hash =
    (if \<not> m_has_object m \<or> \<not> file_object_descriptor_core_valid (m_object m)
     then Inl PICOKEYS_WRONG_DATA
     else (let identity = record_identity m policy_hash in
       Inr (identity, record_aad_bytes identity)))"

text \<open>
  A protector: \<open>seal\<close> takes identity, nonce, additional data and plaintext and fills the stored
  buffer and the tag; \<open>unseal\<close> takes the stored bytes and the tag and fills the output buffer.
\<close>

record file_object_record_protector =
  prot_seal :: "(file_object_record_identity \<Rightarrow> bytes \<Rightarrow> bytes \<Rightarrow> bytes \<Rightarrow> byte_buffer \<Rightarrow>
    status \<times> byte_buffer \<times> bytes) option"
  prot_unseal :: "(file_object_record_identity \<Rightarrow> bytes \<Rightarrow> bytes \<Rightarrow> bytes \<Rightarrow> bytes \<Rightarrow>
    byte_buffer \<Rightarrow> status \<times> byte_buffer) option"

definition file_object_record_protector_valid :: "file_object_record_protector option \<Rightarrow> bool" where
  "file_object_record_protector_valid p = (case p of None \<Rightarrow> False
     | Some q \<Rightarrow> prot_seal q \<noteq> None \<and> prot_unseal q \<noteq> None)"

text \<open>The part of \<open>file_object_record_seal\<close> between the length checks and the clean-up.\<close>

definition record_seal_parts ::
    "file_object_manifest \<Rightarrow> bytes \<Rightarrow> file_object_record_protector \<Rightarrow> bytes \<Rightarrow> bytes \<Rightarrow>
     status + bytes" where
  "record_seal_parts m policy_hash p plaintext area =
    (case file_object_record_identity_build m policy_hash of Inl r \<Rightarrow> Inl r
     | Inr (identity, aad) \<Rightarrow>
       (case file_object_record_header_build (m_object m) of Inl r \<Rightarrow> Inl r
        | Inr header \<Rightarrow>
          (case the (prot_seal p) identity
              (slice FILE_OBJECT_RECORD_NONCE_OFFSET FILE_OBJECT_RECORD_NONCE_SIZE header) aad
              plaintext
              (BYTE_BUFFER (Some (slice FILE_OBJECT_RECORD_HEADER_SIZE (length plaintext) area))
                (length plaintext)) of
            (r, stored, tag) \<Rightarrow>
              if r \<noteq> PICOKEYS_OK then Inl r
              else if b_len stored \<noteq> length plaintext then Inl PICOKEYS_WRONG_LENGTH
              else Inr (header @ the (b_data stored) @ tag))))"

definition file_object_record_seal ::
    "file_object_manifest \<Rightarrow> bytes option \<Rightarrow> file_object_record_protector option \<Rightarrow>
     bytes option \<Rightarrow> nat \<Rightarrow> byte_buffer \<Rightarrow> status \<times> byte_buffer" where
  "file_object_record_seal m policy_hash protector plain_data plain_len rec =
    (if policy_hash = None \<or> \<not> file_object_record_protector_valid protector \<or>
        (plain_data = None \<and> plain_len > 0) \<or> b_len rec > b_capacity rec \<or>
        (b_data rec = None \<and> b_capacity rec > 0)
     then (PICOKEYS_ERR_NULL_PARAM, rec)
     else if \<not> m_has_object m \<or> plain_len \<noteq> unat (d_logical_size (m_object m)) \<or>
       plain_len \<noteq> unat (d_stored_size (m_object m))
     then (PICOKEYS_WRONG_LENGTH, rec)
     else
      (let required_size = FILE_OBJECT_RECORD_HEADER_SIZE + plain_len + FILE_OBJECT_AUTH_TAG_SIZE in
       if required_size > SIZE_MAX \<or> b_capacity rec - b_len rec < required_size
       then (PICOKEYS_WRONG_LENGTH, rec)
       else
        (let plaintext = (case plain_data of None \<Rightarrow> [] | Some d \<Rightarrow> take plain_len d);
             data = the (b_data rec) in
         case record_seal_parts m (the policy_hash) (the protector) plaintext
             (drop (b_len rec) data) of
           Inl r \<Rightarrow> (r, rec\<lparr>b_data := Some (buf_write (b_len rec) (replicate required_size 0) data)\<rparr>)
         | Inr bytes \<Rightarrow> (PICOKEYS_OK,
             rec\<lparr>b_data := Some (buf_write (b_len rec) bytes data),
               b_len := b_len rec + required_size\<rparr>))))"

text \<open>
  The part of \<open>file_object_record_unseal\<close> before the clean-up: the status, and the output
  area (the free part of the caller's buffer) as the protector left it.
\<close>

definition record_unseal_parts ::
    "file_object_manifest \<Rightarrow> bytes \<Rightarrow> file_object_record_protector \<Rightarrow> bytes \<Rightarrow> bytes option \<Rightarrow>
     nat \<Rightarrow> (status \<times> bytes option) \<times> file_object_record_info option" where
  "record_unseal_parts m policy_hash p rec area space =
    (case file_object_record_header_parse (Some rec) (m_object m) of Inl r \<Rightarrow> ((r, area), None)
     | Inr info \<Rightarrow>
       (case file_object_record_identity_build m policy_hash of Inl r \<Rightarrow> ((r, area), Some info)
        | Inr (identity, aad) \<Rightarrow>
          (case the (prot_unseal p) identity
              (slice FILE_OBJECT_RECORD_NONCE_OFFSET FILE_OBJECT_RECORD_NONCE_SIZE rec) aad
              (slice (unat (i_payload_offset info)) (unat (i_stored_size info)) rec)
              (slice (unat (i_tag_offset info)) FILE_OBJECT_AUTH_TAG_SIZE rec)
              (BYTE_BUFFER area space) of
            (r, out) \<Rightarrow>
              ((if r = PICOKEYS_OK \<and> b_len out \<noteq> unat (i_logical_size info)
                then PICOKEYS_WRONG_LENGTH else r, b_data out), Some info))))"

definition file_object_record_unseal ::
    "file_object_manifest \<Rightarrow> bytes option \<Rightarrow> file_object_record_protector option \<Rightarrow>
     bytes option \<Rightarrow> byte_buffer \<Rightarrow> status \<times> byte_buffer" where
  "file_object_record_unseal m policy_hash protector src plaintext =
    (if policy_hash = None \<or> \<not> file_object_record_protector_valid protector \<or> src = None \<or>
        b_len plaintext > b_capacity plaintext \<or>
        (b_data plaintext = None \<and> b_capacity plaintext > 0)
     then (PICOKEYS_ERR_NULL_PARAM, plaintext)
     else if \<not> m_has_object m \<or>
       b_capacity plaintext - b_len plaintext < unat (d_logical_size (m_object m)) \<or>
       d_logical_size (m_object m) \<noteq> d_stored_size (m_object m)
     then (PICOKEYS_WRONG_LENGTH, plaintext)
     else
      (let space = b_capacity plaintext - b_len plaintext;
           area = map_option (drop (b_len plaintext)) (b_data plaintext) in
       case record_unseal_parts m (the policy_hash) (the protector) (the src) area space of
         ((r, area'), info) \<Rightarrow>
           (let written = (case b_data plaintext of None \<Rightarrow> None
                  | Some d \<Rightarrow> Some (take (b_len plaintext) d @ the area')) in
            if r \<noteq> PICOKEYS_OK
            then (r, plaintext\<lparr>b_data :=
                (if b_data plaintext \<noteq> None \<and> b_capacity plaintext > b_len plaintext
                 then Some (buf_write (b_len plaintext)
                   (replicate (min space (unat (d_logical_size (m_object m)))) 0) (the written))
                 else written)\<rparr>)
            else (PICOKEYS_OK, plaintext\<lparr>b_data := written,
                b_len := b_len plaintext + unat (i_logical_size (the info))\<rparr>))))"

section \<open>Descriptors: the codec\<close>

lemma get_put_append [simp]:
  "get_uint16_be (put_uint16_be a @ r) = a" "get_uint32_be (put_uint32_be b @ r) = b"
  "get_uint64_be (put_uint64_be c @ r) = c"
  using get_uint_slice(1) [of "put_uint16_be a @ r"] get_uint_slice(2) [of "put_uint32_be b @ r"]
    get_uint_slice(3) [of "put_uint64_be c @ r"]
  by (simp_all add: slice_def)

lemma length_descriptor_encode [simp]:
  "length (file_object_descriptor_encode d) = FILE_OBJECT_DESCRIPTOR_SIZE"
  by (simp add: file_object_descriptor_encode_def)

lemma descriptor_roundtrip:
  "file_object_descriptor_decode (file_object_descriptor_encode d @ rest) = d"
  by (simp add: file_object_descriptor_encode_def file_object_descriptor_decode_def
      nth_append)

lemma length_magic [simp]:
  "length file_object_manifest_magic = 4" "length file_object_record_magic = 4"
  by (simp_all add: file_object_manifest_magic_def file_object_record_magic_def)

lemma length_manifest_header [simp]:
  "length (manifest_header_bytes m n e t) = FILE_OBJECT_MANIFEST_HEADER_SIZE"
  by (simp add: manifest_header_bytes_def)

lemma manifest_header_reads:
  "get_uint16_be (drop 6 (manifest_header_bytes m n e t @ rest)) = m_flags m"
  "get_uint16_be (drop 8 (manifest_header_bytes m n e t @ rest)) = m_namespace_id m"
  "get_uint16_be (drop 10 (manifest_header_bytes m n e t @ rest)) = m_container_kind m"
  "get_uint32_be (drop 12 (manifest_header_bytes m n e t @ rest)) = m_container_id m"
  "get_uint32_be (drop 16 (manifest_header_bytes m n e t @ rest)) = m_generation m"
  "get_uint32_be (drop 20 (manifest_header_bytes m n e t @ rest)) = m_previous_generation m"
  "get_uint16_be (drop 24 (manifest_header_bytes m n e t @ rest)) = n"
  "get_uint16_be (drop 28 (manifest_header_bytes m n e t @ rest)) = e"
  "get_uint16_be (drop 30 (manifest_header_bytes m n e t @ rest)) = t"
  "slice 0 4 (manifest_header_bytes m n e t @ rest) = file_object_manifest_magic"
  "(manifest_header_bytes m n e t @ rest) ! 4 = 1"
  "(manifest_header_bytes m n e t @ rest) ! 5 = 32"
  "(manifest_header_bytes m n e t @ rest) ! 26 = 36"
  "(manifest_header_bytes m n e t @ rest) ! 27 = 0"
  by (simp_all add: manifest_header_bytes_def nth_append slice_def)

lemma drop_concat_descriptors:
  "drop (i * 36) (concat (map file_object_descriptor_encode ds)) =
   concat (map file_object_descriptor_encode (drop i ds))"
proof (induction ds arbitrary: i)
  case (Cons d ds)
  then show ?case by (cases i) simp_all
qed simp

lemma length_concat_descriptors [simp]:
  "length (concat (map file_object_descriptor_encode ds)) = 36 * length ds"
  by (induction ds) simp_all

lemma decode_nth_descriptor:
  assumes "i < length ds" and "length h = 32"
  shows "file_object_descriptor_decode
     (drop (32 + i * 36) (h @ concat (map file_object_descriptor_encode ds) @ rest)) = ds ! i"
proof -
  have *: "drop i ds = ds ! i # drop (Suc i) ds"
    using assms(1) by (rule Cons_nth_drop_Suc [symmetric])
  have "drop (32 + i * 36) (h @ concat (map file_object_descriptor_encode ds) @ rest) =
      concat (map file_object_descriptor_encode (drop i ds)) @ rest"
    using assms by (simp add: drop_concat_descriptors)
  also have "\<dots> = file_object_descriptor_encode (ds ! i) @
      concat (map file_object_descriptor_encode (drop (Suc i) ds)) @ rest"
    by (simp add: *)
  finally show ?thesis by (simp only: descriptor_roundtrip)
qed

lemma manifest_decode_objects_body:
  assumes "length h = 32"
  shows "manifest_decode_objects
      (h @ concat (map file_object_descriptor_encode ds) @ rest) (length ds) =
    ds @ replicate (8 - length ds) zero_descriptor"
proof -
  have "map (\<lambda>i. file_object_descriptor_decode
      (drop (32 + i * 36) (h @ concat (map file_object_descriptor_encode ds) @ rest)))
      [0..<length ds] = map ((!) ds) [0..<length ds]"
    using decode_nth_descriptor [OF _ assms] by (intro map_cong) (simp_all only: atLeastLessThan_iff set_upt)
  then show ?thesis by (simp only: manifest_decode_objects_def map_nth)
qed

text \<open>The order of a manifest: strictly increasing in the type, then in the tag.\<close>

definition descriptor_less :: "file_object_descriptor \<Rightarrow> file_object_descriptor \<Rightarrow> bool" where
  "descriptor_less a b \<longleftrightarrow> d_object_type a < d_object_type b \<or>
     (d_object_type a = d_object_type b \<and> d_object_tag a < d_object_tag b)"

lemma descriptor_less_trans:
  "descriptor_less a b \<Longrightarrow> descriptor_less b c \<Longrightarrow> descriptor_less a c"
  by (auto simp: descriptor_less_def)

lemma descriptors_valid_from_iff:
  "descriptors_valid_from p ds s e \<longleftrightarrow>
     (\<forall>d\<in>set ds. file_object_descriptor_valid d s e) \<and>
     sorted_wrt descriptor_less (case p of None \<Rightarrow> ds | Some q \<Rightarrow> q # ds)"
proof (induction ds arbitrary: p)
  case (Cons d ds)
  have *: "(\<not> (d_object_type q > d_object_type d \<or>
      (d_object_type q = d_object_type d \<and> d_object_tag q \<ge> d_object_tag d))) =
      descriptor_less q d" for q
    by (auto simp: descriptor_less_def)
  show ?case
    using Cons.IH [of "Some d"] *
    by (auto split: option.splits intro: descriptor_less_trans)
qed (auto split: option.splits)

lemma sorted_wrt_descriptor_distinct:
  "sorted_wrt descriptor_less ds \<Longrightarrow>
   distinct (map (\<lambda>d. (d_object_type d, d_object_tag d)) ds)"
  by (induction ds) (auto simp: descriptor_less_def)

text \<open>The bytes of the extension area a valid descriptor selects, seen from the whole manifest.\<close>

lemma descriptor_extension_area:
  assumes "file_object_descriptor_valid d (of_nat start) (of_nat fin)"
    and "0 < d_extension_size d" and "start \<le> fin" and "fin \<le> 65535"
  shows "start \<le> unat (d_extension_offset d)"
    and "unat (d_extension_offset d) + unat (d_extension_size d) \<le> fin"
proof -
  have u: "unat (of_nat start :: u16) = start" "unat (of_nat fin :: u16) = fin"
    using assms(3,4) by (simp_all add: unat_of_nat)
  show "start \<le> unat (d_extension_offset d)"
    using assms(1,2) u(1) by (auto simp: file_object_descriptor_valid_def word_less_nat_alt split: if_splits)
  have "int (unat (d_extension_size d)) \<le> int (unat (of_nat fin :: u16)) - int (unat (d_extension_offset d))"
    using assms(1,2) by (auto simp: file_object_descriptor_valid_def split: if_splits simp flip: uint_nat)
  then show "unat (d_extension_offset d) + unat (d_extension_size d) \<le> fin"
    using u(2) by linarith
qed

lemma descriptor_extensions_validate_cong:
  assumes "\<And>d. d \<in> set ds \<Longrightarrow> 0 < d_extension_size d \<Longrightarrow> f d = g d"
  shows "descriptor_extensions_validate f supported ds =
    descriptor_extensions_validate g supported ds"
  using assms by (induction ds) (simp_all add: Let_def)

section \<open>The manifest under an authenticator that computes a MAC\<close>

text \<open>
  What the container relies on of an authenticator: from a ready context, start, updates and finish
  succeed and give the 16-byte MAC of the bytes fed, and leave the context ready again.
\<close>

locale mac_authenticator =
  fixes auth :: "'c file_object_authenticator"
    and ready :: "'c \<Rightarrow> bool"
    and active :: "'c \<Rightarrow> bytes \<Rightarrow> bool"
    and mac :: "bytes \<Rightarrow> bytes"
  assumes provided: "file_object_manifest_auth_valid (Some auth)"
    and start_ok: "ready c \<Longrightarrow> \<exists>c'. the (auth_start auth) c = (PICOKEYS_OK, c') \<and> active c' []"
    and update_ok: "active c fed \<Longrightarrow>
      \<exists>c'. the (auth_update auth) c data = (PICOKEYS_OK, c') \<and> active c' (fed @ data)"
    and finish_ok: "active c fed \<Longrightarrow>
      \<exists>c'. the (auth_finish auth) c = (PICOKEYS_OK, mac fed, c') \<and> ready c'"
    and length_mac: "length (mac data) = FILE_OBJECT_AUTH_TAG_SIZE"
begin

lemma authenticate_mac:
  assumes "ready c"
  shows "\<exists>c'. file_object_manifest_authenticate auth c data = (PICOKEYS_OK, mac data, c') \<and>
    ready c'"
proof -
  obtain c1 where 1: "the (auth_start auth) c = (PICOKEYS_OK, c1)" "active c1 []"
    using start_ok [OF assms] by blast
  obtain c2 where 2: "the (auth_update auth) c1 data = (PICOKEYS_OK, c2)" "active c2 data"
    using update_ok [OF 1(2), of data] by auto
  obtain c3 where 3: "the (auth_finish auth) c2 = (PICOKEYS_OK, mac data, c3)" "ready c3"
    using finish_ok [OF 2(2)] by blast
  show ?thesis
    using 1(1) 2(1) 3 by (simp add: file_object_manifest_authenticate_def)
qed

end

text \<open>
  What a reader sees of a manifest that was written: the fields the builder computes are filled in
  and the unused entries of the descriptor array are zero.
\<close>

definition manifest_written :: "file_object_manifest \<Rightarrow> bytes \<Rightarrow> file_object_manifest" where
  "manifest_written m ext =
    (let n = unat (manifest_effective_count m) in
     m\<lparr>m_extension_offset := of_nat (32 + n * 36), m_extension_size := of_nat (length ext),
       m_total_size := of_nat (32 + n * 36 + length ext + 16),
       m_object_count := manifest_effective_count m, m_has_object := n > 0,
       m_objects := take n (m_objects m) @ replicate (8 - n) zero_descriptor\<rparr>)"

text \<open>Every extension of the manifest is one the reader supports, or is not critical.\<close>

definition extensions_readable :: "file_object_manifest \<Rightarrow> bytes \<Rightarrow> (u8 \<Rightarrow> bool) option \<Rightarrow> bool" where
  "extensions_readable m ext supported \<longleftrightarrow>
     file_object_extensions_validate ext supported = PICOKEYS_OK \<and>
     descriptor_extensions_validate
       (\<lambda>d. slice (unat (d_extension_offset d) - (32 + unat (manifest_effective_count m) * 36))
          (unat (d_extension_size d)) ext) supported
       (take (unat (manifest_effective_count m)) (m_objects m)) = PICOKEYS_OK"

definition manifest_well_formed :: "file_object_manifest \<Rightarrow> bytes \<Rightarrow> bool" where
  "manifest_well_formed m ext \<longleftrightarrow>
    (let n = unat (manifest_effective_count m) in
     n \<le> 8 \<and> length (m_objects m) = 8 \<and> 32 + n * 36 + length ext + 16 \<le> 65535 \<and>
     m_generation m \<noteq> 0 \<and> m_previous_generation m < m_generation m \<and>
     file_object_descriptors_valid (m_objects m) (manifest_effective_count m)
       (of_nat (32 + n * 36)) (of_nat (32 + n * 36 + length ext)) \<and>
     extensions_readable m ext (Some file_object_extension_accept_all))"

text \<open>The bytes of a manifest: what is authenticated, then the tag.\<close>

definition manifest_bytes :: "(bytes \<Rightarrow> bytes) \<Rightarrow> file_object_manifest \<Rightarrow> bytes \<Rightarrow> bytes" where
  "manifest_bytes mac m ext =
    (let n = manifest_effective_count m;
         body = manifest_body_bytes m n ext (of_nat (32 + unat n * 36 + length ext + 16)) in
     body @ mac body)"

lemma length_manifest_body:
  "unat n \<le> length (m_objects m) \<Longrightarrow>
   length (manifest_body_bytes m n ext t) = 32 + unat n * 36 + length ext"
  by (simp add: manifest_body_bytes_def)

lemma unat_u16_small: "n \<le> 65535 \<Longrightarrow> unat (of_nat n :: u16) = n"
  by (simp add: unat_of_nat)

lemma descriptors_valid_take:
  "file_object_descriptors_valid ds n s e \<Longrightarrow> take (unat n) ds = take (unat n) ds' \<Longrightarrow>
   file_object_descriptors_valid ds' n s e"
  by (simp add: file_object_descriptors_valid_def)

context mac_authenticator
begin

text \<open>A well-formed manifest is built, into any buffer with room for it.\<close>

lemma manifest_build_ok:
  assumes wf: "manifest_well_formed m ext" and c: "ready c"
    and b: "buffer_wf output" "b_data output = Some d"
    and room: "length (manifest_bytes mac m ext) \<le> b_capacity output - b_len output"
  shows "\<exists>c'. file_object_manifest_build m (Some ext) (length ext) (Some auth) c output =
     (PICOKEYS_OK, output\<lparr>b_data := Some (buf_write (b_len output) (manifest_bytes mac m ext) d),
        b_len := b_len output + length (manifest_bytes mac m ext)\<rparr>, c') \<and> ready c'"
proof -
  let ?n = "manifest_effective_count m"
  let ?t = "32 + unat ?n * 36 + length ext + 16"
  let ?body = "manifest_body_bytes m ?n ext (of_nat ?t)"
  obtain c' where a: "file_object_manifest_authenticate auth c ?body =
      (PICOKEYS_OK, mac ?body, c')" "ready c'"
    using authenticate_mac [OF c] by blast
  have f: "unat ?n \<le> 8" "length (m_objects m) = 8" "?t \<le> 65535" "m_generation m \<noteq> 0"
    "m_previous_generation m < m_generation m"
    "file_object_descriptors_valid (m_objects m) ?n (of_nat (32 + unat ?n * 36))
       (of_nat (32 + unat ?n * 36 + length ext))"
    and e: "extensions_readable m ext (Some file_object_extension_accept_all)"
    using wf unfolding manifest_well_formed_def Let_def by blast+
  have l: "length (manifest_bytes mac m ext) = ?t"
    using f(1,2) by (simp add: manifest_bytes_def Let_def length_manifest_body length_mac)
  have g: "\<not> b_len output > b_capacity output" "\<not> length ext > 65535" "\<not> unat ?n > 8" "\<not> ?t > 65535"
    "\<not> b_capacity output - b_len output < ?t" "\<not> m_previous_generation m \<ge> m_generation m"
    using b(1) f room l by (simp_all add: buffer_wf_def)
  have mb: "manifest_bytes mac m ext = ?body @ mac ?body"
    by (simp add: manifest_bytes_def Let_def)
  show ?thesis
    unfolding file_object_manifest_build_def Let_def option.case option.sel take_all [OF order_refl]
    using a f(4,6) e provided b(2) unfolding l unfolding mb extensions_readable_def
    by (intro exI [of _ c']) (simp only: g if_False if_True simp_thms option.distinct option.sel
        prod.case not_less not_le)
qed

end

lemma tag_equal_refl: "file_object_manifest_tag_equal t t"
  by (simp add: file_object_manifest_tag_equal_def diff_bytes_0_iff)

lemma manifest_bytes_split:
  "manifest_bytes mac m ext =
     manifest_header_bytes m (manifest_effective_count m) (of_nat (length ext))
       (of_nat (32 + unat (manifest_effective_count m) * 36 + length ext + 16)) @
     concat (map file_object_descriptor_encode
       (take (unat (manifest_effective_count m)) (m_objects m))) @ ext @
     mac (manifest_body_bytes m (manifest_effective_count m) ext
       (of_nat (32 + unat (manifest_effective_count m) * 36 + length ext + 16)))"
  by (simp add: manifest_bytes_def Let_def manifest_body_bytes_def)

context mac_authenticator
begin

lemma manifest_bytes_reads:
  assumes wf: "manifest_well_formed m ext"
  defines "n \<equiv> unat (manifest_effective_count m)"
  defines "data \<equiv> manifest_bytes mac m ext"
  defines "body \<equiv> manifest_body_bytes m (manifest_effective_count m) ext
      (of_nat (32 + n * 36 + length ext + 16))"
  shows "length data = 32 + n * 36 + length ext + 16"
    and "take (length data - 16) data = body" and "drop (length data - 16) data = mac body"
    and "get_uint16_be (drop 24 data) = manifest_effective_count m"
    and "unat (get_uint16_be (drop 28 data)) = length ext"
    and "unat (get_uint16_be (drop 30 data)) = length data"
    and "slice 0 4 data = file_object_manifest_magic"
    and "data ! 4 = 1" "data ! 5 = 32" "data ! 26 = 36" "data ! 27 = 0"
    and "(manifest_header_fields data n)\<lparr>m_objects := manifest_decode_objects data n\<rparr> =
      manifest_written m ext"
    and "slice (32 + n * 36 + k) j data = slice k j (ext @ mac body)"
proof -
  have f: "n \<le> 8" "length (m_objects m) = 8" "32 + n * 36 + length ext + 16 \<le> 65535"
    using wf unfolding manifest_well_formed_def Let_def n_def by blast+
  have lb: "length body = 32 + n * 36 + length ext"
    using f by (simp add: body_def n_def length_manifest_body)
  have db: "data = body @ mac body"
    by (simp add: data_def body_def manifest_bytes_def n_def Let_def)
  show len: "length data = 32 + n * 36 + length ext + 16"
    by (simp add: db lb length_mac)
  show "take (length data - 16) data = body" "drop (length data - 16) data = mac body"
    by (simp_all add: len lb) (simp_all add: db lb)
  note split = manifest_bytes_split [of mac m ext, folded data_def n_def, folded body_def]
  note reads = manifest_header_reads
  show "get_uint16_be (drop 24 data) = manifest_effective_count m"
    "slice 0 4 data = file_object_manifest_magic"
    "data ! 4 = 1" "data ! 5 = 32" "data ! 26 = 36" "data ! 27 = 0"
    by (simp_all only: split reads)
  show "unat (get_uint16_be (drop 28 data)) = length ext"
    unfolding split reads using f by (intro unat_u16_small) simp
  show "unat (get_uint16_be (drop 30 data)) = length data"
    unfolding len unfolding split reads using f by (intro unat_u16_small) simp
  have ds: "manifest_decode_objects data n = take n (m_objects m) @ replicate (8 - n) zero_descriptor"
    using manifest_decode_objects_body [of "manifest_header_bytes m (manifest_effective_count m)
        (of_nat (length ext)) (of_nat (32 + n * 36 + length ext + 16))" "take n (m_objects m)"]
      f unfolding split by simp
  show "(manifest_header_fields data n)\<lparr>m_objects := manifest_decode_objects data n\<rparr> =
      manifest_written m ext"
    unfolding ds unfolding split manifest_header_fields_def reads
    by (simp add: manifest_written_def Let_def n_def)
  show "slice (32 + n * 36 + k) j data = slice k j (ext @ mac body)"
    unfolding split using f by (simp add: slice_append_right)
qed

lemma manifest_parse_ok:
  assumes wf: "manifest_well_formed m ext" and c: "ready c"
    and readable: "extensions_readable m ext supported"
  shows "\<exists>c'. file_object_manifest_parse (Some (manifest_bytes mac m ext)) (Some auth) c supported =
     (Inr (manifest_written m ext), c') \<and> ready c'"
proof -
  define n where "n = unat (manifest_effective_count m)"
  define data where "data = manifest_bytes mac m ext"
  define body where "body = manifest_body_bytes m (manifest_effective_count m) ext
      (of_nat (32 + n * 36 + length ext + 16))"
  note r = manifest_bytes_reads [OF wf, folded n_def, folded data_def body_def]
  obtain c' where a: "file_object_manifest_authenticate auth c body = (PICOKEYS_OK, mac body, c')"
    "ready c'" using authenticate_mac [OF c] by blast
  have f: "n \<le> 8" "length (m_objects m) = 8" "32 + n * 36 + length ext + 16 \<le> 65535"
    "m_generation m \<noteq> 0" "m_previous_generation m < m_generation m"
    and v: "file_object_descriptors_valid (m_objects m) (manifest_effective_count m)
      (of_nat (32 + n * 36)) (of_nat (32 + n * 36 + length ext))"
    using wf unfolding manifest_well_formed_def Let_def n_def by blast+
  let ?p = "manifest_written m ext"
  have tk: "take n (m_objects ?p) = take n (m_objects m)"
    using f by (simp add: manifest_written_def Let_def n_def)
  have mh: "m_generation (manifest_header_fields data n) = m_generation m"
    "m_previous_generation (manifest_header_fields data n) = m_previous_generation m"
    using r(12) by (auto simp: manifest_written_def Let_def
        dest: arg_cong [where f = m_generation] arg_cong [where f = m_previous_generation])
  have nn: "of_nat n = manifest_effective_count m" by (simp add: n_def)
  have v': "file_object_descriptors_valid (m_objects ?p) (of_nat n)
      (of_nat (32 + n * 36)) (of_nat (32 + n * 36 + length ext))"
    unfolding nn by (rule descriptors_valid_take [OF v]) (simp add: tk flip: n_def)
  have x: "slice (32 + n * 36) (length ext) data = ext"
    using r(13) [of 0 "length ext"] by (simp add: slice_def)
  have y: "descriptor_extensions_validate
      (\<lambda>d. slice (unat (d_extension_offset d)) (unat (d_extension_size d)) data)
      supported (take n (m_objects ?p)) = PICOKEYS_OK"
  proof -
    have "slice (unat (d_extension_offset d)) (unat (d_extension_size d)) data =
        slice (unat (d_extension_offset d) - (32 + n * 36)) (unat (d_extension_size d)) ext"
      if d: "d \<in> set (take n (m_objects m))" "0 < d_extension_size d" for d
    proof -
      have dv: "file_object_descriptor_valid d (of_nat (32 + n * 36)) (of_nat (32 + n * 36 + length ext))"
        using v d(1) unfolding file_object_descriptors_valid_def descriptors_valid_from_iff
        by (simp flip: n_def)
      from descriptor_extension_area [OF dv d(2)] f(3)
      have "32 + n * 36 \<le> unat (d_extension_offset d)"
        "unat (d_extension_offset d) + unat (d_extension_size d) \<le> 32 + n * 36 + length ext"
        by simp_all
      then show ?thesis
        using r(13) [of "unat (d_extension_offset d) - (32 + n * 36)" "unat (d_extension_size d)"]
        by (simp add: slice_append_left)
    qed
    then have "descriptor_extensions_validate
        (\<lambda>d. slice (unat (d_extension_offset d)) (unat (d_extension_size d)) data) supported
        (take n (m_objects m)) = descriptor_extensions_validate
        (\<lambda>d. slice (unat (d_extension_offset d) - (32 + n * 36)) (unat (d_extension_size d)) ext)
        supported (take n (m_objects m))"
      by (rule descriptor_extensions_validate_cong)
    with readable show ?thesis
      unfolding tk unfolding extensions_readable_def n_def by (simp only:)
  qed
  have ex: "file_object_extensions_validate ext supported = PICOKEYS_OK"
    using readable by (simp add: extensions_readable_def)
  have g: "\<not> length data < 32 + 16" "\<not> length data > 65535" "\<not> n > 8"
    "\<not> m_previous_generation m \<ge> m_generation m"
    "32 + n * 36 + length ext + 16 = length data"
    using f r(1) by simp_all
  show ?thesis
    unfolding file_object_manifest_parse_def option.sel
    unfolding data_def [symmetric] Let_def
    unfolding r(4-11) n_def [symmetric] r(2,3) a(1) prod.case x ex mh r(12) v' y
    using a(2) provided f(4)
    by (intro exI [of _ c']) (simp only: g tag_equal_refl v' y option.distinct if_False if_True simp_thms)
qed

end

text \<open>Conversely, the bytes of a descriptor, a header and a manifest are those of what was read.\<close>

lemma descriptor_encode_decode:
  assumes "36 \<le> length xs"
  shows "file_object_descriptor_encode (file_object_descriptor_decode xs) = take 36 xs"
proof -
  have l: "26 < length xs" "27 < length xs" using assms by simp_all
  have "file_object_descriptor_encode (file_object_descriptor_decode xs) =
    slice 0 2 xs @ slice 2 2 xs @ slice 4 4 xs @ slice 8 4 xs @ slice 12 8 xs @ slice 20 4 xs @
    slice 24 2 xs @ slice 26 1 xs @ slice 27 1 xs @ slice 28 2 xs @ slice 30 2 xs @
    slice 32 2 xs @ slice 34 2 xs"
    using assms unfolding file_object_descriptor_encode_def file_object_descriptor_decode_def
      file_object_descriptor.simps slice_one [OF l(1)] slice_one [OF l(2)]
    by (simp only: put_get_slice)
  also have "\<dots> = slice 0 36 xs"
    by (simp add: slice_join)
  finally show ?thesis by (simp add: slice_def)
qed

lemma concat_decode_objects:
  assumes "off + n * 36 \<le> length xs"
  shows "concat (map file_object_descriptor_encode (map (\<lambda>i. file_object_descriptor_decode
      (drop (off + i * 36) xs)) [0..<n])) = slice off (n * 36) xs"
  using assms
proof (induction n)
  case (Suc n)
  have "file_object_descriptor_encode (file_object_descriptor_decode (drop (off + n * 36) xs)) =
      slice (off + n * 36) 36 xs"
    using Suc.prems by (subst descriptor_encode_decode) (simp_all add: slice_def)
  with Suc show ?case by (simp add: slice_join add.commute)
qed (simp add: slice_def)

lemma manifest_header_of_fields:
  assumes "32 \<le> length xs" and "slice 0 4 xs = file_object_manifest_magic"
    and "xs ! 4 = 1" "xs ! 5 = 32" "xs ! 26 = 36" "xs ! 27 = 0"
    and h: "m_flags p = get_uint16_be (drop 6 xs)" "m_namespace_id p = get_uint16_be (drop 8 xs)"
    "m_container_kind p = get_uint16_be (drop 10 xs)" "m_container_id p = get_uint32_be (drop 12 xs)"
    "m_generation p = get_uint32_be (drop 16 xs)"
    "m_previous_generation p = get_uint32_be (drop 20 xs)"
  shows "manifest_header_bytes p (get_uint16_be (drop 24 xs)) (get_uint16_be (drop 28 xs))
      (get_uint16_be (drop 30 xs)) = take 32 xs"
proof -
  have l: "4 < length xs" "5 < length xs" "26 < length xs" "27 < length xs"
    using assms(1) by simp_all
  have one: "[1] = slice 4 1 xs" "[32] = slice 5 1 xs" "[36] = slice 26 1 xs" "[0] = slice 27 1 xs"
    using slice_one [OF l(1)] slice_one [OF l(2)] slice_one [OF l(3)] slice_one [OF l(4)] assms(3-6)
    by simp_all
  have "manifest_header_bytes p (get_uint16_be (drop 24 xs)) (get_uint16_be (drop 28 xs))
      (get_uint16_be (drop 30 xs)) =
    slice 0 4 xs @ slice 4 1 xs @ slice 5 1 xs @ slice 6 2 xs @ slice 8 2 xs @ slice 10 2 xs @
    slice 12 4 xs @ slice 16 4 xs @ slice 20 4 xs @ slice 24 2 xs @ slice 26 1 xs @
    slice 27 1 xs @ slice 28 2 xs @ slice 30 2 xs"
    using assms(1) unfolding manifest_header_bytes_def h one assms(2) [symmetric]
    by (simp only: put_get_slice)
  also have "\<dots> = slice 0 32 xs"
    by (simp add: slice_join)
  finally show ?thesis by (simp add: slice_def)
qed

lemma extensions_from_accept_all:
  "extensions_from supported ext off = PICOKEYS_OK \<Longrightarrow>
   extensions_from (Some file_object_extension_accept_all) ext off = PICOKEYS_OK"
proof (induction supported ext off rule: extensions_from.induct)
  case (1 supported ext offset)
  have all: "file_object_extension_accept_all = (\<lambda>_. True)"
    by (simp add: fun_eq_iff file_object_extension_accept_all_def)
  show ?case
    using "1.prems" "1.IH"
    by (subst extensions_from.simps, subst (asm) extensions_from.simps)
      (simp add: Let_def all split: if_splits del: extensions_from.simps)
qed

lemma extensions_validate_accept_all:
  "file_object_extensions_validate ext supported = PICOKEYS_OK \<Longrightarrow>
   file_object_extensions_validate ext (Some file_object_extension_accept_all) = PICOKEYS_OK"
  unfolding file_object_extensions_validate_def by (rule extensions_from_accept_all)

lemma descriptor_extensions_accept_all:
  "descriptor_extensions_validate area supported ds = PICOKEYS_OK \<Longrightarrow>
   descriptor_extensions_validate area (Some file_object_extension_accept_all) ds = PICOKEYS_OK"
  by (induction ds) (auto simp: Let_def extensions_validate_accept_all split: if_splits)

lemma manifest_parse_facts:
  assumes "file_object_manifest_parse (Some data) (Some auth) c supported = (Inr p, c')"
  defines "n \<equiv> unat (get_uint16_be (drop 24 data))"
  defines "k \<equiv> unat (get_uint16_be (drop 28 data))"
  shows "length data = 32 + n * 36 + k + 16" "length data \<le> 65535" "n \<le> 8"
    "unat (get_uint16_be (drop 30 data)) = length data"
    "slice 0 4 data = file_object_manifest_magic"
    "data ! 4 = 1" "data ! 5 = 32" "data ! 26 = 36" "data ! 27 = 0"
    "p = (manifest_header_fields data n)\<lparr>m_objects := manifest_decode_objects data n\<rparr>"
    "m_generation p \<noteq> 0" "m_previous_generation p < m_generation p"
    "file_object_extensions_validate (slice (32 + n * 36) k data) supported = PICOKEYS_OK"
    "file_object_descriptors_valid (m_objects p) (of_nat n) (of_nat (32 + n * 36)) (of_nat (32 + n * 36 + k))"
    "descriptor_extensions_validate
      (\<lambda>d. slice (unat (d_extension_offset d)) (unat (d_extension_size d)) data) supported (take n (m_objects p)) = PICOKEYS_OK"
    "\<exists>tag. file_object_manifest_authenticate auth c (take (length data - 16) data) = (PICOKEYS_OK, tag, c')
       \<and> file_object_manifest_tag_equal tag (drop (length data - 16) data)"
  using assms(1) unfolding file_object_manifest_parse_def n_def k_def Let_def
  by (auto split: if_splits prod.splits simp: not_le not_less)

context mac_authenticator
begin

lemma manifest_parse_sound:
  assumes c: "ready c"
    and ok: "file_object_manifest_parse (Some data) (Some auth) c supported = (Inr p, c')"
  shows "\<exists>ext. data = manifest_bytes mac p ext \<and> manifest_well_formed p ext \<and>
    p = manifest_written p ext"
proof -
  define n where "n = unat (get_uint16_be (drop 24 data))"
  define k where "k = unat (get_uint16_be (drop 28 data))"
  note f = manifest_parse_facts [OF ok, folded n_def k_def]
  define ext where "ext = slice (32 + n * 36) k data"
  have le: "length ext = k" using f(1) by (simp add: ext_def)
  have cnt: "m_object_count p = get_uint16_be (drop 24 data)" "m_has_object p \<longleftrightarrow> n > 0"
    "m_extension_offset p = of_nat (32 + n * 36)" "m_extension_size p = get_uint16_be (drop 28 data)"
    "m_total_size p = get_uint16_be (drop 30 data)" "m_objects p = manifest_decode_objects data n"
    by (simp_all add: f(10) manifest_header_fields_def)
  have eff: "manifest_effective_count p = get_uint16_be (drop 24 data)"
    using cnt(1,2) by (simp add: manifest_effective_count_def n_def unat_gt_0)
  then have effn: "unat (manifest_effective_count p) = n" by (simp add: n_def)
  have words: "of_nat n = get_uint16_be (drop 24 data)"
    "of_nat k = get_uint16_be (drop 28 data)" "of_nat (length data) = get_uint16_be (drop 30 data)"
    using f(4) by (simp_all add: n_def k_def flip: f(4))
  have objs: "take n (m_objects p) = map (\<lambda>i. file_object_descriptor_decode (drop (32 + i * 36) data)) [0..<n]"
    "length (m_objects p) = 8"
    using f(3) by (simp_all add: cnt(6) manifest_decode_objects_def)
  have hdr: "manifest_header_bytes p (get_uint16_be (drop 24 data)) (get_uint16_be (drop 28 data))
      (get_uint16_be (drop 30 data)) = take 32 data"
    by (rule manifest_header_of_fields [OF _ f(5-9)])
      (simp_all add: f(1) f(10) manifest_header_fields_def)
  have "manifest_body_bytes p (manifest_effective_count p) ext (of_nat (length data)) =
      slice 0 32 data @ slice 32 (n * 36) data @ slice (32 + n * 36) k data"
    unfolding manifest_body_bytes_def effn objs(1) le unfolding eff words hdr
    using concat_decode_objects [of 32 n data] f(1) by (simp add: ext_def slice_def)
  also have "\<dots> = take (length data - 16) data"
    by (simp only: slice_join add_0) (simp add: slice_def f(1))
  finally have body: "manifest_body_bytes p (manifest_effective_count p) ext
      (of_nat (32 + n * 36 + length ext + 16)) = take (length data - 16) data"
    by (simp add: f(1) le)
  obtain tag where t: "file_object_manifest_authenticate auth c (take (length data - 16) data) =
      (PICOKEYS_OK, tag, c')" "file_object_manifest_tag_equal tag (drop (length data - 16) data)"
    using f(16) by blast
  with authenticate_mac [OF c, of "take (length data - 16) data"]
  have tm: "tag = mac (take (length data - 16) data)" by auto
  have "tag = drop (length data - 16) data"
    using t(2) f(1) length_mac [of "take (length data - 16) data"]
    by (simp add: tm file_object_manifest_tag_equal_def diff_bytes_take)
  then have bytes: "data = manifest_bytes mac p ext"
    unfolding manifest_bytes_def Let_def effn body tm [symmetric] by simp
  have area: "slice (unat (d_extension_offset d)) (unat (d_extension_size d)) data =
      slice (unat (d_extension_offset d) - (32 + n * 36)) (unat (d_extension_size d)) ext"
    if d: "d \<in> set (take n (m_objects p))" "0 < d_extension_size d" for d
  proof -
    have "file_object_descriptor_valid d (of_nat (32 + n * 36)) (of_nat (32 + n * 36 + k))"
      using f(14) d(1) f(3) unfolding file_object_descriptors_valid_def descriptors_valid_from_iff
      by (simp add: unat_u16_small)
    from descriptor_extension_area [OF this d(2)] f(1,2) show ?thesis
      by (simp add: ext_def slice_slice)
  qed
  have "extensions_readable p ext supported"
    using f(13,15) descriptor_extensions_validate_cong [OF area]
    unfolding extensions_readable_def effn ext_def by simp
  then have "extensions_readable p ext (Some file_object_extension_accept_all)"
    unfolding extensions_readable_def
    using extensions_validate_accept_all descriptor_extensions_accept_all by blast
  then have wf: "manifest_well_formed p ext"
    using f objs(2) le unfolding manifest_well_formed_def Let_def effn unfolding eff words by simp
  have "m_objects p = take n (m_objects p) @ replicate (8 - n) zero_descriptor"
    using f(3) by (simp add: cnt(6) manifest_decode_objects_def)
  then have "p = manifest_written p ext"
    using cnt words eff f(1) le unfolding manifest_written_def Let_def effn by simp
  with bytes wf show ?thesis by blast
qed

end

section \<open>Records: framing and binding\<close>

definition record_header_bytes :: "file_object_descriptor \<Rightarrow> bytes" where
  "record_header_bytes d = file_object_record_magic @ [1] @ [d_protection d] @ put_uint16_be 40 @
     put_uint64_be (d_record_id d) @ put_uint32_be (d_stored_size d) @
     put_uint32_be (d_logical_size d) @ put_uint32_be (d_generation d) @
     put_uint64_be (d_record_id d) @ put_uint32_be (d_generation d)"

definition record_nonce :: "file_object_descriptor \<Rightarrow> bytes" where
  "record_nonce d = put_uint64_be (d_record_id d) @ put_uint32_be (d_generation d)"

lemma length_record_header [simp]: "length (record_header_bytes d) = 40"
  by (simp add: record_header_bytes_def)

lemma length_record_nonce: "length (record_nonce d) = 12"
  by (simp add: record_nonce_def)

lemma record_header_nonce: "slice 28 12 (record_header_bytes d @ rest) = record_nonce d"
  by (simp add: record_header_bytes_def record_nonce_def slice_def)

lemma header_build_eq:
  "file_object_record_header_build d =
    (if file_object_descriptor_core_valid d then Inr (record_header_bytes d)
     else Inl PICOKEYS_WRONG_DATA)"
  by (simp add: file_object_record_header_build_def record_header_bytes_def)

lemma record_header_unique:
  assumes "40 \<le> length xs"
  shows "take 40 xs = record_header_bytes d \<longleftrightarrow>
    slice 0 4 xs = file_object_record_magic \<and> xs ! 4 = 1 \<and> xs ! 5 = d_protection d \<and>
    get_uint16_be (drop 6 xs) = 40 \<and> get_uint64_be (drop 8 xs) = d_record_id d \<and>
    get_uint32_be (drop 16 xs) = d_stored_size d \<and> get_uint32_be (drop 20 xs) = d_logical_size d \<and>
    get_uint32_be (drop 24 xs) = d_generation d \<and> get_uint64_be (drop 28 xs) = d_record_id d \<and>
    get_uint32_be (drop 36 xs) = d_generation d" (is "?l \<longleftrightarrow> ?r")
proof
  assume ?l
  then obtain r where r: "xs = record_header_bytes d @ r"
    by (metis append_take_drop_id)
  show ?r
    unfolding r record_header_bytes_def by (simp add: nth_append slice_def)
next
  assume r: ?r
  have l: "4 < length xs" "5 < length xs" using assms by simp_all
  have "record_header_bytes d = slice 0 4 xs @ slice 4 1 xs @ slice 5 1 xs @ slice 6 2 xs @
      slice 8 8 xs @ slice 16 4 xs @ slice 20 4 xs @ slice 24 4 xs @ slice 28 8 xs @ slice 36 4 xs"
    using r assms slice_one [OF l(1)] slice_one [OF l(2)]
      put_get_slice [of 6 xs] put_get_slice [of 8 xs] put_get_slice [of 16 xs]
      put_get_slice [of 20 xs] put_get_slice [of 24 xs] put_get_slice [of 28 xs]
      put_get_slice [of 36 xs]
    by (simp add: record_header_bytes_def)
  also have "\<dots> = slice 0 40 xs" by (simp add: slice_join)
  finally show ?l by (simp add: slice_def)
qed

lemma header_parse_iff:
  "(\<exists>info. file_object_record_header_parse (Some rec) d = Inr info) \<longleftrightarrow>
     file_object_descriptor_core_valid d \<and> 56 + unat (d_stored_size d) \<le> SIZE_MAX \<and>
     length rec = 56 + unat (d_stored_size d) \<and> take 40 rec = record_header_bytes d"
  using record_header_unique [of rec d]
  by (auto simp: file_object_record_header_parse_def Let_def)

lemma header_parse_info:
  "file_object_record_header_parse (Some rec) d = Inr info \<Longrightarrow>
   info = \<lparr>i_record_id = d_record_id d, i_stored_size = d_stored_size d,
     i_logical_size = d_logical_size d, i_generation = d_generation d,
     i_protection = d_protection d, i_payload_offset = 40, i_tag_offset = 40 + d_stored_size d\<rparr>"
  by (auto simp: file_object_record_header_parse_def Let_def split: if_splits)

text \<open>The additional data determines the identity it was built from.\<close>

lemma put_uint_inject [simp]:
  "put_uint16_be a = put_uint16_be b \<longleftrightarrow> a = b" "put_uint32_be c = put_uint32_be d \<longleftrightarrow> c = d"
  "put_uint64_be e = put_uint64_be f \<longleftrightarrow> e = f"
  by (metis get_put_uint16_be, metis get_put_uint32_be, metis get_put_uint64_be)

lemma record_aad_bytes_inject:
  assumes "length (id_policy_hash i) = 16" and "length (id_policy_hash j) = 16"
    and "record_aad_bytes i = record_aad_bytes j"
  shows "i = j"
  using assms unfolding record_aad_bytes_def
  by (cases i; cases j) (simp add: append_eq_append_conv)

lemma length_record_aad:
  "length (id_policy_hash i) = 16 \<Longrightarrow> length (record_aad_bytes i) = FILE_OBJECT_RECORD_AAD_SIZE"
  by (simp add: record_aad_bytes_def)

lemma header_parse_error: "file_object_record_header_parse src d \<noteq> Inl PICOKEYS_OK"
  by (simp add: file_object_record_header_parse_def Let_def)

section \<open>Sealing and unsealing\<close>

text \<open>The bytes of a sealed record.\<close>

definition record_bytes ::
    "(file_object_record_identity \<Rightarrow> bytes \<Rightarrow> bytes \<Rightarrow> bytes \<Rightarrow> bytes \<times> bytes) \<Rightarrow>
     file_object_manifest \<Rightarrow> bytes \<Rightarrow> bytes \<Rightarrow> bytes" where
  "record_bytes enc m policy_hash pt =
    (let i = record_identity m policy_hash in
     case enc i (record_nonce (m_object m)) (record_aad_bytes i) pt of
       (st, tag) \<Rightarrow> record_header_bytes (m_object m) @ st @ tag)"

text \<open>The preconditions of the caller: an object of the given size, described consistently.\<close>

definition sealable :: "file_object_manifest \<Rightarrow> nat \<Rightarrow> bool" where
  "sealable m n \<longleftrightarrow> m_has_object m \<and> file_object_descriptor_core_valid (m_object m) \<and>
     unat (d_logical_size (m_object m)) = n \<and> d_stored_size (m_object m) = d_logical_size (m_object m) \<and>
     56 + n \<le> SIZE_MAX"

definition accepted_by ::
    "(file_object_record_identity \<Rightarrow> bytes \<Rightarrow> bytes \<Rightarrow> bool) \<Rightarrow> file_object_manifest \<Rightarrow> bytes \<Rightarrow> bool" where
  "accepted_by accepts m policy_hash \<longleftrightarrow>
     accepts (record_identity m policy_hash) (record_nonce (m_object m))
       (record_aad_bytes (record_identity m policy_hash))"

text \<open>
  What the container relies on of a protector: for the identities it accepts and nonces of 12 bytes, sealing fills the
  stored buffer and the tag with a ciphertext as long as the plaintext and a 16-byte tag; unsealing
  gives the plaintext back, and succeeds on nothing else.
\<close>

locale record_protector =
  fixes prot :: file_object_record_protector
    and accepts :: "file_object_record_identity \<Rightarrow> bytes \<Rightarrow> bytes \<Rightarrow> bool"
    and enc :: "file_object_record_identity \<Rightarrow> bytes \<Rightarrow> bytes \<Rightarrow> bytes \<Rightarrow> bytes \<times> bytes"
  assumes provided: "file_object_record_protector_valid (Some prot)"
    and enc_length: "enc i nonce aad pt = (st, tag) \<Longrightarrow> length st = length pt \<and> length tag = 16"
    and seal_ok: "length nonce = 12 \<Longrightarrow> accepts i nonce aad \<Longrightarrow> enc i nonce aad pt = (st, tag) \<Longrightarrow>
      length area = length pt \<Longrightarrow>
      the (prot_seal prot) i nonce aad pt (BYTE_BUFFER (Some area) (length pt)) =
        (PICOKEYS_OK, \<lparr>b_data = Some st, b_len = length pt, b_capacity = length pt\<rparr>, tag)"
    and unseal_ok: "length nonce = 12 \<Longrightarrow> accepts i nonce aad \<Longrightarrow> enc i nonce aad pt = (st, tag) \<Longrightarrow>
      length pt \<le> space \<Longrightarrow> (case dest of None \<Rightarrow> space = 0 | Some a \<Rightarrow> length a = space) \<Longrightarrow>
      the (prot_unseal prot) i nonce aad st tag (BYTE_BUFFER dest space) =
        (PICOKEYS_OK, \<lparr>b_data = map_option (buf_write 0 pt) dest, b_len = length pt,
          b_capacity = space\<rparr>)"
    and unseal_sound: "length nonce = 12 \<Longrightarrow> length tag = 16 \<Longrightarrow>
      the (prot_unseal prot) i nonce aad st tag buf = (PICOKEYS_OK, out) \<Longrightarrow>
      accepts i nonce aad \<and> (\<exists>pt. enc i nonce aad pt = (st, tag))"
begin

lemma length_record_bytes: "length (record_bytes enc m ph pt) = 56 + length pt"
  using enc_length by (auto simp: record_bytes_def Let_def split: prod.splits)

lemma record_seal_ok:
  assumes s: "sealable m (length pt)" and a: "accepted_by accepts m ph"
    and b: "buffer_wf rec" "b_data rec = Some d" and room: "56 + length pt \<le> b_capacity rec - b_len rec"
  shows "file_object_record_seal m (Some ph) (Some prot) (Some pt) (length pt) rec =
    (PICOKEYS_OK, rec\<lparr>b_data := Some (buf_write (b_len rec) (record_bytes enc m ph pt) d),
       b_len := b_len rec + (56 + length pt)\<rparr>)"
proof -
  let ?i = "record_identity m ph"
  obtain st tag where e: "enc ?i (record_nonce (m_object m)) (record_aad_bytes ?i) pt = (st, tag)"
    by fastforce
  have nonce: "slice 28 12 (record_header_bytes (m_object m)) = record_nonce (m_object m)"
    using record_header_nonce [of "m_object m" "[]"] by simp
  have area: "length (slice 40 (length pt) (drop (b_len rec) d)) = length pt"
    using b room by (simp add: buffer_wf_def)
  have parts: "record_seal_parts m ph prot pt (drop (b_len rec) d) = Inr (record_bytes enc m ph pt)"
    using s seal_ok [OF length_record_nonce a [unfolded accepted_by_def] e area]
    by (simp add: record_seal_parts_def file_object_record_identity_build_def Let_def
        header_build_eq sealable_def nonce record_bytes_def e)
  show ?thesis
    using s b room provided parts
    by (simp add: file_object_record_seal_def sealable_def buffer_wf_def Let_def add.assoc)
qed

lemma unseal_parts_record:
  assumes s: "sealable m (length pt)" and a: "accepted_by accepts m ph"
    and room: "length pt \<le> space" "case area of None \<Rightarrow> space = 0 | Some x \<Rightarrow> length x = space"
  shows "\<exists>info. record_unseal_parts m ph prot (record_bytes enc m ph pt) area space =
      ((PICOKEYS_OK, map_option (buf_write 0 pt) area), Some info) \<and>
      unat (i_logical_size info) = length pt"
proof -
  let ?i = "record_identity m ph" and ?o = "m_object m"
  obtain st tag where e: "enc ?i (record_nonce ?o) (record_aad_bytes ?i) pt = (st, tag)"
    by fastforce
  then have l: "length st = length pt" "length tag = 16" using enc_length by blast+
  have r: "record_bytes enc m ph pt = record_header_bytes ?o @ st @ tag"
    by (simp add: record_bytes_def e)
  have sz: "unat (d_stored_size ?o) = length pt" "unat (d_logical_size ?o) = length pt"
    "unat (40 + d_stored_size ?o) = 40 + length pt"
    "unat (40 + d_logical_size ?o) = 40 + length pt"
    using s by (simp_all add: sealable_def unat_word_ariths)
  have "\<exists>info. file_object_record_header_parse (Some (record_bytes enc m ph pt)) ?o = Inr info"
    using s l unfolding header_parse_iff sz by (simp add: r sealable_def)
  then obtain info where i: "file_object_record_header_parse (Some (record_bytes enc m ph pt)) ?o = Inr info"
    by blast
  note info = header_parse_info [OF i]
  have sl: "slice 28 12 (record_bytes enc m ph pt) = record_nonce ?o"
    "slice 40 (length pt) (record_bytes enc m ph pt) = st"
    "slice (40 + length pt) 16 (record_bytes enc m ph pt) = tag"
    unfolding r record_header_nonce using l by (simp_all add: slice_def)
  show ?thesis
    using s unseal_ok [OF length_record_nonce a [unfolded accepted_by_def] e room]
    by (intro exI [of _ info]) (simp add: record_unseal_parts_def i info
        file_object_record_identity_build_def Let_def sealable_def sz sl)
qed

lemma record_unseal_ok:
  assumes s: "sealable m (length pt)" and a: "accepted_by accepts m ph"
    and b: "buffer_wf out" and room: "length pt \<le> b_capacity out - b_len out"
  shows "file_object_record_unseal m (Some ph) (Some prot) (Some (record_bytes enc m ph pt)) out =
    (PICOKEYS_OK, out\<lparr>b_data := map_option (buf_write (b_len out) pt) (b_data out),
       b_len := b_len out + length pt\<rparr>)"
proof -
  let ?space = "b_capacity out - b_len out" and ?area = "map_option (drop (b_len out)) (b_data out)"
  have "case ?area of None \<Rightarrow> ?space = 0 | Some x \<Rightarrow> length x = ?space"
    using b by (simp add: buffer_wf_def split: option.splits)
  from unseal_parts_record [OF s a room this] obtain info where
    u: "record_unseal_parts m ph prot (record_bytes enc m ph pt) ?area ?space =
      ((PICOKEYS_OK, map_option (buf_write 0 pt) ?area), Some info)"
      "unat (i_logical_size info) = length pt" by blast
  have w: "take (b_len out) d @ buf_write 0 pt (drop (b_len out) d) = buf_write (b_len out) pt d"
    if "b_data out = Some d" for d
    by (simp add: buf_write_def add.commute)
  show ?thesis
    using s b room provided u w
    by (simp add: file_object_record_unseal_def sealable_def buffer_wf_def Let_def
        split: option.splits)
qed

lemma record_unseal_sound:
  assumes ok: "file_object_record_unseal m (Some ph) (Some prot) (Some rec) out = (PICOKEYS_OK, out')"
    and b: "buffer_wf out"
  shows "\<exists>pt. rec = record_bytes enc m ph pt \<and> sealable m (length pt) \<and>
    accepted_by accepts m ph \<and>
    out' = out\<lparr>b_data := map_option (buf_write (b_len out) pt) (b_data out),
       b_len := b_len out + length pt\<rparr>"
proof -
  let ?i = "record_identity m ph" and ?o = "m_object m"
  let ?space = "b_capacity out - b_len out" and ?area = "map_option (drop (b_len out)) (b_data out)"
  have pre: "m_has_object m" "d_logical_size ?o = d_stored_size ?o"
    "unat (d_logical_size ?o) \<le> ?space"
    using ok by (auto simp: file_object_record_unseal_def split: if_splits)
  obtain r area' info where u: "record_unseal_parts m ph prot rec ?area ?space = ((r, area'), info)"
    by (metis prod.exhaust)
  have r: "r = PICOKEYS_OK"
    using ok u by (auto simp: file_object_record_unseal_def Let_def split: if_splits)
  from u r obtain info' where h: "file_object_record_header_parse (Some rec) ?o = Inr info'"
    by (auto simp: record_unseal_parts_def header_parse_error split: sum.splits)
  then have f: "file_object_descriptor_core_valid ?o" "56 + unat (d_stored_size ?o) \<le> SIZE_MAX"
    "length rec = 56 + unat (d_stored_size ?o)" "take 40 rec = record_header_bytes ?o"
    using header_parse_iff [of rec ?o] by auto
  let ?n = "unat (d_stored_size ?o)"
  have tl: "unat (40 + d_stored_size ?o) = 40 + ?n" using f(2) by (simp add: unat_word_ariths)
  have ib: "file_object_record_identity_build m ph = Inr (?i, record_aad_bytes ?i)"
    using pre(1) f(1) by (simp add: file_object_record_identity_build_def Let_def)
  have nonce: "slice 28 12 rec = record_nonce ?o"
    using record_header_nonce [of ?o "drop 40 rec"] f(4) by (metis append_take_drop_id)
  obtain o1 where o1: "the (prot_unseal prot) ?i (record_nonce ?o) (record_aad_bytes ?i)
      (slice 40 ?n rec) (slice (40 + ?n) 16 rec) (BYTE_BUFFER ?area ?space) = (PICOKEYS_OK, o1)"
    using u r unfolding record_unseal_parts_def h sum.case ib prod.case header_parse_info [OF h]
    by (simp add: tl nonce split: prod.splits if_splits)
  have "length (slice (40 + ?n) 16 rec) = 16" using f(3) by simp
  from unseal_sound [OF length_record_nonce this o1] obtain pt where
    a: "accepts ?i (record_nonce ?o) (record_aad_bytes ?i)" and
    e: "enc ?i (record_nonce ?o) (record_aad_bytes ?i) pt = (slice 40 ?n rec, slice (40 + ?n) 16 rec)"
    by blast
  have lp: "length pt = ?n" using enc_length [OF e] f(3) by simp
  have "rec = slice 0 40 rec @ slice 40 ?n rec @ slice (40 + ?n) 16 rec"
    by (simp add: slice_join) (simp add: slice_def f(3))
  then have rb: "rec = record_bytes enc m ph pt"
    unfolding record_bytes_def Let_def e prod.case f(4) [symmetric] by (simp add: slice_def)
  have s: "sealable m (length pt)"
    using pre f lp by (simp add: sealable_def)
  have ab: "accepted_by accepts m ph" using a by (simp add: accepted_by_def)
  have "length pt \<le> ?space" using lp pre by simp
  from record_unseal_ok [OF s ab b this] ok rb s ab show ?thesis by auto
qed

end

text \<open>
  Whatever the protector does, an unsealing that fails after the parameter checks leaves the length
  as it was and zeroes the bytes the plaintext would have taken.
\<close>

lemma unseal_failure_clears_lemma:
  assumes "file_object_record_unseal m (Some ph) (Some p) (Some rec) out = (r, out')"
    and "r \<noteq> PICOKEYS_OK" and "r \<noteq> PICOKEYS_ERR_NULL_PARAM"
    and "b_data out = Some d" and "buffer_wf out"
    and "unat (d_logical_size (m_object m)) \<le> b_capacity out - b_len out"
    and "d_logical_size (m_object m) = d_stored_size (m_object m)" and "m_has_object m"
  shows "b_len out' = b_len out \<and>
    slice (b_len out) (unat (d_logical_size (m_object m))) (the (b_data out')) =
      replicate (unat (d_logical_size (m_object m))) 0 \<and>
    take (b_len out) (the (b_data out')) = take (b_len out) d"
proof -
  let ?n = "unat (d_logical_size (m_object m))"
  have l: "b_len out \<le> length d" "?n \<le> length d - b_len out"
    using assms(4-6) by (auto simp: buffer_wf_def)
  obtain area' info where "out' = out\<lparr>b_data :=
      (if b_capacity out > b_len out
       then Some (buf_write (b_len out) (replicate ?n 0) (take (b_len out) d @ area'))
       else Some (take (b_len out) d @ area'))\<rparr>"
    using assms by (auto simp: file_object_record_unseal_def buffer_wf_def Let_def min_def
        split: if_splits prod.splits)
  then show ?thesis
    using l assms(4-6) by (auto simp: buffer_wf_def slice_def buf_write_def min_def)
qed

end
