(* ===== verification/Object_Crypto.thy ===== *)
theory Object_Crypto
  imports Object_Container
begin

text \<open>
  The crypto provider of \<open>fs/object_crypto_provider.c\<close>: the authenticator of manifests (a
  truncated HMAC under a key derived from the device root) and the protector of records (HMAC for
  public objects, AES-GCM for the others, under a key derived from the record's identity).
  The primitives of mbedtls are a parameter, a record of functions; what is used of their documented
  behaviour is the locale \<open>mbedtls_library\<close>. The provider is shown to be an instance of the
  container's two interfaces.
\<close>

section \<open>The library and the provider\<close>

record ('h, 'g) mbedtls =
  mbedtls_md_init :: 'h
  mbedtls_md_setup :: "'h \<Rightarrow> int \<times> 'h"
  mbedtls_md_hmac_starts :: "'h \<Rightarrow> bytes \<Rightarrow> int \<times> 'h"
  mbedtls_md_hmac_update :: "'h \<Rightarrow> bytes \<Rightarrow> int \<times> 'h"
  mbedtls_md_hmac_finish :: "'h \<Rightarrow> int \<times> bytes \<times> 'h"
  mbedtls_hkdf :: "bytes \<Rightarrow> bytes \<Rightarrow> bytes \<Rightarrow> nat \<Rightarrow> int \<times> bytes"
  mbedtls_gcm_setkey :: "bytes \<Rightarrow> int \<times> 'g"
  mbedtls_gcm_crypt_and_tag :: "'g \<Rightarrow> bytes \<Rightarrow> bytes \<Rightarrow> bytes \<Rightarrow> int \<times> bytes \<times> bytes"
  mbedtls_gcm_auth_decrypt :: "'g \<Rightarrow> bytes \<Rightarrow> bytes \<Rightarrow> bytes \<Rightarrow> bytes \<Rightarrow> int \<times> bytes"

abbreviation (input) FILE_OBJECT_CRYPTO_ROOT_KEY_SIZE :: nat where
  "FILE_OBJECT_CRYPTO_ROOT_KEY_SIZE \<equiv> 32"

text \<open>A callback that loads a root key is what it returns when it is called.\<close>

record 'h file_object_crypto_provider =
  p_namespace_id :: u16
  p_load_root :: "(status \<times> bytes) option"
  p_load_public_root :: "(status \<times> bytes) option"
  p_identity_valid :: "(file_object_record_identity \<Rightarrow> bool) option"
  p_manifest_md :: 'h
  p_manifest_active :: bool
  p_initialized :: bool

definition file_object_crypto_domain_label :: bytes where
  "file_object_crypto_domain_label = map of_char ''PKOC/domain/v1''"

definition file_object_crypto_key_label :: bytes where
  "file_object_crypto_key_label = map of_char ''PKOC/object/v1''"

definition file_object_crypto_manifest_label :: bytes where
  "file_object_crypto_manifest_label = map of_char ''PKOC/manifest/v1''"

definition file_object_crypto_provider_valid :: "'h file_object_crypto_provider \<Rightarrow> bool" where
  "file_object_crypto_provider_valid p \<longleftrightarrow>
     p_initialized p \<and> p_namespace_id p \<noteq> 0 \<and> p_load_root p \<noteq> None"

section \<open>Keys\<close>

definition file_object_crypto_load_root ::
    "'h file_object_crypto_provider \<Rightarrow> bool \<Rightarrow> status \<times> bytes" where
  "file_object_crypto_load_root p public_root =
    (let load_root = (if public_root \<and> p_load_public_root p \<noteq> None
       then p_load_public_root p else p_load_root p);
         (r, root) = the load_root in
     if r \<noteq> PICOKEYS_OK then (r, replicate FILE_OBJECT_CRYPTO_ROOT_KEY_SIZE 0) else (r, root))"

definition file_object_crypto_derive_manifest_key ::
    "('h, 'g) mbedtls \<Rightarrow> 'h file_object_crypto_provider \<Rightarrow> status \<times> bytes" where
  "file_object_crypto_derive_manifest_key lib p =
    (let info = put_uint16_be (p_namespace_id p) @ file_object_crypto_manifest_label;
         (r, root) = file_object_crypto_load_root p True in
     if r = PICOKEYS_OK then
       (case mbedtls_hkdf lib [] root info FILE_OBJECT_CRYPTO_ROOT_KEY_SIZE of
          (rc, key) \<Rightarrow> (if rc \<noteq> 0 then PICOKEYS_EXEC_ERROR else r, key))
     else (r, replicate FILE_OBJECT_CRYPTO_ROOT_KEY_SIZE 0))"

definition file_object_crypto_derive_record_key ::
    "('h, 'g) mbedtls \<Rightarrow> 'h file_object_crypto_provider \<Rightarrow> file_object_record_identity \<Rightarrow> bytes \<Rightarrow>
     status \<times> bytes" where
  "file_object_crypto_derive_record_key lib p identity aad =
    (let domain_info = put_uint16_be (id_namespace_id identity) @ [id_key_domain identity] @
           file_object_crypto_domain_label;
         object_info = file_object_crypto_key_label @ aad;
         (r, root) = file_object_crypto_load_root p (id_protection identity = 1) in
     if r = PICOKEYS_OK then
       (case mbedtls_hkdf lib [] root domain_info FILE_OBJECT_CRYPTO_ROOT_KEY_SIZE of
          (rc, domain_key) \<Rightarrow>
            if rc \<noteq> 0 then (PICOKEYS_EXEC_ERROR, replicate FILE_OBJECT_CRYPTO_ROOT_KEY_SIZE 0)
            else (case mbedtls_hkdf lib [] domain_key object_info
                FILE_OBJECT_CRYPTO_ROOT_KEY_SIZE of
              (rc, key) \<Rightarrow> (if rc \<noteq> 0 then PICOKEYS_EXEC_ERROR else r, key)))
     else (r, replicate FILE_OBJECT_CRYPTO_ROOT_KEY_SIZE 0))"

definition file_object_crypto_identity_valid ::
    "'h file_object_crypto_provider \<Rightarrow> file_object_record_identity \<Rightarrow> bytes \<Rightarrow> bytes \<Rightarrow> bool" where
  "file_object_crypto_identity_valid p i nonce aad =
    (if \<not> file_object_crypto_provider_valid p \<or> id_namespace_id i \<noteq> p_namespace_id p then False
     else if id_generation i = 0 \<or> id_record_id i = 0 \<or> id_protection i < 1 \<or>
       id_protection i > 3 \<or> id_flags i AND NOT 0x003f \<noteq> 0 \<or> id_flags i AND 0x0001 \<noteq> 0
     then False
     else if (case p_identity_valid p of None \<Rightarrow> False | Some f \<Rightarrow> \<not> f i) then False
     else if slice 0 4 aad \<noteq> file_object_record_magic \<or> aad ! 4 \<noteq> 1 then False
     else if get_uint16_be (drop 5 aad) \<noteq> id_namespace_id i \<or>
       get_uint16_be (drop 7 aad) \<noteq> id_container_kind i \<or>
       get_uint32_be (drop 9 aad) \<noteq> id_container_id i \<or>
       get_uint16_be (drop 13 aad) \<noteq> id_object_type i \<or>
       get_uint16_be (drop 15 aad) \<noteq> id_object_tag i \<or>
       get_uint32_be (drop 17 aad) \<noteq> id_generation i \<or>
       get_uint32_be (drop 21 aad) \<noteq> id_logical_size i \<or>
       get_uint16_be (drop 25 aad) \<noteq> id_policy_id i \<or>
       slice 27 16 aad \<noteq> id_policy_hash i \<or>
       aad ! 43 \<noteq> id_key_domain i \<or> aad ! 44 \<noteq> id_protection i \<or>
       get_uint16_be (drop 45 aad) \<noteq> id_flags i \<or>
       get_uint64_be (drop 47 aad) \<noteq> id_record_id i
     then False
     else get_uint64_be nonce = id_record_id i \<and> get_uint32_be (drop 8 nonce) = id_generation i)"

definition file_object_crypto_tag_equal :: "bytes \<Rightarrow> bytes \<Rightarrow> bool" where
  "file_object_crypto_tag_equal l r \<longleftrightarrow> diff_bytes FILE_OBJECT_AUTH_TAG_SIZE l r = 0"

section \<open>The record protector\<close>

text \<open>The chain of mbedtls calls stops at the first that fails; the result code is kept.\<close>

definition file_object_crypto_hmac ::
    "('h, 'g) mbedtls \<Rightarrow> bytes \<Rightarrow> bytes \<Rightarrow> bytes \<Rightarrow> bytes \<Rightarrow> status \<times> bytes" where
  "file_object_crypto_hmac lib key nonce aad stored =
    (let (r, md) = mbedtls_md_setup lib (mbedtls_md_init lib);
         (r, md) = (if r = 0 then mbedtls_md_hmac_starts lib md key else (r, md));
         (r, md) = (if r = 0 then mbedtls_md_hmac_update lib md aad else (r, md));
         (r, md) = (if r = 0 then mbedtls_md_hmac_update lib md nonce else (r, md));
         (r, md) = (if r = 0 \<and> length stored > 0 then mbedtls_md_hmac_update lib md stored
           else (r, md));
         (r, full_tag, md) = (if r = 0 then mbedtls_md_hmac_finish lib md else (r, [], md)) in
     (if r = 0 then PICOKEYS_OK else PICOKEYS_EXEC_ERROR,
      if r = 0 then take FILE_OBJECT_AUTH_TAG_SIZE full_tag else []))"

text \<open>
  Writing \<open>n\<close> bytes at the free end of a byte buffer, without moving its length;
  a buffer with no data has no room, and nothing is written.
\<close>

definition buffer_put :: "byte_buffer \<Rightarrow> bytes \<Rightarrow> byte_buffer" where
  "buffer_put b bs = b\<lparr>b_data := map_option (buf_write (b_len b) bs) (b_data b)\<rparr>"

definition file_object_crypto_record_seal ::
    "('h, 'g) mbedtls \<Rightarrow> 'h file_object_crypto_provider \<Rightarrow> file_object_record_identity \<Rightarrow> bytes \<Rightarrow>
     bytes \<Rightarrow> bytes \<Rightarrow> byte_buffer \<Rightarrow> status \<times> byte_buffer \<times> bytes" where
  "file_object_crypto_record_seal lib p identity nonce aad plaintext stored =
    (if \<not> file_object_crypto_identity_valid p identity nonce aad \<or>
        b_len stored > b_capacity stored \<or> (b_data stored = None \<and> b_capacity stored > 0) \<or>
        b_capacity stored - b_len stored < length plaintext
     then (PICOKEYS_WRONG_DATA, stored, [])
     else
      (let (r, key) = file_object_crypto_derive_record_key lib p identity aad;
           (r, stored, tag) =
             (if r = PICOKEYS_OK \<and> id_protection identity = 1 then
                (let stored = (if length plaintext > 0 then buffer_put stored plaintext else stored);
                     (r, tag) = file_object_crypto_hmac lib key nonce aad plaintext in
                 (r, stored, tag))
              else if r = PICOKEYS_OK then
                (case mbedtls_gcm_setkey lib key of
                   (rc, gcm) \<Rightarrow>
                     if rc = 0 then
                       (case mbedtls_gcm_crypt_and_tag lib gcm nonce aad plaintext of
                          (rc, ct, tag) \<Rightarrow>
                            (if rc = 0 then PICOKEYS_OK else PICOKEYS_EXEC_ERROR,
                             if length plaintext > 0 then buffer_put stored ct else stored, tag))
                     else (PICOKEYS_EXEC_ERROR, stored, []))
              else (r, stored, [])) in
       (r, if r = PICOKEYS_OK then stored\<lparr>b_len := b_len stored + length plaintext\<rparr> else stored,
        tag)))"

definition file_object_crypto_record_unseal ::
    "('h, 'g) mbedtls \<Rightarrow> 'h file_object_crypto_provider \<Rightarrow> file_object_record_identity \<Rightarrow> bytes \<Rightarrow>
     bytes \<Rightarrow> bytes \<Rightarrow> bytes \<Rightarrow> byte_buffer \<Rightarrow> status \<times> byte_buffer" where
  "file_object_crypto_record_unseal lib p identity nonce aad stored tag plaintext =
    (if \<not> file_object_crypto_identity_valid p identity nonce aad \<or>
        b_len plaintext > b_capacity plaintext \<or>
        (b_data plaintext = None \<and> b_capacity plaintext > 0) \<or>
        b_capacity plaintext - b_len plaintext < length stored
     then (PICOKEYS_WRONG_DATA, plaintext)
     else
      (let (r, key) = file_object_crypto_derive_record_key lib p identity aad;
           (r, out) =
             (if r = PICOKEYS_OK \<and> id_protection identity = 1 then
                (let (r, calculated_tag) = file_object_crypto_hmac lib key nonce aad stored;
                     r = (if r = PICOKEYS_OK \<and> \<not> file_object_crypto_tag_equal calculated_tag tag
                       then PICOKEYS_WRONG_SIGNATURE else r) in
                 (r, if r = PICOKEYS_OK \<and> length stored > 0 then buffer_put plaintext stored
                     else plaintext))
              else if r = PICOKEYS_OK then
                (case mbedtls_gcm_setkey lib key of
                   (rc, gcm) \<Rightarrow>
                     if rc = 0 then
                       (case mbedtls_gcm_auth_decrypt lib gcm nonce aad tag stored of
                          (rc, pt) \<Rightarrow>
                            (if rc = 0 then PICOKEYS_OK else PICOKEYS_WRONG_SIGNATURE,
                             if length stored > 0 then buffer_put plaintext pt else plaintext))
                     else (PICOKEYS_EXEC_ERROR, plaintext))
              else (r, plaintext));
           out = (if r \<noteq> PICOKEYS_OK \<and> b_data out \<noteq> None \<and> length stored > 0
             then buffer_put out (replicate (length stored) 0) else out) in
       (r, if r = PICOKEYS_OK then out\<lparr>b_len := b_len out + length stored\<rparr> else out)))"

section \<open>The manifest authenticator\<close>

definition file_object_crypto_auth_abort ::
    "('h, 'g) mbedtls \<Rightarrow> 'h file_object_crypto_provider \<Rightarrow> 'h file_object_crypto_provider" where
  "file_object_crypto_auth_abort lib p =
    (if \<not> p_initialized p then p
     else p\<lparr>p_manifest_md := mbedtls_md_init lib, p_manifest_active := False\<rparr>)"

definition file_object_crypto_auth_start ::
    "('h, 'g) mbedtls \<Rightarrow> 'h file_object_crypto_provider \<Rightarrow> status \<times> 'h file_object_crypto_provider" where
  "file_object_crypto_auth_start lib p =
    (if \<not> file_object_crypto_provider_valid p then (PICOKEYS_WRONG_DATA, p)
     else
      (let p = file_object_crypto_auth_abort lib p;
           (r, key) = file_object_crypto_derive_manifest_key lib p;
           (r, md) = (if r = PICOKEYS_OK then
             (case mbedtls_md_setup lib (p_manifest_md p) of (rc, md) \<Rightarrow>
                if rc \<noteq> 0 then (PICOKEYS_EXEC_ERROR, md)
                else (case mbedtls_md_hmac_starts lib md key of (rc, md) \<Rightarrow>
                  (if rc \<noteq> 0 then PICOKEYS_EXEC_ERROR else r, md)))
             else (r, p_manifest_md p));
           p = p\<lparr>p_manifest_md := md\<rparr> in
       if r \<noteq> PICOKEYS_OK then (r, file_object_crypto_auth_abort lib p)
       else (PICOKEYS_OK, p\<lparr>p_manifest_active := True\<rparr>)))"

definition file_object_crypto_auth_update ::
    "('h, 'g) mbedtls \<Rightarrow> 'h file_object_crypto_provider \<Rightarrow> bytes \<Rightarrow>
     status \<times> 'h file_object_crypto_provider" where
  "file_object_crypto_auth_update lib p data =
    (if \<not> file_object_crypto_provider_valid p \<or> \<not> p_manifest_active p
     then (PICOKEYS_WRONG_DATA, p)
     else if length data = 0 then (PICOKEYS_OK, p)
     else (case mbedtls_md_hmac_update lib (p_manifest_md p) data of (rc, md) \<Rightarrow>
       (if rc = 0 then PICOKEYS_OK else PICOKEYS_EXEC_ERROR, p\<lparr>p_manifest_md := md\<rparr>)))"

definition file_object_crypto_auth_finish ::
    "('h, 'g) mbedtls \<Rightarrow> 'h file_object_crypto_provider \<Rightarrow>
     status \<times> bytes \<times> 'h file_object_crypto_provider" where
  "file_object_crypto_auth_finish lib p =
    (if \<not> file_object_crypto_provider_valid p \<or> \<not> p_manifest_active p
     then (PICOKEYS_WRONG_DATA, [], p)
     else (case mbedtls_md_hmac_finish lib (p_manifest_md p) of (rc, full_tag, md) \<Rightarrow>
       (let r = (if rc = 0 then PICOKEYS_OK else PICOKEYS_EXEC_ERROR) in
        (r, if r = PICOKEYS_OK then take FILE_OBJECT_AUTH_TAG_SIZE full_tag else [],
         file_object_crypto_auth_abort lib (p\<lparr>p_manifest_md := md\<rparr>)))))"

text \<open>
  The two structures of function pointers \<open>init\<close> stores in the provider; the accessors give
  them out while the provider is valid.
\<close>

definition crypto_manifest_authenticator ::
    "('h, 'g) mbedtls \<Rightarrow> 'h file_object_crypto_provider file_object_authenticator" where
  "crypto_manifest_authenticator lib =
    \<lparr>auth_start = Some (file_object_crypto_auth_start lib),
     auth_update = Some (file_object_crypto_auth_update lib),
     auth_finish = Some (file_object_crypto_auth_finish lib),
     auth_abort = Some (file_object_crypto_auth_abort lib)\<rparr>"

definition crypto_record_protector ::
    "('h, 'g) mbedtls \<Rightarrow> 'h file_object_crypto_provider \<Rightarrow> file_object_record_protector" where
  "crypto_record_protector lib p =
    \<lparr>prot_seal = Some (file_object_crypto_record_seal lib p),
     prot_unseal = Some (file_object_crypto_record_unseal lib p)\<rparr>"

definition file_object_crypto_provider_init ::
    "('h, 'g) mbedtls \<Rightarrow> u16 \<Rightarrow> (status \<times> bytes) option \<Rightarrow> (status \<times> bytes) option \<Rightarrow>
     (file_object_record_identity \<Rightarrow> bool) option \<Rightarrow> status + 'h file_object_crypto_provider" where
  "file_object_crypto_provider_init lib namespace_id load_root load_public_root identity_valid =
    (if namespace_id = 0 \<or> load_root = None then Inl PICOKEYS_ERR_NULL_PARAM
     else Inr \<lparr>p_namespace_id = namespace_id, p_load_root = load_root,
       p_load_public_root = load_public_root, p_identity_valid = identity_valid,
       p_manifest_md = mbedtls_md_init lib, p_manifest_active = False, p_initialized = True\<rparr>)"

definition file_object_crypto_manifest_authenticator ::
    "('h, 'g) mbedtls \<Rightarrow> 'h file_object_crypto_provider \<Rightarrow>
     'h file_object_crypto_provider file_object_authenticator option" where
  "file_object_crypto_manifest_authenticator lib p =
    (if file_object_crypto_provider_valid p then Some (crypto_manifest_authenticator lib) else None)"

definition file_object_crypto_record_protector ::
    "('h, 'g) mbedtls \<Rightarrow> 'h file_object_crypto_provider \<Rightarrow> file_object_record_protector option" where
  "file_object_crypto_record_protector lib p =
    (if file_object_crypto_provider_valid p then Some (crypto_record_protector lib p) else None)"

text \<open>\<open>mbedtls_md_init\<close> zeroes the context, so the zeroed provider holds an initial one.\<close>

definition file_object_crypto_provider_deinit ::
    "('h, 'g) mbedtls \<Rightarrow> 'h file_object_crypto_provider \<Rightarrow> 'h file_object_crypto_provider" where
  "file_object_crypto_provider_deinit lib p =
    (let p = (if p_initialized p then file_object_crypto_auth_abort lib p else p) in
     p\<lparr>p_namespace_id := 0, p_load_root := None, p_load_public_root := None,
       p_identity_valid := None, p_manifest_md := mbedtls_md_init lib,
       p_manifest_active := False, p_initialized := False\<rparr>)"

section \<open>What is relied on of mbedtls\<close>

text \<open>
  The documented behaviour of the primitives when they have what they need: HKDF gives as many
  bytes as asked for, up to 255 blocks of SHA-256; the streaming HMAC gives the HMAC of the concatenation of what it was fed;
  AES-GCM with a nonce of 12 bytes keeps the length, has a 16-byte tag, and its authenticated decryption succeeds exactly on
  the ciphertext and tag of an encryption, whose plaintext it returns.
  \<open>keyed md key fed\<close> says that a context is keyed and has been fed these bytes.
\<close>

locale mbedtls_library =
  fixes lib :: "('h, 'g) mbedtls"
    and keyed :: "'h \<Rightarrow> bytes \<Rightarrow> bytes \<Rightarrow> bool"
    and hmac :: "bytes \<Rightarrow> bytes \<Rightarrow> bytes"
    and gcm :: "bytes \<Rightarrow> bytes \<Rightarrow> bytes \<Rightarrow> bytes \<Rightarrow> bytes \<times> bytes"
  assumes hkdf_ok: "n \<le> 255 * 32 \<Longrightarrow> \<exists>okm. mbedtls_hkdf lib salt ikm info n = (0, okm) \<and> length okm = n"
    and starts_ok: "\<exists>md md'. mbedtls_md_setup lib (mbedtls_md_init lib) = (0, md) \<and>
      mbedtls_md_hmac_starts lib md key = (0, md') \<and> keyed md' key []"
    and update_ok: "keyed md key fed \<Longrightarrow>
      \<exists>md'. mbedtls_md_hmac_update lib md data = (0, md') \<and> keyed md' key (fed @ data)"
    and finish_ok: "keyed md key fed \<Longrightarrow>
      \<exists>md'. mbedtls_md_hmac_finish lib md = (0, hmac key fed, md')"
    and length_hmac: "length (hmac key data) = 32"
    and gcm_setkey_ok: "length key = 32 \<Longrightarrow> \<exists>g. mbedtls_gcm_setkey lib key = (0, g) \<and>
      (\<forall>nonce aad pt. length nonce = 12 \<longrightarrow> mbedtls_gcm_crypt_and_tag lib g nonce aad pt = (0, gcm key nonce aad pt)) \<and>
      (\<forall>nonce aad tag ct pt. length nonce = 12 \<longrightarrow>
         mbedtls_gcm_auth_decrypt lib g nonce aad tag ct = (0, pt) \<longleftrightarrow> gcm key nonce aad pt = (ct, tag))"
    and gcm_length: "gcm key nonce aad pt = (ct, tag) \<Longrightarrow>
      length ct = length pt \<and> length tag = 16"
begin

lemma hmac_record:
  "file_object_crypto_hmac lib key nonce aad stored =
     (PICOKEYS_OK, take 16 (hmac key (aad @ nonce @ stored)))"
proof -
  obtain m0 m1 where 1: "mbedtls_md_setup lib (mbedtls_md_init lib) = (0, m0)"
    "mbedtls_md_hmac_starts lib m0 key = (0, m1)" "keyed m1 key []"
    using starts_ok by blast
  obtain m2 where 2: "mbedtls_md_hmac_update lib m1 aad = (0, m2)" "keyed m2 key aad"
    using update_ok [OF 1(3), of aad] by auto
  obtain m3 where 3: "mbedtls_md_hmac_update lib m2 nonce = (0, m3)" "keyed m3 key (aad @ nonce)"
    using update_ok [OF 2(2)] by blast
  obtain m4 where 4: "(if length stored > 0 then mbedtls_md_hmac_update lib m3 stored else (0, m3)) =
      (0, m4)" "keyed m4 key (aad @ nonce @ stored)"
    using update_ok [OF 3(2), of stored] 3(2) by (cases stored) auto
  obtain m5 where 5: "mbedtls_md_hmac_finish lib m4 = (0, hmac key (aad @ nonce @ stored), m5)"
    using finish_ok [OF 4(2)] by blast
  show ?thesis
    unfolding file_object_crypto_hmac_def Let_def
    using 1(1,2) 2(1) 3(1) 4(1) 5 by simp
qed

end

text \<open>A provider whose root keys load.\<close>

definition crypto_provider_ready :: "'h file_object_crypto_provider \<Rightarrow> bool" where
  "crypto_provider_ready p \<longleftrightarrow> file_object_crypto_provider_valid p \<and>
     (\<exists>root. p_load_root p = Some (PICOKEYS_OK, root)) \<and>
     (p_load_public_root p = None \<or> (\<exists>root. p_load_public_root p = Some (PICOKEYS_OK, root)))"

text \<open>The MAC and the record encryption the provider computes.\<close>

definition crypto_mac ::
    "('h, 'g) mbedtls \<Rightarrow> (bytes \<Rightarrow> bytes \<Rightarrow> bytes) \<Rightarrow> 'h file_object_crypto_provider \<Rightarrow> bytes \<Rightarrow> bytes" where
  "crypto_mac lib hmac p data =
     take 16 (hmac (snd (file_object_crypto_derive_manifest_key lib p)) data)"

definition crypto_enc ::
    "('h, 'g) mbedtls \<Rightarrow> (bytes \<Rightarrow> bytes \<Rightarrow> bytes) \<Rightarrow>
     (bytes \<Rightarrow> bytes \<Rightarrow> bytes \<Rightarrow> bytes \<Rightarrow> bytes \<times> bytes) \<Rightarrow> 'h file_object_crypto_provider \<Rightarrow>
     file_object_record_identity \<Rightarrow> bytes \<Rightarrow> bytes \<Rightarrow> bytes \<Rightarrow> bytes \<times> bytes" where
  "crypto_enc lib hmac gcm p i nonce aad pt =
    (let key = snd (file_object_crypto_derive_record_key lib p i aad) in
     if id_protection i = 1 then (pt, take 16 (hmac key (aad @ nonce @ pt)))
     else gcm key nonce aad pt)"

locale crypto_provider = mbedtls_library lib keyed hmac gcm
  for lib :: "('h, 'g) mbedtls" and keyed and hmac and gcm +
  fixes prov :: "'h file_object_crypto_provider"
  assumes prov_ready: "crypto_provider_ready prov"
begin

lemma load_root_ok: "\<exists>root. file_object_crypto_load_root prov pub = (PICOKEYS_OK, root)"
  using prov_ready by (auto simp: crypto_provider_ready_def file_object_crypto_load_root_def Let_def)

lemma manifest_key_ok:
  "\<exists>key. file_object_crypto_derive_manifest_key lib prov = (PICOKEYS_OK, key) \<and> length key = 32"
proof -
  obtain root where r: "file_object_crypto_load_root prov True = (PICOKEYS_OK, root)"
    using load_root_ok by blast
  obtain okm where k: "mbedtls_hkdf lib [] root
      (put_uint16_be (p_namespace_id prov) @ file_object_crypto_manifest_label) 32 = (0, okm)"
    "length okm = 32" using hkdf_ok [of 32] by fastforce
  show ?thesis using k by (simp add: file_object_crypto_derive_manifest_key_def Let_def r)
qed

lemma record_key_ok:
  "\<exists>key. file_object_crypto_derive_record_key lib prov i aad = (PICOKEYS_OK, key) \<and> length key = 32"
proof -
  obtain root where r: "file_object_crypto_load_root prov (id_protection i = 1) = (PICOKEYS_OK, root)"
    using load_root_ok by blast
  obtain dk where d: "mbedtls_hkdf lib [] root
      (put_uint16_be (id_namespace_id i) @ [id_key_domain i] @ file_object_crypto_domain_label) 32 = (0, dk)"
    using hkdf_ok [of 32] by fastforce
  obtain okm where k: "mbedtls_hkdf lib [] dk (file_object_crypto_key_label @ aad) 32 = (0, okm)"
    "length okm = 32" using hkdf_ok [of 32] by fastforce
  show ?thesis using d k by (simp add: file_object_crypto_derive_record_key_def Let_def r)
qed

end

section \<open>The provider implements the container's interfaces\<close>

text \<open>A context of the authenticator: the provider up to the state of the running MAC.\<close>

definition same_config :: "'h file_object_crypto_provider \<Rightarrow> 'h file_object_crypto_provider \<Rightarrow> bool" where
  "same_config p q \<longleftrightarrow> p_namespace_id q = p_namespace_id p \<and> p_load_root q = p_load_root p \<and>
     p_load_public_root q = p_load_public_root p \<and> p_identity_valid q = p_identity_valid p \<and>
     p_initialized q = p_initialized p"

lemma same_config_valid:
  "same_config p q \<Longrightarrow> file_object_crypto_provider_valid q = file_object_crypto_provider_valid p"
  by (simp add: same_config_def file_object_crypto_provider_valid_def)

lemma same_config_manifest_key:
  "same_config p q \<Longrightarrow>
   file_object_crypto_derive_manifest_key lib q = file_object_crypto_derive_manifest_key lib p"
  by (simp add: same_config_def file_object_crypto_derive_manifest_key_def
      file_object_crypto_load_root_def)

lemma same_config_updates [simp]:
  "same_config p (q\<lparr>p_manifest_md := md\<rparr>) = same_config p q"
  "same_config p (q\<lparr>p_manifest_active := a\<rparr>) = same_config p q"
  "same_config p (file_object_crypto_auth_abort lib q) = same_config p q"
  by (simp_all add: same_config_def file_object_crypto_auth_abort_def)

definition crypto_auth_active ::
    "('h, 'g) mbedtls \<Rightarrow> ('h \<Rightarrow> bytes \<Rightarrow> bytes \<Rightarrow> bool) \<Rightarrow> 'h file_object_crypto_provider \<Rightarrow>
     'h file_object_crypto_provider \<Rightarrow> bytes \<Rightarrow> bool" where
  "crypto_auth_active lib keyed p q fed \<longleftrightarrow> same_config p q \<and> p_manifest_active q \<and>
     keyed (p_manifest_md q) (snd (file_object_crypto_derive_manifest_key lib p)) fed"

context crypto_provider
begin

lemma prov_valid: "file_object_crypto_provider_valid prov" "p_initialized prov"
  using prov_ready by (simp_all add: crypto_provider_ready_def file_object_crypto_provider_valid_def)

lemma auth_start_ready:
  assumes "same_config prov c"
  shows "\<exists>c'. file_object_crypto_auth_start lib c = (PICOKEYS_OK, c') \<and>
    crypto_auth_active lib keyed prov c' []"
proof -
  obtain key where k: "file_object_crypto_derive_manifest_key lib prov = (PICOKEYS_OK, key)"
    using manifest_key_ok by blast
  obtain m0 m1 where m: "mbedtls_md_setup lib (mbedtls_md_init lib) = (0, m0)"
    "mbedtls_md_hmac_starts lib m0 key = (0, m1)" "keyed m1 key []"
    using starts_ok by blast
  have a: "same_config prov (file_object_crypto_auth_abort lib c)"
    "p_manifest_md (file_object_crypto_auth_abort lib c) = mbedtls_md_init lib"
    using assms prov_valid(2) by (simp_all add: file_object_crypto_auth_abort_def same_config_def)
  show ?thesis
    unfolding file_object_crypto_auth_start_def Let_def
    using m a assms prov_valid
    by (simp add: same_config_valid same_config_manifest_key k crypto_auth_active_def)
qed

lemma auth_update_active:
  assumes "crypto_auth_active lib keyed prov c fed"
  shows "\<exists>c'. file_object_crypto_auth_update lib c data = (PICOKEYS_OK, c') \<and>
    crypto_auth_active lib keyed prov c' (fed @ data)"
proof -
  obtain md where "mbedtls_md_hmac_update lib (p_manifest_md c) data = (0, md)"
    "keyed md (snd (file_object_crypto_derive_manifest_key lib prov)) (fed @ data)"
    using assms update_ok unfolding crypto_auth_active_def by blast
  then show ?thesis
    using assms prov_valid(1)
    by (auto simp: file_object_crypto_auth_update_def crypto_auth_active_def same_config_valid)
qed

lemma auth_finish_active:
  assumes "crypto_auth_active lib keyed prov c fed"
  shows "\<exists>c'. file_object_crypto_auth_finish lib c = (PICOKEYS_OK, crypto_mac lib hmac prov fed, c') \<and>
    same_config prov c'"
proof -
  obtain md where "mbedtls_md_hmac_finish lib (p_manifest_md c) =
      (0, hmac (snd (file_object_crypto_derive_manifest_key lib prov)) fed, md)"
    using assms finish_ok unfolding crypto_auth_active_def by blast
  then show ?thesis
    using assms prov_valid(1)
    by (simp add: file_object_crypto_auth_finish_def crypto_auth_active_def
        same_config_valid [of prov c] crypto_mac_def)
qed

end

sublocale crypto_provider \<subseteq> manifests: mac_authenticator
  "crypto_manifest_authenticator lib" "same_config prov" "crypto_auth_active lib keyed prov"
  "crypto_mac lib hmac prov"
proof unfold_locales
  show "file_object_manifest_auth_valid (Some (crypto_manifest_authenticator lib))"
    by (simp add: file_object_manifest_auth_valid_def crypto_manifest_authenticator_def)
  show "length (crypto_mac lib hmac prov data) = 16" for data
    by (simp add: crypto_mac_def length_hmac)
qed (simp_all add: crypto_manifest_authenticator_def auth_start_ready auth_update_active
    auth_finish_active)

context crypto_provider
begin

lemma seal_buffer:
  assumes n: "length nonce = 12" and "file_object_crypto_identity_valid prov i nonce aad"
    and "crypto_enc lib hmac gcm prov i nonce aad pt = (st, tag)" and "length area = length pt"
  shows "file_object_crypto_record_seal lib prov i nonce aad pt
      (BYTE_BUFFER (Some area) (length pt)) =
    (PICOKEYS_OK, \<lparr>b_data = Some st, b_len = length pt, b_capacity = length pt\<rparr>, tag)"
proof -
  obtain key where k: "file_object_crypto_derive_record_key lib prov i aad = (PICOKEYS_OK, key)"
    "length key = 32" using record_key_ok by blast
  obtain g where g: "mbedtls_gcm_setkey lib key = (0, g)"
    "mbedtls_gcm_crypt_and_tag lib g nonce aad pt = (0, gcm key nonce aad pt)"
    using gcm_setkey_ok [OF k(2)] n by blast
  have whole: "buf_write 0 bs area = bs" if "length bs = length pt" for bs :: bytes
    using assms(4) that by (simp add: buf_write_def)
  show ?thesis
  proof (cases "id_protection i = 1")
    case True
    with assms k show ?thesis
      by (auto simp: file_object_crypto_record_seal_def BYTE_BUFFER_def hmac_record
          crypto_enc_def buffer_put_def whole)
  next
    case False
    then have "gcm key nonce aad pt = (st, tag)" using assms(3) k by (simp add: crypto_enc_def)
    with gcm_length [OF this] False assms k g show ?thesis
      by (auto simp: file_object_crypto_record_seal_def BYTE_BUFFER_def buffer_put_def whole)
  qed
qed

lemma unseal_buffer:
  assumes n: "length nonce = 12" and "file_object_crypto_identity_valid prov i nonce aad"
    and "crypto_enc lib hmac gcm prov i nonce aad pt = (st, tag)" and "length pt \<le> space"
    and "case area of None \<Rightarrow> space = 0 | Some a \<Rightarrow> length a = space"
  shows "file_object_crypto_record_unseal lib prov i nonce aad st tag (BYTE_BUFFER area space) =
    (PICOKEYS_OK, \<lparr>b_data = map_option (buf_write 0 pt) area, b_len = length pt, b_capacity = space\<rparr>)"
proof -
  obtain key where k: "file_object_crypto_derive_record_key lib prov i aad = (PICOKEYS_OK, key)"
    "length key = 32" using record_key_ok by blast
  obtain g where g: "mbedtls_gcm_setkey lib key = (0, g)"
    "\<And>tag ct pt. mbedtls_gcm_auth_decrypt lib g nonce aad tag ct = (0, pt) \<longleftrightarrow>
      gcm key nonce aad pt = (ct, tag)"
    using gcm_setkey_ok [OF k(2)] n by blast
  have nil: "map_option (buf_write 0 []) area = area"
    by (cases area) (simp_all add: buf_write_def)
  have b: "b_data (BYTE_BUFFER area space) = None \<longrightarrow> space = 0"
    using assms(5) by (auto simp: BYTE_BUFFER_def split: option.splits)
  show ?thesis
  proof (cases "id_protection i = 1")
    case True
    with assms k b nil show ?thesis
      by (auto simp: file_object_crypto_record_unseal_def BYTE_BUFFER_def hmac_record
          crypto_enc_def buffer_put_def file_object_crypto_tag_equal_def diff_bytes_0_iff)
  next
    case False
    then have e: "gcm key nonce aad pt = (st, tag)" using assms(3) k by (simp add: crypto_enc_def)
    then have "mbedtls_gcm_auth_decrypt lib g nonce aad tag st = (0, pt)" using g(2) by blast
    with gcm_length [OF e] False assms k g(1) b nil show ?thesis
      by (auto simp: file_object_crypto_record_unseal_def BYTE_BUFFER_def buffer_put_def)
  qed
qed

lemma unseal_only_sealed:
  assumes n: "length nonce = 12" and t: "length tag = 16"
    and ok: "file_object_crypto_record_unseal lib prov i nonce aad st tag buf = (PICOKEYS_OK, out)"
  shows "file_object_crypto_identity_valid prov i nonce aad \<and>
    (\<exists>pt. crypto_enc lib hmac gcm prov i nonce aad pt = (st, tag))"
proof -
  obtain key where k: "file_object_crypto_derive_record_key lib prov i aad = (PICOKEYS_OK, key)"
    "length key = 32" using record_key_ok by blast
  obtain g where g: "mbedtls_gcm_setkey lib key = (0, g)"
    "\<And>tag ct pt. mbedtls_gcm_auth_decrypt lib g nonce aad tag ct = (0, pt) \<longleftrightarrow>
      gcm key nonce aad pt = (ct, tag)"
    using gcm_setkey_ok [OF k(2)] n by blast
  have v: "file_object_crypto_identity_valid prov i nonce aad"
    using ok by (auto simp: file_object_crypto_record_unseal_def split: if_splits)
  show ?thesis
  proof (cases "id_protection i = 1")
    case True
    let ?c = "take 16 (hmac key (aad @ nonce @ st))"
    have "file_object_crypto_tag_equal ?c tag"
      using ok v k True
      by (auto simp: file_object_crypto_record_unseal_def hmac_record Let_def split: if_splits)
    then have "?c = tag"
      using t length_hmac [of key "aad @ nonce @ st"]
      by (simp add: file_object_crypto_tag_equal_def diff_bytes_take)
    then show ?thesis using v True k by (simp add: crypto_enc_def)
  next
    case False
    have "\<exists>pt. mbedtls_gcm_auth_decrypt lib g nonce aad tag st = (0, pt)"
      using ok v k False g(1)
      by (auto simp: file_object_crypto_record_unseal_def Let_def split: if_splits prod.splits)
    then show ?thesis using v False k g(2) by (simp add: crypto_enc_def)
  qed
qed

lemma enc_lengths:
  "crypto_enc lib hmac gcm prov i nonce aad pt = (st, tag) \<Longrightarrow> length st = length pt \<and> length tag = 16"
  using gcm_length length_hmac by (auto simp: crypto_enc_def Let_def split: if_splits)

end

sublocale crypto_provider \<subseteq> records: record_protector
  "crypto_record_protector lib prov" "file_object_crypto_identity_valid prov"
  "crypto_enc lib hmac gcm prov"
proof unfold_locales
  show "file_object_record_protector_valid (Some (crypto_record_protector lib prov))"
    by (simp add: file_object_record_protector_valid_def crypto_record_protector_def)
qed (use enc_lengths seal_buffer unseal_buffer unseal_only_sealed in
    \<open>simp_all add: crypto_record_protector_def\<close>)

text \<open>The container's lemmas, for this provider.\<close>

context crypto_provider
begin

lemmas crypto_manifest_length = manifests.manifest_bytes_reads(1)
lemmas crypto_manifest_build_ok = manifests.manifest_build_ok
lemmas crypto_manifest_parse_ok = manifests.manifest_parse_ok
lemmas crypto_manifest_parse_sound = manifests.manifest_parse_sound
lemmas crypto_length_record = records.length_record_bytes
lemmas crypto_record_seal_ok = records.record_seal_ok
lemmas crypto_record_unseal_ok = records.record_unseal_ok
lemmas crypto_record_unseal_sound = records.record_unseal_sound

end

text \<open>
  The identity the container builds passes the provider's checks when the namespace is the
  provider's and the application's own check accepts it.
\<close>

lemma crypto_accepts_iff:
  assumes "file_object_descriptor_core_valid (m_object m)" and "length ph = 16"
    and "file_object_crypto_provider_valid p"
  shows "accepted_by (file_object_crypto_identity_valid p) m ph \<longleftrightarrow>
    m_namespace_id m = p_namespace_id p \<and>
    (case p_identity_valid p of None \<Rightarrow> True | Some f \<Rightarrow> f (record_identity m ph))"
  using assms
  by (auto simp: accepted_by_def file_object_crypto_identity_valid_def record_aad_bytes_def
      record_identity_def record_nonce_def file_object_descriptor_core_valid_def nth_append slice_def
      split: if_splits option.splits)

section \<open>An instance\<close>

text \<open>
  A library with which the laws hold: key derivation pads, the HMAC is a prefix, AES-GCM leaves the
  bytes as they are and has a constant tag. It serves to show that the laws are consistent.
\<close>

definition plain_mbedtls :: "(bytes \<times> bytes, bytes) mbedtls" where
  "plain_mbedtls =
    \<lparr>mbedtls_md_init = ([], []),
     mbedtls_md_setup = (\<lambda>md. (0, md)),
     mbedtls_md_hmac_starts = (\<lambda>md key. (0, (key, []))),
     mbedtls_md_hmac_update = (\<lambda>md data. (0, (fst md, snd md @ data))),
     mbedtls_md_hmac_finish = (\<lambda>md. (0, take 32 (snd md @ replicate 32 0), ([], []))),
     mbedtls_hkdf = (\<lambda>salt ikm info n. (0, take n (ikm @ replicate n 0))),
     mbedtls_gcm_setkey = (\<lambda>key. (0, key)),
     mbedtls_gcm_crypt_and_tag = (\<lambda>g nonce aad pt. (0, pt, replicate 16 0)),
     mbedtls_gcm_auth_decrypt =
       (\<lambda>g nonce aad tag ct. if tag = replicate 16 0 then (0, ct) else (-18, []))\<rparr>"

definition plain_keyed :: "bytes \<times> bytes \<Rightarrow> bytes \<Rightarrow> bytes \<Rightarrow> bool" where
  "plain_keyed md key fed \<longleftrightarrow> md = (key, fed)"

definition plain_hmac :: "bytes \<Rightarrow> bytes \<Rightarrow> bytes" where
  "plain_hmac key data = take 32 (data @ replicate 32 0)"

definition plain_gcm :: "bytes \<Rightarrow> bytes \<Rightarrow> bytes \<Rightarrow> bytes \<Rightarrow> bytes \<times> bytes" where
  "plain_gcm key nonce aad pt = (pt, replicate 16 0)"

definition plain_provider :: "(bytes \<times> bytes) file_object_crypto_provider" where
  "plain_provider = \<lparr>p_namespace_id = 1, p_load_root = Some (PICOKEYS_OK, replicate 32 7),
     p_load_public_root = None, p_identity_valid = None, p_manifest_md = ([], []),
     p_manifest_active = False, p_initialized = True\<rparr>"

interpretation plain: crypto_provider plain_mbedtls plain_keyed plain_hmac plain_gcm plain_provider
  by unfold_locales
    (auto simp: plain_mbedtls_def plain_keyed_def plain_hmac_def plain_gcm_def plain_provider_def
      crypto_provider_ready_def file_object_crypto_provider_valid_def)

lemma plain_library: "mbedtls_library plain_mbedtls plain_keyed plain_hmac plain_gcm"
  by (rule plain.mbedtls_library_axioms)

lemma plain_ready: "crypto_provider_ready plain_provider"
  by (rule plain.prov_ready)

lemma crypto_providerI:
  "mbedtls_library lib keyed hmac gcm \<Longrightarrow> crypto_provider_ready prov \<Longrightarrow>
   crypto_provider lib keyed hmac gcm prov"
  by (simp add: crypto_provider_def crypto_provider_axioms_def)

lemma ready_accessors:
  assumes "crypto_provider_ready prov"
  shows "file_object_crypto_manifest_authenticator lib prov = Some (crypto_manifest_authenticator lib)"
    and "file_object_crypto_record_protector lib prov = Some (crypto_record_protector lib prov)"
    and "same_config prov prov"
  using assms by (simp_all add: crypto_provider_ready_def same_config_def
      file_object_crypto_manifest_authenticator_def file_object_crypto_record_protector_def)

section \<open>Properties\<close>

lemma slice_buf_write_same:
  "off + length bs \<le> length d \<Longrightarrow> slice off (length bs) (buf_write off bs d) = bs"
  by (rule slice_write_same) simp_all

text \<open>
  C20. A well-formed manifest is built by the provider's authenticator into any buffer with room for
  it, and parsing the bytes that were written gives the manifest back: every field and descriptor,
  with the sizes the builder computed.
\<close>

theorem manifest_roundtrip:
  assumes lib: "mbedtls_library lib keyed hmac gcm" and prov: "crypto_provider_ready prov"
    and wf: "manifest_well_formed m ext" and readable: "extensions_readable m ext supported"
    and b: "buffer_wf output" "b_data output = Some d"
    and room: "32 + unat (manifest_effective_count m) * 36 + length ext + 16
      \<le> b_capacity output - b_len output"
  shows "case file_object_manifest_build m (Some ext) (length ext)
      (file_object_crypto_manifest_authenticator lib prov) prov output of
    (r, output', prov') \<Rightarrow> r = PICOKEYS_OK \<and>
      fst (file_object_manifest_parse
        (Some (slice (b_len output) (b_len output' - b_len output) (the (b_data output'))))
        (file_object_crypto_manifest_authenticator lib prov) prov' supported) =
      Inr (manifest_written m ext)"
proof -
  note cp = crypto_providerI [OF lib prov]
  let ?mac = "crypto_mac lib hmac prov"
  have len: "length (manifest_bytes ?mac m ext) =
      32 + unat (manifest_effective_count m) * 36 + length ext + 16"
    by (rule crypto_provider.crypto_manifest_length [OF cp wf])
  obtain prov' where bo: "file_object_manifest_build m (Some ext) (length ext)
      (Some (crypto_manifest_authenticator lib)) prov output =
      (PICOKEYS_OK, output\<lparr>b_data := Some (buf_write (b_len output) (manifest_bytes ?mac m ext) d),
        b_len := b_len output + length (manifest_bytes ?mac m ext)\<rparr>, prov')" "same_config prov prov'"
    using crypto_provider.crypto_manifest_build_ok [OF cp wf ready_accessors(3) [OF prov] b] room len
    by auto
  obtain prov'' where po: "file_object_manifest_parse (Some (manifest_bytes ?mac m ext))
      (Some (crypto_manifest_authenticator lib)) prov' supported =
      (Inr (manifest_written m ext), prov'')"
    using crypto_provider.crypto_manifest_parse_ok [OF cp wf bo(2) readable] by auto
  have "slice (b_len output) (length (manifest_bytes ?mac m ext))
      (buf_write (b_len output) (manifest_bytes ?mac m ext) d) = manifest_bytes ?mac m ext"
    by (rule slice_buf_write_same) (use b room len in \<open>simp add: buffer_wf_def\<close>)
  then show ?thesis
    using bo(1) po by (simp add: ready_accessors(1) [OF prov])
qed

text \<open>
  C21. The parser accepts nothing else: when it returns a manifest, the bytes it was given are
  exactly the encoding of that manifest with its extension area, sealed with the provider's MAC over
  everything before the tag, and the manifest is well formed: at most eight descriptors, strictly
  ordered by type and tag, each valid and with its extensions inside the area.
\<close>

theorem manifest_parse_authentic:
  assumes lib: "mbedtls_library lib keyed hmac gcm" and prov: "crypto_provider_ready prov"
    and ok: "file_object_manifest_parse (Some data)
      (file_object_crypto_manifest_authenticator lib prov) prov supported = (Inr p, prov')"
  shows "\<exists>ext. data = manifest_bytes (crypto_mac lib hmac prov) p ext \<and>
    manifest_well_formed p ext \<and> p = manifest_written p ext"
  using crypto_provider.crypto_manifest_parse_sound [OF crypto_providerI [OF lib prov]
      ready_accessors(3) [OF prov]] ok
  by (auto simp: ready_accessors(1) [OF prov])

text \<open>
  C22. What is sealed can be unsealed: for an object described consistently and accepted by the
  provider, sealing appends the record to the caller's buffer, and unsealing that record appends the
  plaintext to the reader's.
\<close>

theorem record_seal_unseal:
  assumes lib: "mbedtls_library lib keyed hmac gcm" and prov: "crypto_provider_ready prov"
    and s: "sealable m (length pt)"
    and a: "accepted_by (file_object_crypto_identity_valid prov) m policy_hash"
    and b: "buffer_wf rec" "b_data rec = Some d" and room: "56 + length pt \<le> b_capacity rec - b_len rec"
    and o: "buffer_wf out" "length pt \<le> b_capacity out - b_len out"
  shows "case file_object_record_seal m (Some policy_hash)
      (file_object_crypto_record_protector lib prov) (Some pt) (length pt) rec of
    (r, rec') \<Rightarrow> r = PICOKEYS_OK \<and>
      file_object_record_unseal m (Some policy_hash) (file_object_crypto_record_protector lib prov)
        (Some (slice (b_len rec) (b_len rec' - b_len rec) (the (b_data rec')))) out =
      (PICOKEYS_OK, out\<lparr>b_data := map_option (buf_write (b_len out) pt) (b_data out),
         b_len := b_len out + length pt\<rparr>)"
proof -
  note cp = crypto_providerI [OF lib prov]
  let ?r = "record_bytes (crypto_enc lib hmac gcm prov) m policy_hash pt"
  have l: "length ?r = 56 + length pt"
    by (rule crypto_provider.crypto_length_record [OF cp])
  have "slice (b_len rec) (length ?r) (buf_write (b_len rec) ?r d) = ?r"
    by (rule slice_buf_write_same) (use b room l in \<open>simp add: buffer_wf_def\<close>)
  then show ?thesis
    using crypto_provider.crypto_record_seal_ok [OF cp s a b room]
      crypto_provider.crypto_record_unseal_ok [OF cp s a o] l
    by (simp add: ready_accessors(2) [OF prov])
qed

text \<open>
  C23. Unsealing succeeds only on a record sealed for this very object: when it returns a plaintext,
  the record is, byte for byte, the sealing of that plaintext under the identity (container, object,
  generation, policy, record number) of the manifest and the policy given.
\<close>

theorem record_unseal_authentic:
  assumes lib: "mbedtls_library lib keyed hmac gcm" and prov: "crypto_provider_ready prov"
    and ok: "file_object_record_unseal m (Some policy_hash)
      (file_object_crypto_record_protector lib prov) (Some rec) out = (PICOKEYS_OK, out')"
    and o: "buffer_wf out"
  shows "\<exists>pt. rec = record_bytes (crypto_enc lib hmac gcm prov) m policy_hash pt \<and>
    sealable m (length pt) \<and> accepted_by (file_object_crypto_identity_valid prov) m policy_hash \<and>
    out' = out\<lparr>b_data := map_option (buf_write (b_len out) pt) (b_data out),
      b_len := b_len out + length pt\<rparr>"
  using crypto_provider.crypto_record_unseal_sound [OF crypto_providerI [OF lib prov] _ o] ok
  by (simp add: ready_accessors(2) [OF prov])

section \<open>Witnesses\<close>

definition sample_object :: file_object_descriptor where
  "sample_object = zero_descriptor\<lparr>d_object_type := 1, d_generation := 1, d_logical_size := 3,
     d_record_id := 5, d_stored_size := 3, d_protection := 2\<rparr>"

definition sample_manifest :: file_object_manifest where
  "sample_manifest = \<lparr>m_flags = 0, m_namespace_id = 1, m_container_kind = 2, m_container_id = 9,
     m_generation = 2, m_previous_generation = 1, m_extension_offset = 0, m_extension_size = 0,
     m_total_size = 0, m_object_count = 1, m_has_object = True,
     m_objects = sample_object # replicate 7 zero_descriptor\<rparr>"

definition sample_buffer :: byte_buffer where
  "sample_buffer = BYTE_BUFFER (Some (replicate 200 0)) 200"

lemma sample_buffer_wf:
  "buffer_wf sample_buffer" "b_data sample_buffer = Some (replicate 200 0)"
  "b_len sample_buffer = 0" "b_capacity sample_buffer = 200"
  by (simp_all add: sample_buffer_def BYTE_BUFFER_def buffer_wf_def)

lemma sample_readable: "extensions_readable sample_manifest [] supported"
  by (simp add: extensions_readable_def sample_manifest_def manifest_effective_count_def
      file_object_extensions_validate_def sample_object_def zero_descriptor_def)

lemma sample_object_valid: "file_object_descriptor_core_valid sample_object"
  by (simp add: file_object_descriptor_core_valid_def sample_object_def zero_descriptor_def)

lemma sample_well_formed: "manifest_well_formed sample_manifest []"
proof -
  have c: "manifest_effective_count sample_manifest = 1"
    by (simp add: manifest_effective_count_def sample_manifest_def)
  have "file_object_descriptors_valid (m_objects sample_manifest) 1 (of_nat (32 + 36)) (of_nat (32 + 36 + 0))"
    using sample_object_valid
    by (simp add: file_object_descriptors_valid_def sample_manifest_def
        file_object_descriptor_valid_def) (simp add: sample_object_def zero_descriptor_def)
  then show ?thesis
    using sample_readable
    by (simp add: manifest_well_formed_def c) (simp add: sample_manifest_def)
qed

lemma sample_sealable: "sealable sample_manifest (length ([1, 2, 3] :: bytes))"
  using sample_object_valid
  by (simp add: sealable_def sample_manifest_def) (simp add: sample_object_def zero_descriptor_def)

lemma sample_accepted:
  "accepted_by (file_object_crypto_identity_valid plain_provider) sample_manifest (replicate 16 4)"
  using sample_object_valid plain_ready
  by (subst crypto_accepts_iff) (simp_all add: sample_manifest_def plain_provider_def
      crypto_provider_ready_def)

theorem manifest_roundtrip_witness:
  "case file_object_manifest_build sample_manifest (Some []) (length ([] :: bytes))
      (file_object_crypto_manifest_authenticator plain_mbedtls plain_provider) plain_provider
      sample_buffer of
    (r, output', prov') \<Rightarrow> r = PICOKEYS_OK \<and>
      fst (file_object_manifest_parse
        (Some (slice (b_len sample_buffer) (b_len output' - b_len sample_buffer)
          (the (b_data output'))))
        (file_object_crypto_manifest_authenticator plain_mbedtls plain_provider) prov' None) =
      Inr (manifest_written sample_manifest [])"
  by (rule manifest_roundtrip [OF plain_library plain_ready sample_well_formed sample_readable
        sample_buffer_wf(1,2)])
    (simp add: sample_buffer_wf manifest_effective_count_def sample_manifest_def)

theorem manifest_parse_authentic_witness:
  "\<exists>data p prov' ext. file_object_manifest_parse (Some data)
      (file_object_crypto_manifest_authenticator plain_mbedtls plain_provider) plain_provider None =
      (Inr p, prov') \<and> data = manifest_bytes (crypto_mac plain_mbedtls plain_hmac plain_provider) p ext"
proof -
  have "\<exists>prov'. file_object_manifest_parse
      (Some (manifest_bytes (crypto_mac plain_mbedtls plain_hmac plain_provider) sample_manifest []))
      (file_object_crypto_manifest_authenticator plain_mbedtls plain_provider) plain_provider None =
      (Inr (manifest_written sample_manifest []), prov')"
    using plain.crypto_manifest_parse_ok [OF sample_well_formed ready_accessors(3) [OF plain_ready]
        sample_readable [of None]] by (auto simp: ready_accessors(1) [OF plain_ready])
  then show ?thesis
    using manifest_parse_authentic [OF plain_library plain_ready] by blast
qed

theorem record_seal_unseal_witness:
  "case file_object_record_seal sample_manifest (Some (replicate 16 4))
      (file_object_crypto_record_protector plain_mbedtls plain_provider) (Some [1, 2, 3])
      (length ([1, 2, 3] :: bytes)) sample_buffer of
    (r, rec') \<Rightarrow> r = PICOKEYS_OK \<and>
      file_object_record_unseal sample_manifest (Some (replicate 16 4))
        (file_object_crypto_record_protector plain_mbedtls plain_provider)
        (Some (slice (b_len sample_buffer) (b_len rec' - b_len sample_buffer) (the (b_data rec'))))
        sample_buffer =
      (PICOKEYS_OK, sample_buffer\<lparr>b_data :=
         map_option (buf_write (b_len sample_buffer) [1, 2, 3]) (b_data sample_buffer),
         b_len := b_len sample_buffer + length ([1, 2, 3] :: bytes)\<rparr>)"
  by (rule record_seal_unseal [OF plain_library plain_ready sample_sealable sample_accepted
        sample_buffer_wf(1,2) _ sample_buffer_wf(1)]) (simp_all add: sample_buffer_wf)

theorem record_unseal_authentic_witness:
  "\<exists>rec out' pt. file_object_record_unseal sample_manifest (Some (replicate 16 4))
      (file_object_crypto_record_protector plain_mbedtls plain_provider) (Some rec) sample_buffer =
      (PICOKEYS_OK, out') \<and>
    rec = record_bytes (crypto_enc plain_mbedtls plain_hmac plain_gcm plain_provider)
      sample_manifest (replicate 16 4) pt"
proof -
  have "\<exists>out'. file_object_record_unseal sample_manifest (Some (replicate 16 4))
      (file_object_crypto_record_protector plain_mbedtls plain_provider)
      (Some (record_bytes (crypto_enc plain_mbedtls plain_hmac plain_gcm plain_provider)
        sample_manifest (replicate 16 4) [1, 2, 3])) sample_buffer = (PICOKEYS_OK, out')"
    using plain.crypto_record_unseal_ok [OF sample_sealable sample_accepted sample_buffer_wf(1)]
    by (simp add: sample_buffer_wf ready_accessors(2) [OF plain_ready])
  then show ?thesis
    using record_unseal_authentic [OF plain_library plain_ready _ sample_buffer_wf(1)] by blast
qed

text \<open>
  C24. The additional data binds a record to its place: two identities (with policy hashes of the
  right size) that give the same additional data are equal in every field, so a record cannot be
  moved to another container, object, generation or policy unnoticed.
\<close>

theorem record_aad_binds_identity:
  assumes "length (id_policy_hash i) = FILE_OBJECT_POLICY_HASH_SIZE"
    and "length (id_policy_hash j) = FILE_OBJECT_POLICY_HASH_SIZE"
    and "record_aad_bytes i = record_aad_bytes j"
  shows "i = j"
  using assms by (rule record_aad_bytes_inject)

theorem record_aad_binds_identity_witness:
  "record_identity sample_manifest (replicate 16 4) = record_identity sample_manifest (replicate 17 4)"
  by (rule record_aad_binds_identity) (simp_all add: record_identity_def eval_nat_numeral)

text \<open>
  C25. The frame of a record is canonical: the parser accepts a record for a descriptor exactly when
  the descriptor is valid, the record has the size the descriptor says, and its first forty bytes are
  the header the builder writes for that descriptor.
\<close>

theorem record_header_parse_exact:
  "(\<exists>info. file_object_record_header_parse (Some rec) d = Inr info) \<longleftrightarrow>
     length rec = 56 + unat (d_stored_size d) \<and> length rec \<le> SIZE_MAX \<and>
     file_object_record_header_build d = Inr (take 40 rec)"
  using header_parse_iff [of rec d] by (auto simp: header_build_eq)

text \<open>
  C26. An unsealing that fails (a forged tag, a record of another object, a provider error) leaves the
  length of the caller's buffer and what it held, and the bytes the plaintext would have taken are
  zero: no unauthenticated plaintext is left behind, whatever the protector wrote there.
\<close>

theorem unseal_failure_clears:
  assumes "file_object_record_unseal m (Some ph) (Some p) (Some rec) out = (r, out')"
    and "r \<noteq> PICOKEYS_OK" and "r \<noteq> PICOKEYS_ERR_NULL_PARAM"
    and "b_data out = Some d" and "buffer_wf out"
    and "unat (d_logical_size (m_object m)) \<le> b_capacity out - b_len out"
    and "d_logical_size (m_object m) = d_stored_size (m_object m)" and "m_has_object m"
  shows "b_len out' = b_len out \<and>
    slice (b_len out) (unat (d_logical_size (m_object m))) (the (b_data out')) =
      replicate (unat (d_logical_size (m_object m))) 0 \<and>
    take (b_len out) (the (b_data out')) = take (b_len out) d"
  using assms by (rule unseal_failure_clears_lemma)

theorem unseal_failure_clears_witness:
  "\<exists>out'. file_object_record_unseal sample_manifest (Some (replicate 16 4))
      (Some (crypto_record_protector plain_mbedtls plain_provider)) (Some []) sample_buffer =
      (PICOKEYS_WRONG_LENGTH, out') \<and> slice 0 3 (the (b_data out')) = replicate 3 0"
proof -
  let ?u = "file_object_record_unseal sample_manifest (Some (replicate 16 4))
      (Some (crypto_record_protector plain_mbedtls plain_provider)) (Some []) sample_buffer"
  have s: "m_object sample_manifest = sample_object" "m_has_object sample_manifest"
    "d_logical_size sample_object = 3" "d_stored_size sample_object = 3"
    by (simp_all add: sample_manifest_def sample_object_def)
  have "fst ?u = PICOKEYS_WRONG_LENGTH"
    using plain.records.provided sample_object_valid
    by (simp add: file_object_record_unseal_def s sample_buffer_wf record_unseal_parts_def
        file_object_record_header_parse_def Let_def)
  then obtain out' where u: "?u = (PICOKEYS_WRONG_LENGTH, out')" by (metis prod.collapse)
  have "slice (b_len sample_buffer) (unat (d_logical_size (m_object sample_manifest)))
      (the (b_data out')) = replicate (unat (d_logical_size (m_object sample_manifest))) 0"
    using unseal_failure_clears [OF u _ _ sample_buffer_wf(2,1)] by (simp add: s sample_buffer_wf)
  then show ?thesis using u by (simp add: s sample_buffer_wf)
qed

end
