(* ===== verification/Low_Flash.thy ===== *)
theory Low_Flash
  imports Prelude
begin

text \<open>
  The flash sector cache of \<open>fs/low_flash.c\<close> (ESP32 build): six dirty sectors in RAM, written
  back by the task of the other core. Reads see the cache; \<open>low_flash_commit_sync\<close> waits until
  the task has written every dirty sector back. The model keeps the memory-mapped partition, the six
  slots and the flags; how often the other core's task runs while a caller waits is an input, and so
  is the partition driver, whose results the code ignores. The lemmas show that programming and
  reading behave as one flat memory, that a successful commit makes durable every sector whose
  driver calls succeed, and that a commit reports success when they fail, too.
\<close>

abbreviation (input) FLASH_SECTOR_SIZE :: nat where "FLASH_SECTOR_SIZE \<equiv> 4096"
abbreviation (input) TOTAL_FLASH_PAGES :: nat where "TOTAL_FLASH_PAGES \<equiv> 6"

record page_flash =
  pg_page :: bytes
  pg_address :: nat
  pg_ready :: bool
  pg_erase :: bool
  pg_page_size :: nat

text \<open>
  \<open>partition\<close> is the ESP-IDF partition driver: each call takes the contents of the partition and
  gives its result (\<open>ESP_OK\<close> or not) and the new contents. \<open>fl_map\<close> is the partition as it is
  mapped, \<open>fl_ram\<close> what a raw address holds; the code chooses the first inside the data and
  permanent pools.
\<close>

record partition =
  esp_partition_erase_range :: "nat \<Rightarrow> nat \<Rightarrow> (nat \<Rightarrow> u8) \<Rightarrow> bool \<times> (nat \<Rightarrow> u8)"
  esp_partition_write :: "nat \<Rightarrow> bytes \<Rightarrow> (nat \<Rightarrow> u8) \<Rightarrow> bool \<times> (nat \<Rightarrow> u8)"

record flash =
  fl_driver :: partition
  fl_map :: "nat \<Rightarrow> u8"
  fl_ram :: "nat \<Rightarrow> u8"
  fl_pages :: "page_flash list"
  fl_ready_pages :: nat
  fl_available :: bool
  fl_locked_out :: bool
  fl_start_data_pool :: nat
  fl_end_rom_pool :: nat

definition sector_of :: "nat \<Rightarrow> nat" where
  "sector_of addr = addr - addr mod FLASH_SECTOR_SIZE"

definition in_pool :: "flash \<Rightarrow> nat \<Rightarrow> bool" where
  "in_pool s addr \<longleftrightarrow> fl_start_data_pool s \<le> addr \<and> addr \<le> fl_end_rom_pool s + 4"

definition source_bytes :: "flash \<Rightarrow> nat \<Rightarrow> nat \<Rightarrow> nat \<Rightarrow> bytes" where
  "source_bytes s addr from n =
     map (if in_pool s addr then fl_map s else fl_ram s) [from..<from + n]"

definition map_write :: "nat \<Rightarrow> bytes \<Rightarrow> (nat \<Rightarrow> u8) \<Rightarrow> nat \<Rightarrow> u8" where
  "map_write addr bs m = (\<lambda>a. if addr \<le> a \<and> a < addr + length bs then bs ! (a - addr) else m a)"

section \<open>The task of the other core\<close>

definition erase_length :: "page_flash \<Rightarrow> nat" where
  "erase_length p = (if pg_page_size p \<noteq> 0
     then (pg_page_size p div FLASH_SECTOR_SIZE) * FLASH_SECTOR_SIZE else FLASH_SECTOR_SIZE)"

text \<open>
  One slot: a dirty sector is erased and programmed, a pending erase is carried out. The slot is
  clean afterwards whatever the driver answered.
\<close>

definition task_page :: "partition \<Rightarrow> page_flash \<Rightarrow> (nat \<Rightarrow> u8) \<times> nat \<Rightarrow> page_flash \<times> (nat \<Rightarrow> u8) \<times> nat" where
  "task_page d p st = (case st of (m, n) \<Rightarrow>
     if pg_ready p then
       (let (_, m) = esp_partition_erase_range d (pg_address p) FLASH_SECTOR_SIZE m;
            (_, m) = esp_partition_write d (pg_address p) (pg_page p) m
        in (p\<lparr>pg_ready := False\<rparr>, m, n - 1))
     else if pg_erase p then
       (let (_, m) = esp_partition_erase_range d (pg_address p) (erase_length p) m
        in (p\<lparr>pg_erase := False\<rparr>, m, n - 1))
     else (p, m, n))"

fun task_pages ::
    "partition \<Rightarrow> page_flash list \<Rightarrow> (nat \<Rightarrow> u8) \<times> nat \<Rightarrow> page_flash list \<times> (nat \<Rightarrow> u8) \<times> nat" where
  "task_pages d [] st = ([], st)"
| "task_pages d (p # ps) st =
    (case task_page d p st of (p', st') \<Rightarrow>
      (case task_pages d ps st' of (ps', st'') \<Rightarrow> (p' # ps', st'')))"

definition low_flash_task :: "flash \<Rightarrow> flash" where
  "low_flash_task s =
    (let s = (if fl_locked_out s \<and> fl_available s \<and> fl_ready_pages s > 0 then
         (case task_pages (fl_driver s) (fl_pages s) (fl_map s, fl_ready_pages s) of (ps, m, n) \<Rightarrow>
           s\<lparr>fl_pages := ps, fl_map := m, fl_ready_pages := n\<rparr>)
       else s) in
     if fl_ready_pages s = 0 then s\<lparr>fl_available := False\<rparr> else s)"

definition low_flash_init_core1 :: "flash \<Rightarrow> flash" where
  "low_flash_init_core1 s = s\<lparr>fl_locked_out := True\<rparr>"

definition low_flash_commit :: "flash \<Rightarrow> flash" where
  "low_flash_commit s = s\<lparr>fl_available := True\<rparr>"

text \<open>
  The wait of \<open>low_flash_commit_sync\<close>: the task runs \<open>runs\<close> times before the time is up;
  when the flag is still set then, the wait fails.
\<close>

fun commit_wait :: "nat \<Rightarrow> flash \<Rightarrow> bool \<times> flash" where
  "commit_wait runs s =
    (if \<not> fl_available s then (True, s)
     else (case runs of 0 \<Rightarrow> (False, s) | Suc n \<Rightarrow> commit_wait n (low_flash_task s)))"

declare commit_wait.simps [simp del]

definition low_flash_commit_sync :: "nat \<Rightarrow> flash \<Rightarrow> bool \<times> flash" where
  "low_flash_commit_sync runs s = commit_wait runs (low_flash_commit s)"

section \<open>Programming and reading\<close>

definition find_free_page :: "nat \<Rightarrow> flash \<Rightarrow> nat option \<times> flash" where
  "find_free_page addr s =
    (let addr_alg = sector_of addr in
     case first_index (\<lambda>p. (pg_ready p \<or> pg_erase p) \<and> pg_address p = addr_alg) (fl_pages s) of
       Some r \<Rightarrow>
         (let p = fl_pages s ! r in
          (Some r, if pg_erase p
             then s\<lparr>fl_pages := (fl_pages s)[r := p\<lparr>pg_erase := False, pg_ready := True,
               pg_page_size := 0\<rparr>]\<rparr>
             else s))
     | None \<Rightarrow>
        (case first_index (\<lambda>p. \<not> pg_ready p \<and> \<not> pg_erase p) (fl_pages s) of
           Some r \<Rightarrow>
             (Some r, s\<lparr>fl_pages := (fl_pages s)[r :=
                 \<lparr>pg_page = source_bytes s addr addr_alg FLASH_SECTOR_SIZE, pg_address = addr_alg,
                  pg_ready = True, pg_erase = False, pg_page_size = 0\<rparr>],
               fl_ready_pages := fl_ready_pages s + 1\<rparr>)
         | None \<Rightarrow> (None, s)))"

text \<open>
  The loop of \<open>flash_program_block\<close>. \<open>waits\<close> lists, for each wait for a free slot, how
  often the task runs during it; when the list is used up no task runs any more.
\<close>

function program_loop :: "nat list \<Rightarrow> nat \<Rightarrow> bytes \<Rightarrow> flash \<Rightarrow> status \<times> nat list \<times> flash" where
  "program_loop waits addr data s =
    (if length data > 0 then
      (let page_offset = addr mod FLASH_SECTOR_SIZE;
           chunk = min (length data) (FLASH_SECTOR_SIZE - page_offset) in
       case find_free_page addr s of
         (Some r, s1) \<Rightarrow>
           (let p = fl_pages s1 ! r in
            program_loop waits (addr + chunk) (drop chunk data)
              (s1\<lparr>fl_pages := (fl_pages s1)[r :=
                 p\<lparr>pg_page := buf_write page_offset (take chunk data) (pg_page p)\<rparr>]\<rparr>))
       | (None, s1) \<Rightarrow>
           (case waits of
              [] \<Rightarrow> (case low_flash_commit_sync 0 s1 of
                  (_, s2) \<Rightarrow> (PICOKEYS_ERR_NO_MEMORY, [], s2))
            | runs # waits' \<Rightarrow>
                (case low_flash_commit_sync runs s1 of
                   (False, s2) \<Rightarrow> (PICOKEYS_ERR_NO_MEMORY, waits', s2)
                 | (True, s2) \<Rightarrow> program_loop waits' addr data s2)))
     else (PICOKEYS_OK, waits, s))"
  by pat_completeness auto
termination
  by (relation "measure (\<lambda>(waits, addr, data, s). length data + length waits)")
    (auto simp: min_def)

declare program_loop.simps [simp del]

definition flash_program_block ::
    "nat list \<Rightarrow> nat \<Rightarrow> bytes option \<Rightarrow> flash \<Rightarrow> status \<times> nat list \<times> flash" where
  "flash_program_block waits addr data s =
    (case data of None \<Rightarrow> (PICOKEYS_ERR_NULL_PARAM, waits, s)
     | Some bs \<Rightarrow> if length bs = 0 then (PICOKEYS_ERR_NULL_PARAM, waits, s)
         else program_loop waits addr bs s)"

text \<open>The integers are little endian in memory.\<close>

definition le_bytes16 :: "u16 \<Rightarrow> bytes" where "le_bytes16 v = rev (put_uint16_be v)"
definition le_bytes32 :: "u32 \<Rightarrow> bytes" where "le_bytes32 v = rev (put_uint32_be v)"

definition flash_program_halfword :: "nat list \<Rightarrow> nat \<Rightarrow> u16 \<Rightarrow> flash \<Rightarrow> status \<times> nat list \<times> flash" where
  "flash_program_halfword waits addr v = flash_program_block waits addr (Some (le_bytes16 v))"

definition flash_program_word :: "nat list \<Rightarrow> nat \<Rightarrow> u32 \<Rightarrow> flash \<Rightarrow> status \<times> nat list \<times> flash" where
  "flash_program_word waits addr v = flash_program_block waits addr (Some (le_bytes32 v))"

definition flash_program_uintptr :: "nat list \<Rightarrow> nat \<Rightarrow> u32 \<Rightarrow> flash \<Rightarrow> status \<times> nat list \<times> flash" where
  "flash_program_uintptr waits addr v = flash_program_block waits addr (Some (le_bytes32 v))"

definition flash_read :: "flash \<Rightarrow> nat \<Rightarrow> u8" where
  "flash_read s addr =
    (case (if fl_ready_pages s > 0
         then first_index (\<lambda>p. pg_ready p \<and> pg_address p = sector_of addr) (fl_pages s) else None) of
       Some r \<Rightarrow> pg_page (fl_pages s ! r) ! (addr mod FLASH_SECTOR_SIZE)
     | None \<Rightarrow> if in_pool s addr then fl_map s addr else fl_ram s addr)"

function read_loop :: "flash \<Rightarrow> nat \<Rightarrow> nat \<Rightarrow> bytes" where
  "read_loop s addr n =
    (if n > 0 then
      (let page_offset = addr mod FLASH_SECTOR_SIZE;
           chunk = min n (FLASH_SECTOR_SIZE - page_offset);
           bytes = (case first_index (\<lambda>p. pg_ready p \<and> pg_address p = sector_of addr) (fl_pages s) of
             Some r \<Rightarrow> slice page_offset chunk (pg_page (fl_pages s ! r))
           | None \<Rightarrow> source_bytes s addr addr chunk) in
       bytes @ read_loop s (addr + chunk) (n - chunk))
     else [])"
  by auto
termination
  by (relation "measure (\<lambda>(s, addr, n). n)") (auto simp: min_def)

declare read_loop.simps [simp del]

definition flash_read_block :: "flash \<Rightarrow> nat \<Rightarrow> nat \<Rightarrow> status + bytes" where
  "flash_read_block s addr n =
    (if n = 0 then Inl PICOKEYS_ERR_NULL_PARAM else Inr (read_loop s addr n))"

definition flash_read_uint16 :: "flash \<Rightarrow> nat \<Rightarrow> u16" where
  "flash_read_uint16 s addr =
    (let p = read_loop s addr 2 in ucast (p ! 0) OR push_bit 8 (ucast (p ! 1)))"

definition flash_read_uint32 :: "flash \<Rightarrow> nat \<Rightarrow> u32" where
  "flash_read_uint32 s addr =
    (let p = read_loop s addr 4 in ucast (p ! 0) OR push_bit 8 (ucast (p ! 1)) OR
       push_bit 16 (ucast (p ! 2)) OR push_bit 24 (ucast (p ! 3)))"

definition flash_read_uintptr :: "flash \<Rightarrow> nat \<Rightarrow> u32" where
  "flash_read_uintptr s addr =
    (let p = read_loop s addr 4 in ucast (p ! 0) OR push_bit 8 (ucast (p ! 1)) OR
       push_bit 16 (ucast (p ! 2)) OR push_bit 24 (ucast (p ! 3)))"

definition flash_read_uint8 :: "flash \<Rightarrow> nat \<Rightarrow> u8" where
  "flash_read_uint8 s addr = flash_read s addr"

definition flash_erase_page :: "nat \<Rightarrow> nat \<Rightarrow> flash \<Rightarrow> status \<times> flash" where
  "flash_erase_page addr page_size s =
    (if fl_ready_pages s = TOTAL_FLASH_PAGES then (PICOKEYS_ERR_NO_MEMORY, s)
     else (case find_free_page addr s of
       (None, s1) \<Rightarrow> (PICOKEYS_ERR_MEMORY_FATAL, s1)
     | (Some r, s1) \<Rightarrow> (PICOKEYS_OK,
         s1\<lparr>fl_pages := (fl_pages s1)[r := (fl_pages s1 ! r)\<lparr>pg_erase := True, pg_ready := False,
           pg_page_size := page_size\<rparr>]\<rparr>)))"

definition flash_check_blank :: "bytes \<Rightarrow> bool" where
  "flash_check_blank data = list_all (\<lambda>b. b = 0xff) data"


section \<open>The cache as one memory\<close>

definition holds :: "nat \<Rightarrow> page_flash \<Rightarrow> bool" where
  "holds a p \<longleftrightarrow> pg_ready p \<and> pg_address p = sector_of a"

definition view :: "flash \<Rightarrow> nat \<Rightarrow> u8" where
  "view s a = (case find (holds a) (fl_pages s) of
     Some p \<Rightarrow> pg_page p ! (a mod FLASH_SECTOR_SIZE)
   | None \<Rightarrow> if in_pool s a then fl_map s a else fl_ram s a)"

definition pages_wf :: "page_flash list \<Rightarrow> bool" where
  "pages_wf ps \<longleftrightarrow>
     (\<forall>p\<in>set ps. \<not> pg_erase p \<and>
        (pg_ready p \<longrightarrow> length (pg_page p) = FLASH_SECTOR_SIZE \<and> pg_address p mod FLASH_SECTOR_SIZE = 0)) \<and>
     distinct (map pg_address (filter pg_ready ps))"

text \<open>The invariant of the cache: no erase is pending, sectors are cached once, and the count is right.\<close>

definition cache_wf :: "flash \<Rightarrow> bool" where
  "cache_wf s \<longleftrightarrow> length (fl_pages s) = TOTAL_FLASH_PAGES \<and> pages_wf (fl_pages s) \<and>
     fl_ready_pages s = length (filter pg_ready (fl_pages s))"

text \<open>
  What ESP-IDF documents of the driver: a call touches nothing outside its range, a successful erase
  leaves 0xff there, and a successful write into an erased range leaves the bytes written.
\<close>

definition partition_law :: "partition \<Rightarrow> bool" where
  "partition_law d \<longleftrightarrow>
     (\<forall>a n m x. x < a \<or> a + n \<le> x \<longrightarrow> snd (esp_partition_erase_range d a n m) x = m x) \<and>
     (\<forall>a bs m x. x < a \<or> a + length bs \<le> x \<longrightarrow> snd (esp_partition_write d a bs m) x = m x) \<and>
     (\<forall>a n m i. fst (esp_partition_erase_range d a n m) \<longrightarrow> i < n \<longrightarrow>
        snd (esp_partition_erase_range d a n m) (a + i) = 0xff) \<and>
     (\<forall>a bs m i. fst (esp_partition_write d a bs m) \<longrightarrow> (\<forall>j<length bs. m (a + j) = 0xff) \<longrightarrow> i < length bs \<longrightarrow>
        snd (esp_partition_write d a bs m) (a + i) = bs ! i)"

text \<open>The driver's calls for the sector at an address succeed; \<open>works\<close>: all its calls do.\<close>

definition saves :: "partition \<Rightarrow> nat \<Rightarrow> bool" where
  "saves d a \<longleftrightarrow> (\<forall>n m. fst (esp_partition_erase_range d a n m)) \<and> (\<forall>bs m. fst (esp_partition_write d a bs m))"

definition works :: "partition \<Rightarrow> bool" where
  "works d \<longleftrightarrow> partition_law d \<and> (\<forall>a. saves d a)"

definition flash_wf :: "flash \<Rightarrow> bool" where
  "flash_wf s \<longleftrightarrow> cache_wf s \<and> works (fl_driver s)"

lemmas flash_wf_defs = flash_wf_def cache_wf_def

lemma find_first_index: "find P xs = map_option ((!) xs) (first_index P xs)"
  by (induction xs) (auto simp: option.map_comp comp_def)

lemma sector_of_less: "sector_of a \<le> a" "a < sector_of a + 4096" "sector_of a mod 4096 = 0"
  by (simp_all add: sector_of_def minus_mod_eq_mult_div)

lemma sector_of_eq_iff:
  assumes "s mod 4096 = 0" shows "sector_of a = s \<longleftrightarrow> s \<le> a \<and> a < s + 4096"
proof -
  obtain k where k: "s = 4096 * k" using assms by (metis mod_0_imp_dvd dvdE)
  show ?thesis
    unfolding k sector_of_def minus_mod_eq_mult_div by (auto simp: div_nat_eqI)
qed

lemma mod_sector: "a mod 4096 = a - sector_of a"
  by (simp add: sector_of_def)

lemma distinct_holds_unique:
  assumes "distinct (map pg_address (filter pg_ready ps))" "i < length ps" "holds a (ps ! i)"
  shows "find (holds a) ps = Some (ps ! i)"
  using assms
proof (induction ps arbitrary: i)
  case (Cons p ps)
  show ?case
  proof (cases i)
    case 0 with Cons.prems show ?thesis by simp
  next
    case (Suc j)
    then have "ps ! j \<in> set (filter pg_ready ps)" "holds a (ps ! j)"
      using Cons.prems by (auto simp: holds_def)
    then have "\<not> holds a p"
      using Cons.prems(1) by (force simp: holds_def split: if_splits)
    then show ?thesis using Suc Cons by (auto split: if_splits)
  qed
qed simp

lemma length_filter_update:
  "r < length xs \<Longrightarrow> \<not> P (xs ! r) \<Longrightarrow> P x \<Longrightarrow>
   length (filter P (xs[r := x])) = Suc (length (filter P xs))"
proof (induction xs arbitrary: r)
  case (Cons y ys)
  then show ?case by (cases r) auto
qed simp

lemma filter_update_same:
  "r < length xs \<Longrightarrow> P (xs ! r) \<Longrightarrow> P x \<Longrightarrow> f x = f (xs ! r) \<Longrightarrow>
   map f (filter P (xs[r := x])) = map f (filter P xs)"
proof (induction xs arbitrary: r)
  case (Cons y ys)
  then show ?case by (cases r) auto
qed simp

lemma distinct_filter_insert:
  "r < length xs \<Longrightarrow> \<not> P (xs ! r) \<Longrightarrow> P x \<Longrightarrow> f x \<notin> f ` set (filter P xs) \<Longrightarrow>
   distinct (map f (filter P xs)) \<Longrightarrow> distinct (map f (filter P (xs[r := x])))"
proof (induction xs arbitrary: r)
  case (Cons y ys)
  show ?case
  proof (cases r)
    case (Suc j)
    have "set (filter P (ys[j := x])) \<subseteq> insert x (set (filter P ys))"
      using set_update_subset_insert [of ys j x] by auto
    then show ?thesis using Suc Cons by (auto split: if_splits)
  qed (use Cons in auto)
qed simp

lemma filter_first: "first_index P xs = Some r \<Longrightarrow> r < length xs \<and> P (xs ! r)"
  by (simp add: first_index_Some)

lemma find_update:
  assumes "r < length ps" "distinct (map pg_address (filter pg_ready (ps[r := p])))" "pg_ready p"
    and "\<not> pg_ready (ps ! r) \<or> pg_address (ps ! r) = pg_address p"
  shows "find (holds a) (ps[r := p]) =
    (if pg_address p = sector_of a then Some p else find (holds a) ps)"
proof (cases "pg_address p = sector_of a")
  case True
  then show ?thesis
    using distinct_holds_unique [of "ps[r := p]" r a] assms by (simp add: holds_def)
next
  case False
  have "find (holds a) (ps[r := p]) = find (holds a) ps"
    using False assms(1,4)
  proof (induction ps arbitrary: r)
    case (Cons q ps)
    then show ?case by (cases r) (auto simp: holds_def)
  qed simp
  with False show ?thesis by simp
qed

lemma pages_wf_update:
  assumes "pages_wf ps" "r < length ps" "pg_ready (ps ! r)" "pg_ready p" "\<not> pg_erase p"
    and "pg_address p = pg_address (ps ! r)" "length (pg_page p) = 4096"
  shows "pages_wf (ps[r := p])"
  using assms filter_update_same [of r ps pg_ready p pg_address]
    set_update_subset_insert [of ps r p]
  by (auto simp: pages_wf_def)

lemma pages_wf_insert:
  assumes "pages_wf ps" "r < length ps" "\<not> pg_ready (ps ! r)" "pg_ready p" "\<not> pg_erase p"
    and "pg_address p mod 4096 = 0" "length (pg_page p) = 4096"
    and "\<forall>q\<in>set ps. pg_ready q \<longrightarrow> pg_address q \<noteq> pg_address p"
  shows "pages_wf (ps[r := p])"
proof -
  have "pg_address p \<notin> pg_address ` set (filter pg_ready ps)" using assms(8) by auto
  then show ?thesis
    using assms distinct_filter_insert [of r ps pg_ready p pg_address]
      set_update_subset_insert [of ps r p]
    by (auto simp: pages_wf_def)
qed

text \<open>Taking a slot for a sector changes nothing that can be seen.\<close>

lemma find_free_page_wf:
  assumes wf: "flash_wf s" and pool: "in_pool s addr"
    and f: "find_free_page addr s = (Some r, s1)"
  shows "flash_wf s1" and "r < 6" and "pg_ready (fl_pages s1 ! r)"
    and "pg_address (fl_pages s1 ! r) = sector_of addr"
    and "in_pool s1 = in_pool s" "fl_map s1 = fl_map s" "fl_locked_out s1 = fl_locked_out s"
    and "in_pool s a \<Longrightarrow> view s1 a = view s a"
proof -
  let ?ps = "fl_pages s"
  let ?new = "\<lparr>pg_page = source_bytes s addr (sector_of addr) 4096, pg_address = sector_of addr,
      pg_ready = True, pg_erase = False, pg_page_size = 0\<rparr>"
  have len: "length ?ps = 6" and pw: "pages_wf ?ps"
    and cnt: "fl_ready_pages s = length (filter pg_ready ?ps)"
    using wf by (auto simp: flash_wf_defs)
  have noerase: "\<not> pg_erase p" if "p \<in> set ?ps" for p using pw that by (auto simp: pages_wf_def)
  have "flash_wf s1 \<and> r < 6 \<and> pg_ready (fl_pages s1 ! r) \<and>
      pg_address (fl_pages s1 ! r) = sector_of addr \<and> in_pool s1 = in_pool s \<and> fl_map s1 = fl_map s \<and>
      fl_locked_out s1 = fl_locked_out s \<and> (in_pool s a \<longrightarrow> view s1 a = view s a)"
  proof (cases "first_index (\<lambda>p. (pg_ready p \<or> pg_erase p) \<and> pg_address p = sector_of addr) ?ps")
    case (Some i)
    from first_index_Some [OF Some] have i: "i < 6" "pg_ready (?ps ! i)" "pg_address (?ps ! i) = sector_of addr"
      "\<not> pg_erase (?ps ! i)" using len noerase [of "?ps ! i"] by auto
    then show ?thesis using f wf Some by (simp add: find_free_page_def Let_def)
  next
    case None
    then have fresh: "\<forall>q\<in>set ?ps. pg_ready q \<longrightarrow> pg_address q \<noteq> sector_of addr"
      by (auto simp: first_index_None)
    obtain i where i: "first_index (\<lambda>p. \<not> pg_ready p \<and> \<not> pg_erase p) ?ps = Some i" "r = i"
      "s1 = s\<lparr>fl_pages := ?ps[i := ?new], fl_ready_pages := fl_ready_pages s + 1\<rparr>"
      using f None by (auto simp: find_free_page_def Let_def split: option.splits)
    from first_index_Some [OF i(1)] have il: "i < length ?ps" "\<not> pg_ready (?ps ! i)" by auto
    have pw1: "pages_wf (?ps[i := ?new])"
      by (rule pages_wf_insert [OF pw il]) (use fresh in \<open>simp_all add: sector_of_less source_bytes_def\<close>)
    have wf1: "flash_wf s1"
      using wf pw1 il len cnt by (simp add: flash_wf_defs i(3) length_filter_update)
    have none: "find (holds a) ?ps = None" if "sector_of a = sector_of addr" for a
      using fresh that by (auto simp: find_None_iff holds_def)
    have "view s1 a = view s a" if a: "in_pool s a"
    proof (cases "sector_of a = sector_of addr")
      case True
      have "source_bytes s addr (sector_of addr) 4096 ! (a mod 4096) = fl_map s a"
        using sector_of_less [of a] pool
        by (simp add: source_bytes_def mod_sector True [symmetric])
      then show ?thesis
        using find_update [of i ?ps ?new a] il pw1 none [OF True] True a
        by (simp add: view_def i(3) pages_wf_def)
    next
      case False
      then show ?thesis
        using find_update [of i ?ps ?new a] il pw1 a
        by (simp add: view_def i(3) pages_wf_def in_pool_def split: option.splits)
    qed
    then show ?thesis
      using wf1 il len i(2) by (simp add: i(3) in_pool_def fun_eq_iff)
  qed
  then show "flash_wf s1" "r < 6" "pg_ready (fl_pages s1 ! r)"
    "pg_address (fl_pages s1 ! r) = sector_of addr" "in_pool s1 = in_pool s" "fl_map s1 = fl_map s"
    "fl_locked_out s1 = fl_locked_out s" "in_pool s a \<Longrightarrow> view s1 a = view s a"
    by blast+
qed

text \<open>Writing into a slot changes the bytes written and no others.\<close>

lemma page_write_view:
  assumes wf: "flash_wf s" and r: "r < 6" "pg_ready (fl_pages s ! r)"
    and fit: "off + length bs \<le> 4096"
  defines "p \<equiv> fl_pages s ! r"
  defines "s' \<equiv> s\<lparr>fl_pages := (fl_pages s)[r := p\<lparr>pg_page := buf_write off bs (pg_page p)\<rparr>]\<rparr>"
  shows "flash_wf s'" and "in_pool s' = in_pool s"
    and "view s' a = (if pg_address p + off \<le> a \<and> a < pg_address p + off + length bs
      then bs ! (a - pg_address p - off) else view s a)"
proof -
  let ?ps = "fl_pages s" and ?q = "p\<lparr>pg_page := buf_write off bs (pg_page p)\<rparr>"
  have len: "r < length ?ps" and pw: "pages_wf ?ps" using wf r by (auto simp: flash_wf_defs)
  have pl: "length (pg_page p) = 4096" "pg_address p mod 4096 = 0" "\<not> pg_erase p"
    using pw r len by (auto simp: pages_wf_def p_def)
  have pw': "pages_wf (?ps[r := ?q])"
    by (rule pages_wf_update [OF pw len]) (use r fit pl in \<open>simp_all add: p_def [symmetric]\<close>)
  have "map pg_address (filter pg_ready (?ps[r := ?q])) = map pg_address (filter pg_ready ?ps)"
    by (rule filter_update_same) (use len r in \<open>simp_all add: p_def\<close>)
  then have "length (filter pg_ready (?ps[r := ?q])) = length (filter pg_ready ?ps)"
    by (rule map_eq_imp_length_eq)
  then show "flash_wf s'" using wf pw' by (simp add: flash_wf_defs s'_def)
  show "in_pool s' = in_pool s" by (simp add: s'_def in_pool_def fun_eq_iff)
  have fu: "find (holds a) (?ps[r := ?q]) =
      (if pg_address p = sector_of a then Some ?q else find (holds a) ?ps)"
    using find_update [of r ?ps ?q a] len r pw' by (simp add: pages_wf_def p_def)
  have old: "find (holds a) ?ps = Some p" if "pg_address p = sector_of a"
    using distinct_holds_unique [of ?ps r a] pw len r that
    by (simp add: pages_wf_def holds_def p_def)
  show "view s' a = (if pg_address p + off \<le> a \<and> a < pg_address p + off + length bs
      then bs ! (a - pg_address p - off) else view s a)"
  proof (cases "pg_address p = sector_of a")
    case True
    have "a mod 4096 = a - pg_address p" "pg_address p \<le> a" "a - pg_address p < 4096"
      using sector_of_less [of a] by (auto simp: mod_sector True)
    then show ?thesis
      using fu old True pl fit
      by (auto simp: view_def s'_def nth_buf_write in_pool_def)
  next
    case False
    then have "\<not> (pg_address p \<le> a \<and> a < pg_address p + 4096)"
      using sector_of_eq_iff [OF pl(2), of a] by metis
    then show ?thesis
      using fu False fit by (auto simp: view_def s'_def in_pool_def split: option.splits)
  qed
qed

lemma pages_wf_Cons:
  "pages_wf (p # ps) \<longleftrightarrow> pages_wf ps \<and> \<not> pg_erase p \<and>
     (pg_ready p \<longrightarrow> length (pg_page p) = 4096 \<and> pg_address p mod 4096 = 0 \<and>
        (\<forall>q\<in>set ps. pg_ready q \<longrightarrow> pg_address q \<noteq> pg_address p))"
  by (auto simp: pages_wf_def image_iff)

text \<open>A sector written back: its own bytes when the driver saves it, no others in any case.\<close>

lemma sector_written:
  assumes "partition_law d" "b mod 4096 = 0" "length bs = 4096"
  shows "sector_of a \<noteq> b \<Longrightarrow> snd (esp_partition_write d b bs (snd (esp_partition_erase_range d b 4096 m))) a = m a"
    and "sector_of a = b \<Longrightarrow> saves d b \<Longrightarrow>
      snd (esp_partition_write d b bs (snd (esp_partition_erase_range d b 4096 m))) a = bs ! (a mod 4096)"
proof -
  have frame: "x < c \<or> c + n \<le> x \<Longrightarrow> snd (esp_partition_erase_range d c n m) x = m x"
    "x < c \<or> c + length bs \<le> x \<Longrightarrow> snd (esp_partition_write d c bs m) x = m x" for c n m bs x
    using assms(1) unfolding partition_law_def by blast+
  have erased: "fst (esp_partition_erase_range d c n m) \<Longrightarrow> i < n \<Longrightarrow>
      snd (esp_partition_erase_range d c n m) (c + i) = 0xff" for c n m i
    using assms(1) unfolding partition_law_def by blast
  have written: "fst (esp_partition_write d c bs m) \<Longrightarrow> \<forall>j<length bs. m (c + j) = 0xff \<Longrightarrow> i < length bs \<Longrightarrow>
      snd (esp_partition_write d c bs m) (c + i) = bs ! i" for c bs m i
    using assms(1) unfolding partition_law_def by blast
  let ?e = "snd (esp_partition_erase_range d b 4096 m)"
  show "snd (esp_partition_write d b bs ?e) a = m a" if "sector_of a \<noteq> b"
  proof -
    have "a < b \<or> b + 4096 \<le> a" using sector_of_eq_iff [OF assms(2), of a] that by auto
    then show ?thesis using assms(3) by (simp add: frame)
  qed
  show "snd (esp_partition_write d b bs ?e) a = bs ! (a mod 4096)" if s: "sector_of a = b" "saves d b"
  proof -
    have a: "a = b + a mod 4096" "a mod 4096 < 4096" using s(1) sector_of_less [of a] mod_sector [of a] by simp_all
    have "\<forall>j<length bs. ?e (b + j) = 0xff"
      using assms(3) s(2) unfolding saves_def by (simp add: erased)
    then show ?thesis using written [of b bs ?e "a mod 4096"] s(2) assms(3) a unfolding saves_def by metis
  qed
qed

lemma task_pages_flush:
  assumes "partition_law d" "pages_wf ps" and "task_pages d ps (m, n) = (ps', m', n')"
  shows "ps' = map (\<lambda>p. p\<lparr>pg_ready := False\<rparr>) ps" and "n' = n - length (filter pg_ready ps)"
    and "saves d (sector_of a) \<Longrightarrow>
      m' a = (case find (holds a) ps of Some p \<Rightarrow> pg_page p ! (a mod 4096) | None \<Rightarrow> m a)"
proof -
  have "ps' = map (\<lambda>p. p\<lparr>pg_ready := False\<rparr>) ps \<and> n' = n - length (filter pg_ready ps) \<and>
      (saves d (sector_of a) \<longrightarrow>
        m' a = (case find (holds a) ps of Some p \<Rightarrow> pg_page p ! (a mod 4096) | None \<Rightarrow> m a))"
    using assms(2,3)
  proof (induction ps arbitrary: m n ps' m' n')
    case (Cons p ps)
    obtain p1 m1 n1 where t: "task_page d p (m, n) = (p1, m1, n1)" by (metis prod_cases3)
    obtain ps2 m2 n2 where ts: "task_pages d ps (m1, n1) = (ps2, m2, n2)" by (metis prod_cases3)
    have r: "ps' = p1 # ps2" "m' = m2" "n' = n2" using Cons.prems(2) t ts by auto
    from Cons.prems(1) have pw: "pages_wf ps" "\<not> pg_erase p"
      "pg_ready p \<Longrightarrow> length (pg_page p) = 4096" "pg_ready p \<Longrightarrow> pg_address p mod 4096 = 0"
      "pg_ready p \<Longrightarrow> q \<in> set ps \<Longrightarrow> pg_ready q \<Longrightarrow> pg_address q \<noteq> pg_address p" for q
      by (auto simp: pages_wf_Cons)
    note ih = Cons.IH [OF pw(1) ts]
    show ?case
    proof (cases "pg_ready p")
      case True
      have t1: "p1 = p\<lparr>pg_ready := False\<rparr>" "n1 = n - 1"
        and m1: "m1 = snd (esp_partition_write d (pg_address p) (pg_page p)
          (snd (esp_partition_erase_range d (pg_address p) 4096 m)))"
        using t True by (simp_all add: task_page_def Let_def case_prod_beta)
      have t1': "m1 a = (if pg_address p = sector_of a then pg_page p ! (a mod 4096) else m a)"
        if "saves d (sector_of a)"
        using sector_written [OF assms(1) pw(4) pw(3), of a m] True that by (auto simp: m1)
      have "find (holds a) ps = None" if "pg_address p = sector_of a"
        using pw(5) [OF True] that by (auto simp: find_None_iff holds_def)
      then show ?thesis using ih t1 t1' r True
        by (cases "pg_address p = sector_of a") (simp_all add: holds_def [of a p] split: option.splits)
    next
      case False
      then have "p1 = p" "n1 = n" "m1 = m" "p\<lparr>pg_ready := False\<rparr> = p"
        using t pw(2) by (auto simp: task_page_def)
      then show ?thesis using ih r False by (simp add: holds_def [of a p] split: option.splits)
    qed
  qed simp
  then show "ps' = map (\<lambda>p. p\<lparr>pg_ready := False\<rparr>) ps" "n' = n - length (filter pg_ready ps)"
    "saves d (sector_of a) \<Longrightarrow>
      m' a = (case find (holds a) ps of Some p \<Rightarrow> pg_page p ! (a mod 4096) | None \<Rightarrow> m a)"
    by blast+
qed

lemma pages_wf_clean: "pages_wf ps \<Longrightarrow> pages_wf (map (\<lambda>p. p\<lparr>pg_ready := False\<rparr>) ps)"
  by (auto simp: pages_wf_def filter_map comp_def)

lemma find_clean: "find (holds a) (map (\<lambda>p. p\<lparr>pg_ready := False\<rparr>) ps) = None"
  by (auto simp: find_None_iff holds_def)

text \<open>
  A run of the task keeps the invariant of the cache, and what is seen at an address whose sector
  the driver saves; one that clears the flag leaves no sector dirty.
\<close>

definition task_keeps :: "nat \<Rightarrow> flash \<Rightarrow> flash \<Rightarrow> bool" where
  "task_keeps a s t \<longleftrightarrow> cache_wf t \<and> in_pool t = in_pool s \<and> fl_locked_out t = fl_locked_out s \<and>
     fl_driver t = fl_driver s \<and> (in_pool s a \<longrightarrow> saves (fl_driver s) (sector_of a) \<longrightarrow> view t a = view s a)"

lemma task_keeps_trans: "task_keeps a s t \<Longrightarrow> task_keeps a t u \<Longrightarrow> task_keeps a s u"
  by (simp add: task_keeps_def)

lemma low_flash_task_keeps:
  assumes wf: "cache_wf s" and law: "partition_law (fl_driver s)"
  shows "task_keeps a s (low_flash_task s)"
    and "fl_available s \<Longrightarrow> \<not> fl_available (low_flash_task s) \<longleftrightarrow> fl_locked_out s \<or> fl_ready_pages s = 0"
    and "fl_available s \<Longrightarrow> \<not> fl_available (low_flash_task s) \<Longrightarrow> fl_ready_pages (low_flash_task s) = 0"
proof -
  have pw: "pages_wf (fl_pages s)" and cnt: "fl_ready_pages s = length (filter pg_ready (fl_pages s))"
    using wf by (auto simp: cache_wf_def)
  have "task_keeps a s (low_flash_task s) \<and>
    (fl_available s \<longrightarrow> (\<not> fl_available (low_flash_task s) \<longleftrightarrow> fl_locked_out s \<or> fl_ready_pages s = 0)) \<and>
    (fl_available s \<longrightarrow> \<not> fl_available (low_flash_task s) \<longrightarrow> fl_ready_pages (low_flash_task s) = 0)"
  proof (cases "fl_locked_out s \<and> fl_available s \<and> fl_ready_pages s > 0")
    case True
    obtain ps m n where t: "task_pages (fl_driver s) (fl_pages s) (fl_map s, fl_ready_pages s) = (ps, m, n)"
      by (metis prod_cases3)
    note f = task_pages_flush [OF law pw t]
    have e: "low_flash_task s = s\<lparr>fl_pages := ps, fl_map := m, fl_ready_pages := 0, fl_available := False\<rparr>"
      using True t f(2) cnt by (simp add: low_flash_task_def Let_def)
    have ps: "pages_wf ps" "length ps = length (fl_pages s)" "filter pg_ready ps = []"
      "find (holds a) ps = None"
      using f(1) pw by (auto simp: pages_wf_clean find_clean filter_map comp_def)
    have v: "view (low_flash_task s) a = view s a" if "in_pool s a" "saves (fl_driver s) (sector_of a)"
      using that f(3) [of a] ps(4) by (simp add: view_def e in_pool_def split: option.splits)
    show ?thesis
      using wf ps v True by (simp add: task_keeps_def e cache_wf_def in_pool_def fun_eq_iff)
  next
    case False
    show ?thesis
    proof (cases "fl_ready_pages s = 0")
      case True
      then have e: "low_flash_task s = s\<lparr>fl_available := False\<rparr>"
        using False by (simp add: low_flash_task_def)
      have "view (low_flash_task s) a = view s a"
        by (auto simp: view_def e in_pool_def split: option.splits)
      then show ?thesis using wf True by (simp add: task_keeps_def e cache_wf_def in_pool_def fun_eq_iff)
    next
      case pos: False
      then have "low_flash_task s = s" using False by (auto simp: low_flash_task_def)
      then show ?thesis using wf False pos by (auto simp: task_keeps_def)
    qed
  qed
  then show "task_keeps a s (low_flash_task s)"
    "fl_available s \<Longrightarrow> \<not> fl_available (low_flash_task s) \<longleftrightarrow> fl_locked_out s \<or> fl_ready_pages s = 0"
    "fl_available s \<Longrightarrow> \<not> fl_available (low_flash_task s) \<Longrightarrow> fl_ready_pages (low_flash_task s) = 0"
    by simp_all
qed

lemma commit_wait_keeps:
  assumes "cache_wf s" "partition_law (fl_driver s)" and "commit_wait runs s = (ok, t)"
  shows "task_keeps a s t \<and> (ok \<longrightarrow> \<not> fl_available t \<and> (fl_available s \<longrightarrow> fl_ready_pages t = 0))"
  using assms
proof (induction runs arbitrary: s)
  case 0
  then show ?case by (auto simp: commit_wait.simps [of 0] task_keeps_def split: if_splits)
next
  case (Suc n)
  show ?case
  proof (cases "fl_available s")
    case False
    then show ?thesis using Suc.prems by (simp add: commit_wait.simps [of "Suc n"] task_keeps_def)
  next
    case True
    then have w: "commit_wait n (low_flash_task s) = (ok, t)"
      using Suc.prems(3) by (simp add: commit_wait.simps [of "Suc n"])
    note tv = low_flash_task_keeps [OF Suc.prems(1,2)]
    have l: "cache_wf (low_flash_task s)" "partition_law (fl_driver (low_flash_task s))"
      using tv(1) [of a] Suc.prems(2) by (simp_all add: task_keeps_def)
    from Suc.IH [OF l w] have ih: "task_keeps a (low_flash_task s) t"
      "ok \<Longrightarrow> \<not> fl_available t" "ok \<Longrightarrow> fl_available (low_flash_task s) \<Longrightarrow> fl_ready_pages t = 0"
      by auto
    have "fl_ready_pages t = 0" if "ok"
    proof (cases "fl_available (low_flash_task s)")
      case False
      then have "t = low_flash_task s" using w by (simp add: commit_wait.simps [of n])
      then show ?thesis using tv(3) [OF True False] by simp
    qed (use ih that in auto)
    then show ?thesis using ih task_keeps_trans [OF tv(1)] by blast
  qed
qed

lemma commit_sync_keeps:
  assumes wf: "cache_wf s" "partition_law (fl_driver s)" and c: "low_flash_commit_sync runs s = (ok, t)"
  shows "task_keeps a s t" and "ok \<Longrightarrow> fl_ready_pages t = 0"
proof -
  have "task_keeps a s (low_flash_commit s)" "partition_law (fl_driver (low_flash_commit s))"
    using wf by (auto simp: low_flash_commit_def cache_wf_def task_keeps_def in_pool_def view_def
        fun_eq_iff split: option.splits)
  with commit_wait_keeps [OF _ _ c [unfolded low_flash_commit_sync_def]]
  show "task_keeps a s t" "ok \<Longrightarrow> fl_ready_pages t = 0"
    using task_keeps_trans by (auto simp: low_flash_commit_def task_keeps_def)
qed

text \<open>With a driver that works, all that is seen is kept.\<close>

definition same_view :: "flash \<Rightarrow> flash \<Rightarrow> bool" where
  "same_view s t \<longleftrightarrow> in_pool t = in_pool s \<and> fl_locked_out t = fl_locked_out s \<and>
     (\<forall>a. in_pool s a \<longrightarrow> view t a = view s a)"

lemma commit_sync_view:
  assumes wf: "flash_wf s" and c: "low_flash_commit_sync runs s = (ok, t)"
  shows "flash_wf t" and "same_view s t" and "ok \<Longrightarrow> fl_ready_pages t = 0"
proof -
  have k: "cache_wf s" "partition_law (fl_driver s)" "\<And>a. saves (fl_driver s) a" "works (fl_driver s)"
    using wf by (simp_all add: flash_wf_def works_def)
  note cs = commit_sync_keeps [OF k(1,2) c]
  show "flash_wf t" "same_view s t" using cs(1) k(3,4) by (simp_all add: task_keeps_def flash_wf_def same_view_def)
  show "ok \<Longrightarrow> fl_ready_pages t = 0" by (rule cs(2))
qed

text \<open>When no sector is dirty, what is seen is what the partition holds.\<close>

lemma view_durable:
  assumes "cache_wf s" and "fl_ready_pages s = 0" and "in_pool s a"
  shows "view s a = fl_map s a"
proof -
  have "filter pg_ready (fl_pages s) = []" using assms by (simp add: cache_wf_def)
  then have "find (holds a) (fl_pages s) = None"
    by (auto simp: find_None_iff holds_def filter_empty_conv)
  then show ?thesis using assms(3) by (simp add: view_def)
qed

lemma commit_sync_succeeds:
  assumes wf: "cache_wf s" "partition_law (fl_driver s)" and l: "fl_locked_out s" and n: "runs > 0"
  shows "fst (low_flash_commit_sync runs s)"
proof -
  have "cache_wf (low_flash_commit s)" "fl_available (low_flash_commit s)" "fl_locked_out (low_flash_commit s)"
    "partition_law (fl_driver (low_flash_commit s))"
    using wf l by (auto simp: low_flash_commit_def cache_wf_def)
  with low_flash_task_keeps(2) [of "low_flash_commit s"] n
  show ?thesis
    by (cases runs) (auto simp: low_flash_commit_sync_def commit_wait.simps)
qed

text \<open>One step of the loop: the chunk lands in the slot of its sector.\<close>

lemma program_step_view:
  assumes wf: "flash_wf s" and pool: "in_pool s addr" and f: "find_free_page addr s = (Some r, s1)"
    and c: "chunk = min (length data) (4096 - addr mod 4096)"
  defines "p \<equiv> fl_pages s1 ! r"
  defines "s2 \<equiv> s1\<lparr>fl_pages := (fl_pages s1)[r :=
      p\<lparr>pg_page := buf_write (addr mod 4096) (take chunk data) (pg_page p)\<rparr>]\<rparr>"
  shows "flash_wf s2" and "in_pool s2 = in_pool s" and "fl_locked_out s2 = fl_locked_out s"
    and "in_pool s a \<Longrightarrow> view s2 a =
      (if addr \<le> a \<and> a < addr + chunk then data ! (a - addr) else view s a)"
proof -
  note ff = find_free_page_wf [OF wf pool f]
  have fit: "addr mod 4096 + length (take chunk data) \<le> 4096" using c by simp
  note w = page_write_view [OF ff(1-3) fit, folded p_def, folded s2_def]
  have base: "pg_address p + addr mod 4096 = addr"
    using ff(4) sector_of_less [of addr] mod_sector [of addr] by (simp add: p_def)
  show "flash_wf s2" by (rule w(1))
  show "in_pool s2 = in_pool s" using w(2) ff(5) by simp
  show "fl_locked_out s2 = fl_locked_out s" using ff(7) by (simp add: s2_def)
  have "length (take chunk data) = chunk" using c by simp
  moreover have "a - pg_address p - addr mod 4096 = a - addr"
    using base by linarith
  ultimately show "in_pool s a \<Longrightarrow> view s2 a =
      (if addr \<le> a \<and> a < addr + chunk then data ! (a - addr) else view s a)"
    using w(3) [of a] ff(8) [of a] base by auto
qed

definition writes_view :: "nat \<Rightarrow> bytes \<Rightarrow> flash \<Rightarrow> flash \<Rightarrow> bool" where
  "writes_view addr data s t \<longleftrightarrow> in_pool t = in_pool s \<and> fl_locked_out t = fl_locked_out s \<and>
     (\<forall>a. in_pool s a \<longrightarrow> view t a =
       (if addr \<le> a \<and> a < addr + length data then data ! (a - addr) else view s a))"

lemma program_loop_view:
  assumes "flash_wf s" and "length data > 0 \<longrightarrow> in_pool s addr \<and> in_pool s (addr + (length data - 1))"
    and "program_loop waits addr data s = (PICOKEYS_OK, waits', t)"
  shows "flash_wf t \<and> writes_view addr data s t"
  using assms
proof (induction waits addr data s rule: program_loop.induct)
  case (1 waits addr data s)
  show ?case
  proof (cases "length data > 0")
    case False
    then show ?thesis
      using "1.prems" by (subst (asm) program_loop.simps) (auto simp: writes_view_def)
  next
    case True
    define off where "off = addr mod 4096"
    define chunk where "chunk = min (length data) (4096 - off)"
    have pool: "in_pool s addr" "in_pool s (addr + (length data - 1))"
      using "1.prems"(2) True by blast+
    obtain fr s1 where f: "find_free_page addr s = (fr, s1)" by fastforce
    show ?thesis
    proof (cases fr)
      case (Some r)
      define p where "p = fl_pages s1 ! r"
      define s2 where "s2 = s1\<lparr>fl_pages := (fl_pages s1)[r :=
          p\<lparr>pg_page := buf_write off (take chunk data) (pg_page p)\<rparr>]\<rparr>"
      have loop: "program_loop waits (addr + chunk) (drop chunk data) s2 = (PICOKEYS_OK, waits', t)"
        using "1.prems"(3) True f Some
        by (subst (asm) program_loop.simps) (simp add: Let_def off_def chunk_def p_def s2_def)
      have step: "flash_wf s2" "in_pool s2 = in_pool s" "fl_locked_out s2 = fl_locked_out s"
        "\<And>a. in_pool s a \<Longrightarrow> view s2 a =
          (if addr \<le> a \<and> a < addr + chunk then data ! (a - addr) else view s a)"
        using program_step_view [OF "1.prems"(1) pool(1) f [unfolded Some] chunk_def [unfolded off_def]]
        unfolding s2_def p_def off_def by blast+
      have bound: "length (drop chunk data) > 0 \<longrightarrow> in_pool s2 (addr + chunk) \<and>
          in_pool s2 (addr + chunk + (length (drop chunk data) - 1))"
        using pool unfolding step(2) by (auto simp: in_pool_def)
      have "flash_wf t \<and> writes_view (addr + chunk) (drop chunk data) s2 t"
        by (rule "1.IH"(2) [OF True off_def chunk_def f [symmetric] Some p_def, folded s2_def,
              OF step(1) bound loop])
      then show ?thesis
        using step(2-4) chunk_def by (auto simp: writes_view_def)
    next
      case None
      then obtain runs ws s2 where w: "waits = runs # ws" "low_flash_commit_sync runs s1 = (True, s2)"
        "program_loop ws addr data s2 = (PICOKEYS_OK, waits', t)"
        using "1.prems"(3) True f
        by (subst (asm) program_loop.simps)
          (auto simp: Let_def split: list.splits prod.splits bool.splits)
      have s1: "s1 = s" using f None by (auto simp: find_free_page_def Let_def split: option.splits if_splits)
      note cv = commit_sync_view [OF "1.prems"(1) w(2) [unfolded s1]]
      have "flash_wf t \<and> writes_view addr data s2 t"
        by (rule "1.IH"(1) [OF True off_def chunk_def f [symmetric] None w(1) w(2) [symmetric] HOL.refl])
          (use cv w(3) pool in \<open>auto simp: same_view_def\<close>)
      then show ?thesis using cv(2) by (auto simp: writes_view_def same_view_def)
    qed
  qed
qed

lemma find_free_page_full:
  assumes "flash_wf s" and "find_free_page addr s = (None, s1)"
  shows "fl_ready_pages s = 6" and "s1 = s"
proof -
  have "first_index (\<lambda>p. \<not> pg_ready p \<and> \<not> pg_erase p) (fl_pages s) = None" and "s1 = s"
    using assms(2) by (auto simp: find_free_page_def Let_def split: option.splits if_splits)
  moreover from this(1) have "\<forall>p\<in>set (fl_pages s). pg_ready p"
    using assms(1) by (auto simp: first_index_None flash_wf_defs pages_wf_def)
  ultimately show "fl_ready_pages s = 6" "s1 = s"
    using assms(1) by (auto simp: flash_wf_defs)
qed

text \<open>
  With a task that runs in every wait, programming succeeds; it waits at most once for each byte, and not for the
  first one when a slot is free.
\<close>

definition waits_left :: "nat list \<Rightarrow> nat list \<Rightarrow> nat \<Rightarrow> bool" where
  "waits_left waits waits' n \<longleftrightarrow> set waits' \<subseteq> set waits \<and> length waits \<le> length waits' + n"

lemma program_loop_runs:
  assumes "flash_wf s" and "fl_locked_out s" and "\<forall>n\<in>set waits. n > 0"
    and "length data > 0 \<longrightarrow> in_pool s addr \<and> in_pool s (addr + (length data - 1))"
    and "length data \<le> length waits \<or> (fl_ready_pages s < 6 \<and> length data \<le> length waits + 1)"
  shows "case program_loop waits addr data s of (r, waits', t) \<Rightarrow> r = PICOKEYS_OK \<and> waits_left waits waits' (length data) \<and>
    (fl_ready_pages s < 6 \<longrightarrow> waits_left waits waits' (length data - 1))"
  using assms
proof (induction waits addr data s rule: program_loop.induct)
  case (1 waits addr data s)
  show ?case
  proof (cases "length data > 0")
    case False
    then show ?thesis by (subst program_loop.simps) (simp add: waits_left_def)
  next
    case True
    define off where "off = addr mod 4096"
    define chunk where "chunk = min (length data) (4096 - off)"
    have cpos: "chunk > 0" "length (drop chunk data) \<le> length data - 1" using True by (auto simp: chunk_def off_def)
    have pool: "in_pool s addr" "in_pool s (addr + (length data - 1))"
      using "1.prems"(4) True by blast+
    obtain fr s1 where f: "find_free_page addr s = (fr, s1)" by fastforce
    show ?thesis
    proof (cases fr)
      case (Some r)
      define p where "p = fl_pages s1 ! r"
      define s2 where "s2 = s1\<lparr>fl_pages := (fl_pages s1)[r :=
          p\<lparr>pg_page := buf_write off (take chunk data) (pg_page p)\<rparr>]\<rparr>"
      have loop: "program_loop waits addr data s = program_loop waits (addr + chunk) (drop chunk data) s2"
        using True f Some
        by (subst program_loop.simps) (simp add: Let_def off_def chunk_def p_def s2_def)
      have step: "flash_wf s2" "in_pool s2 = in_pool s" "fl_locked_out s2 = fl_locked_out s"
        using program_step_view [OF "1.prems"(1) pool(1) f [unfolded Some] chunk_def [unfolded off_def]]
        unfolding s2_def p_def off_def by blast+
      have bound: "length (drop chunk data) > 0 \<longrightarrow> in_pool s2 (addr + chunk) \<and>
          in_pool s2 (addr + chunk + (length (drop chunk data) - 1))"
        using pool unfolding step(2) by (auto simp: in_pool_def)
      have "length (drop chunk data) \<le> length waits" using "1.prems"(5) cpos by auto
      then have "case program_loop waits (addr + chunk) (drop chunk data) s2 of (r, waits', t) \<Rightarrow>
          r = PICOKEYS_OK \<and> waits_left waits waits' (length (drop chunk data))"
        using "1.IH"(2) [OF True off_def chunk_def f [symmetric] Some p_def, folded s2_def,
            OF step(1) _ "1.prems"(3) bound] step(3) "1.prems"(2) by (auto split: prod.splits)
      then show ?thesis using cpos(2) unfolding loop by (auto simp: waits_left_def split: prod.splits)
    next
      case None
      note full = find_free_page_full [OF "1.prems"(1) f [unfolded None]]
      then obtain runs ws where w: "waits = runs # ws" "length data \<le> Suc (length ws)"
        using "1.prems"(5) True by (cases waits) auto
      have "fst (low_flash_commit_sync runs s1)"
        using commit_sync_succeeds [of s runs] "1.prems"(1-3) w full(2) by (simp add: flash_wf_def works_def)
      then obtain s2 where c: "low_flash_commit_sync runs s1 = (True, s2)"
        by (metis prod.collapse)
      note cv = commit_sync_view [OF "1.prems"(1) c [unfolded full(2)]]
      have loop: "program_loop waits addr data s = program_loop ws addr data s2"
        using True f None c w(1) by (subst program_loop.simps) (simp add: Let_def)
      have "case program_loop ws addr data s2 of (r, waits', t) \<Rightarrow> r = PICOKEYS_OK \<and> waits_left ws waits' (length data) \<and>
          (fl_ready_pages s2 < 6 \<longrightarrow> waits_left ws waits' (length data - 1))"
        by (rule "1.IH"(1) [OF True off_def chunk_def f [symmetric] None w(1) c [symmetric] HOL.refl cv(1)])
          (use cv(2,3) "1.prems"(2,3) pool w in \<open>auto simp: same_view_def\<close>)
      then show ?thesis using cv(3) full True w(1) unfolding loop by (cases data) (auto simp: waits_left_def split: prod.splits)
    qed
  qed
qed

lemma program_loop_ok:
  assumes "flash_wf s" and "fl_locked_out s" and "\<forall>n\<in>set waits. n > 0"
    and "length data > 0 \<longrightarrow> in_pool s addr \<and> in_pool s (addr + (length data - 1))"
    and "length data \<le> length waits \<or> (fl_ready_pages s < 6 \<and> length data \<le> length waits + 1)"
  shows "fst (program_loop waits addr data s) = PICOKEYS_OK"
  using program_loop_runs [OF assms] by (auto split: prod.splits)

section \<open>Reading\<close>

lemma holds_sector: "sector_of a = sector_of b \<Longrightarrow> holds a = holds b"
  by (simp add: holds_def fun_eq_iff)

lemma sector_of_same: "b \<le> a \<Longrightarrow> a < b + (4096 - b mod 4096) \<Longrightarrow> sector_of a = sector_of b"
  using sector_of_less [of b] by (subst sector_of_eq_iff) (auto simp: mod_sector)

lemma first_index_holds:
  "map_option ((!) (fl_pages s)) (first_index (\<lambda>p. pg_ready p \<and> pg_address p = sector_of a) (fl_pages s)) =
   find (holds a) (fl_pages s)"
  by (simp add: find_first_index holds_def [abs_def])

lemma read_chunk:
  assumes wf: "flash_wf s" and pool: "\<And>a. addr \<le> a \<Longrightarrow> a < addr + chunk \<Longrightarrow> in_pool s a"
    and c: "0 < chunk" "chunk \<le> 4096 - addr mod 4096"
  shows "(case first_index (\<lambda>p. pg_ready p \<and> pg_address p = sector_of addr) (fl_pages s) of
      Some r \<Rightarrow> slice (addr mod 4096) chunk (pg_page (fl_pages s ! r))
    | None \<Rightarrow> source_bytes s addr addr chunk) = map (view s) [addr..<addr + chunk]"
proof -
  let ?f = "first_index (\<lambda>p. pg_ready p \<and> pg_address p = sector_of addr) (fl_pages s)"
  have fh: "find (holds a) (fl_pages s) = map_option ((!) (fl_pages s)) ?f"
    if "addr \<le> a" "a < addr + chunk" for a
    using holds_sector [OF sector_of_same [of addr a]] that c(2) first_index_holds [of s addr] by simp
  show ?thesis
  proof (cases ?f)
    case None
    have "map (fl_map s) [addr..<addr + chunk] = map (view s) [addr..<addr + chunk]"
      using fh None pool by (intro map_cong) (simp_all add: view_def)
    then show ?thesis using None pool [of addr] c by (simp add: source_bytes_def)
  next
    case (Some r)
    let ?p = "fl_pages s ! r"
    have "?p \<in> set (fl_pages s)" "pg_ready ?p" using first_index_Some [OF Some] by auto
    then have len: "length (pg_page ?p) = 4096" using wf by (auto simp: flash_wf_defs pages_wf_def)
    have m: "a mod 4096 = addr mod 4096 + (a - addr)" if "addr \<le> a" "a < addr + chunk" for a
      using sector_of_same [of addr a] that c(2) sector_of_less [of addr] by (simp add: mod_sector)
    have "slice (addr mod 4096) chunk (pg_page ?p) = map (view s) [addr..<addr + chunk]"
    proof (rule nth_equalityI)
      show "length (slice (addr mod 4096) chunk (pg_page ?p)) = length (map (view s) [addr..<addr + chunk])"
        using c(2) len by simp
    next
      fix i assume "i < length (slice (addr mod 4096) chunk (pg_page ?p))"
      then have i: "i < chunk" by simp
      then show "slice (addr mod 4096) chunk (pg_page ?p) ! i = map (view s) [addr..<addr + chunk] ! i"
        using c(2) len m [of "addr + i"] fh [of "addr + i"] Some by (simp add: nth_slice view_def)
    qed
    then show ?thesis using Some by simp
  qed
qed

lemma read_loop_view:
  assumes "flash_wf s" and "\<And>a. addr \<le> a \<Longrightarrow> a < addr + n \<Longrightarrow> in_pool s a"
  shows "read_loop s addr n = map (view s) [addr..<addr + n]"
  using assms
proof (induction s addr n rule: read_loop.induct)
  case (1 s addr n)
  show ?case
  proof (cases "n > 0")
    case True
    define off where "off = addr mod 4096"
    define chunk where "chunk = min n (4096 - off)"
    have c: "0 < chunk" "chunk \<le> 4096 - addr mod 4096" "chunk \<le> n"
      using True by (simp_all add: chunk_def off_def)
    have rest: "read_loop s (addr + chunk) (n - chunk) = map (view s) [addr + chunk..<addr + chunk + (n - chunk)]"
      using "1.IH" [OF True off_def chunk_def HOL.refl "1.prems"(1)] "1.prems"(2) c(3) by simp
    have rc: "(case first_index (\<lambda>p. pg_ready p \<and> pg_address p = sector_of addr) (fl_pages s) of
        Some r \<Rightarrow> slice off chunk (pg_page (fl_pages s ! r))
      | None \<Rightarrow> source_bytes s addr addr chunk) = map (view s) [addr..<addr + chunk]"
      unfolding off_def by (rule read_chunk [OF "1.prems"(1) _ c(1,2)]) (use "1.prems"(2) c(3) in simp)
    have "read_loop s addr n = map (view s) [addr..<addr + chunk] @ read_loop s (addr + chunk) (n - chunk)"
      by (subst read_loop.simps)
        (simp only: Let_def True if_True off_def [symmetric] chunk_def [symmetric] rc)
    also have "\<dots> = map (view s) ([addr..<addr + chunk] @ [addr + chunk..<addr + n])"
      using c(3) by (simp add: rest)
    also have "[addr..<addr + chunk] @ [addr + chunk..<addr + n] = [addr..<addr + n]"
      using c(3) upt_add_eq_append [of addr "addr + chunk" "n - chunk"] by simp
    finally show ?thesis .
  qed (simp add: read_loop.simps)
qed

lemma flash_read_view: "cache_wf s \<Longrightarrow> flash_read s a = view s a"
proof -
  assume wf: "cache_wf s"
  let ?f = "first_index (\<lambda>p. pg_ready p \<and> pg_address p = sector_of a) (fl_pages s)"
  have "?f = None" if "fl_ready_pages s = 0"
    using wf that by (auto simp: cache_wf_def first_index_None filter_empty_conv)
  then have "(if fl_ready_pages s > 0 then ?f else None) = ?f" by simp
  then show ?thesis
    using first_index_holds [of s a, symmetric]
    by (cases ?f) (simp_all add: flash_read_def view_def)
qed

section \<open>Properties\<close>

definition pool_range :: "flash \<Rightarrow> nat \<Rightarrow> nat \<Rightarrow> bool" where
  "pool_range s addr n \<longleftrightarrow> n > 0 \<and> in_pool s addr \<and> in_pool s (addr + (n - 1))"

lemma pool_range_in: "pool_range s addr n \<Longrightarrow> addr \<le> a \<Longrightarrow> a < addr + n \<Longrightarrow> in_pool s a"
  by (auto simp: pool_range_def in_pool_def)

lemma flash_program_block_view:
  assumes "flash_wf s" and "pool_range s addr (length data)"
    and "flash_program_block waits addr (Some data) s = (PICOKEYS_OK, waits', t)"
  shows "flash_wf t" and "writes_view addr data s t"
  using program_loop_view [OF assms(1), of data addr waits waits' t] assms(2,3)
  by (auto simp: flash_program_block_def pool_range_def)

text \<open>
  C27. The sector cache is one memory: after a block was programmed, a read of any range of the pools
  returns the bytes programmed where it overlaps the block and what was read there before elsewhere,
  whatever sectors were written back in between. The partition driver is assumed to work (\<open>flash_wf\<close>).
\<close>

theorem flash_program_then_read:
  assumes wf: "flash_wf s" and r: "pool_range s addr (length data)"
    and p: "flash_program_block waits addr (Some data) s = (PICOKEYS_OK, waits', t)"
    and r': "pool_range s b n"
  shows "flash_wf t \<and>
    flash_read_block t b n = Inr (map (map_write addr data (flash_read s)) [b..<b + n])"
proof -
  note v = flash_program_block_view [OF wf r p]
  have pool: "in_pool s a" if "b \<le> a" "a < b + n" for a using pool_range_in [OF r'] that by blast
  have "read_loop t b n = map (view t) [b..<b + n]"
    by (rule read_loop_view [OF v(1)]) (use v(2) pool in \<open>auto simp: writes_view_def\<close>)
  also have "\<dots> = map (map_write addr data (flash_read s)) [b..<b + n]"
    using v(2) pool wf by (auto simp: writes_view_def map_write_def flash_read_view flash_wf_def)
  finally show ?thesis using v(1) r' by (simp add: flash_read_block_def pool_range_def)
qed

text \<open>
  C28. A commit that reports success is durable wherever the partition driver did its work: no
  sector is dirty any more, and at every address of the pools whose sector the driver erases and
  writes with success, the partition holds the byte that was read there before the commit, and reads
  are as before, whatever the driver does to other sectors. (The code does not look at the driver's
  results, so the success of the commit says nothing about a sector for which they fail.)
\<close>

theorem flash_commit_durable:
  assumes wf: "cache_wf s" and law: "partition_law (fl_driver s)"
    and c: "low_flash_commit_sync runs s = (True, t)" and a: "in_pool s a" "saves (fl_driver s) (sector_of a)"
  shows "cache_wf t \<and> fl_ready_pages t = 0 \<and> fl_map t a = flash_read s a \<and>
    flash_read t a = flash_read s a"
proof -
  note cv = commit_sync_keeps [OF wf law c]
  have a': "cache_wf t" "in_pool t a" "view t a = view s a" using cv(1) [of a] a by (auto simp: task_keeps_def)
  then show ?thesis
    using cv(2) view_durable [OF a'(1)] wf by (simp add: flash_read_view)
qed

lemma task_pages_failed:
  assumes "\<And>a n m. esp_partition_erase_range d a n m = (False, m)" "\<And>a bs m. esp_partition_write d a bs m = (False, m)"
  shows "fst (snd (task_pages d ps (m, n))) = m"
proof (induction ps arbitrary: m n)
  case (Cons p ps)
  have "fst (snd (task_page d p (m, n))) = m" using assms by (simp add: task_page_def)
  then obtain p' n' where "task_page d p (m, n) = (p', m, n')" by (metis prod.collapse)
  then show ?case using Cons [of m n'] by (auto split: prod.splits)
qed simp

lemma commit_wait_failed:
  assumes "\<And>a n m. esp_partition_erase_range (fl_driver s) a n m = (False, m)"
    "\<And>a bs m. esp_partition_write (fl_driver s) a bs m = (False, m)"
  shows "fl_map (snd (commit_wait runs s)) = fl_map s"
  using assms
proof (induction runs arbitrary: s)
  case 0
  then show ?case by (simp add: commit_wait.simps [of 0])
next
  case (Suc n)
  have "fl_map (low_flash_task s) = fl_map s" "fl_driver (low_flash_task s) = fl_driver s"
    using task_pages_failed [OF Suc.prems, of "fl_pages s" "fl_map s" "fl_ready_pages s"]
    by (auto simp: low_flash_task_def Let_def split: prod.splits)
  then show ?case using Suc by (simp add: commit_wait.simps [of "Suc n"])
qed

text \<open>
  C29. The commit does not notice that the partition refuses every erase and write: it reports
  success and leaves no sector dirty, and from then on a read returns what the partition held before,
  so every byte programmed since the last successful write-back is lost.
\<close>

theorem flash_commit_hides_failure:
  assumes "cache_wf s" "fl_locked_out s" "runs > 0" "in_pool s a"
    and "\<And>b n m. esp_partition_erase_range (fl_driver s) b n m = (False, m)"
    and "\<And>b bs m. esp_partition_write (fl_driver s) b bs m = (False, m)"
  shows "\<exists>t. low_flash_commit_sync runs s = (True, t) \<and> fl_ready_pages t = 0 \<and> flash_read t a = fl_map s a"
proof -
  have law: "partition_law (fl_driver s)" using assms(5,6) by (simp add: partition_law_def)
  obtain t where t: "low_flash_commit_sync runs s = (True, t)"
    using commit_sync_succeeds [OF assms(1) law assms(2,3)] by (metis prod.collapse)
  note k = commit_sync_keeps [OF assms(1) law t]
  have "fl_map t = fl_map s"
    using commit_wait_failed [of "low_flash_commit s" runs] assms(5,6) t
    by (simp add: low_flash_commit_sync_def low_flash_commit_def)
  moreover have "flash_read t a = fl_map t a"
    using view_durable [of t a] flash_read_view [of t a] k(1) [of a] k(2) assms(4) by (simp add: task_keeps_def)
  ultimately show ?thesis using t k(2) by simp
qed

text \<open>
  C30. Programming does not fail for lack of a slot: while the other core's task runs at least once in
  every wait and the partition driver works, a block of any length is programmed, however many sectors it
  crosses.
\<close>

theorem flash_program_succeeds:
  assumes "flash_wf s" and "fl_locked_out s" and "pool_range s addr (length data)"
    and "\<forall>n\<in>set waits. n > 0" and "length data \<le> length waits"
  shows "fst (flash_program_block waits addr (Some data) s) = PICOKEYS_OK"
  using assms program_loop_ok [OF assms(1,2,4), of data addr]
  by (auto simp: flash_program_block_def pool_range_def)

text \<open>A partition that works, and one that fails on every call.\<close>

definition good_partition :: partition where
  "good_partition = \<lparr>esp_partition_erase_range = (\<lambda>a n m. (True, map_write a (replicate n 0xff) m)),
     esp_partition_write = (\<lambda>a bs m. (True, map_write a bs m))\<rparr>"

definition dead_partition :: partition where
  "dead_partition = \<lparr>esp_partition_erase_range = (\<lambda>a n m. (False, m)), esp_partition_write = (\<lambda>a bs m. (False, m))\<rparr>"

lemma good_partition_works: "works good_partition"
  by (simp add: works_def partition_law_def saves_def good_partition_def map_write_def)

definition blank_flash :: flash where
  "blank_flash = \<lparr>fl_driver = good_partition, fl_map = (\<lambda>_. 0xff), fl_ram = (\<lambda>_. 0),
     fl_pages = replicate 6 \<lparr>pg_page = [], pg_address = 0, pg_ready = False, pg_erase = False,
       pg_page_size = 0\<rparr>,
     fl_ready_pages = 0, fl_available = False, fl_locked_out = True,
     fl_start_data_pool = 0, fl_end_rom_pool = 100000\<rparr>"

lemma blank_flash_wf:
  "flash_wf blank_flash" "fl_locked_out blank_flash" "in_pool blank_flash 4094"
  "pool_range blank_flash 4094 (length ([1, 2, 3] :: bytes))"
  by (simp_all add: blank_flash_def flash_wf_defs pages_wf_def pool_range_def in_pool_def good_partition_works)

theorem flash_program_succeeds_witness:
  "fst (flash_program_block [1, 1, 1] 4094 (Some [1, 2, 3]) blank_flash) = PICOKEYS_OK"
  by (rule flash_program_succeeds [OF blank_flash_wf(1,2,4)]) simp_all

lemma blank_program:
  "\<exists>waits t. flash_program_block [1, 1, 1] 4094 (Some [1, 2, 3]) blank_flash = (PICOKEYS_OK, waits, t)"
  using program_loop_ok [OF blank_flash_wf(1,2), of "[1, 1, 1]" "[1, 2, 3]" 4094] blank_flash_wf(4)
  by (cases "program_loop [1, 1, 1] 4094 [1, 2, 3] blank_flash")
    (simp add: flash_program_block_def pool_range_def)

theorem flash_program_then_read_witness:
  "\<exists>waits t. flash_program_block [1, 1, 1] 4094 (Some [1, 2, 3]) blank_flash =
      (PICOKEYS_OK, waits, t) \<and>
    flash_read_block t 4094 (length ([1, 2, 3] :: bytes)) =
      Inr (map (map_write 4094 [1, 2, 3] (flash_read blank_flash))
        [4094..<4094 + length ([1, 2, 3] :: bytes)])"
proof -
  obtain waits t where
    p: "flash_program_block [1, 1, 1] 4094 (Some [1, 2, 3]) blank_flash = (PICOKEYS_OK, waits, t)"
    using blank_program by blast
  from flash_program_then_read [OF blank_flash_wf(1,4) p blank_flash_wf(4)] p show ?thesis by blast
qed

text \<open>Three bytes programmed across two sectors, then committed.\<close>

theorem flash_commit_durable_witness:
  "\<exists>waits t u. flash_program_block [1, 1, 1] 4094 (Some [1, 2, 3]) blank_flash = (PICOKEYS_OK, waits, t) \<and>
    low_flash_commit_sync 1 t = (True, u) \<and> fl_map u 4096 = 3 \<and> fl_ready_pages u = 0"
proof -
  obtain waits t where
    p: "flash_program_block [1, 1, 1] 4094 (Some [1, 2, 3]) blank_flash = (PICOKEYS_OK, waits, t)"
    using blank_program by blast
  note v = flash_program_block_view [OF blank_flash_wf(1,4) p]
  have w: "cache_wf t" "partition_law (fl_driver t)" "saves (fl_driver t) (sector_of 4096)" "fl_locked_out t"
    "in_pool t 4096" using v blank_flash_wf(2,4)
    by (simp_all add: flash_wf_def works_def writes_view_def pool_range_def)
  have "in_pool blank_flash 4096" using blank_flash_wf(4) by (simp add: pool_range_def)
  then have "flash_read t 4096 = 3"
    using v(2) flash_read_view [OF w(1)] by (simp add: writes_view_def)
  moreover obtain u where u: "low_flash_commit_sync 1 t = (True, u)"
    using commit_sync_succeeds [OF w(1,2,4), of 1] by (metis prod.collapse zero_less_one)
  ultimately show ?thesis using flash_commit_durable [OF w(1,2) u w(5,3)] p by metis
qed

text \<open>One dirty sector over a partition that fails: the byte 7 was programmed, 0xff is read after the commit.\<close>

definition dirty_flash :: flash where
  "dirty_flash = blank_flash\<lparr>fl_driver := dead_partition, fl_ready_pages := 1,
     fl_pages := \<lparr>pg_page = replicate 4096 7, pg_address = 0, pg_ready = True, pg_erase = False, pg_page_size = 0\<rparr> #
       replicate 5 \<lparr>pg_page = [], pg_address = 0, pg_ready = False, pg_erase = False, pg_page_size = 0\<rparr>\<rparr>"

theorem flash_commit_hides_failure_witness:
  "flash_read dirty_flash 10 = 7 \<and>
   (\<exists>t. low_flash_commit_sync 1 dirty_flash = (True, t) \<and> flash_read t 10 = 0xff)"
proof -
  have wf: "cache_wf dirty_flash" "fl_locked_out dirty_flash" "in_pool dirty_flash 10" "fl_map dirty_flash 10 = 0xff"
    by (simp_all add: dirty_flash_def blank_flash_def cache_wf_def pages_wf_def in_pool_def)
  have "flash_read dirty_flash 10 = 7"
    by (simp add: flash_read_view [OF wf(1)]) (simp add: view_def dirty_flash_def blank_flash_def holds_def sector_of_def)
  moreover have "\<exists>t. low_flash_commit_sync 1 dirty_flash = (True, t) \<and> fl_ready_pages t = 0 \<and>
      flash_read t 10 = fl_map dirty_flash 10"
    by (rule flash_commit_hides_failure [OF wf(1,2) zero_less_one wf(3)]) (simp_all add: dirty_flash_def dead_partition_def)
  ultimately show ?thesis using wf(4) by auto
qed

end
