(* ===== verification/File_Table.thy ===== *)
theory File_Table
  imports Prelude
begin

text \<open>
  The table of files of \<open>fs/file.c\<close>: the static entries the firmware declares and the dynamic
  index, an open-addressing hash table of 2309 slots with double hashing, tombstones for deleted
  files and at most 2048 live ones. The lemmas show that the index refines a finite map from file
  identifiers to flash addresses: every live file is found, no file hides another, deletions leave
  the others in place, and a free slot is always found because the step is coprime to the table size.
\<close>

abbreviation (input) DYNAMIC_FILE_SLOTS :: nat where "DYNAMIC_FILE_SLOTS \<equiv> 2309"
abbreviation (input) MAX_DYNAMIC_FILES :: nat where "MAX_DYNAMIC_FILES \<equiv> 2048"
abbreviation (input) DYNAMIC_FID_EMPTY :: u16 where "DYNAMIC_FID_EMPTY \<equiv> 0"
abbreviation (input) DYNAMIC_FID_DELETED :: u16 where "DYNAMIC_FID_DELETED \<equiv> 0xffff"
abbreviation (input) EF_PHY :: u16 where "EF_PHY \<equiv> 0xE020"

section \<open>Data\<close>

text \<open>\<open>file_t\<close>: the address of the stored length, and the identifier.\<close>

record file_t =
  f_data :: "nat option"
  f_fid :: u16

record file_entry =
  e_file :: file_t
  e_name :: "bytes option"
  e_acl :: bytes
  e_parent :: u8
  e_type :: u8
  e_structure :: u8

text \<open>A pointer to a file: the PHY entry, an entry of the static table, or a dynamic slot.\<close>

datatype file_ref = Phy_File | Static_File nat | Dynamic_File nat

record file_table =
  t_phy :: file_entry
  t_entries :: "file_entry list"
  t_dynamic :: "file_t list"
  t_dynamic_files :: nat
  t_user_authenticated :: bool

definition file_of :: "file_table \<Rightarrow> file_ref \<Rightarrow> file_t" where
  "file_of t r = (case r of Phy_File \<Rightarrow> e_file (t_phy t)
     | Static_File i \<Rightarrow> e_file (t_entries t ! i)
     | Dynamic_File i \<Rightarrow> t_dynamic t ! i)"

definition file_static_entry :: "file_table \<Rightarrow> file_ref option \<Rightarrow> file_entry option" where
  "file_static_entry t r = (case r of None \<Rightarrow> None
     | Some Phy_File \<Rightarrow> Some (t_phy t)
     | Some (Static_File i) \<Rightarrow> Some (t_entries t ! i)
     | Some (Dynamic_File i) \<Rightarrow> None)"

definition file_get_type :: "file_table \<Rightarrow> file_ref option \<Rightarrow> u8" where
  "file_get_type t r = (case file_static_entry t r of Some e \<Rightarrow> e_type e | None \<Rightarrow> 0x01)"

section \<open>The static entries\<close>

text \<open>
  The recursion follows the parent's entry number; without a cycle it ends within 256 steps, as the
  number is a byte. An entry number outside the table is outside the model and gives False.
\<close>

fun is_parent :: "nat \<Rightarrow> file_table \<Rightarrow> nat \<Rightarrow> file_ref \<Rightarrow> bool" where
  "is_parent 0 t child parent = False"
| "is_parent (Suc fuel) t child parent =
    (if Static_File child = parent then True
     else if child = 0 then False
     else if child < length (t_entries t)
     then is_parent fuel t (unat (e_parent (t_entries t ! child))) parent
     else False)"

definition entry_matches ::
    "file_table \<Rightarrow> u16 \<Rightarrow> file_ref option \<Rightarrow> u8 \<Rightarrow> nat \<Rightarrow> bool" where
  "entry_matches t fid parent sp i =
    (let p = t_entries t ! i in
     f_fid (e_file p) \<noteq> 0 \<and> f_fid (e_file p) = fid \<and>
     (case parent of None \<Rightarrow> True | Some q \<Rightarrow> is_parent 256 t i q) \<and>
     (sp = 0 \<or> sp = 0x3 \<or> (sp AND 0x1 \<noteq> 0 \<and> e_type p AND 0x03 \<noteq> 0) \<or>
      (sp AND 0x2 \<noteq> 0 \<and> e_type p = 0x04)))"

definition file_search_by_fid ::
    "file_table \<Rightarrow> u16 \<Rightarrow> file_ref option \<Rightarrow> u8 \<Rightarrow> file_ref option" where
  "file_search_by_fid t fid parent sp =
    (if fid = EF_PHY then Some Phy_File
     else map_option Static_File
       (first_index (entry_matches t fid parent sp) [0..<length (t_entries t)]))"

definition file_search_by_name :: "file_table \<Rightarrow> bytes \<Rightarrow> file_ref option" where
  "file_search_by_name t name =
     map_option Static_File
       (first_index (\<lambda>p. case e_name p of None \<Rightarrow> False
          | Some n \<Rightarrow> unat (n ! 0) = length name \<and> slice 1 (length name) n = name) (t_entries t))"

definition file_authenticate_action :: "file_table \<Rightarrow> file_ref option \<Rightarrow> nat \<Rightarrow> bool" where
  "file_authenticate_action t r op =
    (let acl = (case file_static_entry t r of Some e \<Rightarrow> e_acl e ! op | None \<Rightarrow> 0x00) in
     if acl = 0 then True
     else if acl = 0xff then False
     else if acl = 0x90 \<or> acl AND 0x9f = 0x10 then t_user_authenticated t
     else False)"

section \<open>The dynamic index\<close>

definition dynamic_hash :: "u16 \<Rightarrow> nat" where
  "dynamic_hash fid = unat ((ucast fid * 40503) :: u32) mod DYNAMIC_FILE_SLOTS"

definition dynamic_hash_step :: "u16 \<Rightarrow> nat" where
  "dynamic_hash_step fid = 1 + unat ((ucast fid * 97) :: u32) mod (DYNAMIC_FILE_SLOTS - 1)"

fun search_probe :: "nat \<Rightarrow> file_t list \<Rightarrow> u16 \<Rightarrow> nat \<Rightarrow> nat option" where
  "search_probe 0 d fid slot = None"
| "search_probe (Suc n) d fid slot =
    (if f_fid (d ! slot) = DYNAMIC_FID_EMPTY then None
     else if f_fid (d ! slot) = fid then Some slot
     else search_probe n d fid ((slot + dynamic_hash_step fid) mod DYNAMIC_FILE_SLOTS))"

definition search_dynamic_file :: "file_table \<Rightarrow> u16 \<Rightarrow> nat option" where
  "search_dynamic_file t fid =
     search_probe DYNAMIC_FILE_SLOTS (t_dynamic t) fid (dynamic_hash fid)"

fun slot_probe :: "nat \<Rightarrow> file_t list \<Rightarrow> u16 \<Rightarrow> nat option \<Rightarrow> nat \<Rightarrow> nat option" where
  "slot_probe 0 d fid deleted slot = deleted"
| "slot_probe (Suc n) d fid deleted slot =
    (if f_fid (d ! slot) = DYNAMIC_FID_EMPTY
     then (case deleted of Some i \<Rightarrow> Some i | None \<Rightarrow> Some slot)
     else slot_probe n d fid
       (if f_fid (d ! slot) = DYNAMIC_FID_DELETED \<and> deleted = None then Some slot else deleted)
       ((slot + dynamic_hash_step fid) mod DYNAMIC_FILE_SLOTS))"

definition find_dynamic_slot :: "file_table \<Rightarrow> u16 \<Rightarrow> nat option" where
  "find_dynamic_slot t fid =
     slot_probe DYNAMIC_FILE_SLOTS (t_dynamic t) fid None (dynamic_hash fid)"

definition file_search :: "file_table \<Rightarrow> u16 \<Rightarrow> file_ref option" where
  "file_search t fid =
    (case file_search_by_fid t fid None 0x1 of
       Some r \<Rightarrow> Some r
     | None \<Rightarrow> map_option Dynamic_File (search_dynamic_file t fid))"

definition delete_dynamic_file :: "file_table \<Rightarrow> file_ref option \<Rightarrow> status \<times> file_table" where
  "delete_dynamic_file t r = (case r of
     Some (Dynamic_File i) \<Rightarrow>
       (if i \<ge> DYNAMIC_FILE_SLOTS \<or> f_fid (t_dynamic t ! i) = DYNAMIC_FID_EMPTY \<or>
          f_fid (t_dynamic t ! i) = DYNAMIC_FID_DELETED
        then (PICOKEYS_ERR_FILE_NOT_FOUND, t)
        else (PICOKEYS_OK, t\<lparr>t_dynamic := (t_dynamic t)[i :=
            \<lparr>f_data = None, f_fid = DYNAMIC_FID_DELETED\<rparr>],
          t_dynamic_files := t_dynamic_files t - 1\<rparr>))
   | _ \<Rightarrow> (PICOKEYS_ERR_FILE_NOT_FOUND, t))"

definition file_new :: "file_table \<Rightarrow> u16 \<Rightarrow> file_ref option \<times> file_table" where
  "file_new t fid =
    (case file_search t fid of
       Some r \<Rightarrow> (Some r, t)
     | None \<Rightarrow>
        if fid = DYNAMIC_FID_EMPTY \<or> fid = DYNAMIC_FID_DELETED \<or>
          t_dynamic_files t \<ge> MAX_DYNAMIC_FILES
        then (None, t)
        else (case find_dynamic_slot t fid of
          None \<Rightarrow> (None, t)
        | Some i \<Rightarrow> (Some (Dynamic_File i),
            t\<lparr>t_dynamic := (t_dynamic t)[i := \<lparr>f_data = None, f_fid = fid\<rparr>],
              t_dynamic_files := t_dynamic_files t + 1\<rparr>)))"

text \<open>Storing through a pointer: \<open>file->data = addr\<close>.\<close>

definition set_file_data :: "file_table \<Rightarrow> file_ref \<Rightarrow> nat option \<Rightarrow> file_table" where
  "set_file_data t r a = (case r of
     Phy_File \<Rightarrow> t\<lparr>t_phy := (t_phy t)\<lparr>e_file := (e_file (t_phy t))\<lparr>f_data := a\<rparr>\<rparr>\<rparr>
   | Static_File i \<Rightarrow> t\<lparr>t_entries := (t_entries t)[i := (t_entries t ! i)\<lparr>e_file :=
       (e_file (t_entries t ! i))\<lparr>f_data := a\<rparr>\<rparr>]\<rparr>
   | Dynamic_File i \<Rightarrow> t\<lparr>t_dynamic := (t_dynamic t)[i := (t_dynamic t ! i)\<lparr>f_data := a\<rparr>]\<rparr>)"

text \<open>
  The part of \<open>file_initialize_flash\<close> that resets the table: the addresses of the entries kept
  in flash are forgotten and the dynamic index is cleared.
\<close>

definition table_reset :: "file_table \<Rightarrow> file_table" where
  "table_reset t = t\<lparr>t_entries := map (\<lambda>e. if e_type e AND 0x40 = 0x40
       then e\<lparr>e_file := (e_file e)\<lparr>f_data := None\<rparr>\<rparr> else e) (t_entries t),
     t_dynamic := replicate DYNAMIC_FILE_SLOTS \<lparr>f_data = None, f_fid = 0\<rparr>,
     t_dynamic_files := 0\<rparr>"


section \<open>Probing visits every slot\<close>

definition probe :: "u16 \<Rightarrow> nat \<Rightarrow> nat" where
  "probe fid k = (dynamic_hash fid + k * dynamic_hash_step fid) mod DYNAMIC_FILE_SLOTS"

lemma probe_less [simp]: "probe fid k < 2309"
  by (simp add: probe_def)

lemma probe_0: "probe fid 0 = dynamic_hash fid"
  by (simp add: probe_def dynamic_hash_def)

lemma probe_Suc: "probe fid (Suc k) = (probe fid k + dynamic_hash_step fid) mod 2309"
  unfolding probe_def mod_add_left_eq by (simp add: ac_simps)

lemma hash_step_bounds: "0 < dynamic_hash_step fid" "dynamic_hash_step fid < 2309"
proof -
  have "unat ((ucast fid * 97) :: u32) mod 2308 < 2308" by (rule mod_less_divisor) simp
  then show "0 < dynamic_hash_step fid" "dynamic_hash_step fid < 2309"
    by (simp_all add: dynamic_hash_step_def)
qed

lemma slots_no_small_divisor: "\<forall>d\<in>set [2..<49]. \<not> d dvd (2309 :: nat)"
  by (simp add: upt_rec_numeral dvd_eq_mod_eq_0)

lemma slots_prime: "d dvd (2309 :: nat) \<Longrightarrow> d = 1 \<or> d = 2309"
proof -
  assume d: "d dvd 2309"
  then obtain k where k: "2309 = d * k" by (rule dvdE)
  then have kd: "k dvd 2309" by (metis dvd_triv_right)
  have small: "e < 2" if "e dvd (2309 :: nat)" "e < 49" for e
    using slots_no_small_divisor that by (metis atLeastLessThan_iff not_le set_upt)
  have "d < 49 \<or> k < 49"
  proof (rule ccontr)
    assume "\<not> (d < 49 \<or> k < 49)"
    then have "49 * 49 \<le> d * k" by (intro mult_le_mono) simp_all
    then show False using k by simp
  qed
  then show ?thesis
  proof
    assume "d < 49"
    with small [OF d] have "d = 0 \<or> d = 1" by auto
    with k show ?thesis by auto
  next
    assume "k < 49"
    with small [OF kd] have "k = 0 \<or> k = 1" by auto
    with k show ?thesis by auto
  qed
qed

lemma coprime_step: "coprime (dynamic_hash_step fid) 2309"
proof (rule coprimeI)
  fix c assume c: "c dvd dynamic_hash_step fid" "c dvd 2309"
  from slots_prime [OF c(2)] show "is_unit c"
    using c(1) hash_step_bounds [of fid] by (auto dest: dvd_imp_le)
qed

lemma probe_inj: "inj_on (probe fid) {..<2309}"
proof (rule inj_onI)
  have *: "j = k" if "j \<le> k" "k < 2309" "probe fid j = probe fid k" for j k
  proof -
    let ?s = "dynamic_hash_step fid"
    have "2309 dvd (dynamic_hash fid + k * ?s) - (dynamic_hash fid + j * ?s)"
      using that(3) unfolding probe_def
      by (intro mod_eq_dvd_iff_nat [THEN iffD1]) (use that(1) in simp_all)
    then have "2309 dvd (k - j) * ?s"
      by (simp add: diff_mult_distrib)
    then have "2309 dvd k - j"
      using coprime_step [of fid] by (simp add: coprime_dvd_mult_left_iff coprime_commute)
    then show ?thesis using that(1,2) by (auto dest: dvd_imp_le)
  qed
  fix j k assume "j \<in> {..<2309}" "k \<in> {..<2309}" "probe fid j = probe fid k"
  then show "j = k" using * [of j k] * [of k j] by (cases "j \<le> k") auto
qed

lemma probe_covers:
  assumes "i < 2309" shows "\<exists>k<2309. probe fid k = i"
proof -
  have "probe fid ` {..<2309} = {..<2309}"
    by (rule endo_inj_surj) (auto simp: probe_inj)
  then show ?thesis using assms by (metis (no_types, lifting) imageE lessThan_iff)
qed

section \<open>Searching\<close>

lemma first_split:
  "(\<exists>j. k \<le> j \<and> j < k + Suc n \<and> Q j \<and> (\<forall>m. k \<le> m \<and> m < j \<longrightarrow> P m)) \<longleftrightarrow>
   Q k \<or> P k \<and> (\<exists>j. Suc k \<le> j \<and> j < Suc k + n \<and> Q j \<and> (\<forall>m. Suc k \<le> m \<and> m < j \<longrightarrow> P m))"
  (is "?L \<longleftrightarrow> ?R")
proof
  assume ?L
  then obtain j where j: "k \<le> j" "j < k + Suc n" "Q j" "\<And>m. k \<le> m \<Longrightarrow> m < j \<Longrightarrow> P m" by blast
  show ?R
  proof (cases "j = k")
    case False
    with j have "P k" "Suc k \<le> j" "j < Suc k + n" "\<forall>m. Suc k \<le> m \<and> m < j \<longrightarrow> P m" by auto
    with j(3) show ?thesis by blast
  qed (use j in simp)
next
  assume ?R
  then show ?L
  proof
    assume "Q k"
    then show ?thesis by (intro exI [of _ k]) auto
  next
    assume "P k \<and> (\<exists>j. Suc k \<le> j \<and> j < Suc k + n \<and> Q j \<and> (\<forall>m. Suc k \<le> m \<and> m < j \<longrightarrow> P m))"
    then obtain j where "P k" "Suc k \<le> j" "j < Suc k + n" "Q j" "\<forall>m. Suc k \<le> m \<and> m < j \<longrightarrow> P m"
      by blast
    moreover from this have "\<forall>m. k \<le> m \<and> m < j \<longrightarrow> P m" by (metis le_antisym not_less_eq_eq)
    ultimately show ?thesis by (intro exI [of _ j]) simp
  qed
qed

lemma search_probe_Some:
  "search_probe n d fid (probe fid k) = Some i \<longleftrightarrow>
    fid \<noteq> 0 \<and> (\<exists>j. k \<le> j \<and> j < k + n \<and> i = probe fid j \<and> f_fid (d ! i) = fid \<and>
      (\<forall>m. k \<le> m \<and> m < j \<longrightarrow> f_fid (d ! probe fid m) \<noteq> 0 \<and> f_fid (d ! probe fid m) \<noteq> fid))"
    (is "_ \<longleftrightarrow> ?R n k")
proof (induction n arbitrary: k)
  case (Suc n)
  let ?e = "f_fid (d ! probe fid k)"
  have split: "?R (Suc n) k \<longleftrightarrow> fid \<noteq> 0 \<and> (i = probe fid k \<and> ?e = fid \<or> ?e \<noteq> 0 \<and> ?e \<noteq> fid \<and> ?R n (Suc k))"
  proof (cases "fid = 0")
    case False
    from first_split [of k n "\<lambda>j. i = probe fid j \<and> f_fid (d ! i) = fid"
        "\<lambda>m. f_fid (d ! probe fid m) \<noteq> 0 \<and> f_fid (d ! probe fid m) \<noteq> fid"]
    show ?thesis using False by auto
  qed simp
  show ?case
    unfolding split by (simp add: probe_Suc [symmetric] Suc.IH) auto
qed simp

definition live :: "u16 \<Rightarrow> bool" where
  "live fid \<longleftrightarrow> fid \<noteq> DYNAMIC_FID_EMPTY \<and> fid \<noteq> DYNAMIC_FID_DELETED"

text \<open>A slot can be reached: no empty slot lies before it on the path of the identifier.\<close>

definition reachable :: "file_t list \<Rightarrow> u16 \<Rightarrow> nat \<Rightarrow> bool" where
  "reachable d fid i \<longleftrightarrow>
     (\<exists>k<2309. probe fid k = i \<and> (\<forall>m<k. f_fid (d ! probe fid m) \<noteq> DYNAMIC_FID_EMPTY))"

text \<open>The invariant of the index.\<close>

definition index_wf :: "file_t list \<Rightarrow> bool" where
  "index_wf d \<longleftrightarrow> length d = DYNAMIC_FILE_SLOTS \<and>
     (\<forall>i<2309. live (f_fid (d ! i)) \<longrightarrow> reachable d (f_fid (d ! i)) i) \<and>
     (\<forall>i<2309. \<forall>j<2309. live (f_fid (d ! i)) \<and> f_fid (d ! i) = f_fid (d ! j) \<longrightarrow> i = j)"

lemma index_wfI:
  assumes "length d = 2309"
    and "\<And>i. i < 2309 \<Longrightarrow> live (f_fid (d ! i)) \<Longrightarrow> reachable d (f_fid (d ! i)) i"
    and "\<And>i j. i < 2309 \<Longrightarrow> j < 2309 \<Longrightarrow> live (f_fid (d ! i)) \<Longrightarrow> f_fid (d ! i) = f_fid (d ! j) \<Longrightarrow> i = j"
  shows "index_wf d"
  unfolding index_wf_def using assms by blast

lemma search_live:
  assumes wf: "index_wf d" and fid: "live fid"
  shows "search_probe 2309 d fid (dynamic_hash fid) = Some i \<longleftrightarrow> i < 2309 \<and> f_fid (d ! i) = fid"
proof
  assume "search_probe 2309 d fid (dynamic_hash fid) = Some i"
  then show "i < 2309 \<and> f_fid (d ! i) = fid"
    using search_probe_Some [of 2309 d fid 0 i] by (auto simp: probe_0)
next
  assume i: "i < 2309 \<and> f_fid (d ! i) = fid"
  have "reachable d fid i" using i wf fid unfolding index_wf_def by metis
  then obtain k where k: "k < 2309" "probe fid k = i" "\<forall>m<k. f_fid (d ! probe fid m) \<noteq> 0"
    unfolding reachable_def by blast
  define j where "j = (LEAST j. f_fid (d ! probe fid j) = fid)"
  have j: "f_fid (d ! probe fid j) = fid" "j \<le> k"
    unfolding j_def using LeastI [of "\<lambda>j. f_fid (d ! probe fid j) = fid" k]
      Least_le [of "\<lambda>j. f_fid (d ! probe fid j) = fid" k] i k(2) by auto
  have "probe fid j = i"
    using wf fid i j(1) probe_less [of fid j] unfolding index_wf_def by metis
  moreover have "f_fid (d ! probe fid m) \<noteq> 0 \<and> f_fid (d ! probe fid m) \<noteq> fid" if "m < j" for m
    using that k(3) j(2) not_less_Least [of m "\<lambda>j. f_fid (d ! probe fid j) = fid"]
    by (auto simp: j_def)
  ultimately have "fid \<noteq> 0 \<and> (\<exists>j. 0 \<le> j \<and> j < 0 + 2309 \<and> i = probe fid j \<and> f_fid (d ! i) = fid \<and>
      (\<forall>m. 0 \<le> m \<and> m < j \<longrightarrow> f_fid (d ! probe fid m) \<noteq> 0 \<and> f_fid (d ! probe fid m) \<noteq> fid))"
    using fid i j(2) k(1) by (intro conjI exI [of _ j]) (auto simp: live_def)
  then show "search_probe 2309 d fid (dynamic_hash fid) = Some i"
    unfolding search_probe_Some [of 2309 d fid 0 i, unfolded probe_0, symmetric] .
qed

lemma slot_probe_spec:
  assumes "slot_probe n d fid del (probe fid k) = Some i"
    and "\<forall>m<k. f_fid (d ! probe fid m) \<noteq> 0" and "k + n \<le> 2309"
    and "case del of None \<Rightarrow> True | Some i \<Rightarrow> reachable d fid i \<and> f_fid (d ! i) = 0xffff"
  shows "reachable d fid i \<and> \<not> live (f_fid (d ! i))"
  using assms
proof (induction n arbitrary: k del)
  case 0
  then show ?case by (auto simp: live_def)
next
  case (Suc n)
  let ?e = "f_fid (d ! probe fid k)"
  have r: "reachable d fid (probe fid k)"
    unfolding reachable_def using Suc.prems(2,3) by (intro exI [of _ k]) simp
  show ?case
  proof (cases "?e = 0")
    case True
    then show ?thesis using Suc.prems r by (auto simp: live_def split: option.splits)
  next
    case False
    let ?del = "if ?e = 0xffff \<and> del = None then Some (probe fid k) else del"
    have "slot_probe n d fid ?del (probe fid (Suc k)) = Some i"
      using Suc.prems(1) False by (simp add: probe_Suc)
    moreover have "\<forall>m<Suc k. f_fid (d ! probe fid m) \<noteq> 0"
      using Suc.prems(2) False by (simp add: less_Suc_eq)
    moreover have "case ?del of None \<Rightarrow> True | Some i \<Rightarrow> reachable d fid i \<and> f_fid (d ! i) = 0xffff"
      using Suc.prems(4) r by auto
    ultimately show ?thesis using Suc.IH [of ?del "Suc k"] Suc.prems(3) by simp
  qed
qed

lemma slot_probe_None:
  "slot_probe n d fid del (probe fid k) = None \<Longrightarrow>
   \<forall>m. k \<le> m \<and> m < k + n \<longrightarrow> live (f_fid (d ! probe fid m))"
proof (induction n arbitrary: k del)
  case (Suc n)
  let ?e = "f_fid (d ! probe fid k)"
  have ne: "?e \<noteq> 0" using Suc.prems by (auto split: option.splits)
  let ?del = "if ?e = 0xffff \<and> del = None then Some (probe fid k) else del"
  have step: "slot_probe n d fid ?del (probe fid (Suc k)) = None"
    using Suc.prems ne by (simp add: probe_Suc)
  have keeps: "slot_probe n d fid (Some a) s \<noteq> None" for n a s
    by (induction n arbitrary: s) auto
  have "?del = None" using step keeps [of n _ "probe fid (Suc k)"] by (cases ?del) (simp_all only: option.distinct)
  then have "?e \<noteq> 0xffff" "del = None" by (auto split: if_splits)
  moreover from this have "\<forall>m. Suc k \<le> m \<and> m < Suc k + n \<longrightarrow> live (f_fid (d ! probe fid m))"
    using Suc.IH [OF step] by simp
  ultimately have rest: "live (f_fid (d ! probe fid m))" if "k \<le> m" "m < k + Suc n" for m
    using ne that by (cases "m = k") (simp_all add: live_def)
  then show ?case by blast
qed auto

lemma find_slot_free:
  assumes "i < 2309" and "\<not> live (f_fid (d ! i))"
  shows "slot_probe 2309 d fid None (dynamic_hash fid) \<noteq> None"
  using slot_probe_None [of 2309 d fid None 0] probe_covers [OF assms(1), of fid] assms(2)
  by (auto simp: probe_0)

lemma nth_update_if: "xs[i := x] ! j = (if i = j \<and> j < length xs then x else xs ! j)"
  by (cases "i < length xs") (auto simp: nth_list_update list_update_beyond)

lemma reachable_nonempty:
  assumes "reachable d g i" and "e \<noteq> 0" and "length d = 2309"
  shows "reachable (d[j := \<lparr>f_data = a, f_fid = e\<rparr>]) g i"
proof -
  obtain k where "k < 2309" "probe g k = i" "\<forall>m<k. f_fid (d ! probe g m) \<noteq> 0"
    using assms(1) unfolding reachable_def by blast
  then show ?thesis
    unfolding reachable_def using assms(2,3)
    by (intro exI [of _ k]) (auto simp: nth_update_if)
qed

text \<open>Filling a free slot on the path with a new identifier, and leaving a tombstone, keep the invariant.\<close>

lemma index_wf_insert:
  assumes wf: "index_wf d" and fid: "live fid" and new: "\<forall>i<2309. f_fid (d ! i) \<noteq> fid"
    and j: "reachable d fid j" and jl: "j < 2309"
  shows "index_wf (d[j := \<lparr>f_data = a, f_fid = fid\<rparr>])"
proof -
  let ?d = "d[j := \<lparr>f_data = a, f_fid = fid\<rparr>]"
  have len: "length d = 2309" using wf by (simp add: index_wf_def)
  have nz: "fid \<noteq> 0" using fid by (simp add: live_def)
  have at: "f_fid (?d ! i) = (if i = j then fid else f_fid (d ! i))" if "i < 2309" for i
    using that len by (auto simp: nth_list_update)
  have "reachable ?d (f_fid (?d ! i)) i" if "i < 2309" "live (f_fid (?d ! i))" for i
  proof (cases "i = j")
    case True
    then show ?thesis using reachable_nonempty [OF j nz len] at [OF jl] by simp
  next
    case False
    then have "reachable d (f_fid (d ! i)) i" using wf that at by (simp add: index_wf_def)
    then show ?thesis using reachable_nonempty [OF _ nz len] False at [OF that(1)] by simp
  qed
  moreover have "i = k" if "i < 2309" "k < 2309" "live (f_fid (?d ! i))" "f_fid (?d ! i) = f_fid (?d ! k)" for i k
    using that wf new at unfolding index_wf_def by (metis (mono_tags, lifting))
  ultimately show ?thesis using len by (intro index_wfI) (simp only: length_list_update, blast+)
qed

lemma index_wf_delete:
  assumes wf: "index_wf d"
  shows "index_wf (d[j := \<lparr>f_data = a, f_fid = 0xffff\<rparr>])"
proof -
  let ?d = "d[j := \<lparr>f_data = a, f_fid = 0xffff\<rparr>]"
  have len: "length d = 2309" using wf by (simp add: index_wf_def)
  have at: "f_fid (?d ! i) = (if i = j then 0xffff else f_fid (d ! i))" if "i < 2309" for i
    using that len by (auto simp: nth_list_update)
  have "reachable ?d (f_fid (?d ! i)) i" if i: "i < 2309" "live (f_fid (?d ! i))" for i
  proof -
    have "i \<noteq> j" "live (f_fid (d ! i))" using i at [OF i(1)] by (auto simp: live_def split: if_splits)
    then show ?thesis
      using wf i at [OF i(1)] reachable_nonempty [of d "f_fid (d ! i)" i "0xffff"] len
      by (simp add: index_wf_def)
  qed
  moreover have "i = k" if "i < 2309" "k < 2309" "live (f_fid (?d ! i))" "f_fid (?d ! i) = f_fid (?d ! k)" for i k
    using that wf at [OF that(1)] at [OF that(2)] unfolding index_wf_def live_def
    by (metis (no_types, lifting))
  ultimately show ?thesis using len by (intro index_wfI) (simp only: length_list_update, blast+)
qed

section \<open>The index as a finite map\<close>

text \<open>What the index stands for: the flash address of each live file.\<close>

definition index_map :: "file_table \<Rightarrow> u16 \<Rightarrow> nat option option" where
  "index_map t fid = (if live fid then map_option (\<lambda>i. f_data (t_dynamic t ! i)) (search_dynamic_file t fid)
     else None)"

text \<open>The invariant of the table: the index, the count, and no static file among the dynamic ones.\<close>

definition table_wf :: "file_table \<Rightarrow> bool" where
  "table_wf t \<longleftrightarrow> index_wf (t_dynamic t) \<and>
     t_dynamic_files t = card {i. i < 2309 \<and> live (f_fid (t_dynamic t ! i))} \<and>
     t_dynamic_files t \<le> MAX_DYNAMIC_FILES \<and>
     (\<forall>fid. live fid \<longrightarrow> search_dynamic_file t fid \<noteq> None \<longrightarrow> file_search_by_fid t fid None 0x1 = None)"

lemma search_dynamic_iff:
  "table_wf t \<Longrightarrow> live fid \<Longrightarrow>
   search_dynamic_file t fid = Some i \<longleftrightarrow> i < 2309 \<and> f_fid (t_dynamic t ! i) = fid"
  unfolding search_dynamic_file_def by (rule search_live) (simp add: table_wf_def)

lemma search_dynamic_None:
  "table_wf t \<Longrightarrow> live fid \<Longrightarrow> search_dynamic_file t fid = None \<longleftrightarrow> (\<forall>i<2309. f_fid (t_dynamic t ! i) \<noteq> fid)"
  using search_dynamic_iff [of t fid] by (metis not_None_eq)

lemma index_map_Some:
  "table_wf t \<Longrightarrow> live fid \<Longrightarrow> i < 2309 \<Longrightarrow> f_fid (t_dynamic t ! i) = fid \<Longrightarrow>
   index_map t fid = Some (f_data (t_dynamic t ! i))"
  by (simp add: index_map_def search_dynamic_iff [THEN iffD2])

text \<open>Searching by identifier reads the static entries only.\<close>

lemma search_by_fid_dynamic [simp]:
  "file_search_by_fid (t\<lparr>t_dynamic := d, t_dynamic_files := n\<rparr>) fid None sp = file_search_by_fid t fid None sp"
proof -
  have "entry_matches (t\<lparr>t_dynamic := d, t_dynamic_files := n\<rparr>) fid None sp = entry_matches t fid None sp"
    by (simp add: entry_matches_def fun_eq_iff Let_def)
  then show ?thesis by (simp add: file_search_by_fid_def)
qed

lemma card_insert_live:
  assumes "length d = 2309" "j < 2309" "\<not> live (f_fid (d ! j))" "live fid"
  shows "card {i. i < 2309 \<and> live (f_fid (d[j := \<lparr>f_data = a, f_fid = fid\<rparr>] ! i))} =
    Suc (card {i. i < 2309 \<and> live (f_fid (d ! i))})"
proof -
  have "{i. i < 2309 \<and> live (f_fid (d[j := \<lparr>f_data = a, f_fid = fid\<rparr>] ! i))} =
      insert j {i. i < 2309 \<and> live (f_fid (d ! i))}"
    using assms by (auto simp: nth_update_if)
  then show ?thesis using assms(3) by simp
qed

lemma card_delete_live:
  assumes "length d = 2309" "j < 2309" "live (f_fid (d ! j))"
  shows "card {i. i < 2309 \<and> live (f_fid (d[j := \<lparr>f_data = a, f_fid = 0xffff\<rparr>] ! i))} =
    card {i. i < 2309 \<and> live (f_fid (d ! i))} - 1"
proof -
  have "{i. i < 2309 \<and> live (f_fid (d[j := \<lparr>f_data = a, f_fid = 0xffff\<rparr>] ! i))} =
      {i. i < 2309 \<and> live (f_fid (d ! i))} - {j}"
    using assms by (auto simp: nth_update_if live_def)
  then show ?thesis using assms(2,3) by simp
qed

lemma file_new_creates:
  assumes wf: "table_wf t" and fid: "live fid" and none: "file_search t fid = None"
    and room: "t_dynamic_files t < MAX_DYNAMIC_FILES"
  shows "\<exists>i t'. file_new t fid = (Some (Dynamic_File i), t') \<and> i < 2309 \<and> table_wf t' \<and>
    file_search t' fid = Some (Dynamic_File i) \<and> index_map t' = (index_map t)(fid \<mapsto> None)"
proof -
  let ?d = "t_dynamic t"
  have iw: "index_wf ?d" and len: "length ?d = 2309" using wf by (auto simp: table_wf_def index_wf_def)
  have sd: "search_dynamic_file t fid = None" and ss: "file_search_by_fid t fid None 0x1 = None"
    using none by (auto simp: file_search_def split: option.splits)
  have new: "\<forall>i<2309. f_fid (?d ! i) \<noteq> fid" using search_dynamic_None [OF wf fid] sd by simp
  have "\<exists>i<2309. \<not> live (f_fid (?d ! i))"
  proof (rule ccontr)
    assume "\<not> ?thesis"
    then have "{i. i < 2309 \<and> live (f_fid (?d ! i))} = {..<2309}" by auto
    then show False using wf by (auto simp: table_wf_def)
  qed
  then obtain i where i: "find_dynamic_slot t fid = Some i"
    using find_slot_free [of _ ?d fid] by (auto simp: find_dynamic_slot_def)
  have r: "reachable ?d fid i" "\<not> live (f_fid (?d ! i))"
    using slot_probe_spec [of 2309 ?d fid None 0 i] i by (simp_all add: find_dynamic_slot_def probe_0)
  have il: "i < 2309" using r(1) by (auto simp: reachable_def)
  let ?d' = "?d[i := \<lparr>f_data = None, f_fid = fid\<rparr>]"
  let ?t = "t\<lparr>t_dynamic := ?d', t_dynamic_files := t_dynamic_files t + 1\<rparr>"
  have fn: "file_new t fid = (Some (Dynamic_File i), ?t)"
    using none fid room i by (simp add: file_new_def live_def)
  have iw': "index_wf ?d'" by (rule index_wf_insert [OF iw fid new r(1) il])
  have at: "f_fid (?d' ! k) = (if k = i then fid else f_fid (?d ! k))" if "k < 2309" for k
    using that len by (auto simp: nth_update_if)
  have sd': "search_dynamic_file ?t g = Some k \<longleftrightarrow> k < 2309 \<and> f_fid (?d' ! k) = g" if "live g" for g k
    unfolding search_dynamic_file_def using search_live [OF iw' that] by simp
  have wf': "table_wf ?t"
    unfolding table_wf_def
  proof (intro conjI allI impI)
    show "t_dynamic_files ?t = card {i. i < 2309 \<and> live (f_fid (t_dynamic ?t ! i))}"
      using wf card_insert_live [OF len il r(2) fid] by (simp add: table_wf_def)
    fix g assume g: "live g" "search_dynamic_file ?t g \<noteq> None"
    then obtain k where "k < 2309" "f_fid (?d' ! k) = g" using sd' by auto
    then have "g = fid \<or> search_dynamic_file t g = Some k"
      using at search_dynamic_iff [OF wf g(1)] by (auto split: if_splits)
    then have "file_search_by_fid t g None 0x1 = None" using ss wf g(1) by (auto simp: table_wf_def)
    then show "file_search_by_fid ?t g None 0x1 = None" by simp
  qed (use iw' room in simp_all)
  have fs: "search_dynamic_file ?t fid = Some i" using sd' [OF fid] il len by simp
  have "index_map ?t g = ((index_map t)(fid \<mapsto> None)) g" for g
  proof (cases "live g \<and> g \<noteq> fid")
    case True
    then have g: "live g" "g \<noteq> fid" by auto
    have "search_dynamic_file ?t g = search_dynamic_file t g"
    proof (cases "search_dynamic_file t g")
      case None
      then show ?thesis using sd' [OF g(1)] at search_dynamic_None [OF wf g(1)] g(2)
        by (metis not_None_eq)
    next
      case (Some k)
      then have "k < 2309" "f_fid (?d ! k) = g" using search_dynamic_iff [OF wf g(1)] by auto
      moreover from this have "k \<noteq> i" using r(2) g(1) by auto
      ultimately show ?thesis using Some sd' [OF g(1)] at by simp
    qed
    moreover have "k \<noteq> i" if "search_dynamic_file t g = Some k" for k
      using that search_dynamic_iff [OF wf g(1)] r(2) g(1) by auto
    ultimately show ?thesis
      using g by (cases "search_dynamic_file t g") (simp_all add: index_map_def nth_update_if)
  next
    case False
    show ?thesis
    proof (cases "g = fid")
      case True
      then show ?thesis using fid fs il len by (simp add: index_map_def)
    next
      case ne: False
      then show ?thesis using False by (simp add: index_map_def)
    qed
  qed
  then show ?thesis using fn il wf' fs ss by (auto simp: file_search_def)
qed

lemma delete_dynamic_removes:
  assumes wf: "table_wf t" and fid: "live fid" and s: "search_dynamic_file t fid = Some i"
  shows "\<exists>t'. delete_dynamic_file t (Some (Dynamic_File i)) = (PICOKEYS_OK, t') \<and> table_wf t' \<and>
    index_map t' = (index_map t)(fid := None)"
proof -
  let ?d = "t_dynamic t"
  have iw: "index_wf ?d" and len: "length ?d = 2309" using wf by (auto simp: table_wf_def index_wf_def)
  have i: "i < 2309" "f_fid (?d ! i) = fid" using s search_dynamic_iff [OF wf fid] by auto
  let ?d' = "?d[i := \<lparr>f_data = None, f_fid = 0xffff\<rparr>]"
  let ?t = "t\<lparr>t_dynamic := ?d', t_dynamic_files := t_dynamic_files t - 1\<rparr>"
  have del: "delete_dynamic_file t (Some (Dynamic_File i)) = (PICOKEYS_OK, ?t)"
    using i fid by (simp add: delete_dynamic_file_def live_def)
  have iw': "index_wf ?d'" by (rule index_wf_delete [OF iw])
  have sd': "search_dynamic_file ?t g = Some k \<longleftrightarrow> k < 2309 \<and> f_fid (?d' ! k) = g" if "live g" for g k
    unfolding search_dynamic_file_def using search_live [OF iw' that] by simp
  have same: "search_dynamic_file ?t g = (if g = fid then None else search_dynamic_file t g)" if g: "live g" for g
  proof -
    have "search_dynamic_file ?t g = Some k \<longleftrightarrow> g \<noteq> fid \<and> search_dynamic_file t g = Some k" for k
      using sd' [OF g, of k] search_dynamic_iff [OF wf g, of k] search_dynamic_iff [OF wf fid, of k] i s g len
      by (auto simp: nth_update_if live_def)
    then show ?thesis by (metis not_None_eq)
  qed
  have wf': "table_wf ?t"
    unfolding table_wf_def
  proof (intro conjI allI impI)
    show "t_dynamic_files ?t = card {i. i < 2309 \<and> live (f_fid (t_dynamic ?t ! i))}"
      using wf card_delete_live [OF len i(1)] i(2) fid by (simp add: table_wf_def)
    have "t_dynamic_files t \<le> MAX_DYNAMIC_FILES" using wf unfolding table_wf_def by blast
    then show "t_dynamic_files ?t \<le> MAX_DYNAMIC_FILES" by simp
    fix g assume g: "live g" "search_dynamic_file ?t g \<noteq> None"
    then have "search_dynamic_file t g \<noteq> None" using same [OF g(1)] by (auto split: if_splits)
    then show "file_search_by_fid ?t g None 0x1 = None" using wf g(1) by (simp add: table_wf_def)
  qed (use iw' in simp)
  have "index_map ?t g = ((index_map t)(fid := None)) g" for g
  proof (cases "live g \<and> g \<noteq> fid")
    case True
    then have "k \<noteq> i" if "search_dynamic_file t g = Some k" for k
      using that search_dynamic_iff [OF wf] i by auto
    then show ?thesis
      using True same by (cases "search_dynamic_file t g") (simp_all add: index_map_def nth_update_if)
  next
    case False
    then show ?thesis using same [OF fid] fid by (cases "g = fid") (simp_all add: index_map_def)
  qed
  then show ?thesis using del wf' by auto
qed

section \<open>Runs of the index refine runs of a map\<close>

datatype index_op = Create u16 | Remove u16

text \<open>The specification: a map from identifiers to addresses, a new file having none yet.\<close>

fun spec_step :: "index_op \<Rightarrow> (u16 \<Rightarrow> 'a option option) \<Rightarrow> u16 \<Rightarrow> 'a option option" where
  "spec_step (Create fid) m = (if m fid = None then m(fid \<mapsto> None) else m)"
| "spec_step (Remove fid) m = m(fid := None)"

fun spec_legal :: "u16 set \<Rightarrow> index_op \<Rightarrow> (u16 \<Rightarrow> 'a option option) \<Rightarrow> bool" where
  "spec_legal reserved (Create fid) m \<longleftrightarrow>
     live fid \<and> fid \<notin> reserved \<and> (m fid \<noteq> None \<or> card (dom m) < MAX_DYNAMIC_FILES)"
| "spec_legal reserved (Remove fid) m \<longleftrightarrow> live fid"

fun spec_run :: "index_op list \<Rightarrow> (u16 \<Rightarrow> 'a option option) \<Rightarrow> u16 \<Rightarrow> 'a option option" where
  "spec_run [] m = m"
| "spec_run (p # ps) m = spec_run ps (spec_step p m)"

fun spec_legal_run :: "u16 set \<Rightarrow> index_op list \<Rightarrow> (u16 \<Rightarrow> 'a option option) \<Rightarrow> bool" where
  "spec_legal_run reserved [] m = True"
| "spec_legal_run reserved (p # ps) m = (spec_legal reserved p m \<and> spec_legal_run reserved ps (spec_step p m))"

text \<open>The interface of an index of files: one legal step keeps the invariant and refines one step of the map.\<close>

locale fid_index =
  fixes wf :: "'t \<Rightarrow> bool"
    and reserved :: "'t \<Rightarrow> u16 set"
    and abs :: "'t \<Rightarrow> u16 \<Rightarrow> 'a option option"
    and step :: "index_op \<Rightarrow> 't \<Rightarrow> 't"
  assumes step_refines: "wf t \<Longrightarrow> spec_legal (reserved t) p (abs t) \<Longrightarrow>
      wf (step p t) \<and> abs (step p t) = spec_step p (abs t) \<and> reserved (step p t) = reserved t"
begin

lemma run_refines:
  assumes "wf t" and "spec_legal_run (reserved t) ps (abs t)"
  shows "wf (fold step ps t) \<and> abs (fold step ps t) = spec_run ps (abs t) \<and>
    reserved (fold step ps t) = reserved t"
  using assms
proof (induction ps arbitrary: t)
  case (Cons p ps)
  then have "wf (step p t)" "abs (step p t) = spec_step p (abs t)" "reserved (step p t) = reserved t"
    using step_refines by auto
  with Cons show ?case by simp
qed simp

end

definition static_fids :: "file_table \<Rightarrow> u16 set" where
  "static_fids t = {fid. file_search_by_fid t fid None 0x1 \<noteq> None}"

text \<open>The code's operations on an identifier: \<open>file_new\<close>, and deletion of the file searched for.\<close>

fun table_step :: "index_op \<Rightarrow> file_table \<Rightarrow> file_table" where
  "table_step (Create fid) t = snd (file_new t fid)"
| "table_step (Remove fid) t =
     snd (delete_dynamic_file t (map_option Dynamic_File (search_dynamic_file t fid)))"

lemma card_dom_index_map:
  assumes wf: "table_wf t" shows "card (dom (index_map t)) = t_dynamic_files t"
proof -
  let ?L = "{i. i < 2309 \<and> live (f_fid (t_dynamic t ! i))}"
  have "dom (index_map t) = (\<lambda>i. f_fid (t_dynamic t ! i)) ` ?L"
  proof (intro equalityI subsetI)
    fix fid assume "fid \<in> dom (index_map t)"
    then obtain i where "live fid" "search_dynamic_file t fid = Some i"
      by (auto simp: index_map_def split: if_splits)
    then show "fid \<in> (\<lambda>i. f_fid (t_dynamic t ! i)) ` ?L"
      using search_dynamic_iff [OF wf] by (intro image_eqI [of _ _ i]) auto
  next
    fix fid assume "fid \<in> (\<lambda>i. f_fid (t_dynamic t ! i)) ` ?L"
    then show "fid \<in> dom (index_map t)" using index_map_Some [OF wf] by auto
  qed
  moreover have "inj_on (\<lambda>i. f_fid (t_dynamic t ! i)) ?L"
    using wf by (intro inj_onI) (auto simp: table_wf_def index_wf_def)
  ultimately show ?thesis using wf by (simp add: card_image table_wf_def)
qed

lemma file_new_present:
  assumes wf: "table_wf t" and fid: "live fid" "index_map t fid \<noteq> None"
  shows "file_new t fid = (map_option Dynamic_File (search_dynamic_file t fid), t)"
proof -
  obtain i where "search_dynamic_file t fid = Some i" using fid by (auto simp: index_map_def)
  moreover from this have "file_search_by_fid t fid None 0x1 = None" using wf fid by (auto simp: table_wf_def)
  ultimately show ?thesis by (simp add: file_new_def file_search_def)
qed

lemma static_fids_new: "static_fids (snd (file_new t fid)) = static_fids t"
  by (auto simp: file_new_def static_fids_def split: option.splits)

lemma static_fids_delete: "static_fids (snd (delete_dynamic_file t r)) = static_fids t"
  by (auto simp: delete_dynamic_file_def static_fids_def split: option.splits file_ref.splits)

lemma table_step_refines:
  assumes wf: "table_wf t" and legal: "spec_legal (static_fids t) p (index_map t)"
  shows "table_wf (table_step p t) \<and> index_map (table_step p t) = spec_step p (index_map t) \<and>
    static_fids (table_step p t) = static_fids t"
proof (cases p)
  case (Create fid)
  have fid: "live fid" "fid \<notin> static_fids t" using legal Create by simp_all
  show ?thesis
  proof (cases "index_map t fid = None")
    case False
    then show ?thesis using file_new_present [OF wf fid(1)] wf Create by auto
  next
    case True
    then have "search_dynamic_file t fid = None" using fid(1) by (simp add: index_map_def)
    then have none: "file_search t fid = None" using fid(2) by (simp add: file_search_def static_fids_def)
    have room: "t_dynamic_files t < 2048" using legal Create True card_dom_index_map [OF wf] by simp
    from file_new_creates [OF wf fid(1) none] room obtain i t' where
      "file_new t fid = (Some (Dynamic_File i), t')" "table_wf t'" "index_map t' = (index_map t)(fid \<mapsto> None)"
      by blast
    then show ?thesis using Create True static_fids_new [of t fid] by simp
  qed
next
  case (Remove fid)
  then have fid: "live fid" using legal by simp
  show ?thesis
  proof (cases "search_dynamic_file t fid")
    case None
    then have "(index_map t)(fid := None) = index_map t" using fid by (auto simp: index_map_def)
    then show ?thesis using None Remove wf by (simp add: delete_dynamic_file_def)
  next
    case (Some i)
    from delete_dynamic_removes [OF wf fid Some] obtain t' where
      "delete_dynamic_file t (Some (Dynamic_File i)) = (PICOKEYS_OK, t')" "table_wf t'"
      "index_map t' = (index_map t)(fid := None)" by blast
    then show ?thesis using Remove Some static_fids_delete [of t "Some (Dynamic_File i)"] by simp
  qed
qed

interpretation table: fid_index table_wf static_fids index_map table_step
  by unfold_locales (rule table_step_refines)

lemma table_reset_wf:
  "table_wf (table_reset t)" "index_map (table_reset t) = Map.empty"
proof -
  have dyn: "t_dynamic (table_reset t) = replicate 2309 \<lparr>f_data = None, f_fid = 0\<rparr>"
    by (simp add: table_reset_def)
  have i: "f_fid (replicate 2309 \<lparr>f_data = None, f_fid = 0\<rparr> ! i) = 0" if "i < 2309" for i :: nat
    using that by simp
  have iw: "index_wf (replicate 2309 \<lparr>f_data = None, f_fid = 0\<rparr>)"
    by (rule index_wfI) (use i in \<open>auto simp: live_def\<close>)
  have e: "{k. k < 2309 \<and> live (f_fid (t_dynamic (table_reset t) ! k))} = {}"
    using i by (auto simp: table_reset_def live_def)
  have n: "search_dynamic_file (table_reset t) fid = None" if "live fid" for fid
  proof (rule ccontr)
    assume "search_dynamic_file (table_reset t) fid \<noteq> None"
    then obtain k where "search_probe 2309 (replicate 2309 \<lparr>f_data = None, f_fid = 0\<rparr>) fid (dynamic_hash fid) = Some k"
      unfolding search_dynamic_file_def dyn not_None_eq by blast
    then have "k < 2309" "f_fid (replicate 2309 \<lparr>f_data = None, f_fid = 0\<rparr> ! k) = fid"
      unfolding search_live [OF iw that] by blast+
    with i [of k] that show False unfolding live_def by metis
  qed
  show "table_wf (table_reset t)"
    unfolding table_wf_def e
  proof (intro conjI allI impI)
    show "index_wf (t_dynamic (table_reset t))" unfolding dyn by (rule iw)
    show "t_dynamic_files (table_reset t) = card {}" "t_dynamic_files (table_reset t) \<le> 2048"
      by (simp_all add: table_reset_def)
  next
    fix fid assume "live fid" "search_dynamic_file (table_reset t) fid \<noteq> None"
    then show "file_search_by_fid (table_reset t) fid None 1 = None" using n [of fid] by simp
  qed
  show "index_map (table_reset t) = Map.empty"
    using n by (simp add: index_map_def fun_eq_iff)
qed

section \<open>Properties\<close>

text \<open>
  C31. The dynamic index refines a map: from a well-formed table, any sequence of creations and
  deletions of files (of identifiers that are neither reserved nor static, and at most 2048 files at a
  time) leaves a well-formed table that stands for exactly the map the specification reaches, and
  searching for a file succeeds exactly for the static ones and those of the map.
\<close>

theorem index_runs_refine_map:
  assumes "table_wf t" and "spec_legal_run (static_fids t) ps (index_map t)"
  shows "table_wf (fold table_step ps t) \<and>
    index_map (fold table_step ps t) = spec_run ps (index_map t) \<and>
    (\<forall>fid. live fid \<longrightarrow> (file_search (fold table_step ps t) fid \<noteq> None \<longleftrightarrow>
       fid \<in> static_fids t \<or> spec_run ps (index_map t) fid \<noteq> None))"
proof -
  note r = table.run_refines [OF assms]
  have "file_search u fid \<noteq> None \<longleftrightarrow> fid \<in> static_fids u \<or> index_map u fid \<noteq> None" if "live fid" for u fid
    using that by (auto simp: file_search_def static_fids_def index_map_def split: option.splits)
  with r show ?thesis by metis
qed

theorem index_runs_refine_map_witness:
  "\<exists>t. static_fids t = {EF_PHY} \<and> table_wf t \<and>
    index_map (fold table_step [Create 0xCE01, Create 0xCE02, Remove 0xCE01] t) =
      Map.empty(0xCE02 \<mapsto> None)"
proof -
  let ?e = "\<lparr>e_file = \<lparr>f_data = None, f_fid = EF_PHY\<rparr>, e_name = None, e_acl = [], e_parent = 5,
      e_type = 0x62, e_structure = 1\<rparr>"
  let ?t = "table_reset \<lparr>t_phy = ?e, t_entries = [], t_dynamic = [], t_dynamic_files = 0,
      t_user_authenticated = False\<rparr>"
  have s: "static_fids ?t = {EF_PHY}"
    by (auto simp: static_fids_def file_search_by_fid_def table_reset_def)
  have "spec_legal_run (static_fids ?t) [Create 0xCE01, Create 0xCE02, Remove 0xCE01] (index_map ?t)"
    unfolding s table_reset_wf(2) by (simp add: live_def)
  from index_runs_refine_map [OF table_reset_wf(1) this]
  have "index_map (fold table_step [Create 0xCE01, Create 0xCE02, Remove 0xCE01] ?t) =
      Map.empty(0xCE02 \<mapsto> None)"
    unfolding table_reset_wf(2) by (auto simp: fun_eq_iff)
  with s table_reset_wf(1) show ?thesis by blast
qed

end
