(* ===== verification/Phy.thy ===== *)
theory Phy
  imports Prelude
begin

text \<open>
  The physical configuration of the device (\<open>fs/phy.c\<close>, \<open>fs/phy.h\<close>): USB identity, LED and button
  settings, enabled curves and interfaces. It is kept in one file as a sequence of tag, length and
  value. The lemmas show that what is written is read back, field by field, that it always fits
  the buffer \<open>PHY_MAX_SIZE\<close> was computed for, and that the reader accepts one product name the
  writer cannot write.
\<close>

abbreviation (input) PHY_VIDPID :: u8 where "PHY_VIDPID \<equiv> 0x0"
abbreviation (input) PHY_LED_GPIO :: u8 where "PHY_LED_GPIO \<equiv> 0x4"
abbreviation (input) PHY_LED_BTNESS :: u8 where "PHY_LED_BTNESS \<equiv> 0x5"
abbreviation (input) PHY_OPTS :: u8 where "PHY_OPTS \<equiv> 0x6"
abbreviation (input) PHY_UP_BTN :: u8 where "PHY_UP_BTN \<equiv> 0x8"
abbreviation (input) PHY_USB_PRODUCT :: u8 where "PHY_USB_PRODUCT \<equiv> 0x9"
abbreviation (input) PHY_ENABLED_CURVES :: u8 where "PHY_ENABLED_CURVES \<equiv> 0xA"
abbreviation (input) PHY_ENABLED_USB_ITF :: u8 where "PHY_ENABLED_USB_ITF \<equiv> 0xB"
abbreviation (input) PHY_LED_DRIVER :: u8 where "PHY_LED_DRIVER \<equiv> 0xC"
abbreviation (input) PHY_USB_ITF_ALL :: u8 where "PHY_USB_ITF_ALL \<equiv> 0x1f"
abbreviation (input) PHY_LED_ORDER_RGB :: u8 where "PHY_LED_ORDER_RGB \<equiv> 0x0"
abbreviation (input) PHY_MAX_SIZE :: nat where "PHY_MAX_SIZE \<equiv> 66"

section \<open>Data\<close>

record phy_data =
  vidpid :: bytes
  enabled_curves :: u32
  usb_product :: bytes
  opts :: u16
  led_gpio :: u8
  led_brightness :: u8
  up_btn :: u8
  enabled_usb_itf :: u8
  led_driver :: u8
  led_order :: u8
  vidpid_present :: bool
  led_gpio_present :: bool
  led_brightness_present :: bool
  up_btn_present :: bool
  usb_product_present :: bool
  enabled_curves_present :: bool
  enabled_usb_itf_present :: bool
  led_driver_present :: bool
  led_order_present :: bool

text \<open>\<open>memset(phy, 0, sizeof(*phy))\<close>\<close>

definition phy_zero :: phy_data where
  "phy_zero = \<lparr>vidpid = replicate 4 0, enabled_curves = 0, usb_product = replicate 32 0, opts = 0,
     led_gpio = 0, led_brightness = 0, up_btn = 0, enabled_usb_itf = 0, led_driver = 0, led_order = 0,
     vidpid_present = False, led_gpio_present = False, led_brightness_present = False,
     up_btn_present = False, usb_product_present = False, enabled_curves_present = False,
     enabled_usb_itf_present = False, led_driver_present = False, led_order_present = False\<rparr>"

section \<open>Writing\<close>

text \<open>The string in a \<open>char\<close> array; \<open>None\<close> when no terminator is in the array, where \<open>strlen\<close> and
  \<open>strcpy\<close> run past its end.\<close>

definition c_string :: "bytes \<Rightarrow> bytes option" where
  "c_string buf = (if 0 \<in> set buf then Some (takeWhile (\<lambda>c. c \<noteq> 0) buf) else None)"

definition field :: "bool \<Rightarrow> u8 \<Rightarrow> bytes \<Rightarrow> bytes" where
  "field present tag v = (if present then tag # word_of_nat (length v) # v else [])"

definition product_field :: "phy_data \<Rightarrow> bytes option" where
  "product_field p = (if usb_product_present p
     then do { s \<leftarrow> c_string (usb_product p); Some ([PHY_USB_PRODUCT, word_of_nat (length s) + 1] @ s @ [0]) }
     else Some [])"

definition phy_bytes :: "phy_data \<Rightarrow> bytes option" where
  "phy_bytes p = do {
     product \<leftarrow> product_field p;
     Some (field (vidpid_present p) PHY_VIDPID [vidpid p ! 1, vidpid p ! 0, vidpid p ! 3, vidpid p ! 2] @
       field (led_gpio_present p) PHY_LED_GPIO [led_gpio p] @
       field (led_brightness_present p) PHY_LED_BTNESS [led_brightness p] @
       field True PHY_OPTS (put_uint16_be (opts p)) @
       field (up_btn_present p) PHY_UP_BTN [up_btn p] @
       product @
       field (enabled_curves_present p) PHY_ENABLED_CURVES (put_uint32_be (enabled_curves p)) @
       field (enabled_usb_itf_present p) PHY_ENABLED_USB_ITF [enabled_usb_itf p] @
       field (led_driver_present p) PHY_LED_DRIVER
         (led_driver p # (if led_order_present p then [led_order p] else []))) }"

text \<open>The output buffer is given by its memory (whose length is the capacity) and its length; the result
  is \<open>None\<close> when the product name has no terminator.\<close>

definition phy_serialize_data :: "phy_data \<Rightarrow> bytes \<Rightarrow> nat \<Rightarrow> (status \<times> bytes \<times> nat) option" where
  "phy_serialize_data p mem len =
    (if len > length mem \<or> length mem - len < PHY_MAX_SIZE then Some (PICOKEYS_ERR_NULL_PARAM, mem, len)
     else do { bs \<leftarrow> phy_bytes p; Some (PICOKEYS_OK, buf_write len bs mem, len + length bs) })"

section \<open>Reading\<close>

definition phy_field :: "u8 \<Rightarrow> bytes \<Rightarrow> phy_data \<Rightarrow> phy_data" where
  "phy_field tag v p =
    (if tag = PHY_VIDPID then
       (if length v = 4 then p\<lparr>vidpid := [v ! 1, v ! 0, v ! 3, v ! 2], vidpid_present := True\<rparr> else p)
     else if tag = PHY_LED_GPIO then
       (if length v = 1 then p\<lparr>led_gpio := v ! 0, led_gpio_present := True\<rparr> else p)
     else if tag = PHY_LED_BTNESS then
       (if length v = 1 then p\<lparr>led_brightness := v ! 0, led_brightness_present := True\<rparr> else p)
     else if tag = PHY_OPTS then
       (if length v = 2 then p\<lparr>opts := get_uint16_be v\<rparr> else p)
     else if tag = PHY_UP_BTN then
       (if length v = 1 then p\<lparr>up_btn := v ! 0, up_btn_present := True\<rparr> else p)
     else if tag = PHY_USB_PRODUCT then
       (if length v > 0 \<and> length v \<le> 32 then
          (let copy_len = (if v ! (length v - 1) = 0 then length v - 1 else length v) in
           p\<lparr>usb_product := buf_write 0 (take copy_len v) (replicate 32 0), usb_product_present := True\<rparr>)
        else p)
     else if tag = PHY_ENABLED_CURVES then
       (if length v = 4 then p\<lparr>enabled_curves := get_uint32_be v, enabled_curves_present := True\<rparr> else p)
     else if tag = PHY_ENABLED_USB_ITF then
       (if length v = 1 then p\<lparr>enabled_usb_itf := v ! 0, enabled_usb_itf_present := True\<rparr> else p)
     else if tag = PHY_LED_DRIVER then
       (if length v \<ge> 1 then
          (let p = p\<lparr>led_driver := v ! 0, led_driver_present := True\<rparr> in
           if length v \<ge> 2 then p\<lparr>led_order := v ! 1, led_order_present := True\<rparr> else p)
        else p)
     else p)"

text \<open>The loop over the fields; the remaining length is compared as a 16-bit number.\<close>

fun phy_loop :: "bytes \<Rightarrow> phy_data \<Rightarrow> phy_data" where
  "phy_loop (tag # tlen # v) p =
    (if (ucast tlen :: u16) > word_of_nat (length v) then p
     else phy_loop (drop (unat tlen) v) (phy_field tag (take (unat tlen) v) p))"
| "phy_loop [] p = p"
| "phy_loop [tag] p = p"

definition phy_defaults :: "phy_data \<Rightarrow> phy_data" where
  "phy_defaults p =
    (let p = (if \<not> enabled_usb_itf_present p
           then p\<lparr>enabled_usb_itf := PHY_USB_ITF_ALL, enabled_usb_itf_present := True\<rparr> else p)
     in if \<not> led_order_present p then p\<lparr>led_order := PHY_LED_ORDER_RGB\<rparr> else p)"

definition phy_unserialize_data :: "bytes option \<Rightarrow> phy_data \<Rightarrow> status \<times> phy_data" where
  "phy_unserialize_data data p = (case data of
     None \<Rightarrow> (PICOKEYS_ERR_NULL_PARAM, p)
   | Some bs \<Rightarrow>
       if length bs = 0 \<or> length bs > 65535 then (PICOKEYS_ERR_NULL_PARAM, p)
       else (PICOKEYS_OK, phy_defaults (phy_loop bs phy_zero)))"

section \<open>The fields are read back\<close>

definition phy_wf :: "phy_data \<Rightarrow> bool" where
  "phy_wf p \<longleftrightarrow> length (vidpid p) = 4 \<and> length (usb_product p) = 32 \<and>
     (usb_product_present p \<longrightarrow> 0 \<in> set (usb_product p))"

text \<open>What a stored configuration means: absent fields are zero, the product name is padded, the
  interfaces default to all of them, and the LED order is kept with the LED driver only.\<close>

definition phy_stored :: "phy_data \<Rightarrow> phy_data" where
  "phy_stored p =
    \<lparr>vidpid = (if vidpid_present p then vidpid p else replicate 4 0),
     enabled_curves = (if enabled_curves_present p then enabled_curves p else 0),
     usb_product = (if usb_product_present p
       then buf_write 0 (takeWhile (\<lambda>c. c \<noteq> 0) (usb_product p)) (replicate 32 0) else replicate 32 0),
     opts = opts p,
     led_gpio = (if led_gpio_present p then led_gpio p else 0),
     led_brightness = (if led_brightness_present p then led_brightness p else 0),
     up_btn = (if up_btn_present p then up_btn p else 0),
     enabled_usb_itf = (if enabled_usb_itf_present p then enabled_usb_itf p else PHY_USB_ITF_ALL),
     led_driver = (if led_driver_present p then led_driver p else 0),
     led_order = (if led_driver_present p \<and> led_order_present p then led_order p else PHY_LED_ORDER_RGB),
     vidpid_present = vidpid_present p, led_gpio_present = led_gpio_present p,
     led_brightness_present = led_brightness_present p, up_btn_present = up_btn_present p,
     usb_product_present = usb_product_present p, enabled_curves_present = enabled_curves_present p,
     enabled_usb_itf_present = True, led_driver_present = led_driver_present p,
     led_order_present = (led_driver_present p \<and> led_order_present p)\<rparr>"

lemma phy_loop_one:
  assumes "length v < 256" "length v + length rest < 65536" "unat tlen = length v"
  shows "phy_loop (tag # tlen # v @ rest) p = phy_loop rest (phy_field tag v p)"
proof -
  have "unat (ucast tlen :: u16) = length v"
    using assms(1,3) by (simp add: unsigned_ucast_eq take_bit_nat_eq_self)
  moreover have "unat (word_of_nat (length v + length rest) :: u16) = length v + length rest"
    using assms(2) by (simp only: unat_of_nat) simp
  ultimately have "\<not> (ucast tlen :: u16) > word_of_nat (length (v @ rest))"
    by (simp add: word_less_nat_alt)
  then show ?thesis using assms(3) by simp
qed

lemma phy_loop_field:
  assumes "length v < 256" "length v + length rest < 65536"
  shows "phy_loop (field c tag v @ rest) p = phy_loop rest (if c then phy_field tag v p else p)"
  using phy_loop_one [OF assms, of "word_of_nat (length v)" tag p] assms(1)
  by (simp add: field_def unat_of_nat)

lemma length_field: "length (field c tag v) \<le> length v + 2" "field c tag v = [] \<longleftrightarrow> \<not> c"
  by (simp_all add: field_def)

lemma c_string_wf:
  assumes "length buf = 32" "0 \<in> set buf"
  shows "length (takeWhile (\<lambda>c. c \<noteq> 0) buf) < 32"
proof -
  have "takeWhile (\<lambda>c. c \<noteq> 0) buf \<noteq> buf" using assms(2) by (metis set_takeWhileD)
  moreover have "length (takeWhile (\<lambda>c. c \<noteq> 0) buf) \<le> length buf" by (rule length_takeWhile_le)
  ultimately show ?thesis using assms(1) by (metis le_neq_implies_less takeWhile_eq_take take_all_iff)
qed

lemma product_field_wf:
  assumes "phy_wf p"
  defines "s \<equiv> takeWhile (\<lambda>c. c \<noteq> 0) (usb_product p)"
  shows "\<exists>b. product_field p = Some b \<and> length b \<le> 34 \<and>
    (\<forall>rest q. length rest < 60000 \<longrightarrow> phy_loop (b @ rest) q =
       phy_loop rest (if usb_product_present p
         then q\<lparr>usb_product := buf_write 0 s (replicate 32 0), usb_product_present := True\<rparr> else q))"
proof (cases "usb_product_present p")
  case True
  then have l: "length s < 32" using assms(1) c_string_wf [of "usb_product p"] by (simp add: phy_wf_def s_def)
  then have t: "unat (word_of_nat (length s) + 1 :: u8) = length (s @ [0])"
    by (simp add: unat_word_ariths unat_of_nat)
  have f: "phy_field PHY_USB_PRODUCT (s @ [0]) q =
      q\<lparr>usb_product := buf_write 0 s (replicate 32 0), usb_product_present := True\<rparr>" for q
    using l by (simp add: phy_field_def nth_append)
  have "phy_loop (PHY_USB_PRODUCT # (word_of_nat (length s) + 1) # (s @ [0]) @ rest) q =
      phy_loop rest (phy_field PHY_USB_PRODUCT (s @ [0]) q)" if "length rest < 60000" for rest q
    using that l by (intro phy_loop_one t) simp_all
  then show ?thesis using True assms l f by (simp add: product_field_def c_string_def phy_wf_def)
qed (simp add: product_field_def)

text \<open>Each field on its own record component.\<close>

lemma phy_field_simps:
  "(if c then phy_field PHY_VIDPID [a1, a0, a3, a2] q else q) =
     q\<lparr>vidpid := if c then [a0, a1, a2, a3] else vidpid q, vidpid_present := c \<or> vidpid_present q\<rparr>"
  "(if c then phy_field PHY_LED_GPIO [x] q else q) =
     q\<lparr>led_gpio := if c then x else led_gpio q, led_gpio_present := c \<or> led_gpio_present q\<rparr>"
  "(if c then phy_field PHY_LED_BTNESS [x] q else q) =
     q\<lparr>led_brightness := if c then x else led_brightness q, led_brightness_present := c \<or> led_brightness_present q\<rparr>"
  "phy_field PHY_OPTS (put_uint16_be w) q = q\<lparr>opts := w\<rparr>"
  "(if c then phy_field PHY_UP_BTN [x] q else q) =
     q\<lparr>up_btn := if c then x else up_btn q, up_btn_present := c \<or> up_btn_present q\<rparr>"
  "(if c then q\<lparr>usb_product := s, usb_product_present := True\<rparr> else q) =
     q\<lparr>usb_product := if c then s else usb_product q, usb_product_present := c \<or> usb_product_present q\<rparr>"
  "(if c then phy_field PHY_ENABLED_CURVES (put_uint32_be n) q else q) =
     q\<lparr>enabled_curves := if c then n else enabled_curves q, enabled_curves_present := c \<or> enabled_curves_present q\<rparr>"
  "(if c then phy_field PHY_ENABLED_USB_ITF [x] q else q) =
     q\<lparr>enabled_usb_itf := if c then x else enabled_usb_itf q, enabled_usb_itf_present := c \<or> enabled_usb_itf_present q\<rparr>"
  "(if c then phy_field PHY_LED_DRIVER (x # (if d then [y] else [])) q else q) =
     q\<lparr>led_driver := if c then x else led_driver q, led_order := if c \<and> d then y else led_order q,
       led_driver_present := c \<or> led_driver_present q, led_order_present := (c \<and> d) \<or> led_order_present q\<rparr>"
  by (cases q; cases c; simp add: phy_field_def)+
lemma phy_bytes_wf:
  assumes "phy_wf p"
  shows "\<exists>bs. phy_bytes p = Some bs \<and> 4 \<le> length bs \<and> length bs \<le> PHY_MAX_SIZE \<and>
    phy_defaults (phy_loop bs phy_zero) = phy_stored p"
proof -
  obtain b where b: "product_field p = Some b" "length b \<le> 34"
    and loop: "\<And>rest q. length rest < 60000 \<Longrightarrow> phy_loop (b @ rest) q =
       phy_loop rest (if usb_product_present p
         then q\<lparr>usb_product := buf_write 0 (takeWhile (\<lambda>c. c \<noteq> 0) (usb_product p)) (replicate 32 0),
           usb_product_present := True\<rparr> else q)"
    using product_field_wf [OF assms] by blast
  define f8 where "f8 = field (led_driver_present p) PHY_LED_DRIVER
    (led_driver p # (if led_order_present p then [led_order p] else []))"
  define f7 where "f7 = field (enabled_usb_itf_present p) PHY_ENABLED_USB_ITF [enabled_usb_itf p]"
  define f6 where "f6 = field (enabled_curves_present p) PHY_ENABLED_CURVES (put_uint32_be (enabled_curves p))"
  define f5 where "f5 = field (up_btn_present p) PHY_UP_BTN [up_btn p]"
  define f4 where "f4 = field True PHY_OPTS (put_uint16_be (opts p))"
  define f3 where "f3 = field (led_brightness_present p) PHY_LED_BTNESS [led_brightness p]"
  define f2 where "f2 = field (led_gpio_present p) PHY_LED_GPIO [led_gpio p]"
  define f1 where "f1 = field (vidpid_present p) PHY_VIDPID [vidpid p ! 1, vidpid p ! 0, vidpid p ! 3, vidpid p ! 2]"
  note f_defs = f1_def f2_def f3_def f4_def f5_def f6_def f7_def f8_def
  have l: "length f1 \<le> 6" "length f2 \<le> 3" "length f3 \<le> 3" "length f4 = 4" "length f5 \<le> 3" "length f6 \<le> 6"
    "length f7 \<le> 3" "length f8 \<le> 4"
    by (simp_all add: f_defs field_def)
  have v: "vidpid p = [vidpid p ! 0, vidpid p ! 1, vidpid p ! 2, vidpid p ! 3]"
    using assms by (intro nth_equalityI) (auto simp: phy_wf_def less_Suc_eq numeral_eq_Suc)
  have s1: "phy_loop (f1 @ rest) q = phy_loop rest (q\<lparr>vidpid := if vidpid_present p then vidpid p else vidpid q,
      vidpid_present := vidpid_present p \<or> vidpid_present q\<rparr>)" if "length rest < 60000" for rest q
    unfolding f1_def using that by (subst phy_loop_field) (simp_all only: phy_field_simps(1) v [symmetric], simp_all)
  have s: "phy_loop (f2 @ rest) q = phy_loop rest (q\<lparr>led_gpio := if led_gpio_present p then led_gpio p else led_gpio q,
      led_gpio_present := led_gpio_present p \<or> led_gpio_present q\<rparr>)"
    "phy_loop (f3 @ rest) q = phy_loop rest (q\<lparr>led_brightness := if led_brightness_present p then led_brightness p
      else led_brightness q, led_brightness_present := led_brightness_present p \<or> led_brightness_present q\<rparr>)"
    "phy_loop (f4 @ rest) q = phy_loop rest (q\<lparr>opts := opts p\<rparr>)"
    "phy_loop (f5 @ rest) q = phy_loop rest (q\<lparr>up_btn := if up_btn_present p then up_btn p else up_btn q,
      up_btn_present := up_btn_present p \<or> up_btn_present q\<rparr>)"
    "phy_loop (f6 @ rest) q = phy_loop rest (q\<lparr>enabled_curves := if enabled_curves_present p then enabled_curves p
      else enabled_curves q, enabled_curves_present := enabled_curves_present p \<or> enabled_curves_present q\<rparr>)"
    "phy_loop (f7 @ rest) q = phy_loop rest (q\<lparr>enabled_usb_itf := if enabled_usb_itf_present p then enabled_usb_itf p
      else enabled_usb_itf q, enabled_usb_itf_present := enabled_usb_itf_present p \<or> enabled_usb_itf_present q\<rparr>)"
    "phy_loop (f8 @ rest) q = phy_loop rest (q\<lparr>led_driver := if led_driver_present p then led_driver p else led_driver q,
      led_order := if led_driver_present p \<and> led_order_present p then led_order p else led_order q,
      led_driver_present := led_driver_present p \<or> led_driver_present q,
      led_order_present := (led_driver_present p \<and> led_order_present p) \<or> led_order_present q\<rparr>)"
    if "length rest < 60000" for rest q
    unfolding f_defs using that by (subst phy_loop_field, simp, simp, simp only: phy_field_simps if_True)+
  note s8 = s(7) [of "[]", unfolded append_Nil2 phy_loop.simps(2) list.size(3), OF zero_less_numeral]
  define bs where "bs = f1 @ f2 @ f3 @ f4 @ f5 @ b @ f6 @ f7 @ f8"
  have "phy_bytes p = Some bs"
    by (simp add: phy_bytes_def b(1) bs_def f_defs)
  moreover have "4 \<le> length bs \<and> length bs \<le> PHY_MAX_SIZE"
    using l b(2) by (simp add: bs_def)
  moreover have "phy_defaults (phy_loop bs phy_zero) = phy_stored p"
  proof -
    define q where "q = phy_stored p\<lparr>enabled_usb_itf := if enabled_usb_itf_present p then enabled_usb_itf p else 0,
      enabled_usb_itf_present := enabled_usb_itf_present p\<rparr>"
    have "phy_loop bs phy_zero = q"
      using l b(2)
      by (simp add: bs_def s1 s s8 loop [unfolded phy_field_simps(6)] phy_zero_def phy_stored_def q_def cong: if_cong split del: if_split)
    moreover have "phy_defaults q = phy_stored p"
      by (simp add: phy_defaults_def q_def phy_stored_def)
    ultimately show ?thesis by simp
  qed
  ultimately show ?thesis by blast
qed

text \<open>
  C39. A configuration whose product name, if present, is terminated in its 32 bytes is written within
  \<open>PHY_MAX_SIZE\<close> bytes after what the buffer already holds, without touching that, and reading those bytes back
  into any structure gives \<open>phy_stored\<close> of it: every field that was present with its value, the product name up
  to its terminator and padded, absent fields zero, the interfaces set to all when they were absent.
  The one field that may be lost is the LED order, which the writer stores in the LED driver's field: without
  an LED driver it is read back as absent, with the default order. An unterminated name is read but overruns
  the writer (\<open>phy_unterminated_product\<close>).
\<close>

theorem phy_roundtrip:
  assumes "phy_wf p" and "len + PHY_MAX_SIZE \<le> length mem"
  shows "\<exists>mem' n. phy_serialize_data p mem len = Some (PICOKEYS_OK, mem', len + n) \<and> n \<le> PHY_MAX_SIZE \<and>
    length mem' = length mem \<and> take len mem' = take len mem \<and>
    phy_unserialize_data (Some (slice len n mem')) q = (PICOKEYS_OK, phy_stored p)"
proof -
  obtain bs where bs: "phy_bytes p = Some bs" "4 \<le> length bs" "length bs \<le> PHY_MAX_SIZE"
    "phy_defaults (phy_loop bs phy_zero) = phy_stored p"
    using phy_bytes_wf [OF assms(1)] by blast
  have "slice len (length bs) (buf_write len bs mem) = bs"
    using assms(2) bs(3) by (simp add: codec_simps)
  moreover have "take len (buf_write len bs mem) = take len mem"
    using assms(2) by (simp add: buf_write_def)
  moreover have "length bs \<noteq> 0" "length bs \<le> 65535" using bs(2,3) by linarith+
  ultimately show ?thesis
    using assms(2) bs by (simp add: phy_serialize_data_def phy_unserialize_data_def)
qed

definition demo_phy :: phy_data where
  "demo_phy = phy_zero\<lparr>vidpid := [0xfe, 0xca, 0x01, 0x40], vidpid_present := True, opts := 3,
     usb_product := [0x4b] @ replicate 31 0, usb_product_present := True,
     led_driver := 5, led_driver_present := True, led_order := 2, led_order_present := True\<rparr>"

theorem phy_roundtrip_witness:
  "phy_wf demo_phy \<and> phy_unserialize_data (Some [0, 4, 0xca, 0xfe, 0x40, 0x01, 6, 2, 0, 3, 9, 2, 0x4b, 0, 0x0c, 2, 5, 2]) phy_zero =
     (PICOKEYS_OK, phy_stored demo_phy)"
proof -
  let ?bs = "[0, 4, 0xca, 0xfe, 0x40, 0x01, 6, 2, 0, 3, 9, 2, 0x4b, 0, 0x0c, 2, 5, 2] :: bytes"
  have wf: "phy_wf demo_phy" by (simp add: phy_wf_def phy_zero_def demo_phy_def)
  have "phy_bytes demo_phy = Some ?bs"
    by (simp add: phy_bytes_def product_field_def field_def demo_phy_def phy_zero_def put_uint16_be_def c_string_def)
  then have "phy_serialize_data demo_phy (replicate 66 0) 0 = Some (PICOKEYS_OK, buf_write 0 ?bs (replicate 66 0), 18)"
    by (simp add: phy_serialize_data_def)
  moreover have "slice 0 18 (buf_write 0 ?bs (replicate 66 (0 :: u8))) = ?bs"
    by (simp add: slice_def buf_write_def)
  ultimately show ?thesis
    using phy_roundtrip [OF wf, of 0 "replicate 66 0" phy_zero] wf by auto
qed

text \<open>An LED order without an LED driver is not written: the stored configuration has lost it.\<close>

lemma phy_led_order_lost:
  "led_order_present p \<Longrightarrow> \<not> led_driver_present p \<Longrightarrow> phy_bytes p = phy_bytes (p\<lparr>led_order_present := False\<rparr>)"
  by (simp add: phy_bytes_def product_field_def field_def)

text \<open>The reader takes a product name of 32 bytes without terminator, which the writer's \<open>strlen\<close>
  then overruns.\<close>

lemma phy_unterminated_product:
  fixes bs :: bytes
  defines "bs \<equiv> [PHY_USB_PRODUCT, 32] @ replicate 32 0x41"
  shows "fst (phy_unserialize_data (Some bs) q) = PICOKEYS_OK"
    "phy_serialize_data (snd (phy_unserialize_data (Some bs) q)) (replicate 66 0) 0 = None"
proof -
  have "phy_loop (PHY_USB_PRODUCT # 32 # replicate 32 0x41 @ []) phy_zero =
      phy_loop [] (phy_field PHY_USB_PRODUCT (replicate 32 0x41) phy_zero)"
    by (rule phy_loop_one) simp_all
  then have "usb_product (snd (phy_unserialize_data (Some bs) q)) = replicate 32 0x41"
    "usb_product_present (snd (phy_unserialize_data (Some bs) q))"
    by (simp_all add: bs_def phy_unserialize_data_def phy_defaults_def phy_field_def phy_zero_def buf_write_def)
  then show "phy_serialize_data (snd (phy_unserialize_data (Some bs) q)) (replicate 66 0) 0 = None"
    by (simp add: phy_serialize_data_def phy_bytes_def product_field_def c_string_def)
  show "fst (phy_unserialize_data (Some bs) q) = PICOKEYS_OK"
    by (simp add: bs_def phy_unserialize_data_def)
qed

end
