(* ===== verification/Usb.thy ===== *)
theory Usb
  imports Phy
begin

text \<open>
  The interface table and the worker of \<open>usb/usb.c\<close> (the build with the HID and CCID interfaces):
  which interfaces are enabled and under which numbers, which interface holds the worker thread,
  the command timeout, and the two queues between the USB core and the worker. The lemmas show
  that the numbers are dense and distinct, and that only the interface that started the worker
  is told about its results.
\<close>

section \<open>Interfaces\<close>

abbreviation (input) ITF_INVALID :: u8 where "ITF_INVALID \<equiv> 0xff"

record usb_itfs =
  itf_hid_ctap :: u8
  itf_hid_kb :: u8
  itf_hid :: u8
  itf_keyboard :: u8
  itf_hid_total :: u8
  itf_sc_ccid :: u8
  itf_sc_wcid :: u8
  itf_ccid :: u8
  itf_wcid :: u8
  itf_sc_total :: u8
  itf_total :: u8

definition itfs_unset :: usb_itfs where
  "itfs_unset = \<lparr>itf_hid_ctap = ITF_INVALID, itf_hid_kb = ITF_INVALID, itf_hid = ITF_INVALID,
     itf_keyboard = ITF_INVALID, itf_hid_total = 0, itf_sc_ccid = ITF_INVALID, itf_sc_wcid = ITF_INVALID,
     itf_ccid = ITF_INVALID, itf_wcid = ITF_INVALID, itf_sc_total = 0, itf_total = 0\<rparr>"

definition add_hid :: "usb_itfs \<Rightarrow> usb_itfs" where
  "add_hid i = i\<lparr>itf_hid_ctap := itf_hid_total i, itf_hid_total := itf_hid_total i + 1,
     itf_hid := itf_total i, itf_total := itf_total i + 1\<rparr>"

definition add_kb :: "usb_itfs \<Rightarrow> usb_itfs" where
  "add_kb i = i\<lparr>itf_hid_kb := itf_hid_total i, itf_hid_total := itf_hid_total i + 1,
     itf_keyboard := itf_total i, itf_total := itf_total i + 1\<rparr>"

definition add_ccid :: "usb_itfs \<Rightarrow> usb_itfs" where
  "add_ccid i = i\<lparr>itf_sc_ccid := itf_sc_total i, itf_sc_total := itf_sc_total i + 1,
     itf_ccid := itf_total i, itf_total := itf_total i + 1\<rparr>"

definition add_wcid :: "usb_itfs \<Rightarrow> usb_itfs" where
  "add_wcid i = i\<lparr>itf_sc_wcid := itf_sc_total i, itf_sc_total := itf_sc_total i + 1,
     itf_wcid := itf_total i, itf_total := itf_total i + 1\<rparr>"

definition init_itfs :: "u8 \<Rightarrow> usb_itfs \<Rightarrow> usb_itfs" where
  "init_itfs enabled i =
    (let i = i\<lparr>itf_hid_total := 0, itf_sc_total := 0, itf_total := 0\<rparr>;
         i = (if enabled AND 0x4 \<noteq> 0 then add_hid i else i);
         i = (if enabled AND 0x8 \<noteq> 0 then add_kb i else i);
         i = (if enabled AND 0x1 \<noteq> 0 then add_ccid i else i)
     in if enabled AND 0x2 \<noteq> 0 then add_wcid i else i)"

section \<open>The worker\<close>

datatype card_thread = Apdu_Thread | Cbor_Thread

datatype led = MODE_MOUNTED | MODE_SUSPENDED | MODE_PROCESSING | Led_Other

text \<open>The events keep their numbers, as the worker acknowledges an event with its number plus one.\<close>

abbreviation (input) EV_EXEC_FINISHED :: u32 where "EV_EXEC_FINISHED \<equiv> 8"
abbreviation (input) EV_PRESS_BUTTON :: u32 where "EV_PRESS_BUTTON \<equiv> 32"
abbreviation (input) EV_CMD_AVAILABLE :: u32 where "EV_CMD_AVAILABLE \<equiv> 4"

record usb =
  u_itfs :: usb_itfs
  u_vid :: u16
  u_pid :: u16
  u_timeout :: u32
  u_timeout_counter :: "u32 list"
  u_locked_itf :: u8
  u_locked_func :: "card_thread option"
  u_running :: "card_thread option"
  u_to_card :: "u32 list"
  u_to_usb :: "u32 list"
  u_led :: led

text \<open>\<open>vid\<close> and \<open>pid\<close> share their memory with \<open>vidpid\<close>, low byte first.\<close>

definition phy_vid :: "phy_data \<Rightarrow> u16" where
  "phy_vid p = make_uint16_be (vidpid p ! 1) (vidpid p ! 0)"

definition phy_pid :: "phy_data \<Rightarrow> u16" where
  "phy_pid p = make_uint16_be (vidpid p ! 3) (vidpid p ! 2)"

definition usb_init :: "phy_data \<Rightarrow> usb \<Rightarrow> phy_data \<times> usb" where
  "usb_init phy u =
    (let (phy, u) =
       (if vidpid_present phy then (phy, u\<lparr>u_vid := phy_vid phy, u_pid := phy_pid phy\<rparr>)
        else (phy\<lparr>vidpid := rev (put_uint16_be (u_vid u)) @ rev (put_uint16_be (u_pid u)), vidpid_present := True\<rparr>, u));
         enabled = (if enabled_usb_itf_present phy then enabled_usb_itf phy else PHY_USB_ITF_ALL);
         u = u\<lparr>u_to_card := [], u_to_usb := [], u_itfs := init_itfs enabled (u_itfs u)\<rparr>;
         u = u\<lparr>u_locked_itf := itf_total (u_itfs u)\<rparr>
     in (phy, if u_timeout_counter u = [] then u\<lparr>u_timeout_counter := replicate (unat (itf_total (u_itfs u))) 0\<rparr> else u))"

definition usb_set_timeout_counter :: "u8 \<Rightarrow> u32 \<Rightarrow> usb \<Rightarrow> usb" where
  "usb_set_timeout_counter itf v u = u\<lparr>u_timeout_counter := (u_timeout_counter u)[unat itf := v]\<rparr>"

definition timeout_stop :: "usb \<Rightarrow> usb" where
  "timeout_stop u = u\<lparr>u_timeout := 0\<rparr>"

definition timeout_start :: "u32 \<Rightarrow> usb \<Rightarrow> usb" where
  "timeout_start now u = u\<lparr>u_timeout := now\<rparr>"

definition is_busy :: "usb \<Rightarrow> bool" where
  "is_busy u \<longleftrightarrow> u_timeout u > 0"

text \<open>
  Putting an event into the worker's queue. For every event but EV_CMD_AVAILABLE the caller then
  waits for the worker's acknowledgement; that exchange leaves both queues as they were and is
  part of \<open>card_exit\<close>, its only caller, which empties them.
\<close>

definition usb_send_cmd :: "u32 \<Rightarrow> usb \<Rightarrow> usb" where
  "usb_send_cmd now u = timeout_start now (u\<lparr>u_to_card := u_to_card u @ [EV_CMD_AVAILABLE]\<rparr>)"

definition card_exit :: "usb \<Rightarrow> usb" where
  "card_exit u =
    (let u = (if u_locked_itf u \<noteq> itf_total (u_itfs u) \<or> u_locked_func u \<noteq> None
         then u\<lparr>u_to_card := [], u_to_usb := [], u_led := MODE_SUSPENDED, u_running := None\<rparr> else u)
     in u\<lparr>u_locked_itf := itf_total (u_itfs u), u_locked_func := None\<rparr>)"

definition card_start :: "u32 \<Rightarrow> u8 \<Rightarrow> card_thread option \<Rightarrow> usb \<Rightarrow> usb" where
  "card_start now itf func u =
    (let u = timeout_start now u in
     if u_locked_itf u \<noteq> itf \<or> u_locked_func u \<noteq> func then
       let u = (if u_locked_itf u \<noteq> itf_total (u_itfs u) \<or> u_locked_func u \<noteq> None then card_exit u else u);
           u = (if func \<noteq> None then u\<lparr>u_running := func\<rparr> else u)
       in u\<lparr>u_led := MODE_MOUNTED, u_locked_itf := itf, u_locked_func := func\<rparr>
     else u)"

text \<open>
  What one poll of the worker's queue means for an interface: the command is finished, the worker asks for the
  button, it is still working and its keep-alive time is up, or nothing.
\<close>

datatype card_news = Card_Finished | Card_Button | Card_Blocked | Card_Nothing

definition card_status :: "u32 \<Rightarrow> u8 \<Rightarrow> usb \<Rightarrow> card_news \<times> usb" where
  "card_status now itf u =
    (if u_locked_itf u = itf then
       (if u_timeout u = 0 then (Card_Nothing, u)
        else (case u_to_usb u of
          m # ms \<Rightarrow>
            (let u = u\<lparr>u_to_usb := ms\<rparr> in
             if m = EV_EXEC_FINISHED then
               (let u = timeout_stop u
                in (Card_Finished, if u_led u = MODE_PROCESSING then u\<lparr>u_led := MODE_MOUNTED\<rparr> else u))
             else if m = EV_PRESS_BUTTON then (Card_Button, u)
             else (Card_Nothing, u))
        | [] \<Rightarrow>
            if u_timeout u > 0 \<and> u_timeout u + u_timeout_counter u ! unat itf < now
            then (Card_Blocked, u\<lparr>u_timeout := now\<rparr>)
            else (Card_Nothing, u)))
     else (Card_Nothing, u))"

section \<open>Properties\<close>

text \<open>The numbers handed out to the enabled interfaces, in order.\<close>

definition itf_numbers :: "u8 \<Rightarrow> usb_itfs \<Rightarrow> u8 list" where
  "itf_numbers enabled i =
     (if enabled AND 0x4 \<noteq> 0 then [itf_hid i] else []) @ (if enabled AND 0x8 \<noteq> 0 then [itf_keyboard i] else []) @
     (if enabled AND 0x1 \<noteq> 0 then [itf_ccid i] else []) @ (if enabled AND 0x2 \<noteq> 0 then [itf_wcid i] else [])"

lemmas itf_defs = init_itfs_def itf_numbers_def add_hid_def add_kb_def add_ccid_def add_wcid_def

lemma init_itfs_dense:
  "itf_numbers enabled (init_itfs enabled i) = map word_of_nat [0..<unat (itf_total (init_itfs enabled i))]"
  by (cases "enabled AND 0x4 = 0"; cases "enabled AND 0x8 = 0"; cases "enabled AND 0x1 = 0"; cases "enabled AND 0x2 = 0")
    (simp_all add: itf_defs Let_def upt_conv_Cons)

lemma init_itfs_ctap:
  assumes "enabled AND 0x4 \<noteq> 0"
  shows "itf_hid (init_itfs enabled i) = 0" "itf_hid_ctap (init_itfs enabled i) = 0"
  using assms
  by (cases "enabled AND 0x8 = 0"; cases "enabled AND 0x1 = 0"; cases "enabled AND 0x2 = 0"; simp add: itf_defs Let_def)+

lemma card_start_locks:
  "u_locked_itf (card_start now itf func u) = itf" "u_locked_func (card_start now itf func u) = func"
  by (simp_all add: card_start_def Let_def timeout_start_def)

lemma card_exit_frame [simp]:
  "u_itfs (card_exit u) = u_itfs u" "u_timeout (card_exit u) = u_timeout u"
  by (simp_all add: card_exit_def Let_def)

text \<open>No result crosses from one interface to another: only the interface that holds the worker learns
  that a command has finished, and it learns it once.\<close>

lemma card_status_finished:
  assumes "card_status now itf u = (Card_Finished, u')"
  shows "u_locked_itf u = itf" "u_to_usb u = EV_EXEC_FINISHED # u_to_usb u'" "u_timeout u > 0" "\<not> is_busy u'"
  using assms
  by (auto simp: card_status_def Let_def is_busy_def timeout_stop_def word_gt_0 split: if_splits list.splits)

end
