(* ===== verification/Hid.thy ===== *)
theory Hid
  imports Apdu Usb
begin

text \<open>
  The CTAPHID transport (\<open>usb/hid/hid.c\<close>, \<open>usb/hid/ctap_hid.h\<close>) and the hand-over of a CBOR command to the
  worker (\<open>cbor_process\<close> of \<open>cbor.c\<close>): 64-byte reports are put together into messages of up
  to 7609 bytes, dispatched by command, and the response is cut into reports again in place. The
  buffers are lists with the sizes of the source and every write is checked against them:
  an operation is \<open>None\<close> where the C code would write or read outside a buffer.
  \<open>env\<close> holds what the driver reads from outside: the clock, whether TinyUSB accepts a report, the
  state of the button, the applications.
\<close>

abbreviation (input) HID_RPT_SIZE :: nat where "HID_RPT_SIZE \<equiv> 64"
abbreviation (input) USB_BUFFER_SIZE :: nat where "USB_BUFFER_SIZE \<equiv> 2048"
abbreviation (input) CTAP_MAX_PACKET_SIZE :: nat where "CTAP_MAX_PACKET_SIZE \<equiv> 7609"
abbreviation (input) CID_BROADCAST :: u32 where "CID_BROADCAST \<equiv> 0xffffffff"

abbreviation (input) CTAPHID_PING :: u8 where "CTAPHID_PING \<equiv> 0x81"
abbreviation (input) CTAPHID_MSG :: u8 where "CTAPHID_MSG \<equiv> 0x83"
abbreviation (input) CTAPHID_LOCK :: u8 where "CTAPHID_LOCK \<equiv> 0x84"
abbreviation (input) CTAPHID_INIT :: u8 where "CTAPHID_INIT \<equiv> 0x86"
abbreviation (input) CTAPHID_WINK :: u8 where "CTAPHID_WINK \<equiv> 0x88"
abbreviation (input) CTAPHID_CBOR :: u8 where "CTAPHID_CBOR \<equiv> 0x90"
abbreviation (input) CTAPHID_CANCEL :: u8 where "CTAPHID_CANCEL \<equiv> 0x91"
abbreviation (input) CTAPHID_KEEPALIVE :: u8 where "CTAPHID_KEEPALIVE \<equiv> 0xbb"
abbreviation (input) CTAPHID_SYNC :: u8 where "CTAPHID_SYNC \<equiv> 0xbc"
abbreviation (input) CTAPHID_ERROR :: u8 where "CTAPHID_ERROR \<equiv> 0xbf"
abbreviation (input) CTAPHID_VENDOR_FIRST :: u8 where "CTAPHID_VENDOR_FIRST \<equiv> 0xc0"
abbreviation (input) CTAPHID_VERSION :: u8 where "CTAPHID_VERSION \<equiv> 0xe1"
abbreviation (input) CTAPHID_UUID :: u8 where "CTAPHID_UUID \<equiv> 0xe2"
abbreviation (input) CTAPHID_OTP :: u8 where "CTAPHID_OTP \<equiv> 0xf0"
abbreviation (input) CTAPHID_ADMIN :: u8 where "CTAPHID_ADMIN \<equiv> 0xf2"

abbreviation (input) CTAP1_ERR_INVALID_CMD :: u8 where "CTAP1_ERR_INVALID_CMD \<equiv> 0x01"
abbreviation (input) CTAP1_ERR_INVALID_PARAMETER :: u8 where "CTAP1_ERR_INVALID_PARAMETER \<equiv> 0x02"
abbreviation (input) CTAP1_ERR_INVALID_LEN :: u8 where "CTAP1_ERR_INVALID_LEN \<equiv> 0x03"
abbreviation (input) CTAP1_ERR_INVALID_SEQ :: u8 where "CTAP1_ERR_INVALID_SEQ \<equiv> 0x04"
abbreviation (input) CTAP1_ERR_MSG_TIMEOUT :: u8 where "CTAP1_ERR_MSG_TIMEOUT \<equiv> 0x05"
abbreviation (input) CTAP1_ERR_CHANNEL_BUSY :: u8 where "CTAP1_ERR_CHANNEL_BUSY \<equiv> 0x06"
abbreviation (input) CTAP1_ERR_INVALID_CHANNEL :: u8 where "CTAP1_ERR_INVALID_CHANNEL \<equiv> 0x0b"

section \<open>State\<close>

record usb_buffer =
  ub_buffer :: bytes
  ub_r :: u16
  ub_w :: u16

datatype write_status = WRITE_UNKNOWN | WRITE_PENDING | WRITE_FAILED | WRITE_SUCCESS

text \<open>
  \<open>h_req\<close> and \<open>h_resp\<close> are the offsets of \<open>ctap_req\<close> and \<open>ctap_resp\<close> in their buffers, \<open>h_rdata\<close> the
  offset of \<open>apdu.rdata\<close> in the transmit buffer. \<open>h_fido_inits\<close> counts the calls of \<open>init_fido\<close>, whose
  work is in the application's files and not in the driver. \<open>h_out\<close> lists the reports TinyUSB has accepted.
\<close>

record hid =
  h_rx :: usb_buffer
  h_tx :: usb_buffer
  h_req :: nat
  h_resp :: nat
  h_msg_len :: u16
  h_msg_cur :: u16
  h_msg :: bytes
  h_send :: u16
  h_wr :: write_status
  h_last_cmd_time :: u32
  h_last_packet_time :: u32
  h_last_keepalive :: u32
  h_last_cmd :: u8
  h_last_seq :: u8
  h_last_req :: bytes
  h_lock :: u32
  h_lock_cid :: u32
  h_next_cid :: u32
  h_thread_type :: u8
  h_is_nk :: bool
  h_cancel_button :: bool
  h_rdata :: nat
  h_apdu :: apdu_state
  h_cbor_request :: bytes
  h_cbor_len :: nat
  h_cbor_cmd :: u8
  h_usb :: usb
  h_fido_inits :: nat
  h_out :: "bytes list"

record hid_env =
  e_now :: u32
  e_ready :: bool
  e_button_pending :: bool
  e_version :: "u8 \<times> u8"
  e_serial :: bytes
  e_ops :: app_ops
  e_fido_aid :: bytes
  e_u2f_aid :: bytes
  e_oath_aid :: bytes

section \<open>Memory\<close>

definition mem_write :: "nat \<Rightarrow> bytes \<Rightarrow> bytes \<Rightarrow> bytes option" where
  "mem_write off bs buf = (if off + length bs \<le> length buf then Some (buf_write off bs buf) else None)"

definition mem_read :: "nat \<Rightarrow> nat \<Rightarrow> bytes \<Rightarrow> bytes option" where
  "mem_read off n buf = (if off + n \<le> length buf then Some (slice off n buf) else None)"

definition tx_write :: "nat \<Rightarrow> bytes \<Rightarrow> hid \<Rightarrow> hid option" where
  "tx_write off bs s = do { b \<leftarrow> mem_write off bs (ub_buffer (h_tx s)); Some (s\<lparr>h_tx := (h_tx s)\<lparr>ub_buffer := b\<rparr>\<rparr>) }"

text \<open>A write through \<open>ctap_resp\<close>.\<close>

definition put_resp :: "nat \<Rightarrow> bytes \<Rightarrow> hid \<Rightarrow> hid option" where
  "put_resp off bs s = tx_write (h_resp s + off) bs s"

section \<open>Frames\<close>

text \<open>A report is 64 bytes: channel (low byte first), then command and length, or a sequence number.\<close>

definition cid_bytes :: "u32 \<Rightarrow> bytes" where "cid_bytes c = rev (put_uint32_be c)"

definition frame_cid :: "bytes \<Rightarrow> u32" where "frame_cid f = get_uint32_be (rev (take 4 f))"
definition frame_cmd :: "bytes \<Rightarrow> u8" where "frame_cmd f = f ! 4"
definition is_init_frame :: "bytes \<Rightarrow> bool" where "is_init_frame f \<longleftrightarrow> f ! 4 AND 0x80 \<noteq> 0"
definition MSG_LEN :: "bytes \<Rightarrow> nat" where "MSG_LEN f = unat (f ! 5) * 256 + unat (f ! 6)"
definition frame_seq :: "bytes \<Rightarrow> u8" where "frame_seq f = f ! 4 AND NOT 0x80"

definition ctap_req :: "hid \<Rightarrow> bytes" where
  "ctap_req s = slice (h_req s) HID_RPT_SIZE (ub_buffer (h_rx s))"

section \<open>Sending\<close>

definition driver_write_hid :: "hid_env \<Rightarrow> bytes \<Rightarrow> hid \<Rightarrow> nat \<times> hid" where
  "driver_write_hid e bs s =
    (if length bs > 65535 then (0, s)
     else if h_wr s = WRITE_PENDING then (0, s)
     else if e_ready e then (min 64 (length bs), s\<lparr>h_wr := WRITE_PENDING, h_out := h_out s @ [bs]\<rparr>)
     else (0, s\<lparr>h_wr := WRITE_FAILED\<rparr>))"

definition hid_write_offset :: "u16 \<Rightarrow> u16 \<Rightarrow> hid \<Rightarrow> hid" where
  "hid_write_offset sz offset s =
     s\<lparr>h_tx := (h_tx s)\<lparr>ub_w := ub_w (h_tx s) + (sz + offset), ub_r := ub_r (h_tx s) + offset\<rparr>\<rparr>"

text \<open>The report at \<open>ctap_resp\<close>.\<close>

definition write_resp :: "hid_env \<Rightarrow> hid \<Rightarrow> hid option" where
  "write_resp e s = do {
     f \<leftarrow> mem_read (h_resp s) HID_RPT_SIZE (ub_buffer (h_tx s));
     Some (snd (driver_write_hid e f s)) }"

definition ctap_error :: "u8 \<Rightarrow> hid \<Rightarrow> hid option" where
  "ctap_error err s = do {
     s \<leftarrow> put_resp 0 (replicate HID_RPT_SIZE 0) s;
     s \<leftarrow> put_resp 0 (cid_bytes (frame_cid (ctap_req s))) s;
     s \<leftarrow> put_resp 4 [CTAPHID_ERROR] s;
     s \<leftarrow> put_resp 6 [1] s;
     s \<leftarrow> put_resp 7 [err] s;
     Some ((hid_write_offset 64 0 s)\<lparr>h_last_packet_time := 0\<rparr>) }"

definition driver_exec_finished_cont_hid :: "u16 \<Rightarrow> u16 \<Rightarrow> hid \<Rightarrow> hid option" where
  "driver_exec_finished_cont_hid size_next offset s =
    (let offset = offset - 7; s = s\<lparr>h_resp := unat offset\<rparr> in do {
       s \<leftarrow> put_resp 0 (cid_bytes (frame_cid (h_last_req s))) s;
       s \<leftarrow> put_resp 5 (put_uint16_be size_next) s;
       s \<leftarrow> Some (s\<lparr>h_send := size_next\<rparr>);
       s \<leftarrow> put_resp 4 [h_last_cmd s] s;
       Some (hid_write_offset (size_next + 7) offset s) })"

definition driver_exec_finished_hid :: "u16 \<Rightarrow> hid \<Rightarrow> hid option" where
  "driver_exec_finished_hid size_next s = do {
     s \<leftarrow> (if size_next > 0 then
         (if h_thread_type s = 2 \<and> sw (h_apdu s) \<noteq> 0 then ctap_error (ucast (sw (h_apdu s) AND 0xff)) s
          else do {
            s \<leftarrow> (if h_is_nk s then do {
                b \<leftarrow> mem_read (h_rdata s) (unat (size_next - 2)) (ub_buffer (h_tx s));
                s \<leftarrow> tx_write (h_rdata s + 2) b s;
                tx_write (h_rdata s) (put_uint16_be (sw (h_apdu s))) s }
              else Some s);
            driver_exec_finished_cont_hid size_next 7 s })
       else Some s);
     Some (s\<lparr>h_apdu := (h_apdu s)\<lparr>sw := 0\<rparr>\<rparr>) }"

text \<open>TinyUSB has sent the report \<open>r\<close>: the next piece of the response gets its header, over bytes
  that are already sent.\<close>

definition report_sent :: "bytes \<Rightarrow> hid \<Rightarrow> hid" where
  "report_sent r s =
    (if h_wr s = WRITE_PENDING then
       (let s = s\<lparr>h_wr := WRITE_SUCCESS\<rparr> in
        if is_init_frame r then
          (if frame_cmd r \<noteq> CTAPHID_KEEPALIVE then s\<lparr>h_send := h_send s - min 57 (h_send s)\<rparr> else s)
        else s\<lparr>h_send := h_send s - min 59 (h_send s)\<rparr>)
     else s)"

definition next_piece :: "bytes \<Rightarrow> hid \<Rightarrow> hid option" where
  "next_piece r s =
    (if h_wr s = WRITE_SUCCESS \<and> (\<not> is_init_frame r \<or> frame_cmd r \<noteq> CTAPHID_KEEPALIVE) then
       (if h_send s > 0 then do {
          s \<leftarrow> Some (s\<lparr>h_resp := h_resp s + 59\<rparr>);
          s \<leftarrow> put_resp 0 (take 4 r) s;
          s \<leftarrow> put_resp 4 [if is_init_frame r then 0 else frame_seq r + 1] s;
          Some (s\<lparr>h_tx := (h_tx s)\<lparr>ub_r := ub_r (h_tx s) + 59\<rparr>\<rparr>) }
        else Some (s\<lparr>h_tx := (h_tx s)\<lparr>ub_r := ub_r (h_tx s) + 64\<rparr>\<rparr>))
     else Some s)"

definition tud_hid_report_complete_cb :: "bytes \<Rightarrow> hid \<Rightarrow> hid option" where
  "tud_hid_report_complete_cb r s =
    (if length r = 64 then do {
       s \<leftarrow> next_piece r (report_sent r s);
       Some (if ub_r (h_tx s) \<ge> ub_w (h_tx s) then s\<lparr>h_tx := (h_tx s)\<lparr>ub_r := 0, ub_w := 0\<rparr>\<rparr> else s) }
     else Some s)"

text \<open>The keep-alive report is built in the last 64 bytes of the transmit buffer.\<close>

definition send_keepalive :: "hid_env \<Rightarrow> hid \<Rightarrow> hid option" where
  "send_keepalive e s =
    (if h_thread_type s = 1 \<or> h_cancel_button s then Some s
     else if h_last_keepalive s \<noteq> 0 \<and> e_now e - h_last_keepalive s < 250 then Some s
     else do {
       let off = USB_BUFFER_SIZE - 64;
       s \<leftarrow> tx_write off (cid_bytes (frame_cid (h_last_req s))) s;
       s \<leftarrow> tx_write (off + 4) [CTAPHID_KEEPALIVE] s;
       s \<leftarrow> tx_write (off + 6) [1] s;
       s \<leftarrow> tx_write (off + 7) [if e_button_pending e then 2 else 1] s;
       f \<leftarrow> mem_read off HID_RPT_SIZE (ub_buffer (h_tx s));
       let (n, s) = driver_write_hid e f s;
       Some (if n > 0 then s\<lparr>h_last_keepalive := e_now e\<rparr> else s) })"

section \<open>Receiving\<close>

definition driver_init_hid :: "hid \<Rightarrow> hid option" where
  "driver_init_hid s = do {
     s \<leftarrow> Some (s\<lparr>h_req := unat (ub_r (h_rx s)), h_resp := 0, h_rdata := 7\<rparr>);
     s \<leftarrow> put_resp 0 (replicate HID_RPT_SIZE 0) s;
     Some (s\<lparr>h_usb := usb_set_timeout_counter (itf_hid (u_itfs (h_usb s))) 200 (h_usb s), h_is_nk := False,
       h_tx := (h_tx s)\<lparr>ub_w := 0, ub_r := 0\<rparr>, h_send := 0\<rparr>) }"

fun allocate_cid_loop :: "nat \<Rightarrow> u32 \<Rightarrow> u32 \<times> u32" where
  "allocate_cid_loop fuel next =
    (let cid = next; next = next + 1;
         next = (if next = 0 \<or> next = CID_BROADCAST then 1 else next)
     in case fuel of
          0 \<Rightarrow> (cid, next)
        | Suc n \<Rightarrow> if cid = 0 \<or> cid = CID_BROADCAST then allocate_cid_loop n next else (cid, next))"

declare allocate_cid_loop.simps [simp del]

text \<open>A second round always gives a usable number, so the loop is unrolled twice.\<close>

definition allocate_cid :: "hid \<Rightarrow> u32 \<times> hid" where
  "allocate_cid s = (case allocate_cid_loop 2 (h_next_cid s) of (cid, next) \<Rightarrow> (cid, s\<lparr>h_next_cid := next\<rparr>))"

datatype recv = Recv_Ignore | Recv_Error u8 | Recv_Go

definition msg_reset :: "hid \<Rightarrow> hid" where
  "msg_reset s = s\<lparr>h_msg_len := 0, h_msg_cur := 0\<rparr>"

definition receive_init :: "hid_env \<Rightarrow> bytes \<Rightarrow> hid \<Rightarrow> (recv \<times> hid) option" where
  "receive_init e f s =
    (if MSG_LEN f > CTAP_MAX_PACKET_SIZE then Some (Recv_Error CTAP1_ERR_INVALID_LEN, s)
     else if h_msg_len s > 0 \<and> h_last_cmd_time s + 100 > e_now e \<and> frame_cmd f \<noteq> CTAPHID_INIT then
       (if frame_cid (h_last_req s) \<noteq> frame_cid f then Some (Recv_Error CTAP1_ERR_CHANNEL_BUSY, s)
        else Some (Recv_Error CTAP1_ERR_INVALID_SEQ, s))
     else do {
       s \<leftarrow> Some (msg_reset s);
       s \<leftarrow> (if MSG_LEN f > 57 then do {
           s \<leftarrow> Some (s\<lparr>h_msg_len := word_of_nat (MSG_LEN f)\<rparr>);
           b \<leftarrow> mem_write (unat (h_msg_cur s)) (slice 7 57 f) (h_msg s);
           Some (s\<lparr>h_msg := b, h_msg_cur := h_msg_cur s + 57\<rparr>) }
         else Some s);
       Some (Recv_Go, s\<lparr>h_last_req := f, h_last_cmd := frame_cmd f, h_last_seq := 0, h_last_cmd_time := e_now e\<rparr>) })"

definition receive_cont :: "hid_env \<Rightarrow> bytes \<Rightarrow> hid \<Rightarrow> (recv \<times> hid) option" where
  "receive_cont e f s =
    (if h_last_seq s \<noteq> f ! 4 then Some (Recv_Error CTAP1_ERR_INVALID_SEQ, s)
     else if frame_cid (h_last_req s) = frame_cid f then do {
       let n = min 59 (unat (h_msg_len s) - unat (h_msg_cur s));
       b \<leftarrow> mem_write (unat (h_msg_cur s)) (slice 5 n f) (h_msg s);
       Some (Recv_Go, s\<lparr>h_msg := b, h_msg_cur := h_msg_cur s + word_of_nat n, h_last_req := f,
         h_last_seq := h_last_seq s + 1\<rparr>) }
     else if h_last_cmd_time s + 100 > e_now e then Some (Recv_Error CTAP1_ERR_CHANNEL_BUSY, s)
     else Some (Recv_Go, s))"

definition hid_receive :: "hid_env \<Rightarrow> bytes \<Rightarrow> hid \<Rightarrow> (recv \<times> hid) option" where
  "hid_receive e f s =
    (if \<not> is_init_frame f \<and> h_msg_len s = 0 then Some (Recv_Ignore, s\<lparr>h_last_packet_time := 0\<rparr>)
     else if frame_cid f = 0 \<or> (frame_cid f = CID_BROADCAST \<and> (\<not> is_init_frame f \<or> frame_cmd f \<noteq> CTAPHID_INIT))
       then Some (Recv_Error CTAP1_ERR_INVALID_CHANNEL, s)
     else if e_now e < h_lock s \<and> frame_cid f \<noteq> h_lock_cid s \<and>
         \<not> (frame_cid f = CID_BROADCAST \<and> frame_cmd f = CTAPHID_INIT)
       then Some (Recv_Error CTAP1_ERR_CHANNEL_BUSY, s)
     else if is_init_frame f \<and> frame_cmd f = CTAPHID_CANCEL then
       Some (Recv_Ignore,
         if MSG_LEN f = 0 \<and> is_busy (h_usb s) \<and> h_last_cmd s = CTAPHID_CBOR \<and> frame_cid f = frame_cid (h_last_req s)
         then s\<lparr>h_cancel_button := True\<rparr> else s)
     else if is_init_frame f then receive_init e f s
     else receive_cont e f s)"

section \<open>Commands\<close>

text \<open>A message is there: a short one in the frame itself, or a long one that is complete.\<close>

definition msg_complete :: "hid \<Rightarrow> bool" where
  "msg_complete s \<longleftrightarrow> h_msg_len s = 0 \<or> (h_msg_len s = h_msg_cur s \<and> h_msg_len s > 0)"

definition long_message :: "hid \<Rightarrow> bool" where
  "long_message s \<longleftrightarrow> h_msg_cur s = h_msg_len s \<and> h_msg_len s > 0"

definition message :: "bytes \<Rightarrow> hid \<Rightarrow> bytes" where
  "message f s = (if long_message s then take (unat (h_msg_len s)) (h_msg s) else slice 7 (MSG_LEN f) f)"

definition finish_cmd :: "hid \<Rightarrow> hid" where
  "finish_cmd s = (msg_reset s)\<lparr>h_last_packet_time := 0\<rparr>"

definition cmd_init :: "hid_env \<Rightarrow> bytes \<Rightarrow> hid \<Rightarrow> hid option" where
  "cmd_init e f s = do {
     s \<leftarrow> Some (s\<lparr>h_usb := card_exit (h_usb s), h_tx := (h_tx s)\<lparr>ub_r := 0, ub_w := 0\<rparr>,
       h_fido_inits := h_fido_inits s + 1\<rparr>);
     s \<leftarrow> put_resp 7 (slice 7 8 f) s;
     let (cid, s) = (if frame_cid f = CID_BROADCAST then allocate_cid s else (frame_cid f, s));
     s \<leftarrow> put_resp 15 (cid_bytes cid) s;
     s \<leftarrow> put_resp 19 [2, fst (e_version e), snd (e_version e)] s;
     s \<leftarrow> put_resp 23 [0x05] s;
     s \<leftarrow> put_resp 0 (cid_bytes (frame_cid f)) s;
     s \<leftarrow> put_resp 4 [CTAPHID_INIT, 0, 17] s;
     s \<leftarrow> write_resp e s;
     Some (finish_cmd s) }"

definition cmd_wink :: "hid_env \<Rightarrow> bytes \<Rightarrow> hid \<Rightarrow> hid option" where
  "cmd_wink e f s =
    (if MSG_LEN f \<noteq> 0 then ctap_error CTAP1_ERR_INVALID_LEN s
     else do {
       s \<leftarrow> put_resp 0 f (s\<lparr>h_last_packet_time := 0\<rparr>);
       s \<leftarrow> write_resp e s;
       Some (msg_reset s) })"

definition cmd_ping :: "hid_env \<Rightarrow> bytes \<Rightarrow> hid \<Rightarrow> hid option" where
  "cmd_ping e f s = do {
     s \<leftarrow> (if long_message s then do {
         s \<leftarrow> put_resp 7 (take (unat (h_msg_len s)) (h_msg s)) s;
         driver_exec_finished_hid (h_msg_len s) s }
       else do {
         s \<leftarrow> put_resp 7 (slice 7 (MSG_LEN f) f) s;
         s \<leftarrow> put_resp 0 (cid_bytes (frame_cid f)) s;
         s \<leftarrow> put_resp 4 (h_last_cmd s # put_uint16_be (word_of_nat (MSG_LEN f))) s;
         write_resp e s });
     Some (finish_cmd s) }"

definition answer :: "hid_env \<Rightarrow> bytes \<Rightarrow> hid \<Rightarrow> hid option" where
  "answer e f s = do {
     s \<leftarrow> put_resp 0 (cid_bytes (frame_cid f)) s;
     put_resp 4 [frame_cmd f] s }"

definition cmd_lock :: "hid_env \<Rightarrow> bytes \<Rightarrow> hid \<Rightarrow> hid option" where
  "cmd_lock e f s =
    (if MSG_LEN f \<noteq> 1 then ctap_error CTAP1_ERR_INVALID_LEN s
     else if f ! 7 > 10 then ctap_error CTAP1_ERR_INVALID_PARAMETER s
     else if e_now e < h_lock s \<and> frame_cid f \<noteq> h_lock_cid s then ctap_error CTAP1_ERR_CHANNEL_BUSY s
     else do {
       s \<leftarrow> Some (if f ! 7 = 0 then s\<lparr>h_lock := 0, h_lock_cid := 0\<rparr>
            else s\<lparr>h_lock := e_now e + ucast (f ! 7) * 1000, h_lock_cid := frame_cid f\<rparr>);
       s \<leftarrow> answer e f s;
       s \<leftarrow> write_resp e s;
       Some (finish_cmd s) })"

definition cmd_uuid :: "hid_env \<Rightarrow> bytes \<Rightarrow> hid \<Rightarrow> hid option" where
  "cmd_uuid e f s = do {
     s \<leftarrow> answer e f s;
     s \<leftarrow> put_resp 7 (e_serial e) s;
     s \<leftarrow> put_resp 6 [16] s;
     s \<leftarrow> write_resp e s;
     Some (finish_cmd s) }"

definition cmd_version :: "hid_env \<Rightarrow> bytes \<Rightarrow> hid \<Rightarrow> hid option" where
  "cmd_version e f s = do {
     s \<leftarrow> answer e f s;
     s \<leftarrow> put_resp 7 [9, 0] s;
     s \<leftarrow> put_resp 6 [4] s;
     s \<leftarrow> write_resp e s;
     Some (finish_cmd s) }"

definition cmd_admin :: "hid_env \<Rightarrow> bytes \<Rightarrow> hid \<Rightarrow> hid option" where
  "cmd_admin e f s = do {
     s \<leftarrow> answer e f s;
     s \<leftarrow> (if f ! 7 = 0x80 then do {
         s \<leftarrow> put_resp 7 [0x00, 0xff, 0xff, 0xff, 0x00] s;
         put_resp 6 [5] s }
       else Some s);
     s \<leftarrow> write_resp e s;
     Some (finish_cmd s) }"

text \<open>
  The APDU layer works on its response buffer, which is the transmit buffer from \<open>h_rdata\<close> on.
\<close>

definition with_apdu :: "(apdu_state \<Rightarrow> 'a \<times> apdu_state) \<Rightarrow> hid \<Rightarrow> 'a \<times> hid" where
  "with_apdu f s =
    (let b = ub_buffer (h_tx s);
         (x, a) = f ((h_apdu s)\<lparr>rdata := drop (h_rdata s) b\<rparr>)
     in (x, s\<lparr>h_apdu := a, h_tx := (h_tx s)\<lparr>ub_buffer := take (h_rdata s) b @ rdata a\<rparr>\<rparr>))"

definition hid_apdu_process :: "bytes \<Rightarrow> hid \<Rightarrow> (nat \<times> hid) option" where
  "hid_apdu_process b s =
    (let g = rdata_gr (h_apdu s);
         ((new, piece), s) = with_apdu (\<lambda>a. case apdu_process (Some b) a of (new, piece, a) \<Rightarrow> ((new, piece), a)) s
     in case piece of
          None \<Rightarrow> Some (if new then 1 else 0, s)
        | Some p \<Rightarrow> do {
            s \<leftarrow> driver_exec_finished_cont_hid (word_of_nat (length p)) (word_of_nat (the g))
              (s\<lparr>h_usb := timeout_stop (h_usb s)\<rparr>);
            Some (0, s) })"

definition hid_select :: "hid_env \<Rightarrow> bytes \<Rightarrow> hid \<Rightarrow> hid" where
  "hid_select e aid s = snd (with_apdu (select_app (e_ops e) aid) s)"

definition cmd_msg :: "hid_env \<Rightarrow> bytes \<Rightarrow> hid \<Rightarrow> (nat \<times> hid) option" where
  "cmd_msg e f s = do {
     s \<leftarrow> Some (if h_last_cmd s = CTAPHID_OTP then hid_select e (e_oath_aid e) (s\<lparr>h_is_nk := True\<rparr>)
          else hid_select e (e_u2f_aid e) s);
     (sent, s) \<leftarrow> hid_apdu_process (message f s) (s\<lparr>h_thread_type := 1\<rparr>);
     Some (sent, finish_cmd s) }"

text \<open>\<open>cbor_process\<close> copies the request out of the receive storage; \<open>None\<close> of the inner option is the
  negative return value.\<close>

definition cbor_process :: "u8 \<Rightarrow> bytes \<Rightarrow> hid \<Rightarrow> hid option option" where
  "cbor_process cmd data s =
    (if length data > CTAP_MAX_PACKET_SIZE then Some None
     else do {
       b \<leftarrow> mem_write 0 data (h_cbor_request s);
       s \<leftarrow> put_resp 7 [0] (s\<lparr>h_cbor_request := b, h_cbor_len := length data, h_cbor_cmd := cmd\<rparr>);
       Some (Some (s\<lparr>h_rdata := h_resp s + 8, h_apdu := (h_apdu s)\<lparr>rlen := 0\<rparr>\<rparr>)) })"

definition cmd_cbor :: "hid_env \<Rightarrow> bytes \<Rightarrow> hid \<Rightarrow> (nat \<times> hid) option" where
  "cmd_cbor e f s = do {
     s \<leftarrow> Some (hid_select e (e_fido_aid e) (s\<lparr>h_thread_type := 2, h_cancel_button := False\<rparr>));
     r \<leftarrow> cbor_process (h_last_cmd s) (message f s) s;
     (case r of
        None \<Rightarrow> do { s \<leftarrow> ctap_error CTAP1_ERR_INVALID_LEN (finish_cmd s); Some (0, s) }
      | Some s \<Rightarrow> do {
          s \<leftarrow> send_keepalive e ((finish_cmd s)\<lparr>h_last_keepalive := 0\<rparr>);
          Some (2, s) }) }"

text \<open>The number is the value the driver returns: 1 and 2 start the worker of APDU and CBOR commands.\<close>

definition hid_dispatch :: "hid_env \<Rightarrow> bytes \<Rightarrow> hid \<Rightarrow> (nat \<times> hid) option" where
  "hid_dispatch e f s =
    (if frame_cmd f = CTAPHID_INIT then map_option (Pair 0) (cmd_init e f s)
     else if frame_cmd f = CTAPHID_WINK then map_option (Pair 0) (cmd_wink e f s)
     else if (h_last_cmd s = CTAPHID_PING \<or> h_last_cmd s = CTAPHID_SYNC) \<and> msg_complete s
       then map_option (Pair 0) (cmd_ping e f s)
     else if frame_cmd f = CTAPHID_LOCK then map_option (Pair 0) (cmd_lock e f s)
     else if frame_cmd f = CTAPHID_UUID then map_option (Pair 0) (cmd_uuid e f s)
     else if frame_cmd f = CTAPHID_VERSION then map_option (Pair 0) (cmd_version e f s)
     else if frame_cmd f = CTAPHID_ADMIN then map_option (Pair 0) (cmd_admin e f s)
     else if (h_last_cmd s = CTAPHID_MSG \<or> h_last_cmd s = CTAPHID_OTP) \<and> msg_complete s then cmd_msg e f s
     else if (h_last_cmd s = CTAPHID_CBOR \<or> h_last_cmd s \<ge> CTAPHID_VENDOR_FIRST) \<and> msg_complete s then cmd_cbor e f s
     else if h_msg_len s = 0 then map_option (Pair 0) (ctap_error CTAP1_ERR_INVALID_CMD s)
     else Some (0, s))"

definition start_worker :: "hid_env \<Rightarrow> nat \<Rightarrow> hid \<Rightarrow> hid" where
  "start_worker e sent s =
    (if sent > 0 then
       (let u = h_usb s; itf = itf_hid (u_itfs u);
            u = (if sent = 1 then card_start (e_now e) itf (Some Apdu_Thread) u
                 else if sent = 2 then card_start (e_now e) itf (Some Cbor_Thread) u else u)
        in s\<lparr>h_usb := usb_send_cmd (e_now e) u\<rparr>)
     else s)"

definition driver_process_usb_packet_hid :: "hid_env \<Rightarrow> nat \<Rightarrow> hid \<Rightarrow> (nat \<times> hid) option" where
  "driver_process_usb_packet_hid e read s =
    (if read = HID_RPT_SIZE then do {
       s \<leftarrow> driver_init_hid s;
       let r = ub_r (h_rx s) + 64;
       s \<leftarrow> Some (s\<lparr>h_rx := (if r \<ge> ub_w (h_rx s) then (h_rx s)\<lparr>ub_r := 0, ub_w := 0\<rparr> else (h_rx s)\<lparr>ub_r := r\<rparr>),
         h_last_packet_time := e_now e\<rparr>);
       let f = ctap_req s;
       (r, s) \<leftarrow> hid_receive e f s;
       (case r of
          Recv_Ignore \<Rightarrow> Some (0, s)
        | Recv_Error err \<Rightarrow> map_option (Pair 0) (ctap_error err s)
        | Recv_Go \<Rightarrow> do {
            (sent, s) \<leftarrow> hid_dispatch e f s;
            Some (sent, start_worker e sent s) }) }
     else Some (0, s))"

definition driver_process_usb_nopacket_hid :: "hid_env \<Rightarrow> hid \<Rightarrow> hid option" where
  "driver_process_usb_nopacket_hid e s =
    (if h_last_packet_time s > 0 \<and> h_last_packet_time s + 500 < e_now e then do {
       s \<leftarrow> ctap_error CTAP1_ERR_MSG_TIMEOUT s;
       Some (msg_reset (s\<lparr>h_last_packet_time := 0\<rparr>)) }
     else Some s)"

text \<open>An output report on the CTAP instance (the OTP application takes feature reports only).\<close>

definition tud_hid_set_report_cb :: "hid_env \<Rightarrow> bytes \<Rightarrow> hid \<Rightarrow> hid option" where
  "tud_hid_set_report_cb e buffer s =
    (if length buffer \<noteq> HID_RPT_SIZE then Some s
     else do {
       b \<leftarrow> mem_write (unat (ub_w (h_rx s))) buffer (ub_buffer (h_rx s));
       (n, s) \<leftarrow> driver_process_usb_packet_hid e HID_RPT_SIZE
         (s\<lparr>h_rx := (h_rx s)\<lparr>ub_buffer := b, ub_w := ub_w (h_rx s) + 64\<rparr>\<rparr>);
       if n = 0 then driver_process_usb_nopacket_hid e s else Some s })"

text \<open>
  \<open>hid_task\<close> without the keyboard; \<open>due\<close> says that the worker's queue is polled in this round, and
  \<open>finished\<close> is \<open>finished_data_size\<close>.
\<close>

definition hid_task :: "hid_env \<Rightarrow> bool \<Rightarrow> u16 \<Rightarrow> hid \<Rightarrow> hid option" where
  "hid_task e due finished s = do {
     s \<leftarrow> driver_process_usb_nopacket_hid e s;
     s \<leftarrow> (if due then
         (case card_status (e_now e) (itf_hid (u_itfs (h_usb s))) (h_usb s) of
            (Card_Finished, u) \<Rightarrow> driver_exec_finished_hid finished (s\<lparr>h_usb := u\<rparr>)
          | (Card_Blocked, u) \<Rightarrow> send_keepalive e (s\<lparr>h_usb := u\<rparr>)
          | (_, u) \<Rightarrow> Some (s\<lparr>h_usb := u\<rparr>))
       else Some s);
     if ub_w (h_tx s) > ub_r (h_tx s) \<and> h_wr s \<noteq> WRITE_PENDING then do {
       f \<leftarrow> mem_read (unat (ub_r (h_tx s))) 64 (ub_buffer (h_tx s));
       Some (snd (driver_write_hid e f s)) }
     else Some s }"
section \<open>The arrival of a report\<close>

lemma mem_write_ok [simp]: "off + length bs \<le> length buf \<Longrightarrow> mem_write off bs buf = Some (buf_write off bs buf)"
  by (simp add: mem_write_def)

lemma mem_read_ok [simp]: "off + n \<le> length buf \<Longrightarrow> mem_read off n buf = Some (slice off n buf)"
  by (simp add: mem_read_def)

definition put_tx :: "nat \<Rightarrow> bytes \<Rightarrow> hid \<Rightarrow> hid" where
  "put_tx off bs s = s\<lparr>h_tx := (h_tx s)\<lparr>ub_buffer := buf_write off bs (ub_buffer (h_tx s))\<rparr>\<rparr>"

lemma tx_write_ok:
  "off + length bs \<le> length (ub_buffer (h_tx s)) \<Longrightarrow> tx_write off bs s = Some (put_tx off bs s)"
  by (simp add: tx_write_def put_tx_def)

lemma put_resp_ok:
  "h_resp s + off + length bs \<le> length (ub_buffer (h_tx s)) \<Longrightarrow> put_resp off bs s = Some (put_tx (h_resp s + off) bs s)"
  by (simp add: put_resp_def tx_write_ok)

lemma length_cid_bytes [simp]: "length (cid_bytes c) = 4"
  by (simp add: cid_bytes_def)

lemma frame_cid_bytes [simp]: "frame_cid (cid_bytes c @ rest) = c"
  by (simp add: frame_cid_def cid_bytes_def)

text \<open>The buffers have their sizes, and no received report is left over.\<close>

definition hid_bufs :: "hid \<Rightarrow> bool" where
  "hid_bufs s \<longleftrightarrow> length (ub_buffer (h_rx s)) = USB_BUFFER_SIZE \<and> length (ub_buffer (h_tx s)) = USB_BUFFER_SIZE \<and>
     ub_r (h_rx s) = 0 \<and> ub_w (h_rx s) = 0 \<and> length (h_msg s) = CTAP_MAX_PACKET_SIZE \<and>
     length (h_cbor_request s) = CTAP_MAX_PACKET_SIZE"

text \<open>The driver's state once a report has been taken in, before it is interpreted.\<close>

definition arrive :: "hid_env \<Rightarrow> bytes \<Rightarrow> hid \<Rightarrow> hid" where
  "arrive e f s = s\<lparr>h_rx := \<lparr>ub_buffer = buf_write 0 f (ub_buffer (h_rx s)), ub_r = 0, ub_w = 0\<rparr>,
     h_req := 0, h_resp := 0, h_rdata := 7,
     h_tx := \<lparr>ub_buffer = buf_write 0 (replicate HID_RPT_SIZE 0) (ub_buffer (h_tx s)), ub_r = 0, ub_w = 0\<rparr>,
     h_usb := usb_set_timeout_counter (itf_hid (u_itfs (h_usb s))) 200 (h_usb s), h_is_nk := False, h_send := 0,
     h_last_packet_time := e_now e\<rparr>"

definition handle_report :: "hid_env \<Rightarrow> bytes \<Rightarrow> hid \<Rightarrow> (nat \<times> hid) option" where
  "handle_report e f s = do {
     (r, s) \<leftarrow> hid_receive e f s;
     (case r of
        Recv_Ignore \<Rightarrow> Some (0, s)
      | Recv_Error err \<Rightarrow> map_option (Pair 0) (ctap_error err s)
      | Recv_Go \<Rightarrow> do {
          (sent, s) \<leftarrow> hid_dispatch e f s;
          Some (sent, start_worker e sent s) }) }"

lemma slice_written: "slice 0 (length f) (buf_write 0 f buf) = f"
  by (simp add: slice_def buf_write_def)

lemma set_report_taken:
  assumes "length (ub_buffer (h_rx s)) = USB_BUFFER_SIZE" "ub_r (h_rx s) = 0" "ub_w (h_rx s) = 0"
    "64 \<le> length (ub_buffer (h_tx s))" "length f = HID_RPT_SIZE"
  shows "tud_hid_set_report_cb e f s = do {
    (n, s) \<leftarrow> handle_report e f (arrive e f s);
    if n = 0 then driver_process_usb_nopacket_hid e s else Some s }"
proof -
  let ?s = "s\<lparr>h_rx := (h_rx s)\<lparr>ub_buffer := buf_write 0 f (ub_buffer (h_rx s)), ub_w := 64\<rparr>\<rparr>"
  let ?t = "(put_tx 0 (replicate HID_RPT_SIZE 0) (?s\<lparr>h_req := 0, h_resp := 0, h_rdata := 7\<rparr>))"
  let ?t = "?t\<lparr>h_usb := usb_set_timeout_counter (itf_hid (u_itfs (h_usb s))) 200 (h_usb s), h_is_nk := False,
       h_tx := (h_tx ?t)\<lparr>ub_w := 0, ub_r := 0\<rparr>, h_send := 0\<rparr>"
  have i: "driver_init_hid ?s = Some ?t" "ub_r (h_rx ?t) + 64 \<ge> ub_w (h_rx ?t)"
    using assms by (simp_all add: driver_init_hid_def put_resp_ok put_tx_def hid_bufs_def)
  have r: "?t\<lparr>h_rx := (h_rx ?t)\<lparr>ub_r := 0, ub_w := 0\<rparr>, h_last_packet_time := e_now e\<rparr> = arrive e f s"
    by (simp add: arrive_def put_tx_def)
  have c: "ctap_req (arrive e f s) = f"
    using assms slice_written [of f "ub_buffer (h_rx s)"] by (simp add: arrive_def ctap_req_def)
  have a: "driver_process_usb_packet_hid e HID_RPT_SIZE ?s = handle_report e f (arrive e f s)"
    unfolding driver_process_usb_packet_hid_def i(1) Let_def bind.bind_lunit if_P [OF i(2)] r c handle_report_def
    by simp
  then show ?thesis using assms by (simp add: tud_hid_set_report_cb_def hid_bufs_def)
qed

lemma set_report_arrive:
  assumes "hid_bufs s" "length f = HID_RPT_SIZE"
  shows "tud_hid_set_report_cb e f s = do {
    (n, s) \<leftarrow> handle_report e f (arrive e f s);
    if n = 0 then driver_process_usb_nopacket_hid e s else Some s }"
  using assms by (intro set_report_taken) (simp_all add: hid_bufs_def)

lemma arrive_frame [simp]:
  "h_msg_len (arrive e f s) = h_msg_len s" "h_msg_cur (arrive e f s) = h_msg_cur s" "h_msg (arrive e f s) = h_msg s"
  "h_last_cmd (arrive e f s) = h_last_cmd s" "h_last_seq (arrive e f s) = h_last_seq s" "h_last_req (arrive e f s) = h_last_req s"
  "h_lock (arrive e f s) = h_lock s" "h_lock_cid (arrive e f s) = h_lock_cid s" "h_last_cmd_time (arrive e f s) = h_last_cmd_time s"
  "h_last_packet_time (arrive e f s) = e_now e" "h_cbor_request (arrive e f s) = h_cbor_request s" "h_resp (arrive e f s) = 0"
  by (simp_all add: arrive_def)

lemma arrive_bufs: "hid_bufs s \<Longrightarrow> length f = HID_RPT_SIZE \<Longrightarrow> hid_bufs (arrive e f s)"
  by (simp add: hid_bufs_def arrive_def)
section \<open>Messages in reports\<close>

text \<open>
  How CTAPHID cuts a message into reports (the last one may be followed by any padding): this is the
  reference both directions of the driver are compared with.
\<close>

function cont_frames :: "u32 \<Rightarrow> nat \<Rightarrow> bytes \<Rightarrow> bytes list" where
  "cont_frames c k data =
    (if data = [] then []
     else (cid_bytes c @ [word_of_nat k] @ take 59 data) # cont_frames c (Suc k) (drop 59 data))"
  by auto
termination by (relation "measure (\<lambda>(c, k, data). length data)") auto

declare cont_frames.simps [simp del]

definition init_frame :: "u32 \<Rightarrow> u8 \<Rightarrow> bytes \<Rightarrow> bytes" where
  "init_frame c cmd data = cid_bytes c @ [cmd] @ put_uint16_be (word_of_nat (length data)) @ take 57 data"

definition fragment :: "u32 \<Rightarrow> u8 \<Rightarrow> bytes \<Rightarrow> bytes list" where
  "fragment c cmd data = init_frame c cmd data # cont_frames c 0 (drop 57 data)"

definition carries :: "bytes \<Rightarrow> bytes \<Rightarrow> bool" where
  "carries f g \<longleftrightarrow> length f = HID_RPT_SIZE \<and> take (length g) f = g"

lemma carries_append: "carries f (g @ h) \<Longrightarrow> carries f g \<and> slice (length g) (length h) f = h"
proof -
  assume a: "carries f (g @ h)"
  then have t: "take (length g + length h) f = g @ h" by (simp add: carries_def)
  have "take (length g) f = take (length g) (take (length g + length h) f)" by simp
  moreover have "slice (length g) (length h) f = drop (length g) (take (length g + length h) f)"
    by (simp add: slice_def drop_take)
  ultimately show ?thesis using a unfolding t by (simp add: carries_def)
qed

lemma carries_nth: "carries f g \<Longrightarrow> i < length g \<Longrightarrow> f ! i = g ! i"
  unfolding carries_def by (metis nth_take)

lemma carries_cid: "carries f (cid_bytes c @ g) \<Longrightarrow> frame_cid f = c"
  using carries_append [of f "cid_bytes c" g]
  by (simp add: carries_def frame_cid_def) (simp add: cid_bytes_def)

lemma unat_make_uint16: "unat (make_uint16_be a b) = unat a * 256 + unat b"
proof -
  have "push_bit 8 (ucast a :: u16) AND ucast b = 0"
    by (rule bit_eqI) (auto simp: bit_simps bit_u8_out)
  then have "make_uint16_be a b = push_bit 8 (ucast a) + ucast b"
    by (simp add: make_uint16_be_def disjunctive_add_eq_or)
  moreover have "unat (ucast x :: u16) = unat x" for x :: u8
    using unsigned_less [of x, where 'a = nat] by (simp add: unsigned_ucast_eq take_bit_nat_eq_self)
  moreover have "unat a < 256" "unat b < 256" using unsigned_less [of a] unsigned_less [of b] by simp_all
  ultimately show ?thesis
    by (simp add: push_bit_eq_mult unat_word_ariths)
qed

lemma carries_init:
  assumes "carries f (init_frame c cmd data)" "length data \<le> CTAP_MAX_PACKET_SIZE"
  shows "frame_cid f = c" "frame_cmd f = cmd" "MSG_LEN f = length data" "slice 7 (min 57 (length data)) f = take 57 data"
proof -
  show "frame_cid f = c" using assms(1) carries_cid by (simp add: init_frame_def)
  have n: "put_uint16_be (word_of_nat (length data)) ! 0 = f ! 5" "put_uint16_be (word_of_nat (length data)) ! 1 = f ! 6"
    using carries_nth [OF assms(1), of 5] carries_nth [OF assms(1), of 6]
    by (simp_all add: init_frame_def nth_append)
  show "frame_cmd f = cmd" using carries_nth [OF assms(1), of 4] by (simp add: init_frame_def nth_append frame_cmd_def)
  define w :: u16 where "w = word_of_nat (length data)"
  have u: "unat w = length data" using assms(2) by (simp add: w_def unat_of_nat)
  have "get_uint16_be (put_uint16_be w) = w" by simp
  then have "unat (make_uint16_be (f ! 5) (f ! 6)) = length data"
    using n u by (simp add: get_uint16_be_def flip: w_def)
  moreover have "unat (make_uint16_be a b) = unat a * 256 + unat b" for a b
    by (rule unat_make_uint16)
  ultimately show "MSG_LEN f = length data" by (simp add: MSG_LEN_def)
  show "slice 7 (min 57 (length data)) f = take 57 data"
    using carries_append [of f "cid_bytes c @ [cmd] @ put_uint16_be (word_of_nat (length data))" "take 57 data"] assms(1)
    by (simp add: init_frame_def min.commute)
qed

lemma carries_cont:
  assumes "carries f (cid_bytes c @ [b] @ g)"
  shows "frame_cid f = c" "f ! 4 = b" "slice 5 (length g) f = g"
  using carries_cid [of f c "[b] @ g"] carries_nth [OF assms, of 4] assms
    carries_append [of f "cid_bytes c @ [b]" g] by (simp_all add: nth_append)
section \<open>Reassembly\<close>

lemma low_seq: "k < 128 \<Longrightarrow> (word_of_nat k :: u8) AND 0x80 = 0"
proof -
  assume k: "k < 128"
  have "\<not> bit k 7" using k by (simp add: bit_iff_odd)
  then show ?thesis using and_exp_eq_0_iff_not_bit [of "word_of_nat k :: u8" 7]
    by (simp add: bit_simps)
qed

lemma cont_not_init: "k < 128 \<Longrightarrow> f ! 4 = word_of_nat k \<Longrightarrow> \<not> is_init_frame f"
  by (simp add: is_init_frame_def low_seq)

text \<open>The channel may send: it is a real channel, and no other channel holds the lock.\<close>

definition may_send :: "hid_env \<Rightarrow> u32 \<Rightarrow> hid \<Rightarrow> bool" where
  "may_send e c s \<longleftrightarrow> c \<noteq> 0 \<and> c \<noteq> CID_BROADCAST \<and> (e_now e < h_lock s \<longrightarrow> c = h_lock_cid s)"

text \<open>\<open>k\<close> continuation reports of the message have arrived.\<close>

definition collected :: "nat \<Rightarrow> nat" where "collected k = 57 + 59 * k"

definition collecting :: "u32 \<Rightarrow> u8 \<Rightarrow> nat \<Rightarrow> bytes \<Rightarrow> hid \<Rightarrow> bool" where
  "collecting c cmd k data s \<longleftrightarrow> hid_bufs s \<and> unat (h_msg_len s) = length data \<and>
     length data \<le> CTAP_MAX_PACKET_SIZE \<and> collected k < length data \<and> unat (h_msg_cur s) = collected k \<and>
     take (collected k) (h_msg s) = take (collected k) data \<and> frame_cid (h_last_req s) = c \<and>
     h_last_cmd s = cmd \<and> h_last_seq s = word_of_nat k"

text \<open>The last report of the message has arrived.\<close>

definition collected_all :: "u32 \<Rightarrow> u8 \<Rightarrow> bytes \<Rightarrow> hid \<Rightarrow> bool" where
  "collected_all c cmd data s \<longleftrightarrow> hid_bufs s \<and> unat (h_msg_len s) = length data \<and> 57 < length data \<and>
     length data \<le> CTAP_MAX_PACKET_SIZE \<and>
     h_msg_cur s = h_msg_len s \<and> take (length data) (h_msg s) = data \<and> frame_cid (h_last_req s) = c \<and> h_last_cmd s = cmd"

lemma take_buf_write:
  assumes "off + length bs \<le> length buf" "take off buf = take off xs" "take (length bs) (drop off xs) = bs"
  shows "take (off + length bs) (buf_write off bs buf) = take (off + length bs) xs"
proof -
  have "take (off + length bs) (buf_write off bs buf) = take off buf @ bs"
    using assms(1) by (simp add: buf_write_def)
  also have "\<dots> = take (off + length bs) xs" using assms(2,3) by (simp add: take_add)
  finally show ?thesis .
qed

lemma receive_cont_go:
  assumes "collecting c cmd k data s" "may_send e c s"
    "carries f (cid_bytes c @ [word_of_nat k] @ take 59 (drop (collected k) data))"
  shows "\<exists>s'. hid_receive e f s = Some (Recv_Go, s') \<and> \<not> is_init_frame f \<and> frame_cmd f = word_of_nat k \<and>
    h_last_packet_time s' = h_last_packet_time s \<and> h_lock s' = h_lock s \<and> h_lock_cid s' = h_lock_cid s \<and>
    h_usb s' = h_usb s \<and> h_resp s' = h_resp s \<and> h_out s' = h_out s \<and> h_wr s' = h_wr s \<and> h_apdu s' = h_apdu s \<and>
    h_rdata s' = h_rdata s \<and>
    (if collected (Suc k) < length data then collecting c cmd (Suc k) data s' else collected_all c cmd data s')"
proof -
  let ?g = "take 59 (drop (collected k) data)" and ?n = "min 59 (length data - collected k)"
  note col = assms(1) [unfolded collecting_def]
  note f = carries_cont [OF assms(3)]
  have k: "k < 128" using col by (simp add: collected_def)
  have ni: "\<not> is_init_frame f" using f(2) k by (rule cont_not_init [rotated])
  have nz: "h_msg_len s \<noteq> 0" using col by auto
  define s' where "s' = s\<lparr>h_msg := buf_write (collected k) ?g (h_msg s), h_msg_cur := h_msg_cur s + word_of_nat ?n,
    h_last_req := f, h_last_seq := h_last_seq s + 1\<rparr>"
  have fits: "collected k + length ?g \<le> length (h_msg s)" using col by (auto simp: hid_bufs_def min_def)
  have len: "length ?g = ?n" by (simp add: min.commute)
  have "hid_receive e f s = receive_cont e f s"
    using ni nz f(1) assms(2) by (auto simp: hid_receive_def may_send_def)
  also have "\<dots> = Some (Recv_Go, s')"
    using col f len fits by (simp add: receive_cont_def s'_def Let_def)
  finally have go: "hid_receive e f s = Some (Recv_Go, s')" .
  have cur: "unat (h_msg_cur s') = collected k + ?n"
  proof -
    have "unat (word_of_nat ?n :: u16) = ?n" by (simp add: unat_of_nat)
    moreover have "collected k + ?n < 65536" using col by (auto simp: min_def)
    ultimately show ?thesis using col by (simp add: s'_def unat_word_ariths)
  qed
  have bufs: "hid_bufs s'" using col fits by (simp add: hid_bufs_def s'_def)
  have pre: "take (collected k + ?n) (h_msg s') = take (collected k + ?n) data"
  proof -
    have "take (length ?g) (drop (collected k) data) = ?g" by (simp add: min_def)
    then have "take (collected k + length ?g) (buf_write (collected k) ?g (h_msg s)) = take (collected k + length ?g) data"
      using col by (intro take_buf_write fits) simp_all
    then show ?thesis unfolding len by (simp add: s'_def)
  qed
  have fl: "frame_cid (h_last_req s') = c" "h_last_cmd s' = cmd" "h_last_seq s' = word_of_nat (Suc k)" "h_msg_len s' = h_msg_len s"
    using col f by (simp_all add: s'_def)
  have "if collected (Suc k) < length data then collecting c cmd (Suc k) data s' else collected_all c cmd data s'"
  proof (cases "collected (Suc k) < length data")
    case True
    then have n: "collected k + ?n = collected (Suc k)" by (simp add: collected_def)
    then show ?thesis using True cur [unfolded n] bufs pre [unfolded n] fl col by (simp add: collecting_def)
  next
    case False
    then have e: "collected k + ?n = length data" using col by (simp add: collected_def)
    then have "h_msg_cur s' = h_msg_len s'" using cur fl col by (simp add: word_unat_eq_iff)
    then show ?thesis using False e bufs pre fl col by (simp add: collected_all_def collected_def)
  qed
  then show ?thesis using go ni f(2) by (auto simp: s'_def frame_cmd_def)
qed

lemma receive_init_go:
  assumes "hid_bufs s" "h_msg_len s = 0" "may_send e c s" "length data \<le> CTAP_MAX_PACKET_SIZE"
    "carries f (init_frame c cmd data)" "cmd AND 0x80 \<noteq> 0" "cmd \<noteq> CTAPHID_CANCEL"
  shows "\<exists>s'. hid_receive e f s = Some (Recv_Go, s') \<and> h_last_packet_time s' = h_last_packet_time s \<and>
    h_lock s' = h_lock s \<and> h_lock_cid s' = h_lock_cid s \<and> h_usb s' = h_usb s \<and> h_resp s' = h_resp s \<and>
    h_out s' = h_out s \<and> h_wr s' = h_wr s \<and> h_apdu s' = h_apdu s \<and> h_rdata s' = h_rdata s \<and>
    (if 57 < length data then collecting c cmd 0 data s'
     else hid_bufs s' \<and> h_msg_len s' = 0 \<and> h_last_cmd s' = cmd \<and> frame_cid (h_last_req s') = c)"
proof -
  note f = carries_init [OF assms(5,4)]
  have i: "is_init_frame f" using f(2) assms(6) by (simp add: is_init_frame_def frame_cmd_def)
  have r: "hid_receive e f s = receive_init e f s"
    using i assms(3,7) f by (auto simp: hid_receive_def may_send_def)
  show ?thesis
  proof (cases "57 < length data")
    case True
    have "slice 7 57 f = take 57 data" using f(4) True by (simp add: min_def)
    moreover have "unat (word_of_nat (length data) :: u16) = length data" using assms(4) by (simp add: unat_of_nat)
    ultimately show ?thesis
      using True assms f r
      by (simp add: receive_init_def msg_reset_def collecting_def collected_def hid_bufs_def buf_write_def)
  next
    case False
    then show ?thesis using assms f r by (simp add: receive_init_def msg_reset_def hid_bufs_def)
  qed
qed
text \<open>The clock is not about to wrap (the timeout test adds 500 to it).\<close>

definition no_wrap :: "hid_env \<Rightarrow> bool" where
  "no_wrap e \<longleftrightarrow> unat (e_now e) + 500 < 2 ^ 32"

lemma no_timeout:
  "no_wrap e \<Longrightarrow> h_last_packet_time s = e_now e \<or> h_last_packet_time s = 0 \<Longrightarrow> driver_process_usb_nopacket_hid e s = Some s"
  by (auto simp: driver_process_usb_nopacket_hid_def no_wrap_def word_less_nat_alt unat_word_ariths)

text \<open>The callbacks of the applications leave the response buffer its size.\<close>

definition polite :: "app_ops \<Rightarrow> bool" where
  "polite ops \<longleftrightarrow> (\<forall>a b t. length (rdata (snd (select_aid ops a b t))) = length (rdata t)) \<and>
     (\<forall>a t. length (rdata (unload_app ops a t)) = length (rdata t))"

lemma select_loop_polite:
  assumes "polite ops" shows "length (rdata (snd (select_loop ops aid as t))) = length (rdata t)"
proof (induction as arbitrary: t)
  case (Cons a as)
  have "length (rdata (snd (select_aid ops x b t))) = length (rdata t)" "length (rdata (unload_app ops x t)) = length (rdata t)" for x b t
    using assms by (simp_all add: polite_def)
  then show ?case by (simp add: Cons.IH Let_def case_prod_beta split: option.split)
qed simp

lemma select_app_polite: "polite ops \<Longrightarrow> length (rdata (snd (select_app ops aid t))) = length (rdata t)"
  by (simp add: select_app_def polite_def select_loop_polite split: option.split)

lemma hid_select_frame:
  assumes "polite (e_ops e)" "length (ub_buffer (h_tx s)) = USB_BUFFER_SIZE" "h_rdata s \<le> USB_BUFFER_SIZE"
  shows "\<exists>a b. length b = USB_BUFFER_SIZE \<and> hid_select e aid s = s\<lparr>h_apdu := a, h_tx := (h_tx s)\<lparr>ub_buffer := b\<rparr>\<rparr>"
proof -
  let ?a = "snd (select_app (e_ops e) aid ((h_apdu s)\<lparr>rdata := drop (h_rdata s) (ub_buffer (h_tx s))\<rparr>))"
  let ?b = "take (h_rdata s) (ub_buffer (h_tx s)) @ rdata ?a"
  have "length ?b = USB_BUFFER_SIZE" using assms(2,3) select_app_polite [OF assms(1)] by simp
  moreover have "hid_select e aid s = s\<lparr>h_apdu := ?a, h_tx := (h_tx s)\<lparr>ub_buffer := ?b\<rparr>\<rparr>"
    by (simp add: hid_select_def with_apdu_def Let_def case_prod_beta)
  ultimately show ?thesis by blast
qed

text \<open>A command for the CBOR worker.\<close>

definition worker_cmd :: "u8 \<Rightarrow> bool" where
  "worker_cmd cmd \<longleftrightarrow> cmd = CTAPHID_CBOR \<or>
     (cmd \<ge> CTAPHID_VENDOR_FIRST \<and> cmd \<notin> {CTAPHID_VERSION, CTAPHID_UUID, CTAPHID_OTP, CTAPHID_ADMIN})"

text \<open>The worker holds the request, and the driver is ready for the next message.\<close>

definition handed_over :: "u8 \<Rightarrow> bytes \<Rightarrow> hid \<Rightarrow> bool" where
  "handed_over cmd data s \<longleftrightarrow> hid_bufs s \<and> h_msg_len s = 0 \<and> h_cbor_cmd s = cmd \<and> h_cbor_len s = length data \<and>
     take (length data) (h_cbor_request s) = data \<and> u_locked_itf (h_usb s) = itf_hid (u_itfs (h_usb s)) \<and>
     u_locked_func (h_usb s) = Some Cbor_Thread \<and> u_to_card (h_usb s) \<noteq> [] \<and>
     last (u_to_card (h_usb s)) = EV_CMD_AVAILABLE"

lemma driver_write_frame [simp]:
  "h_msg_len (snd (driver_write_hid e f s)) = h_msg_len s" "h_cbor_cmd (snd (driver_write_hid e f s)) = h_cbor_cmd s"
  "h_cbor_len (snd (driver_write_hid e f s)) = h_cbor_len s" "h_cbor_request (snd (driver_write_hid e f s)) = h_cbor_request s"
  "h_usb (snd (driver_write_hid e f s)) = h_usb s" "h_rx (snd (driver_write_hid e f s)) = h_rx s"
  "h_tx (snd (driver_write_hid e f s)) = h_tx s" "h_msg (snd (driver_write_hid e f s)) = h_msg s"
  by (simp_all add: driver_write_hid_def)

lemma send_keepalive_frame:
  assumes "hid_bufs s"
  shows "\<exists>s'. send_keepalive e s = Some s' \<and> hid_bufs s' \<and> h_msg_len s' = h_msg_len s \<and> h_cbor_cmd s' = h_cbor_cmd s \<and>
    h_cbor_len s' = h_cbor_len s \<and> h_cbor_request s' = h_cbor_request s \<and> h_usb s' = h_usb s"
  using assms
  by (simp add: send_keepalive_def tx_write_ok put_tx_def hid_bufs_def Let_def case_prod_beta)

lemma start_worker_hands_over:
  assumes "hid_bufs s" "h_msg_len s = 0" "h_cbor_cmd s = cmd" "h_cbor_len s = length data"
    "take (length data) (h_cbor_request s) = data"
  shows "handed_over cmd data (start_worker e 2 s)"
proof -
  have "u_itfs (card_start n itf func u) = u_itfs u" for n itf func u
    by (simp add: card_start_def Let_def timeout_start_def)
  then show ?thesis
    using assms by (simp add: handed_over_def start_worker_def hid_bufs_def Let_def usb_send_cmd_def timeout_start_def card_start_locks)
qed

lemma cmd_cbor_hands_over:
  assumes "hid_bufs s" "h_resp s = 0" "h_rdata s \<le> USB_BUFFER_SIZE" "polite (e_ops e)" "message f s = data" "length data \<le> CTAP_MAX_PACKET_SIZE"
  shows "\<exists>s'. cmd_cbor e f s = Some (2, s') \<and> handed_over (h_last_cmd s) data (start_worker e 2 s')"
proof -
  obtain a b where b: "length b = USB_BUFFER_SIZE" "hid_select e (e_fido_aid e) (s\<lparr>h_thread_type := 2, h_cancel_button := False\<rparr>) =
      s\<lparr>h_thread_type := 2, h_cancel_button := False, h_apdu := a, h_tx := (h_tx s)\<lparr>ub_buffer := b\<rparr>\<rparr>"
    using hid_select_frame [of e "s\<lparr>h_thread_type := 2, h_cancel_button := False\<rparr>" "e_fido_aid e"] assms(1,3,4)
    by (auto simp: hid_bufs_def)
  define t where "t = s\<lparr>h_thread_type := 2, h_cancel_button := False, h_apdu := a, h_tx := (h_tx s)\<lparr>ub_buffer := b\<rparr>\<rparr>"
  have m: "message f t = data" using assms(5) by (auto simp: t_def message_def long_message_def)
  have t: "hid_bufs t" "h_resp t = 0" "h_last_cmd t = h_last_cmd s" using assms(1,2) b(1) by (simp_all add: t_def hid_bufs_def)
  define u where "u = (put_tx 7 [0] (t\<lparr>h_cbor_request := buf_write 0 data (h_cbor_request t), h_cbor_len := length data,
      h_cbor_cmd := h_last_cmd t\<rparr>))\<lparr>h_rdata := 8, h_apdu := (h_apdu t)\<lparr>rlen := 0\<rparr>\<rparr>"
  have c: "cbor_process (h_last_cmd t) data t = Some (Some u)"
    using assms(6) t by (simp add: cbor_process_def put_resp_ok u_def put_tx_def hid_bufs_def)
  define v where "v = (finish_cmd u)\<lparr>h_last_keepalive := 0\<rparr>"
  have v: "hid_bufs v" "h_msg_len v = 0" "h_cbor_cmd v = h_last_cmd s" "h_cbor_len v = length data"
    "take (length data) (h_cbor_request v) = data"
    using t assms(6) by (simp_all add: v_def u_def finish_cmd_def msg_reset_def hid_bufs_def put_tx_def buf_write_def)
  obtain s' where s': "send_keepalive e v = Some s'" "hid_bufs s'" "h_msg_len s' = h_msg_len v" "h_cbor_cmd s' = h_cbor_cmd v"
    "h_cbor_len s' = h_cbor_len v" "h_cbor_request s' = h_cbor_request v"
    using send_keepalive_frame [OF v(1), of e] by auto
  have "cmd_cbor e f s = Some (2, s')"
    unfolding cmd_cbor_def b(2) t_def [symmetric] bind.bind_lunit m c option.case v_def [symmetric] s'(1) by simp
  then show ?thesis using start_worker_hands_over [of s'] s' v by auto
qed

lemma high_cmd: "cmd \<ge> 0x80 \<Longrightarrow> (cmd :: u8) AND 0x80 \<noteq> 0"
proof
  assume a: "cmd \<ge> 0x80" and "cmd AND 0x80 = 0"
  then have "\<not> bit cmd 7" using and_exp_eq_0_iff_not_bit [of cmd 7] by simp
  then have "take_bit 7 cmd = cmd"
    by (intro bit_word_eqI) (auto simp: bit_simps less_Suc_eq numeral_eq_Suc)
  then have "cmd AND mask 7 = cmd" by (simp add: take_bit_eq_mask)
  then have "cmd \<le> mask 7" by (metis word_and_le1)
  then show False using a by (simp add: mask_eq_exp_minus_1 word_le_nat_alt)
qed

lemma worker_cmd_high: "worker_cmd cmd \<Longrightarrow> cmd AND 0x80 \<noteq> 0"
  by (rule high_cmd) (auto simp: worker_cmd_def word_le_nat_alt)

lemma worker_cmd_other:
  assumes "worker_cmd cmd"
  shows "cmd \<notin> {CTAPHID_PING, CTAPHID_MSG, CTAPHID_LOCK, CTAPHID_INIT, CTAPHID_WINK, CTAPHID_CANCEL, CTAPHID_SYNC,
    CTAPHID_VERSION, CTAPHID_UUID, CTAPHID_OTP, CTAPHID_ADMIN}"
  using assms by (auto simp: worker_cmd_def)

lemma cont_cmd:
  assumes "\<not> is_init_frame f"
  shows "frame_cmd f \<notin> {CTAPHID_INIT, CTAPHID_WINK, CTAPHID_LOCK, CTAPHID_VERSION, CTAPHID_UUID, CTAPHID_ADMIN}"
  using assms by (auto simp: is_init_frame_def frame_cmd_def)

text \<open>One report inside a message.\<close>

lemma report_middle:
  assumes "collecting c cmd k data s" "may_send e c s" "no_wrap e" "collected (Suc k) < length data"
    "carries f (cid_bytes c @ [word_of_nat k] @ take 59 (drop (collected k) data))"
  shows "\<exists>s'. tud_hid_set_report_cb e f s = Some s' \<and> collecting c cmd (Suc k) data s' \<and>
    h_lock s' = h_lock s \<and> h_lock_cid s' = h_lock_cid s"
proof -
  have f: "length f = HID_RPT_SIZE" and b: "hid_bufs s" using assms(1,5) by (auto simp: carries_def collecting_def)
  have a: "collecting c cmd k data (arrive e f s)" "may_send e c (arrive e f s)"
    using assms(1,2) arrive_bufs [OF b f] by (simp_all add: collecting_def may_send_def)
  obtain s' where s': "hid_receive e f (arrive e f s) = Some (Recv_Go, s')" "\<not> is_init_frame f" "collecting c cmd (Suc k) data s'"
    "h_last_packet_time s' = e_now e" "h_lock s' = h_lock s" "h_lock_cid s' = h_lock_cid s"
    using receive_cont_go [OF a assms(5)] assms(4) by auto
  have "h_msg_len s' \<noteq> 0" "h_msg_len s' \<noteq> h_msg_cur s'" using s'(3) by (auto simp: collecting_def)
  then have "hid_dispatch e f s' = Some (0, s')"
    using cont_cmd [OF s'(2)] by (simp add: hid_dispatch_def msg_complete_def)
  then have "handle_report e f (arrive e f s) = Some (0, s')"
    by (simp add: handle_report_def s'(1) start_worker_def)
  then show ?thesis using set_report_arrive [OF b f, of e] no_timeout [OF assms(3), of s'] s' by auto
qed

text \<open>The last report of a long message.\<close>

lemma report_last:
  assumes "collecting c cmd k data s" "may_send e c s" "polite (e_ops e)" "\<not> collected (Suc k) < length data" "worker_cmd cmd"
    "carries f (cid_bytes c @ [word_of_nat k] @ take 59 (drop (collected k) data))"
  shows "\<exists>s'. tud_hid_set_report_cb e f s = Some s' \<and> handed_over cmd data s'"
proof -
  have f: "length f = HID_RPT_SIZE" and b: "hid_bufs s" using assms(1,6) by (auto simp: carries_def collecting_def)
  have a: "collecting c cmd k data (arrive e f s)" "may_send e c (arrive e f s)" "h_rdata (arrive e f s) = 7"
    using assms(1,2) arrive_bufs [OF b f] by (simp_all add: collecting_def may_send_def) (simp add: arrive_def)
  obtain t where t: "hid_receive e f (arrive e f s) = Some (Recv_Go, t)" "\<not> is_init_frame f" "collected_all c cmd data t"
    "h_resp t = 0" "h_rdata t = 7"
    using receive_cont_go [OF a(1,2) assms(6)] assms(4) a(3) by auto
  note all = t(3) [unfolded collected_all_def]
  have nz: "h_msg_len t > 0" using all by (auto simp: word_gt_0)
  then have m: "message f t = data" "msg_complete t" using all by (auto simp: message_def long_message_def msg_complete_def)
  have "hid_dispatch e f t = cmd_cbor e f t"
    using cont_cmd [OF t(2)] worker_cmd_other [OF assms(5)] all m(2) assms(5) by (auto simp: hid_dispatch_def worker_cmd_def)
  moreover obtain u where "cmd_cbor e f t = Some (2, u)" "handed_over cmd data (start_worker e 2 u)"
    using cmd_cbor_hands_over [of t e f data] assms(3) all m(1) t(4,5) by auto
  ultimately have "handle_report e f (arrive e f s) = Some (2, start_worker e 2 u)" "handed_over cmd data (start_worker e 2 u)"
    by (simp_all add: handle_report_def t(1))
  then show ?thesis using set_report_arrive [OF b f, of e] by simp
qed

text \<open>The first report: of a short message it is the only one.\<close>

lemma report_first:
  assumes "hid_bufs s" "h_msg_len s = 0" "may_send e c s" "no_wrap e" "polite (e_ops e)" "worker_cmd cmd"
    "length data \<le> CTAP_MAX_PACKET_SIZE" "carries f (init_frame c cmd data)"
  shows "\<exists>s'. tud_hid_set_report_cb e f s = Some s' \<and>
    (if 57 < length data then collecting c cmd 0 data s' \<and> h_lock s' = h_lock s \<and> h_lock_cid s' = h_lock_cid s
     else handed_over cmd data s')"
proof -
  have l: "length f = HID_RPT_SIZE" using assms(8) by (simp add: carries_def)
  note f = carries_init [OF assms(8,7)]
  have i: "is_init_frame f" using f(2) worker_cmd_high [OF assms(6)] by (simp add: is_init_frame_def frame_cmd_def)
  have a: "hid_bufs (arrive e f s)" "h_msg_len (arrive e f s) = 0" "may_send e c (arrive e f s)" "h_rdata (arrive e f s) = 7"
    using arrive_bufs [OF assms(1) l] assms(2,3) by (simp_all add: may_send_def) (simp add: arrive_def)
  obtain t where t: "hid_receive e f (arrive e f s) = Some (Recv_Go, t)" "h_last_packet_time t = e_now e" "h_lock t = h_lock s"
    "h_lock_cid t = h_lock_cid s" "h_resp t = 0" "h_rdata t = 7"
    "if 57 < length data then collecting c cmd 0 data t
     else hid_bufs t \<and> h_msg_len t = 0 \<and> h_last_cmd t = cmd \<and> frame_cid (h_last_req t) = c"
    using receive_init_go [OF a(1-3) assms(7,8) worker_cmd_high [OF assms(6)]] worker_cmd_other [OF assms(6)] a(4) by auto
  note o = worker_cmd_other [OF assms(6)]
  show ?thesis
  proof (cases "57 < length data")
    case True
    then have col: "collecting c cmd 0 data t" using t by simp
    then have "h_msg_len t \<noteq> 0" "h_msg_len t \<noteq> h_msg_cur t" "h_last_cmd t = cmd" by (auto simp: collecting_def)
    then have "hid_dispatch e f t = Some (0, t)" using o f(2) by (auto simp: hid_dispatch_def msg_complete_def)
    then have "handle_report e f (arrive e f s) = Some (0, t)" by (simp add: handle_report_def t(1) start_worker_def)
    then show ?thesis using True col set_report_arrive [OF assms(1) l, of e] no_timeout [OF assms(4), of t] t by auto
  next
    case False
    then have s: "hid_bufs t" "h_msg_len t = 0" "h_last_cmd t = cmd" using t by simp_all
    then have m: "message f t = data" "msg_complete t" using f(3,4) False by (auto simp: message_def long_message_def msg_complete_def min_def)
    have "hid_dispatch e f t = cmd_cbor e f t"
      using o f(2) s m(2) assms(6) by (auto simp: hid_dispatch_def worker_cmd_def)
    moreover obtain u where "cmd_cbor e f t = Some (2, u)" "handed_over cmd data (start_worker e 2 u)"
      using cmd_cbor_hands_over [of t e f data] assms(5,7) s m(1) t(5,6) by auto
    ultimately have "handle_report e f (arrive e f s) = Some (2, start_worker e 2 u)" "handed_over cmd data (start_worker e 2 u)"
      by (simp_all add: handle_report_def t(1))
    then show ?thesis using False set_report_arrive [OF assms(1) l, of e] by simp
  qed
qed

fun reports :: "(hid_env \<times> bytes) list \<Rightarrow> hid \<Rightarrow> hid option" where
  "reports [] s = Some s"
| "reports ((e, f) # rs) s = do { s \<leftarrow> tud_hid_set_report_cb e f s; reports rs s }"

definition host_ok :: "u32 \<Rightarrow> hid \<Rightarrow> hid_env \<Rightarrow> bool" where
  "host_ok c s e \<longleftrightarrow> may_send e c s \<and> no_wrap e \<and> polite (e_ops e)"

lemma collected_Suc: "drop 59 (drop (collected k) data) = drop (collected (Suc k)) data"
  by (simp add: collected_def add.commute)

lemma reports_cont:
  assumes "list_all2 (\<lambda>r. carries (snd r)) rs (cont_frames c k (drop (collected k) data))"
    "\<forall>r\<in>set rs. host_ok c s (fst r)" "collecting c cmd k data s" "worker_cmd cmd"
  shows "\<exists>s'. reports rs s = Some s' \<and> handed_over cmd data s'"
  using assms
proof (induction rs arbitrary: k s)
  case Nil
  then show ?case by (subst (asm) cont_frames.simps) (simp add: collecting_def)
next
  case (Cons r rs)
  obtain e f where r: "r = (e, f)" by force
  have ne: "drop (collected k) data \<noteq> []" using Cons.prems(3) by (simp add: collecting_def)
  have f: "carries f (cid_bytes c @ [word_of_nat k] @ take 59 (drop (collected k) data))"
    and rest: "list_all2 (\<lambda>r. carries (snd r)) rs (cont_frames c (Suc k) (drop (collected (Suc k)) data))"
    using Cons.prems(1) ne unfolding r by (subst (asm) cont_frames.simps, simp add: collected_Suc del: drop_drop)+
  have e: "may_send e c s" "no_wrap e" "polite (e_ops e)" using Cons.prems(2) by (auto simp: r host_ok_def)
  show ?case
  proof (cases "collected (Suc k) < length data")
    case True
    obtain t where t: "tud_hid_set_report_cb e f s = Some t" "collecting c cmd (Suc k) data t"
      "h_lock t = h_lock s" "h_lock_cid t = h_lock_cid s"
      using report_middle [OF Cons.prems(3) e(1,2) True f] by blast
    have "\<forall>r\<in>set rs. host_ok c t (fst r)" using Cons.prems(2) t(3,4) by (simp add: host_ok_def may_send_def)
    then show ?thesis using Cons.IH [OF rest _ t(2) Cons.prems(4)] t(1) by (simp add: r)
  next
    case False
    then have "rs = []" using rest by (subst (asm) cont_frames.simps) simp
    then show ?thesis using report_last [OF Cons.prems(3) e(1,3) False Cons.prems(4) f] by (auto simp: r)
  qed
qed

text \<open>
  C15. Every CBOR or vendor message of up to 7609 bytes that a host cuts into CTAPHID reports is put
  together again: when the last report has arrived, the worker holds exactly the message, its length and
  its command, the worker of the HID interface has been started, and the driver waits for the next
  message. No write leaves its buffer on the way. The reports follow one another without a round of
  \<open>hid_task\<close> in between; \<open>host_ok\<close> says that no other channel holds the lock, the clock is not about to wrap and
  the callbacks of the applications keep the size of the response buffer.
\<close>

theorem hid_reassembly:
  assumes "hid_bufs s" "h_msg_len s = 0" "worker_cmd cmd" "length data \<le> CTAP_MAX_PACKET_SIZE"
    "list_all2 (\<lambda>r. carries (snd r)) rs (fragment c cmd data)" "\<forall>r\<in>set rs. host_ok c s (fst r)"
  shows "\<exists>s'. reports rs s = Some s' \<and> handed_over cmd data s'"
proof -
  obtain e f rs' where rs: "rs = (e, f) # rs'" "carries f (init_frame c cmd data)"
    "list_all2 (\<lambda>r. carries (snd r)) rs' (cont_frames c 0 (drop (collected 0) data))"
    using assms(5) by (auto simp: fragment_def list_all2_Cons2 collected_def)
  have e: "may_send e c s" "no_wrap e" "polite (e_ops e)" using assms(6) by (auto simp: rs host_ok_def)
  obtain t where t: "tud_hid_set_report_cb e f s = Some t"
    "if 57 < length data then collecting c cmd 0 data t \<and> h_lock t = h_lock s \<and> h_lock_cid t = h_lock_cid s
     else handed_over cmd data t"
    using report_first [OF assms(1,2) e assms(3,4) rs(2)] by blast
  show ?thesis
  proof (cases "57 < length data")
    case True
    then have "\<forall>r\<in>set rs'. host_ok c t (fst r)" using assms(6) t(2) by (simp add: rs(1) host_ok_def may_send_def)
    then show ?thesis using reports_cont [OF rs(3) _ _ assms(3)] t True by (auto simp: rs(1))
  next
    case False
    then have "rs' = []" using rs(3) by (subst (asm) cont_frames.simps) (simp add: collected_def)
    then show ?thesis using False t by (simp add: rs(1))
  qed
qed

section \<open>Responses\<close>

text \<open>One round of the transmission: \<open>hid_task\<close> hands the next report to TinyUSB, which reports it sent.\<close>

definition pump :: "hid_env \<Rightarrow> hid \<Rightarrow> hid option" where
  "pump e s = do {
     s \<leftarrow> hid_task e False 0 s;
     tud_hid_report_complete_cb (last (h_out s)) s }"

fun pumps :: "nat \<Rightarrow> hid_env \<Rightarrow> hid \<Rightarrow> hid option" where
  "pumps 0 e s = Some s"
| "pumps (Suc n) e s = do { s \<leftarrow> pump e s; pumps n e s }"

text \<open>The transmit buffer holds, at \<open>r_ptr\<close>, a report header and the rest of the response.\<close>

definition sending :: "bytes \<Rightarrow> bytes \<Rightarrow> hid \<Rightarrow> bool" where
  "sending pre rest s \<longleftrightarrow> (let r = unat (ub_r (h_tx s)); b = ub_buffer (h_tx s) in
     length b = USB_BUFFER_SIZE \<and> h_resp s = r \<and> r + 64 \<le> USB_BUFFER_SIZE \<and> r + length pre + length rest \<le> 1990 \<and>
     slice r (length pre + length rest) b = pre @ rest \<and> unat (h_send s) = length rest \<and>
     unat (ub_w (h_tx s)) = r + length pre + length rest \<and> h_wr s \<noteq> WRITE_PENDING \<and> h_last_packet_time s = 0)"

definition sent_all :: "hid \<Rightarrow> bool" where
  "sent_all s \<longleftrightarrow> ub_r (h_tx s) = 0 \<and> ub_w (h_tx s) = 0 \<and> h_send s = 0 \<and> h_wr s = WRITE_SUCCESS"

lemma pump_sends:
  assumes "sending pre rest s" "e_ready e" "pre \<noteq> []"
  defines "f \<equiv> slice (unat (ub_r (h_tx s))) 64 (ub_buffer (h_tx s))"
  shows "pump e s = tud_hid_report_complete_cb f (s\<lparr>h_wr := WRITE_PENDING, h_out := h_out s @ [f]\<rparr>)"
    "length pre \<le> 64 \<Longrightarrow> carries f (pre @ take (64 - length pre) rest)"
proof -
  note s = assms(1) [unfolded sending_def Let_def]
  have n: "driver_process_usb_nopacket_hid e s = Some s" using s by (simp add: driver_process_usb_nopacket_hid_def)
  have w: "ub_w (h_tx s) > ub_r (h_tx s)" using s assms(3) by (auto simp: word_less_nat_alt)
  have l: "length f = 64" using s by (auto simp: f_def min_def)
  show "pump e s = tud_hid_report_complete_cb f (s\<lparr>h_wr := WRITE_PENDING, h_out := h_out s @ [f]\<rparr>)"
    using s assms(2) w l unfolding pump_def hid_task_def n bind.bind_lunit
    by (simp add: driver_write_hid_def flip: f_def)
  assume h: "length pre \<le> 64"
  let ?n = "length pre + min (64 - length pre) (length rest)"
  have "take ?n f = take ?n (pre @ rest)"
  proof -
    have "take ?n f = take ?n (drop (unat (ub_r (h_tx s))) (ub_buffer (h_tx s)))" using h by (simp add: f_def slice_def min_def)
    also have "\<dots> = take ?n (slice (unat (ub_r (h_tx s))) (length pre + length rest) (ub_buffer (h_tx s)))"
      by (simp add: slice_def min_def)
    finally show ?thesis using s by simp
  qed
  also have "\<dots> = pre @ take (64 - length pre) rest" by (simp add: min_def)
  finally show "carries f (pre @ take (64 - length pre) rest)" using l by (simp add: carries_def min.commute)
qed

lemma and_not_disjoint: "b AND m = 0 \<Longrightarrow> b AND NOT m = b" for b :: "'a::len word"
  by (auto simp: bit_eq_iff bit_simps dest: bit_imp_le_length)

lemma pump_step:
  assumes "sending pre rest s" "e_ready e" "pre = cid_bytes c @ b # x"
    "if b AND 0x80 \<noteq> 0 then length x = 2 \<and> b \<noteq> CTAPHID_KEEPALIVE else x = []"
  defines "m \<equiv> 64 - length pre" and "q \<equiv> (if b AND 0x80 \<noteq> 0 then 0 else b + 1)"
  shows "\<exists>f s'. pump e s = Some s' \<and> h_out s' = h_out s @ [f] \<and> carries f (pre @ take m rest) \<and>
    (if m < length rest then sending (cid_bytes c @ [q]) (drop m rest) s' else sent_all s')"
proof -
  define f where "f = slice (unat (ub_r (h_tx s))) 64 (ub_buffer (h_tx s))"
  define t where "t = s\<lparr>h_wr := WRITE_PENDING, h_out := h_out s @ [f]\<rparr>"
  have pl: "length pre \<le> 64" "pre \<noteq> []" "length pre = (if b AND 0x80 \<noteq> 0 then 7 else 5)" "m = (if b AND 0x80 \<noteq> 0 then 57 else 59)"
    using assms(3,4) by (simp_all add: m_def split: if_splits)
  note s = assms(1) [unfolded sending_def Let_def]
  have p: "pump e s = tud_hid_report_complete_cb f t"
    using pump_sends(1) [OF assms(1,2) pl(2)] by (simp add: f_def t_def)
  have car: "carries f (pre @ take m rest)"
    using pump_sends(2) [OF assms(1,2) pl(2) pl(1)] by (simp add: f_def m_def)
  have fl: "length f = 64" using car by (simp add: carries_def)
  have b: "f ! 4 = b" "take 4 f = cid_bytes c"
    using carries_nth [OF car, of 4] carries_append [of f "cid_bytes c" "b # x @ take m rest"] car
    by (simp_all add: assms(3) nth_append carries_def)
  have isi: "is_init_frame f = (b AND 0x80 \<noteq> 0)" by (simp add: is_init_frame_def b)
  have nka: "\<not> is_init_frame f \<or> frame_cmd f \<noteq> CTAPHID_KEEPALIVE"
    using assms(4) by (auto simp: isi frame_cmd_def b split: if_splits)
  define u where "u = s\<lparr>h_wr := WRITE_SUCCESS, h_out := h_out s @ [f], h_send := h_send s - min (word_of_nat m) (h_send s)\<rparr>"
  have rs: "report_sent f t = u"
    using nka by (auto simp: report_sent_def t_def u_def isi pl(4) Let_def)
  have us: "unat (h_send u) = length rest - m"
  proof -
    have "unat (word_of_nat m :: u16) = m" by (simp add: pl(4))
    then have "unat (min (word_of_nat m) (h_send s)) = min m (length rest)"
      using s by (simp add: min_def word_le_nat_alt)
    then show ?thesis using s by (simp add: u_def unat_sub_if' min_def)
  qed
  have seq: "(if is_init_frame f then 0 else frame_seq f + 1) = q"
    using and_not_disjoint [of b "0x80"] by (simp add: isi q_def frame_seq_def b)
  show ?thesis
  proof (cases "m < length rest")
    case True
    then have pos: "h_send u > 0" using us by (simp add: word_less_nat_alt)
    let ?r = "unat (ub_r (h_tx s))" and ?b = "ub_buffer (h_tx s)"
    define v where "v = put_tx (?r + 59 + 4) [q] (put_tx (?r + 59) (cid_bytes c) (u\<lparr>h_resp := ?r + 59\<rparr>))"
    have room: "?r + 123 \<le> USB_BUFFER_SIZE" using s True pl(3,4) by (auto split: if_splits)
    define z where "z = v\<lparr>h_tx := (h_tx v)\<lparr>ub_r := ub_r (h_tx v) + 59\<rparr>\<rparr>"
    have np: "next_piece f u = Some z"
      using nka pos room s
      by (simp add: next_piece_def seq b(2) put_resp_ok u_def v_def z_def put_tx_def)
    have zb: "ub_buffer (h_tx z) = buf_write (?r + 63) [q] (buf_write (?r + 59) (cid_bytes c) ?b)"
      by (simp add: z_def v_def u_def put_tx_def add.commute)
    have zr: "unat (ub_r (h_tx z)) = ?r + 59"
      using room by (simp add: z_def v_def u_def put_tx_def unat_word_ariths)
    have zw: "ub_w (h_tx z) = ub_w (h_tx s)" "h_resp z = ?r + 59" "h_send z = h_send u" "h_wr z = WRITE_SUCCESS"
      "h_last_packet_time z = h_last_packet_time s" "h_out z = h_out s @ [f]"
      by (simp_all add: z_def v_def u_def put_tx_def)
    have lt: "\<not> ub_r (h_tx z) \<ge> ub_w (h_tx z)"
      using s True pl(3,4) by (auto simp: word_le_nat_alt zr zw split: if_splits)
    have out: "slice (?r + 59) (length (cid_bytes c @ [q]) + length (drop m rest)) (ub_buffer (h_tx z)) = (cid_bytes c @ [q]) @ drop m rest"
    proof -
      have a: "slice (?r + 59) 5 (ub_buffer (h_tx z)) = cid_bytes c @ [q]"
      proof -
        have "slice (?r + 59) 4 (ub_buffer (h_tx z)) = cid_bytes c" using room s unfolding zb by (simp add: codec_simps)
        moreover have "slice (?r + 63) 1 (ub_buffer (h_tx z)) = [q]" using room s unfolding zb by (simp add: codec_simps)
        ultimately show ?thesis using slice_split [of "?r + 59" 4 1 "ub_buffer (h_tx z)"] by (simp add: add.assoc)
      qed
      have "slice (?r + 64) (length rest - m) (ub_buffer (h_tx z)) = slice (?r + 64) (length rest - m) ?b"
        using room s unfolding zb by (simp add: codec_simps)
      also have "\<dots> = drop 64 (slice ?r (length pre + length rest) ?b)"
        using True pl(3,4) by (simp add: slice_def drop_take add.commute split: if_splits)
      also have "\<dots> = drop m rest" using s pl(3,4) by (simp split: if_splits)
      finally have "slice (?r + 59 + 5) (length rest - m) (ub_buffer (h_tx z)) = drop m rest" by (simp add: add.assoc)
      then show ?thesis using a slice_split [of "?r + 59" 5 "length rest - m" "ub_buffer (h_tx z)"] by simp
    qed
    have "sending (cid_bytes c @ [q]) (drop m rest) z"
      using s room True pl(3,4) out us
      by (cases "b AND 0x80 = 0"; simp add: sending_def zr zw Let_def zb)
    then show ?thesis
      using True car p lt np rs fl by (simp add: tud_hid_report_complete_cb_def zw)
  next
    case False
    then have z: "h_send u = 0" using us by (simp add: word_unat_eq_iff)
    define z where "z = u\<lparr>h_tx := (h_tx u)\<lparr>ub_r := ub_r (h_tx u) + 64\<rparr>\<rparr>"
    have np: "next_piece f u = Some z" using nka z by (auto simp: next_piece_def u_def z_def)
    have "unat (ub_r (h_tx z)) = unat (ub_r (h_tx s)) + 64"
      using s by (simp add: z_def u_def unat_word_ariths)
    then have "ub_r (h_tx z) \<ge> ub_w (h_tx z)"
      using s False pl(3,4) by (auto simp: word_le_nat_alt z_def u_def split: if_splits)
    then show ?thesis
      using False car p np rs fl z by (simp add: tud_hid_report_complete_cb_def sent_all_def z_def u_def)
  qed
qed

text \<open>All rounds: one per report of the reference.\<close>

lemma pumps_cont:
  assumes "sending (cid_bytes c @ [word_of_nat k]) rest s" "e_ready e" "rest \<noteq> []" "59 * k + length rest \<le> 59 * 128"
  shows "\<exists>fs s'. pumps (length (cont_frames c k rest)) e s = Some s' \<and> h_out s' = h_out s @ fs \<and>
    list_all2 carries fs (cont_frames c k rest) \<and> sent_all s'"
  using assms
proof (induction c k rest arbitrary: s rule: cont_frames.induct)
  case (1 c k rest)
  have k: "k < 128" using "1.prems"(3,4) by (cases rest) auto
  obtain f t where t: "pump e s = Some t" "h_out t = h_out s @ [f]"
    "carries f ((cid_bytes c @ [word_of_nat k]) @ take 59 rest)"
    "if 59 < length rest then sending (cid_bytes c @ [word_of_nat k + 1]) (drop 59 rest) t else sent_all t"
    using pump_step [OF "1.prems"(1,2), of c "word_of_nat k" "[]"] low_seq [OF k] by (auto cong: if_cong)
  have cf: "cont_frames c k rest = (cid_bytes c @ [word_of_nat k] @ take 59 rest) # cont_frames c (Suc k) (drop 59 rest)"
    using "1.prems"(3) by (subst cont_frames.simps) simp
  show ?case
  proof (cases "59 < length rest")
    case True
    have sd: "sending (cid_bytes c @ [word_of_nat (Suc k)]) (drop 59 rest) t" using True t(4) by (simp add: add.commute)
    have ne: "drop 59 rest \<noteq> []" "59 * Suc k + length (drop 59 rest) \<le> 59 * 128" using True "1.prems"(4) by auto
    obtain fs u where "pumps (length (cont_frames c (Suc k) (drop 59 rest))) e t = Some u" "h_out u = h_out t @ fs"
      "list_all2 carries fs (cont_frames c (Suc k) (drop 59 rest))" "sent_all u"
      using "1.IH" [OF "1.prems"(3) sd "1.prems"(2) ne] by blast
    then show ?thesis using t by (intro exI [of _ "f # fs"] exI [of _ u]) (simp add: cf)
  next
    case False
    then have "cont_frames c (Suc k) (drop 59 rest) = []" by (subst cont_frames.simps) simp
    then show ?thesis using t False by (intro exI [of _ "[f]"] exI [of _ t]) (simp add: cf)
  qed
qed

lemma pumps_all:
  assumes "sending (cid_bytes c @ cmd # put_uint16_be (word_of_nat (length data))) data s" "e_ready e" "data \<noteq> []"
    "cmd AND 0x80 \<noteq> 0" "cmd \<noteq> CTAPHID_KEEPALIVE"
  shows "\<exists>fs s'. pumps (length (fragment c cmd data)) e s = Some s' \<and> h_out s' = h_out s @ fs \<and>
    list_all2 carries fs (fragment c cmd data) \<and> sent_all s'"
proof -
  obtain f t where t: "pump e s = Some t" "h_out t = h_out s @ [f]" "carries f (init_frame c cmd data)"
    "if 57 < length data then sending (cid_bytes c @ [0]) (drop 57 data) t else sent_all t"
    using pump_step [OF assms(1,2) refl] assms(4,5) by (auto simp: init_frame_def cong: if_cong)
  have l: "length data \<le> 1990" using assms(1) by (simp add: sending_def Let_def)
  show ?thesis
  proof (cases "57 < length data")
    case True
    then have sd: "sending (cid_bytes c @ [word_of_nat 0]) (drop 57 data) t" "drop 57 data \<noteq> []"
      "59 * 0 + length (drop 57 data) \<le> 59 * 128" using t(4) l by auto
    obtain fs u where "pumps (length (cont_frames c 0 (drop 57 data))) e t = Some u" "h_out u = h_out t @ fs"
      "list_all2 carries fs (cont_frames c 0 (drop 57 data))" "sent_all u"
      using pumps_cont [OF sd(1) assms(2) sd(2,3)] by blast
    then show ?thesis using t by (intro exI [of _ "f # fs"] exI [of _ u]) (simp add: fragment_def)
  next
    case False
    then have "cont_frames c 0 (drop 57 data) = []" by (subst cont_frames.simps) simp
    then show ?thesis using t False by (intro exI [of _ "[f]"] exI [of _ t]) (simp add: fragment_def)
  qed
qed

text \<open>The worker's response starts in the transmit buffer after the seven bytes of the header.\<close>

definition response_ready :: "bytes \<Rightarrow> hid \<Rightarrow> bool" where
  "response_ready data s \<longleftrightarrow> length (ub_buffer (h_tx s)) = USB_BUFFER_SIZE \<and> ub_r (h_tx s) = 0 \<and> ub_w (h_tx s) = 0 \<and>
     slice 7 (length data) (ub_buffer (h_tx s)) = data \<and> data \<noteq> [] \<and> length data \<le> 1983 \<and> \<not> h_is_nk s \<and>
     (h_thread_type s = 2 \<longrightarrow> sw (h_apdu s) = 0) \<and> h_wr s \<noteq> WRITE_PENDING \<and> h_last_packet_time s = 0 \<and>
     h_last_cmd s AND 0x80 \<noteq> 0 \<and> h_last_cmd s \<noteq> CTAPHID_KEEPALIVE"

text \<open>
  C18. A response of up to 1983 bytes (the largest CBOR response has 1977) reaches the host as
  the reference cuts it: each report TinyUSB gets carries the next part of the response under the
  channel and the command of the request, with the sequence numbers in order, although every header is
  written into the transmit buffer itself; afterwards the buffer is free.
\<close>

theorem hid_response:
  assumes "response_ready data s" "e_ready e"
  shows "\<exists>s1 s' fs. driver_exec_finished_hid (word_of_nat (length data)) s = Some s1 \<and>
    pumps (length fs) e s1 = Some s' \<and> h_out s' = h_out s @ fs \<and>
    list_all2 carries fs (fragment (frame_cid (h_last_req s)) (h_last_cmd s) data) \<and> sent_all s'"
proof -
  note r = assms(1) [unfolded response_ready_def]
  let ?c = "frame_cid (h_last_req s)" and ?n = "word_of_nat (length data) :: u16"
  let ?pre = "cid_bytes ?c @ h_last_cmd s # put_uint16_be ?n"
  have n: "unat ?n = length data" "?n > 0" using r by (auto simp: unat_of_nat word_less_nat_alt)
  define t where "t = put_tx 4 [h_last_cmd s] ((put_tx 5 (put_uint16_be ?n) (put_tx 0 (cid_bytes ?c) (s\<lparr>h_resp := 0\<rparr>)))\<lparr>h_send := ?n\<rparr>)"
  define u where "u = (hid_write_offset (?n + 7) 0 t)\<lparr>h_apdu := (h_apdu s)\<lparr>sw := 0\<rparr>\<rparr>"
  have f: "driver_exec_finished_hid ?n s = Some u"
  proof -
    have "\<not> (h_thread_type s = 2 \<and> sw (h_apdu s) \<noteq> 0)" using r by simp
    then show ?thesis
      using r n by (simp only: driver_exec_finished_hid_def if_False if_True)
        (simp add: driver_exec_finished_cont_hid_def put_resp_ok put_tx_def t_def u_def hid_write_offset_def)
  qed
  have ub: "ub_buffer (h_tx u) = buf_write 4 [h_last_cmd s] (buf_write 5 (put_uint16_be ?n) (buf_write 0 (cid_bytes ?c) (ub_buffer (h_tx s))))"
    by (simp add: u_def t_def put_tx_def hid_write_offset_def)
  have "slice 0 4 (ub_buffer (h_tx u)) = cid_bytes ?c" "slice 4 1 (ub_buffer (h_tx u)) = [h_last_cmd s]"
    "slice 5 2 (ub_buffer (h_tx u)) = put_uint16_be ?n" "slice 7 (length data) (ub_buffer (h_tx u)) = data"
    unfolding ub using r by (simp_all add: codec_simps)
  then have b: "slice 0 (7 + length data) (ub_buffer (h_tx u)) = ?pre @ data"
    using slice_split [of 0 4 1 "ub_buffer (h_tx u)"] slice_split [of 0 5 2 "ub_buffer (h_tx u)"]
      slice_split [of 0 7 "length data" "ub_buffer (h_tx u)"] by simp
  have "unat (?n + 7) = length data + 7" using n r by (simp add: unat_word_ariths)
  then have "sending ?pre data u"
    using r n b unfolding sending_def Let_def ub by (simp add: u_def t_def put_tx_def hid_write_offset_def add.commute)
  then obtain fs s' where "pumps (length (fragment ?c (h_last_cmd s) data)) e u = Some s'" "h_out s' = h_out u @ fs"
    "list_all2 carries fs (fragment ?c (h_last_cmd s) data)" "sent_all s'"
    using pumps_all [OF _ assms(2)] r by blast
  moreover have "h_out u = h_out s" by (simp add: u_def t_def put_tx_def hid_write_offset_def)
  ultimately show ?thesis using f by (metis list_all2_lengthD)
qed

section \<open>Channels\<close>

text \<open>A new channel is never the reserved number 0 nor the broadcast channel, whatever the counter holds.\<close>

lemma allocate_cid_valid:
  assumes "allocate_cid s = (cid, s')"
  shows "cid \<noteq> 0" "cid \<noteq> CID_BROADCAST" "h_next_cid s' \<noteq> 0" "h_next_cid s' \<noteq> CID_BROADCAST"
proof -
  define n where "n x = (if x + 1 = 0 \<or> x + 1 = CID_BROADCAST then 1 else x + 1)" for x :: u32
  have n: "n x \<noteq> 0" "n x \<noteq> CID_BROADCAST" for x by (auto simp: n_def)
  have "allocate_cid_loop (Suc k) x = (if x = 0 \<or> x = CID_BROADCAST then allocate_cid_loop k (n x) else (x, n x))" for k x
    by (simp add: allocate_cid_loop.simps [of "Suc k"] Let_def n_def)
  then have "allocate_cid_loop (Suc (Suc k)) x = (if x = 0 \<or> x = CID_BROADCAST then (n x, n (n x)) else (x, n x))" for k x
    using n [of x] by simp
  then have "allocate_cid_loop 2 x = (if x = 0 \<or> x = CID_BROADCAST then (n x, n (n x)) else (x, n x))" for x
    by (simp only: numeral_2_eq_2)
  then show "cid \<noteq> 0" "cid \<noteq> CID_BROADCAST" "h_next_cid s' \<noteq> 0" "h_next_cid s' \<noteq> CID_BROADCAST"
    using assms n by (auto simp: allocate_cid_def split: if_splits)
qed

text \<open>The message the driver is putting together, with the channel it belongs to.\<close>

definition msg_state :: "hid \<Rightarrow> u16 \<times> u16 \<times> bytes \<times> u32 \<times> u8 \<times> u8" where
  "msg_state s = (h_msg_len s, h_msg_cur s, h_msg s, frame_cid (h_last_req s), h_last_cmd s, h_last_seq s)"

lemma receive_foreign:
  assumes "h_msg_len s \<noteq> 0" "frame_cid f \<noteq> frame_cid (h_last_req s)"
    "is_init_frame f \<longrightarrow> frame_cmd f \<noteq> CTAPHID_INIT \<and> h_last_cmd_time s + 100 > e_now e"
  shows "\<exists>r s'. hid_receive e f s = Some (r, s') \<and> msg_state s' = msg_state s \<and> h_cancel_button s' = h_cancel_button s \<and>
    (r = Recv_Go \<longrightarrow> \<not> is_init_frame f)"
  using assms by (auto simp: hid_receive_def receive_init_def receive_cont_def msg_state_def word_gt_0)

lemma ctap_error_msg: "ctap_error err s = Some s' \<Longrightarrow> msg_state s' = msg_state s \<and> h_cancel_button s' = h_cancel_button s"
  by (auto simp: ctap_error_def put_resp_def tx_write_def mem_write_def hid_write_offset_def msg_state_def
      split: Option.bind_splits if_splits)

lemma ctap_error_total:
  "h_resp s = 0 \<Longrightarrow> length (ub_buffer (h_tx s)) = USB_BUFFER_SIZE \<Longrightarrow> \<exists>s'. ctap_error err s = Some s'"
  by (simp add: ctap_error_def put_resp_ok put_tx_def)

text \<open>
  C17. While a message is incomplete, a report of another channel that comes within the time the driver keeps
  the transaction open cannot touch it: neither the bytes collected so far nor the channel, the command or the
  expected sequence number change, and no command is cancelled. A continuation of another channel is
  harmless at any time; the first report of another message is so for 100 ms after the command's first
  report and unless it is CTAPHID_INIT. Outside these conditions the code drops the message for the other
  channel's, which \<open>hid_channel_takeover\<close> shows. The 32-bit clock is not about to wrap.
\<close>

theorem hid_channel_isolation:
  assumes "hid_bufs s" "h_msg_len s \<noteq> 0" "h_msg_cur s \<noteq> h_msg_len s" "frame_cid f \<noteq> frame_cid (h_last_req s)"
    "length f = HID_RPT_SIZE" "no_wrap e"
    "is_init_frame f \<longrightarrow> frame_cmd f \<noteq> CTAPHID_INIT \<and> h_last_cmd_time s + 100 > e_now e"
  shows "\<exists>s'. tud_hid_set_report_cb e f s = Some s' \<and> msg_state s' = msg_state s \<and> h_cancel_button s' = h_cancel_button s"
proof -
  let ?a = "arrive e f s"
  have c: "h_cancel_button ?a = h_cancel_button s" "msg_state ?a = msg_state s" by (simp_all add: arrive_def msg_state_def)
  obtain r t where t: "hid_receive e f ?a = Some (r, t)" "msg_state t = msg_state s" "h_cancel_button t = h_cancel_button s"
    "r = Recv_Go \<longrightarrow> \<not> is_init_frame f"
    using receive_foreign [of ?a f e] assms c by auto
  have k: "h_tx t = h_tx ?a \<and> h_resp t = 0 \<and> (h_last_packet_time t = e_now e \<or> h_last_packet_time t = 0)"
    using t(1) assms(2,4) by (auto simp: hid_receive_def receive_init_def receive_cont_def msg_reset_def Let_def mem_write_def
        split: if_splits Option.bind_splits)
  have tx: "length (ub_buffer (h_tx t)) = USB_BUFFER_SIZE" using k arrive_bufs [OF assms(1,5), of e] by (simp add: hid_bufs_def)
  have m: "h_msg_len t = h_msg_len s" "h_msg_cur t = h_msg_cur s" using t(2) by (simp_all add: msg_state_def)
  have "\<exists>u. handle_report e f ?a = Some (0, u) \<and> msg_state u = msg_state s \<and> h_cancel_button u = h_cancel_button s \<and>
      (h_last_packet_time u = e_now e \<or> h_last_packet_time u = 0)"
  proof (cases r)
    case (Recv_Error err)
    obtain u where u: "ctap_error err t = Some u" using ctap_error_total k tx by blast
    then have "h_last_packet_time u = 0" by (auto simp: ctap_error_def split: Option.bind_splits)
    then show ?thesis using u ctap_error_msg [OF u] t Recv_Error by (simp add: handle_report_def)
  next
    case Recv_Go
    then have "hid_dispatch e f t = Some (0, t)"
      using cont_cmd t(4) m assms(2,3) by (auto simp: hid_dispatch_def msg_complete_def)
    then show ?thesis using t k Recv_Go by (simp add: handle_report_def start_worker_def)
  qed (use t k in \<open>simp add: handle_report_def\<close>)
  then show ?thesis using set_report_arrive [OF assms(1,5), of e] no_timeout [OF assms(6)] by auto
qed

text \<open>Any channel's CTAPHID_INIT, or its first report 100 ms after the command, drops the message.\<close>

lemma hid_channel_takeover:
  assumes "MSG_LEN f \<le> CTAP_MAX_PACKET_SIZE" "length (h_msg s) = CTAP_MAX_PACKET_SIZE" "length f = HID_RPT_SIZE"
    "frame_cmd f = CTAPHID_INIT \<or> \<not> h_last_cmd_time s + 100 > e_now e"
  shows "\<exists>s'. receive_init e f s = Some (Recv_Go, s') \<and> h_last_req s' = f \<and> h_msg_cur s' = (if MSG_LEN f > 57 then 57 else 0)"
proof -
  have "length (slice 7 57 f) = 57" using assms(3) by (simp add: slice_def)
  then have "mem_write 0 (slice 7 57 f) (h_msg s) = Some (buf_write 0 (slice 7 57 f) (h_msg s))"
    using assms(2) by (simp add: mem_write_def)
  then show ?thesis using assms(1,4) by (simp add: receive_init_def msg_reset_def Let_def) blast
qed

section \<open>Bounds\<close>

text \<open>The message buffer and its two lengths.\<close>

definition msg_inv :: "hid \<Rightarrow> bool" where
  "msg_inv s \<longleftrightarrow> length (h_msg s) = CTAP_MAX_PACKET_SIZE \<and> unat (h_msg_cur s) \<le> unat (h_msg_len s) \<and>
     unat (h_msg_len s) \<le> CTAP_MAX_PACKET_SIZE"

lemma receive_init_inv:
  assumes "msg_inv s" "length f = HID_RPT_SIZE"
  shows "\<exists>r s'. receive_init e f s = Some (r, s') \<and> msg_inv s'"
proof -
  have "unat (word_of_nat (MSG_LEN f) :: u16) = MSG_LEN f" if "MSG_LEN f \<le> 7609" using that by (simp add: unat_of_nat)
  moreover have "length (slice 7 57 f) = 57" using assms(2) by simp
  ultimately show ?thesis using assms(1)
    by (cases "MSG_LEN f > 7609"; cases "MSG_LEN f > 57";
        cases "h_msg_len s > 0 \<and> h_last_cmd_time s + 100 > e_now e \<and> frame_cmd f \<noteq> CTAPHID_INIT";
        simp add: receive_init_def msg_inv_def msg_reset_def)
qed

lemma receive_cont_inv:
  assumes "msg_inv s" "length f = HID_RPT_SIZE"
  shows "\<exists>r s'. receive_cont e f s = Some (r, s') \<and> msg_inv s'"
proof -
  let ?n = "min 59 (unat (h_msg_len s) - unat (h_msg_cur s))"
  have l: "length (slice 5 ?n f) = ?n" using assms(2) by (simp add: min_def)
  have fit: "unat (h_msg_cur s) + ?n \<le> unat (h_msg_len s)" "unat (h_msg_len s) \<le> 7609" using assms(1) by (auto simp: msg_inv_def min_def)
  have "unat (word_of_nat ?n :: u16) = ?n" by (simp add: unat_of_nat)
  then have "unat (h_msg_cur s + word_of_nat ?n) = unat (h_msg_cur s) + ?n" using fit by (simp add: unat_word_ariths)
  then show ?thesis using fit l assms by (simp add: receive_cont_def Let_def msg_inv_def)
qed

lemma hid_receive_inv:
  assumes "msg_inv s" "length f = HID_RPT_SIZE"
  shows "\<exists>r s'. hid_receive e f s = Some (r, s') \<and> msg_inv s'"
proof -
  have "msg_inv (s\<lparr>h_last_packet_time := 0\<rparr>)" "msg_inv (s\<lparr>h_cancel_button := True\<rparr>)"
    using assms(1) by (simp_all add: msg_inv_def)
  then show ?thesis
    using receive_init_inv [OF assms, of e] receive_cont_inv [OF assms, of e] assms(1) by (simp add: hid_receive_def)
qed

text \<open>No command handler changes the message buffer; they keep its lengths or reset them.\<close>

definition msgs :: "hid \<Rightarrow> usb_buffer \<times> bytes \<times> u16 \<times> u16" where
  "msgs s = (h_rx s, h_msg s, h_msg_len s, h_msg_cur s)"

lemma tx_write_msgs: "tx_write off bs s = Some s' \<Longrightarrow> msgs s' = msgs s"
  by (auto simp: tx_write_def msgs_def split: Option.bind_splits)

lemma put_resp_msgs: "put_resp off bs s = Some s' \<Longrightarrow> msgs s' = msgs s"
  by (simp add: put_resp_def tx_write_msgs)

lemma driver_write_msgs [simp]: "msgs (snd (driver_write_hid e f s)) = msgs s"
  by (simp add: driver_write_hid_def msgs_def)

lemma write_resp_msgs: "write_resp e s = Some s' \<Longrightarrow> msgs s' = msgs s"
  by (auto simp: write_resp_def split: Option.bind_splits)


lemma msgs_update [simp]:
  "msgs (s\<lparr>h_last_packet_time := a\<rparr>) = msgs s" "msgs (s\<lparr>h_resp := b\<rparr>) = msgs s" "msgs (s\<lparr>h_send := c\<rparr>) = msgs s"
  "msgs (s\<lparr>h_apdu := d\<rparr>) = msgs s" "msgs (s\<lparr>h_usb := u\<rparr>) = msgs s" "msgs (s\<lparr>h_tx := x\<rparr>) = msgs s"
  "msgs (s\<lparr>h_thread_type := y\<rparr>) = msgs s" "msgs (s\<lparr>h_is_nk := i\<rparr>) = msgs s" "msgs (s\<lparr>h_next_cid := n\<rparr>) = msgs s"
  "msgs (s\<lparr>h_lock := m\<rparr>) = msgs s" "msgs (s\<lparr>h_lock_cid := n\<rparr>) = msgs s" "msgs (s\<lparr>h_cbor_request := r\<rparr>) = msgs s"
  "msgs (s\<lparr>h_cbor_len := l\<rparr>) = msgs s" "msgs (s\<lparr>h_cbor_cmd := k\<rparr>) = msgs s" "msgs (s\<lparr>h_rdata := p\<rparr>) = msgs s"
  "msgs (s\<lparr>h_last_keepalive := w\<rparr>) = msgs s" "msgs (s\<lparr>h_cancel_button := v\<rparr>) = msgs s"
  "msgs (s\<lparr>h_fido_inits := q\<rparr>) = msgs s" "msgs (s\<lparr>h_wr := z\<rparr>) = msgs s"
  by (simp_all add: msgs_def)

lemma ctap_error_msgs: "ctap_error err s = Some s' \<Longrightarrow> msgs s' = msgs s"
  by (auto simp: ctap_error_def hid_write_offset_def dest!: put_resp_msgs split: Option.bind_splits)

lemma finished_cont_msgs: "driver_exec_finished_cont_hid n off s = Some s' \<Longrightarrow> msgs s' = msgs s"
  by (auto simp: driver_exec_finished_cont_hid_def Let_def hid_write_offset_def
      dest!: put_resp_msgs split: Option.bind_splits)

lemma finished_msgs: "driver_exec_finished_hid n s = Some s' \<Longrightarrow> msgs s' = msgs s"
  by (auto simp: driver_exec_finished_hid_def dest!: finished_cont_msgs tx_write_msgs ctap_error_msgs
      split: Option.bind_splits if_splits)

lemma keepalive_msgs: "send_keepalive e s = Some s' \<Longrightarrow> msgs s' = msgs s"
  by (auto simp: send_keepalive_def case_prod_beta dest!: tx_write_msgs split: Option.bind_splits if_splits)

lemmas op_msgs = put_resp_msgs tx_write_msgs write_resp_msgs ctap_error_msgs finished_cont_msgs finished_msgs keepalive_msgs

lemma with_apdu_msgs [simp]: "msgs (snd (with_apdu f s)) = msgs s"
  by (simp add: with_apdu_def Let_def case_prod_beta)

text \<open>The message is kept or dropped.\<close>

definition kept :: "hid \<Rightarrow> hid \<Rightarrow> bool" where
  "kept s s' \<longleftrightarrow> msgs s' = msgs s \<or> msgs s' = (h_rx s, h_msg s, 0, 0)"

text \<open>With the receive buffer empty and of its size.\<close>

definition rx_inv :: "hid \<Rightarrow> bool" where
  "rx_inv s \<longleftrightarrow> msg_inv s \<and> length (ub_buffer (h_rx s)) = USB_BUFFER_SIZE \<and> ub_r (h_rx s) = 0 \<and> ub_w (h_rx s) = 0"

lemma kept_inv: "kept s s' \<Longrightarrow> rx_inv s \<Longrightarrow> rx_inv s'"
  by (auto simp: kept_def msgs_def msg_inv_def rx_inv_def)

lemma kept_same: "msgs t = msgs s \<Longrightarrow> kept s t" "msgs t = msgs s \<Longrightarrow> kept s (msg_reset t)" "msgs t = msgs s \<Longrightarrow> kept s (finish_cmd t)"
  by (simp_all add: kept_def msgs_def msg_reset_def finish_cmd_def)

lemma cmd_kept:
  "cmd_init e f s = Some s' \<Longrightarrow> kept s s'" "cmd_wink e f s = Some s' \<Longrightarrow> kept s s'" "cmd_ping e f s = Some s' \<Longrightarrow> kept s s'"
  "cmd_lock e f s = Some s' \<Longrightarrow> kept s s'" "cmd_uuid e f s = Some s' \<Longrightarrow> kept s s'" "cmd_version e f s = Some s' \<Longrightarrow> kept s s'"
  "cmd_admin e f s = Some s' \<Longrightarrow> kept s s'"
proof -
  show "cmd_init e f s = Some s' \<Longrightarrow> kept s s'"
    by (auto simp: cmd_init_def allocate_cid_def case_prod_beta intro!: kept_same dest!: op_msgs split: Option.bind_splits if_splits)
  show "cmd_wink e f s = Some s' \<Longrightarrow> kept s s'"
    by (auto simp: cmd_wink_def intro!: kept_same dest!: op_msgs split: Option.bind_splits if_splits)
  show "cmd_ping e f s = Some s' \<Longrightarrow> kept s s'"
    by (auto simp: cmd_ping_def intro!: kept_same dest!: op_msgs split: Option.bind_splits if_splits)
  show "cmd_lock e f s = Some s' \<Longrightarrow> kept s s'"
    by (auto simp: cmd_lock_def answer_def intro!: kept_same dest!: op_msgs split: Option.bind_splits if_splits)
  show "cmd_uuid e f s = Some s' \<Longrightarrow> kept s s'"
    by (auto simp: cmd_uuid_def answer_def intro!: kept_same dest!: op_msgs split: Option.bind_splits if_splits)
  show "cmd_version e f s = Some s' \<Longrightarrow> kept s s'"
    by (auto simp: cmd_version_def answer_def intro!: kept_same dest!: op_msgs split: Option.bind_splits if_splits)
  show "cmd_admin e f s = Some s' \<Longrightarrow> kept s s'"
    by (auto simp: cmd_admin_def answer_def intro!: kept_same dest!: op_msgs split: Option.bind_splits if_splits)
qed

lemma hid_select_msgs [simp]: "msgs (hid_select e aid s) = msgs s"
  by (simp add: hid_select_def)

lemma apdu_process_msgs: "hid_apdu_process b s = Some (n, s') \<Longrightarrow> msgs s' = msgs s"
proof -
  assume a: "hid_apdu_process b s = Some (n, s')"
  define w where "w = with_apdu (\<lambda>a. case apdu_process (Some b) a of (new, piece, a) \<Rightarrow> ((new, piece), a)) s"
  have "msgs (snd w) = msgs s" by (simp add: w_def)
  then show ?thesis
    using a by (auto simp: hid_apdu_process_def Let_def case_prod_beta dest!: finished_cont_msgs
        simp flip: w_def split: option.splits Option.bind_splits)
qed

lemma cmd_msg_kept: "cmd_msg e f s = Some (n, s') \<Longrightarrow> kept s s'"
  by (auto simp: cmd_msg_def case_prod_beta intro!: kept_same dest!: apdu_process_msgs split: Option.bind_splits if_splits)

lemma cbor_process_msgs: "cbor_process cmd d s = Some (Some s') \<Longrightarrow> msgs s' = msgs s"
  by (auto simp: cbor_process_def dest!: put_resp_msgs split: Option.bind_splits if_splits)

lemma kept_msgs: "msgs t = msgs u \<Longrightarrow> kept s u \<Longrightarrow> kept s t"
  by (simp add: kept_def)

lemma cmd_cbor_kept: "cmd_cbor e f s = Some (n, s') \<Longrightarrow> kept s s'"
proof -
  assume a: "cmd_cbor e f s = Some (n, s')"
  let ?t = "hid_select e (e_fido_aid e) (s\<lparr>h_thread_type := 2, h_cancel_button := False\<rparr>)"
  have t: "msgs ?t = msgs s" by simp
  from a obtain r where r: "cbor_process (h_last_cmd ?t) (message f ?t) ?t = Some r" by (auto simp: cmd_cbor_def split: Option.bind_splits)
  show ?thesis
  proof (cases r)
    case None
    then obtain u where "ctap_error CTAP1_ERR_INVALID_LEN (finish_cmd ?t) = Some u" "s' = u"
      using a r by (auto simp: cmd_cbor_def split: Option.bind_splits)
    then show ?thesis using kept_msgs [OF ctap_error_msgs kept_same(3) [OF t]] by simp
  next
    case (Some v)
    then obtain u where "send_keepalive e ((finish_cmd v)\<lparr>h_last_keepalive := 0\<rparr>) = Some u" "s' = u"
      using a r by (auto simp: cmd_cbor_def split: Option.bind_splits)
    moreover have "msgs v = msgs s" using r Some cbor_process_msgs t by simp
    ultimately show ?thesis using kept_msgs [OF _ kept_same(3)] keepalive_msgs by (metis msgs_update(16))
  qed
qed

lemma hid_dispatch_kept: "hid_dispatch e f s = Some (n, s') \<Longrightarrow> kept s s'"
  unfolding hid_dispatch_def
  by (auto dest: cmd_kept cmd_msg_kept cmd_cbor_kept ctap_error_msgs simp: kept_same split: if_splits)

lemma start_worker_msgs [simp]: "msgs (start_worker e n s) = msgs s"
  by (simp add: start_worker_def Let_def)

lemma hid_receive_rx: "hid_receive e f s = Some (r, s') \<Longrightarrow> h_rx s' = h_rx s"
  by (auto simp: hid_receive_def receive_init_def receive_cont_def msg_reset_def Let_def split: if_splits Option.bind_splits)

lemma handle_report_inv:
  assumes "rx_inv s" "length f = HID_RPT_SIZE" "handle_report e f s = Some (n, s')"
  shows "rx_inv s'"
proof -
  obtain r t where t: "hid_receive e f s = Some (r, t)" "msg_inv t"
    using hid_receive_inv [OF _ assms(2), of s e] assms(1) unfolding rx_inv_def by blast
  have inv: "rx_inv t" using t(2) hid_receive_rx [OF t(1)] assms(1) by (simp add: rx_inv_def)
  show ?thesis
  proof (cases r)
    case Recv_Ignore then show ?thesis using assms(3) t inv by (simp add: handle_report_def)
  next
    case (Recv_Error err)
    then show ?thesis using assms(3) t kept_inv [OF kept_same(1) inv] by (auto simp: handle_report_def dest: ctap_error_msgs)
  next
    case Recv_Go
    then obtain u where "hid_dispatch e f t = Some (n, u)" "s' = start_worker e n u"
      using assms(3) t by (auto simp: handle_report_def split: Option.bind_splits)
    then show ?thesis using kept_inv [OF _ inv, of s'] kept_msgs [of s' u t] hid_dispatch_kept by auto
  qed
qed

lemma nopacket_kept: "driver_process_usb_nopacket_hid e s = Some s' \<Longrightarrow> kept s s'"
  by (auto simp: driver_process_usb_nopacket_hid_def intro!: kept_same dest!: ctap_error_msgs split: if_splits Option.bind_splits)

lemma set_report_inv:
  assumes "rx_inv s" "tud_hid_set_report_cb e f s = Some s'"
  shows "rx_inv s'"
proof (cases "length f = HID_RPT_SIZE")
  case True
  have tx: "64 \<le> length (ub_buffer (h_tx s))"
    using assms True by (auto simp: tud_hid_set_report_cb_def driver_process_usb_packet_hid_def driver_init_hid_def put_resp_def
        tx_write_def mem_write_def rx_inv_def split: Option.bind_splits if_splits)
  have a: "rx_inv (arrive e f s)" using assms(1) True by (simp add: rx_inv_def msg_inv_def arrive_def)
  obtain n t where t: "handle_report e f (arrive e f s) = Some (n, t)"
    "(if n = 0 then driver_process_usb_nopacket_hid e t else Some t) = Some s'"
    using assms set_report_taken [OF _ _ _ tx True, of e] by (auto simp: rx_inv_def split: Option.bind_splits)
  show ?thesis
    using handle_report_inv [OF a True t(1)] t(2) by (auto intro: kept_inv [OF nopacket_kept] split: if_splits)
qed (use assms in \<open>simp add: tud_hid_set_report_cb_def\<close>)

lemma hid_task_kept: "hid_task e due n s = Some s' \<Longrightarrow> kept s s'"
proof -
  assume a: "hid_task e due n s = Some s'"
  then obtain t where t: "driver_process_usb_nopacket_hid e s = Some t" by (auto simp: hid_task_def split: Option.bind_splits)
  obtain c u where c: "card_status (e_now e) (itf_hid (u_itfs (h_usb t))) (h_usb t) = (c, u)" by fastforce
  define q where "q = (if due then (case (c, u) of
      (Card_Finished, u) \<Rightarrow> driver_exec_finished_hid n (t\<lparr>h_usb := u\<rparr>)
    | (Card_Blocked, u) \<Rightarrow> send_keepalive e (t\<lparr>h_usb := u\<rparr>)
    | (_, u) \<Rightarrow> Some (t\<lparr>h_usb := u\<rparr>)) else Some t)"
  obtain v where v: "q = Some v"
    and w: "(if ub_w (h_tx v) > ub_r (h_tx v) \<and> h_wr v \<noteq> WRITE_PENDING then do {
        f \<leftarrow> mem_read (unat (ub_r (h_tx v))) 64 (ub_buffer (h_tx v)); Some (snd (driver_write_hid e f v)) }
      else Some v) = Some s'"
    using a unfolding hid_task_def t bind.bind_lunit c q_def [symmetric] by (cases q) auto
  have "msgs v = msgs t"
    using v by (cases c) (auto simp: q_def dest: finished_msgs keepalive_msgs split: if_splits)
  moreover have "msgs s' = msgs v" using w by (auto split: if_splits Option.bind_splits)
  ultimately show ?thesis using nopacket_kept [OF t] by (simp add: kept_def)
qed

lemma next_piece_msgs: "next_piece f s = Some s' \<Longrightarrow> msgs s' = msgs s"
  by (auto simp: next_piece_def dest!: put_resp_msgs split: Option.bind_splits if_splits)

lemma report_sent_msgs [simp]: "msgs (report_sent f s) = msgs s"
  by (simp add: report_sent_def Let_def)

lemma report_complete_kept: "tud_hid_report_complete_cb f s = Some s' \<Longrightarrow> kept s s'"
  by (auto simp: tud_hid_report_complete_cb_def intro!: kept_same dest!: next_piece_msgs split: Option.bind_splits if_splits)

text \<open>
  What can happen to the driver: a report arrives, the main loop runs \<open>hid_task\<close> (which times a
  transaction out, takes the worker's answer and sends), or TinyUSB has sent a report.
\<close>

datatype hid_event = Ev_Report hid_env bytes | Ev_Task hid_env bool u16 | Ev_Sent bytes

fun hid_step :: "hid_event \<Rightarrow> hid \<Rightarrow> hid option" where
  "hid_step (Ev_Report e f) s = tud_hid_set_report_cb e f s"
| "hid_step (Ev_Task e due n) s = hid_task e due n s"
| "hid_step (Ev_Sent f) s = tud_hid_report_complete_cb f s"

fun hid_run :: "hid_event list \<Rightarrow> hid \<Rightarrow> hid option" where
  "hid_run [] s = Some s"
| "hid_run (ev # evs) s = do { s \<leftarrow> hid_step ev s; hid_run evs s }"

lemma hid_step_inv: "rx_inv s \<Longrightarrow> hid_step ev s = Some s' \<Longrightarrow> rx_inv s'"
  by (cases ev) (auto dest: set_report_inv intro: kept_inv hid_task_kept report_complete_kept)

lemma hid_run_inv: "rx_inv s \<Longrightarrow> hid_run evs s = Some s' \<Longrightarrow> rx_inv s'"
  by (induction evs s rule: hid_run.induct) (auto dest: hid_step_inv split: Option.bind_splits)

lemma hid_run_stops:
  "hid_run evs s = None \<Longrightarrow> \<exists>evs1 ev evs2 s1. evs = evs1 @ ev # evs2 \<and> hid_run evs1 s = Some s1 \<and> hid_step ev s1 = None"
proof (induction evs arbitrary: s)
  case (Cons ev evs)
  show ?case
  proof (cases "hid_step ev s")
    case None
    then show ?thesis by (intro exI [of _ "[]"] exI [of _ ev] exI [of _ evs] exI [of _ s]) simp
  next
    case (Some t)
    then obtain evs1 ev' evs2 s1 where "evs = evs1 @ ev' # evs2" "hid_run evs1 t = Some s1" "hid_step ev' s1 = None"
      using Cons.IH [of t] Cons.prems by auto
    then show ?thesis using Some by (intro exI [of _ "ev # evs1"] exI [of _ ev'] exI [of _ evs2] exI [of _ s1]) simp
  qed
qed simp

text \<open>A report is taken in: the message buffer is written within its bounds, and stays in bounds.\<close>

definition taken_in :: "hid_env \<Rightarrow> bytes \<Rightarrow> hid \<Rightarrow> bool" where
  "taken_in e f s \<longleftrightarrow> (\<exists>r t. hid_receive e f (arrive e f s) = Some (r, t) \<and> msg_inv t)"

lemma rx_inv_taken_in: "rx_inv s \<Longrightarrow> length f = HID_RPT_SIZE \<Longrightarrow> taken_in e f s"
  using hid_receive_inv [of "arrive e f s" f e] by (simp add: taken_in_def rx_inv_def msg_inv_def)

text \<open>
  C16. The message buffer is never overrun, whatever a host sends: for every sequence of reports, task
  rounds and completed transmissions, what is collected never exceeds the announced length, that length
  never exceeds 7609, and every 64-byte report is taken in within the buffer. This is said of the
  sequences the driver gets through; if it does not get through one, because an answer is
  written outside the transmit buffer (a PING of more than 2041 bytes does that), it has
  got through the events before with the message buffer in bounds, and the report at which it stops was itself
  taken in within bounds, so that the fault lies in the answer.
\<close>

theorem hid_message_in_bounds:
  assumes "rx_inv s"
  shows "case hid_run evs s of
      Some s' \<Rightarrow> msg_inv s' \<and> (\<forall>e f. length f = HID_RPT_SIZE \<longrightarrow> taken_in e f s')
    | None \<Rightarrow> (\<exists>evs1 ev evs2 s1. evs = evs1 @ ev # evs2 \<and> hid_run evs1 s = Some s1 \<and> hid_step ev s1 = None \<and> msg_inv s1 \<and>
        (\<forall>e f. ev = Ev_Report e f \<longrightarrow> taken_in e f s1))"
proof (cases "hid_run evs s")
  case (Some s')
  then show ?thesis using hid_run_inv [OF assms Some] rx_inv_taken_in by (simp add: rx_inv_def)
next
  case None
  then obtain evs1 ev evs2 s1 where s1: "evs = evs1 @ ev # evs2" "hid_run evs1 s = Some s1" "hid_step ev s1 = None"
    using hid_run_stops by blast
  have "length f = HID_RPT_SIZE" if "ev = Ev_Report e f" for e f
    using s1(3) that by (auto simp: tud_hid_set_report_cb_def split: if_splits)
  then have "\<forall>e f. ev = Ev_Report e f \<longrightarrow> taken_in e f s1" "msg_inv s1"
    using hid_run_inv [OF assms s1(2)] rx_inv_taken_in by (auto simp: rx_inv_def)
  then show ?thesis using None s1 unfolding None option.case by blast
qed

section \<open>Where the transmit buffer is too small\<close>

text \<open>A PING of more than 2041 bytes is collected, and its echo is then written over the end of the
  transmit buffer.\<close>

lemma ping_overflows:
  assumes "collecting c CTAPHID_PING k data s" "may_send e c s" "\<not> collected (Suc k) < length data" "2041 < length data"
    "carries f (cid_bytes c @ [word_of_nat k] @ take 59 (drop (collected k) data))"
  shows "tud_hid_set_report_cb e f s = None"
proof -
  have f: "length f = HID_RPT_SIZE" and b: "hid_bufs s" using assms(1,5) by (auto simp: carries_def collecting_def)
  have a: "collecting c CTAPHID_PING k data (arrive e f s)" "may_send e c (arrive e f s)"
    using assms(1,2) arrive_bufs [OF b f] by (simp_all add: collecting_def may_send_def)
  obtain t where t: "hid_receive e f (arrive e f s) = Some (Recv_Go, t)" "\<not> is_init_frame f" "collected_all c CTAPHID_PING data t" "h_resp t = 0"
    using receive_cont_go [OF a assms(5)] assms(3) by auto
  note all = t(3) [unfolded collected_all_def]
  have "h_msg_len t > 0" using all by (auto simp: word_gt_0)
  then have "long_message t" "msg_complete t" using all by (auto simp: long_message_def msg_complete_def)
  moreover have "put_resp 7 (take (unat (h_msg_len t)) (h_msg t)) t = None"
    using all assms(4) t(4) by (simp add: put_resp_def tx_write_def mem_write_def hid_bufs_def)
  ultimately have "hid_dispatch e f t = None"
    using cont_cmd [OF t(2)] all by (simp add: hid_dispatch_def cmd_ping_def)
  then show ?thesis using set_report_arrive [OF b f, of e] by (simp add: handle_report_def t(1))
qed

text \<open>
  The APDU layer passes \<open>rdata_gr - apdu.rdata\<close> to \<open>driver_exec_finished_cont_hid\<close>, which takes an offset from the start of the
  buffer plus 7: the report starts seven bytes early. For an offset below 7 its header is
  written outside the buffer.
\<close>

lemma get_response_misplaced:
  assumes "length (ub_buffer (h_tx s)) = USB_BUFFER_SIZE" "ub_r (h_tx s) = 0" "ub_w (h_tx s) = 0" "g + n \<le> 2000" "0 < n"
  shows "0 < g \<Longrightarrow> g < 7 \<Longrightarrow> driver_exec_finished_cont_hid (word_of_nat n) (word_of_nat g) s = None"
    "7 \<le> g \<Longrightarrow> \<exists>s'. driver_exec_finished_cont_hid (word_of_nat n) (word_of_nat g) s = Some s' \<and>
      unat (ub_r (h_tx s')) + 7 = g \<and> slice g n (ub_buffer (h_tx s')) = slice g n (ub_buffer (h_tx s))"
proof -
  have u: "unat (word_of_nat g - 7 :: u16) = (if g < 7 then g + 65529 else g - 7)"
    using assms(4) by (auto simp: unat_sub_if' unat_of_nat)
  show "0 < g \<Longrightarrow> g < 7 \<Longrightarrow> driver_exec_finished_cont_hid (word_of_nat n) (word_of_nat g) s = None"
    using u assms(1) by (simp add: driver_exec_finished_cont_hid_def Let_def put_resp_def tx_write_def mem_write_def)
  assume g: "7 \<le> g"
  let ?o = "word_of_nat g - 7 :: u16"
  let ?t = "put_tx (g - 7) (cid_bytes (frame_cid (h_last_req s))) (s\<lparr>h_resp := g - 7\<rparr>)"
  let ?u = "put_tx (g - 2) (put_uint16_be (word_of_nat n)) ?t"
  let ?v = "put_tx (g - 3) [h_last_cmd s] (?u\<lparr>h_send := word_of_nat n\<rparr>)"
  have o: "g - 7 + 5 = g - 2" "g - 7 + 4 = g - 3" using g by simp_all
  have "driver_exec_finished_cont_hid (word_of_nat n) (word_of_nat g) s = Some (hid_write_offset (word_of_nat n + 7) ?o ?v)"
    using u assms g by (simp add: driver_exec_finished_cont_hid_def Let_def put_resp_ok put_tx_def o)
  moreover have "slice g n (ub_buffer (h_tx ?v)) = slice g n (ub_buffer (h_tx s))"
  proof -
    obtain h where h: "g = h + 7" using g by (metis le_Suc_ex add.commute)
    show ?thesis using assms(1,4) unfolding h by (simp add: put_tx_def codec_simps)
  qed
  ultimately show "\<exists>s'. driver_exec_finished_cont_hid (word_of_nat n) (word_of_nat g) s = Some s' \<and>
      unat (ub_r (h_tx s')) + 7 = g \<and> slice g n (ub_buffer (h_tx s')) = slice g n (ub_buffer (h_tx s))"
    using u g assms(2) by (simp add: hid_write_offset_def put_tx_def)
qed

section \<open>Concrete runs\<close>

definition idle_apdu :: apdu_state where
  "idle_apdu = \<lparr>hdr = [], nc = 0, ne = 0, apdu_data = 0, sw = 0, rdata = [], rlen = 0, rdata_gr = None, rdata_bk = 0,
     response_pending = False, is_chaining = False, chain_buf = [], chain_ptr = None, chain_header = [], apps = [], current_app = None\<rparr>"

definition idle_usb :: usb where
  "idle_usb = \<lparr>u_itfs = init_itfs PHY_USB_ITF_ALL itfs_unset, u_vid = 0, u_pid = 0, u_timeout = 0, u_timeout_counter = replicate 4 0,
     u_locked_itf = 4, u_locked_func = None, u_running = None, u_to_card = [], u_to_usb = [], u_led = Led_Other\<rparr>"

definition idle_hid :: hid where
  "idle_hid = \<lparr>h_rx = \<lparr>ub_buffer = replicate USB_BUFFER_SIZE 0, ub_r = 0, ub_w = 0\<rparr>,
     h_tx = \<lparr>ub_buffer = replicate USB_BUFFER_SIZE 0, ub_r = 0, ub_w = 0\<rparr>, h_req = 0, h_resp = 0, h_msg_len = 0, h_msg_cur = 0,
     h_msg = replicate CTAP_MAX_PACKET_SIZE 0, h_send = 0, h_wr = WRITE_UNKNOWN, h_last_cmd_time = 0, h_last_packet_time = 0,
     h_last_keepalive = 0, h_last_cmd = 0, h_last_seq = 0, h_last_req = replicate 64 0, h_lock = 0, h_lock_cid = 0, h_next_cid = 1,
     h_thread_type = 0, h_is_nk = False, h_cancel_button = False, h_rdata = 7, h_apdu = idle_apdu,
     h_cbor_request = replicate CTAP_MAX_PACKET_SIZE 0, h_cbor_len = 0, h_cbor_cmd = 0, h_usb = idle_usb, h_fido_inits = 0, h_out = []\<rparr>"

definition some_env :: "u32 \<Rightarrow> hid_env" where
  "some_env now = \<lparr>e_now = now, e_ready = True, e_button_pending = False, e_version = (7, 0), e_serial = replicate 8 0,
     e_ops = \<lparr>select_aid = \<lambda>a b t. (True, t), unload_app = \<lambda>a t. t, run_app = \<lambda>a t. t\<rparr>,
     e_fido_aid = [], e_u2f_aid = [], e_oath_aid = []\<rparr>"

definition pad :: "bytes \<Rightarrow> bytes" where
  "pad g = g @ replicate (64 - length g) 0"

lemma carries_pad: "length g \<le> 64 \<Longrightarrow> carries (pad g) g"
  by (simp add: carries_def pad_def)

lemma fragment_short: "\<forall>g\<in>set (fragment c cmd data). length g \<le> 64"
proof -
  have "\<forall>g\<in>set (cont_frames c k d). length g \<le> 64" for k d
    by (induction c k d rule: cont_frames.induct) (subst cont_frames.simps, simp)
  then show ?thesis by (simp add: fragment_def init_frame_def)
qed

lemma idle_hid_bufs: "hid_bufs idle_hid" "h_msg_len idle_hid = 0"
  by (simp_all add: hid_bufs_def idle_hid_def)

lemma some_env_ok: "host_ok 7 idle_hid (some_env now)" if "unat now < 1000"
  using that by (simp add: host_ok_def may_send_def no_wrap_def polite_def some_env_def idle_hid_def)

theorem hid_reassembly_witness:
  "\<exists>s'. reports (map (\<lambda>g. (some_env 5, pad g)) (fragment 7 CTAPHID_CBOR (replicate 300 4))) idle_hid = Some s' \<and>
     handed_over CTAPHID_CBOR (replicate 300 4) s'"
proof (rule hid_reassembly [OF idle_hid_bufs])
  let ?fs = "fragment 7 CTAPHID_CBOR (replicate 300 4)"
  show "worker_cmd CTAPHID_CBOR" by (simp add: worker_cmd_def)
  show "length (replicate 300 (4 :: u8)) \<le> CTAP_MAX_PACKET_SIZE" by simp
  show "list_all2 (\<lambda>r. carries (snd r)) (map (\<lambda>g. (some_env 5, pad g)) ?fs) ?fs"
    using fragment_short carries_pad by (auto simp: list_all2_map1 list_all2_same)
  show "\<forall>r\<in>set (map (\<lambda>g. (some_env 5, pad g)) ?fs). host_ok 7 idle_hid (fst r)"
    using some_env_ok by simp
qed

theorem hid_response_witness:
  "\<exists>s1 s' fs. driver_exec_finished_hid 100 (idle_hid\<lparr>h_last_cmd := CTAPHID_CBOR\<rparr>) = Some s1 \<and>
     pumps (length fs) (some_env 5) s1 = Some s' \<and> h_out s' = fs \<and>
     list_all2 carries fs (fragment 0 CTAPHID_CBOR (replicate 100 0)) \<and> sent_all s'"
proof -
  let ?s = "idle_hid\<lparr>h_last_cmd := CTAPHID_CBOR\<rparr>"
  have "replicate 100 (0 :: u8) \<noteq> []" by (metis length_0_conv length_replicate zero_neq_numeral)
  then have r: "response_ready (replicate 100 0) ?s"
    by (simp add: response_ready_def idle_hid_def idle_apdu_def slice_def min_def)
  have "frame_cid (h_last_req ?s) = 0" "h_out ?s = []"
    by (simp_all add: idle_hid_def frame_cid_def get_uint32_be_def make_uint32_be_def)
  then show ?thesis using hid_response [OF r, of "some_env 5"] by (simp add: some_env_def)
qed

theorem hid_channel_isolation_witness:
  "\<exists>s'. tud_hid_set_report_cb (some_env 5) (pad (cid_bytes 9 @ [CTAPHID_CBOR, 0, 1]))
      (idle_hid\<lparr>h_msg_len := 100, h_msg_cur := 57, h_last_cmd_time := 4\<rparr>) = Some s' \<and>
     msg_state s' = msg_state (idle_hid\<lparr>h_msg_len := 100, h_msg_cur := 57, h_last_cmd_time := 4\<rparr>) \<and>
     \<not> h_cancel_button s'"
proof -
  let ?s = "idle_hid\<lparr>h_msg_len := 100, h_msg_cur := 57, h_last_cmd_time := 4\<rparr>" and ?f = "pad (cid_bytes 9 @ [CTAPHID_CBOR, 0, 1])"
  have c: "frame_cid (h_last_req ?s) = 0" by (simp add: idle_hid_def frame_cid_def get_uint32_be_def make_uint32_be_def)
  have f: "frame_cid ?f = 9" "frame_cmd ?f = CTAPHID_CBOR" "length ?f = 64"
    by (simp_all add: pad_def frame_cmd_def nth_append)
  have b: "hid_bufs ?s" using idle_hid_bufs by (simp add: hid_bufs_def)
  show ?thesis using hid_channel_isolation [OF b, of ?f "some_env 5"] c f
    by (simp add: no_wrap_def some_env_def) (simp add: idle_hid_def)
qed

text \<open>
  The first report of a message of 300 bytes leaves 57 of them in the buffer, and the next one is taken in.
\<close>

theorem hid_message_in_bounds_witness:
  "\<exists>t. hid_run [Ev_Report (some_env 5) (pad (init_frame 7 CTAPHID_CBOR (replicate 300 4)))] idle_hid = Some t \<and>
     unat (h_msg_len t) = 300 \<and> unat (h_msg_cur t) = 57 \<and> msg_inv t \<and>
     taken_in (some_env 6) (pad (cid_bytes 7 @ [0] @ replicate 59 4)) t"
proof -
  let ?d = "replicate 300 (4 :: u8)" and ?f = "pad (init_frame 7 CTAPHID_CBOR (replicate 300 4))"
  have inv: "rx_inv idle_hid" by (simp add: rx_inv_def msg_inv_def idle_hid_def)
  have ok: "may_send (some_env 5) 7 idle_hid" "no_wrap (some_env 5)" "polite (e_ops (some_env 5))"
    using some_env_ok [of 5] by (simp_all add: host_ok_def)
  have "length (init_frame 7 CTAPHID_CBOR ?d) \<le> 64" using fragment_short [of 7 CTAPHID_CBOR ?d] by (simp add: fragment_def)
  then have "carries ?f (init_frame 7 CTAPHID_CBOR ?d)" by (rule carries_pad)
  then obtain t where t: "tud_hid_set_report_cb (some_env 5) ?f idle_hid = Some t" "collecting 7 CTAPHID_CBOR 0 ?d t"
    using report_first [OF idle_hid_bufs ok, of CTAPHID_CBOR ?d ?f] by (auto simp: worker_cmd_def)
  have "unat (h_msg_len t) = 300" "unat (h_msg_cur t) = 57" using t(2) by (simp_all add: collecting_def collected_def)
  moreover have "length (pad (cid_bytes 7 @ [0] @ replicate 59 4)) = HID_RPT_SIZE" by (simp add: pad_def)
  ultimately show ?thesis
    using hid_message_in_bounds [OF inv, of "[Ev_Report (some_env 5) ?f]"] t(1) by simp
qed

end
