(* ===== verification/Keyboard.thy ===== *)
theory Keyboard
  imports Prelude
begin

text \<open>
  The keyboard instance of \<open>usb/hid/hid.c\<close>: a one-time password is put into a buffer and typed, each key as a
  report that presses it and one that releases it. The translation table for ASCII is TinyUSB's and is a
  parameter, with its 128 rows; a read outside it is the result \<open>None\<close>. Whether TinyUSB is ready and takes
  the report is an input of each poll. The lemmas show that the buffer is typed completely and in order, and
  which length and which characters go wrong.
\<close>

type_synonym conv = "(u8 \<times> u8) list"

record keyboard =
  kb_buffer :: bytes
  kb_len :: u8
  kb_w :: u8
  kb_sent :: bool
  kb_encode :: bool
  kb_reports :: "(u8 \<times> u8) list"

definition add_keyboard_buffer :: "bytes \<Rightarrow> bool \<Rightarrow> keyboard \<Rightarrow> keyboard" where
  "add_keyboard_buffer data encode k =
    (let n = word_of_nat (min 256 (length data)) :: u8 in
     k\<lparr>kb_len := n, kb_buffer := buf_write 0 (take (unat n) data) (kb_buffer k), kb_encode := encode\<rparr>)"

definition append_keyboard_buffer :: "bytes \<Rightarrow> keyboard \<Rightarrow> keyboard" where
  "append_keyboard_buffer data k =
    (if unat (kb_len k) + length data < 256 then
       (let n = min (256 - unat (kb_len k)) (length data) in
        k\<lparr>kb_buffer := buf_write (unat (kb_len k)) (take n data) (kb_buffer k), kb_len := kb_len k + word_of_nat n\<rparr>)
     else k)"

text \<open>The modifier and the key code of a character; 2 is KEYBOARD_MODIFIER_LEFTSHIFT.\<close>

definition key_of :: "conv \<Rightarrow> bool \<Rightarrow> u8 \<Rightarrow> (u8 \<times> u8) option" where
  "key_of conv_table encode chr =
    (if encode then
       (if unat chr < length conv_table then
          (let row = conv_table ! unat chr in Some (if fst row \<noteq> 0 then 2 else 0, snd row))
        else None)
     else Some (if chr AND 0x80 \<noteq> 0 then 2 else 0, chr AND 0x7f))"

text \<open>\<open>ready\<close>: TinyUSB can take a report; \<open>accepted\<close>: it took the one it was given.\<close>

definition send_hid_report :: "conv \<Rightarrow> bool \<Rightarrow> bool \<Rightarrow> keyboard \<Rightarrow> keyboard option" where
  "send_hid_report conv_table ready accepted k =
    (if \<not> ready then Some k
     else if kb_w k < kb_len k then
       (if \<not> kb_sent k then do {
          key \<leftarrow> key_of conv_table (kb_encode k) (kb_buffer k ! unat (kb_w k));
          Some (if accepted then k\<lparr>kb_sent := True, kb_reports := kb_reports k @ [key]\<rparr> else k) }
        else Some (if accepted then k\<lparr>kb_w := kb_w k + 1, kb_sent := False, kb_reports := kb_reports k @ [(0, 0)]\<rparr> else k))
     else if kb_w k = kb_len k \<and> kb_len k > 0 then Some (k\<lparr>kb_w := 0, kb_len := 0\<rparr>)
     else Some k)"

text \<open>A sequence of polls, each with the two answers of TinyUSB, and how many of them delivered a report.\<close>

fun polls :: "conv \<Rightarrow> (bool \<times> bool) list \<Rightarrow> keyboard \<Rightarrow> keyboard option" where
  "polls conv_table [] k = Some k"
| "polls conv_table ((ready, accepted) # sched) k = do {
     k \<leftarrow> send_hid_report conv_table ready accepted k;
     polls conv_table sched k }"

definition delivered :: "(bool \<times> bool) list \<Rightarrow> nat" where
  "delivered sched = length (filter (\<lambda>(ready, accepted). ready \<and> accepted) sched)"

definition typed :: "conv \<Rightarrow> bool \<Rightarrow> bytes \<Rightarrow> (u8 \<times> u8) list" where
  "typed conv_table encode data = concat (map (\<lambda>c. [the (key_of conv_table encode c), (0, 0)]) data)"

lemma polls_snoc: "polls ct (sched @ [(r, a)]) k = Option.bind (polls ct sched k) (send_hid_report ct r a)"
proof (induction sched arbitrary: k)
  case Nil
  then show ?case by (cases "send_hid_report ct r a k") simp_all
next
  case (Cons x sched)
  then show ?case by (cases x; cases "send_hid_report ct (fst x) (snd x) k") simp_all
qed

lemma delivered_snoc: "delivered (sched @ [(r, a)]) = delivered sched + (if r \<and> a then 1 else 0)"
  by (simp add: delivered_def)

lemma length_typed [simp]: "length (typed ct e data) = 2 * length data"
  by (induction data) (simp_all add: typed_def)

lemma nth_typed:
  "j < length data \<Longrightarrow> typed ct e data ! (2 * j) = the (key_of ct e (data ! j))"
  "j < length data \<Longrightarrow> typed ct e data ! Suc (2 * j) = (0, 0)"
proof (induction data arbitrary: j)
  case (Cons c data)
  { case 1 then show ?case using Cons.IH(1) [of "j - 1"] by (cases j) (simp_all add: typed_def) }
  { case 2 then show ?case using Cons.IH(2) [of "j - 1"] by (cases j) (simp_all add: typed_def) }
qed simp_all

text \<open>
  The keyboard after \<open>g\<close> reports of the text it was given: still typing, or done with the buffer freed.
\<close>

definition at_report :: "conv \<Rightarrow> bytes \<Rightarrow> keyboard \<Rightarrow> nat \<Rightarrow> keyboard \<Rightarrow> bool" where
  "at_report ct data a g k \<longleftrightarrow>
     (g \<le> 2 * length data \<and> k = a\<lparr>kb_w := word_of_nat (g div 2), kb_sent := odd g,
        kb_reports := kb_reports a @ take g (typed ct (kb_encode a) data)\<rparr>) \<or>
     (2 * length data \<le> g \<and> k = a\<lparr>kb_w := 0, kb_len := 0, kb_sent := False,
        kb_reports := kb_reports a @ typed ct (kb_encode a) data\<rparr>)"

definition loaded :: "conv \<Rightarrow> bytes \<Rightarrow> keyboard \<Rightarrow> bool" where
  "loaded ct data a \<longleftrightarrow> 0 < length data \<and> length data < 256 \<and> kb_len a = word_of_nat (length data) \<and>
     (\<forall>i<length data. kb_buffer a ! i = data ! i) \<and> (\<forall>c\<in>set data. key_of ct (kb_encode a) c \<noteq> None)"

lemma poll_step:
  assumes l: "loaded ct data a" and at: "at_report ct data a g k"
  shows "\<exists>k'. send_hid_report ct r acc k = Some k' \<and> at_report ct data a (g + (if r \<and> acc then 1 else 0)) k' \<and>
    (r \<longrightarrow> 2 * length data \<le> g \<longrightarrow> kb_len k' = 0 \<and> kb_w k' = 0)"
proof (cases "r \<and> g < 2 * length data")
  case False
  have n: "unat (word_of_nat (length data) :: u8) = length data" "0 < length data" using l by (simp_all add: loaded_def unat_of_nat)
  then have z: "(word_of_nat (length data) :: u8) > 0" by (simp add: word_less_nat_alt)
  show ?thesis using False at z l
    by (cases r) (auto simp: at_report_def send_hid_report_def loaded_def)
next
  case True
  let ?j = "g div 2"
  have j: "?j < length data" and ld: "length data < 256" using True l by (auto simp: loaded_def)
  have k: "k = a\<lparr>kb_w := word_of_nat ?j, kb_sent := odd g, kb_reports := kb_reports a @ take g (typed ct (kb_encode a) data)\<rparr>"
    using at True by (auto simp: at_report_def)
  have u: "unat (word_of_nat ?j :: u8) = ?j" "unat (word_of_nat (length data) :: u8) = length data"
    using j ld by (simp_all add: unat_of_nat)
  then have w: "kb_w k < kb_len k" using l j by (simp add: k loaded_def word_less_nat_alt)
  have nx: "take (Suc g) (typed ct (kb_encode a) data) = take g (typed ct (kb_encode a) data) @ [typed ct (kb_encode a) data ! g]"
    using True by (simp add: take_Suc_conv_app_nth)
  show ?thesis
  proof (cases "even g")
    case e: True
    then have g: "g = 2 * ?j" by simp
    have "kb_buffer a ! ?j = data ! ?j" "key_of ct (kb_encode a) (data ! ?j) \<noteq> None" using l j by (auto simp: loaded_def)
    then obtain key where key: "key_of ct (kb_encode a) (kb_buffer a ! ?j) = Some key" "typed ct (kb_encode a) data ! g = key"
      using nth_typed(1) [OF j, of ct "kb_encode a"] g by (metis option.exhaust option.sel)
    have s: "send_hid_report ct r acc k = Some (if acc then k\<lparr>kb_sent := True, kb_reports := kb_reports k @ [key]\<rparr> else k)"
      using True w e key(1) u by (simp add: send_hid_report_def k)
    show ?thesis
    proof (cases acc)
      case True
      have "Suc g div 2 = ?j" using e by (simp add: div2_Suc_Suc even_Suc_div_two)
      then have "at_report ct data a (Suc g) (k\<lparr>kb_sent := True, kb_reports := kb_reports k @ [key]\<rparr>)"
        using \<open>r \<and> g < _\<close> e nx key(2) by (simp add: at_report_def k)
      then show ?thesis using s True \<open>r \<and> g < _\<close> by simp
    qed (use s at \<open>r \<and> g < _\<close> in simp)
  next
    case o: False
    then have g: "g = Suc (2 * ?j)" by (simp add: odd_two_times_div_two_succ)
    have key: "typed ct (kb_encode a) data ! g = (0, 0)" using nth_typed(2) [OF j, of ct "kb_encode a"] g by simp
    have s: "send_hid_report ct r acc k =
        Some (if acc then k\<lparr>kb_w := kb_w k + 1, kb_sent := False, kb_reports := kb_reports k @ [(0, 0)]\<rparr> else k)"
      using True w o by (simp add: send_hid_report_def k)
    show ?thesis
    proof (cases acc)
      case True
      have "Suc g div 2 = Suc ?j" using o by (simp add: odd_Suc_div_two)
      then have "at_report ct data a (Suc g) (k\<lparr>kb_w := kb_w k + 1, kb_sent := False, kb_reports := kb_reports k @ [(0, 0)]\<rparr>)"
        using \<open>r \<and> g < _\<close> o nx key by (simp add: at_report_def k add.commute)
      then show ?thesis using s True \<open>r \<and> g < _\<close> by simp
    qed (use s at \<open>r \<and> g < _\<close> in simp)
  qed
qed

lemma polls_at:
  assumes "loaded ct data a" "kb_w a = 0" "\<not> kb_sent a"
  shows "\<exists>k. polls ct sched a = Some k \<and> at_report ct data a (delivered sched) k"
proof (induction sched rule: rev_induct)
  case Nil
  have "a = a\<lparr>kb_w := 0, kb_sent := False, kb_reports := kb_reports a\<rparr>" using assms(2,3) by simp
  then show ?case by (simp add: delivered_def at_report_def)
next
  case (snoc x sched)
  obtain r acc where x: "x = (r, acc)" by force
  from snoc obtain k where "polls ct sched a = Some k" "at_report ct data a (delivered sched) k" by blast
  then show ?case using poll_step [OF assms(1), of "delivered sched" k r acc] by (auto simp: x polls_snoc delivered_snoc)
qed

lemma at_report_reports:
  "at_report ct data a g k \<Longrightarrow> kb_reports k = kb_reports a @ take g (typed ct (kb_encode a) data)"
  by (auto simp: at_report_def)

lemma loaded_add:
  assumes "0 < length data" "length data < 256" "length (kb_buffer k) = 256" "length ct = 128" "encode \<longrightarrow> (\<forall>c\<in>set data. c < 128)"
  shows "loaded ct data (add_keyboard_buffer data encode k)"
proof -
  have n: "unat (word_of_nat (length data) :: u8) = length data" using assms(2) by (simp add: unat_of_nat)
  have "\<forall>c\<in>set data. key_of ct encode c \<noteq> None"
    using assms(4,5) by (auto simp: key_of_def word_less_nat_alt Let_def)
  then show ?thesis using assms n by (simp add: loaded_def add_keyboard_buffer_def nth_buf_write Let_def)
qed

text \<open>
  C40. A password of 1 to 255 characters put into an idle keyboard is typed completely and in order, each
  key pressed and released, whenever TinyUSB is ready and whichever reports it takes: after any
  sequence of polls the reports it has taken are the beginning of the text, one for each poll that
  delivered a report, so that twice as many of them as there are characters type all of it; no
  character is lost or typed twice by a poll in which TinyUSB was not ready or refused, and the next poll in
  which it is ready frees the buffer. Text to be translated must be ASCII: the table has 128 rows.
\<close>

theorem keyboard_types_buffer:
  assumes "0 < length data" "length data < 256" "length (kb_buffer k) = 256" "kb_w k = 0" "\<not> kb_sent k"
    "length ct = 128" "encode \<longrightarrow> (\<forall>c\<in>set data. c < 128)"
  shows "\<exists>t u. polls ct sched (add_keyboard_buffer data encode k) = Some t \<and>
    kb_reports t = kb_reports k @ take (delivered sched) (typed ct encode data) \<and>
    send_hid_report ct True acc t = Some u \<and> (2 * length data \<le> delivered sched \<longrightarrow> kb_len u = 0 \<and> kb_w u = 0)"
proof -
  let ?a = "add_keyboard_buffer data encode k"
  have l: "loaded ct data ?a" by (rule loaded_add [OF assms(1-3,6,7)])
  have a: "kb_w ?a = 0" "\<not> kb_sent ?a" "kb_encode ?a = encode" "kb_reports ?a = kb_reports k"
    using assms(4,5) by (simp_all add: add_keyboard_buffer_def Let_def)
  obtain t where t: "polls ct sched ?a = Some t" "at_report ct data ?a (delivered sched) t"
    using polls_at [OF l a(1,2)] by blast
  then show ?thesis using poll_step [OF l t(2), of True acc] at_report_reports [OF t(2)] a(3,4) by auto
qed

definition idle_keyboard :: keyboard where
  "idle_keyboard = \<lparr>kb_buffer = replicate 256 0, kb_len = 0, kb_w = 0, kb_sent = False, kb_encode = False, kb_reports = []\<rparr>"

text \<open>Two characters, with a poll that finds TinyUSB busy and one whose report it refuses.\<close>

theorem keyboard_types_buffer_witness:
  "\<exists>t. polls (replicate 128 (1, 30)) [(True, True), (False, True), (True, False), (True, True), (True, True), (True, True)]
      (add_keyboard_buffer [0x31, 0x32] True idle_keyboard) = Some t \<and> kb_reports t = [(2, 30), (0, 0), (2, 30), (0, 0)]"
proof -
  let ?s = "[(True, True), (False, True), (True, False), (True, True), (True, True), (True, True)]"
  have "delivered ?s = 4" by (simp add: delivered_def)
  moreover have "typed (replicate 128 (1, 30)) True [0x31, 0x32] = [(2, 30), (0, 0), (2, 30), (0, 0)]"
    by (simp add: typed_def key_of_def)
  ultimately show ?thesis
    using keyboard_types_buffer [of "[0x31, 0x32]" idle_keyboard "replicate 128 (1, 30)" True ?s True]
    by (auto simp: idle_keyboard_def)
qed

text \<open>A character above 127 makes the translation read outside the table.\<close>

lemma keyboard_reads_outside:
  "length ct = 128 \<Longrightarrow> kb_encode k \<Longrightarrow> kb_w k < kb_len k \<Longrightarrow> \<not> kb_sent k \<Longrightarrow> 128 \<le> kb_buffer k ! unat (kb_w k) \<Longrightarrow>
   send_hid_report ct True acc k = None"
  by (simp add: send_hid_report_def key_of_def word_le_nat_alt)

text \<open>256 characters, which the buffer has room for, are lost: their number does not fit its byte.\<close>

lemma keyboard_loses_256: "length data = 256 \<Longrightarrow> kb_len (add_keyboard_buffer data encode k) = 0"
  by (simp add: add_keyboard_buffer_def)

end
