(* ===== verification/Record_Chain.thy ===== *)
theory Record_Chain
  imports Low_Flash
begin

text \<open>
  The linked list of file records as a structure in memory, apart from the operations that build it: a record at
  \<open>b\<close> holds the address of the next record, that of the previous one, a file identifier, a length and the
  payload; the addresses descend and no two records overlap. The lemmas say what an update of the memory must
  write to insert a record into the list, to take one out, or to overwrite one, and that
  every other record keeps its identifier and its bytes.
\<close>

type_synonym memory = "nat \<Rightarrow> u8"

definition mem16 :: "memory \<Rightarrow> nat \<Rightarrow> nat" where
  "mem16 m a = unat (m a) + 256 * unat (m (a + 1))"

definition mem32 :: "memory \<Rightarrow> nat \<Rightarrow> nat" where
  "mem32 m a = unat (m a) + 256 * unat (m (a + 1)) + 65536 * unat (m (a + 2)) + 16777216 * unat (m (a + 3))"

definition same_on :: "memory \<Rightarrow> memory \<Rightarrow> nat \<Rightarrow> nat \<Rightarrow> bool" where
  "same_on m m' lo hi \<longleftrightarrow> (\<forall>a. lo \<le> a \<and> a < hi \<longrightarrow> m' a = m a)"

lemma same_onD: "same_on m m' lo hi \<Longrightarrow> lo \<le> a \<Longrightarrow> a < hi \<Longrightarrow> m' a = m a"
  by (simp add: same_on_def)

lemma same_on_sub: "same_on m m' lo hi \<Longrightarrow> lo \<le> lo' \<Longrightarrow> hi' \<le> hi \<Longrightarrow> same_on m m' lo' hi'"
  by (simp add: same_on_def)

lemma mem16_same: "same_on m m' lo hi \<Longrightarrow> lo \<le> a \<Longrightarrow> a + 2 \<le> hi \<Longrightarrow> mem16 m' a = mem16 m a"
  by (simp add: mem16_def same_on_def)

lemma mem32_same: "same_on m m' lo hi \<Longrightarrow> lo \<le> a \<Longrightarrow> a + 4 \<le> hi \<Longrightarrow> mem32 m' a = mem32 m a"
  by (simp add: mem32_def same_on_def)

section \<open>Records\<close>

definition lsz :: "memory \<Rightarrow> nat \<Rightarrow> nat" where
  "lsz m b = (if mem16 m (b + 10) = 65535 then 6 else 2)"

definition psz :: "memory \<Rightarrow> nat \<Rightarrow> nat" where
  "psz m b = (if mem16 m (b + 10) = 65535 then mem32 m (b + 12) else mem16 m (b + 10))"

definition rsz :: "memory \<Rightarrow> nat \<Rightarrow> nat" where
  "rsz m b = 10 + lsz m b + psz m b"

definition rec_fid :: "memory \<Rightarrow> nat \<Rightarrow> nat" where
  "rec_fid m b = mem16 m (b + 8)"

definition rec_data :: "memory \<Rightarrow> nat \<Rightarrow> bytes" where
  "rec_data m b = map m [b + 10 + lsz m b ..< b + 10 + lsz m b + psz m b]"

lemma rsz_ge: "12 \<le> rsz m b"
  by (simp add: rsz_def lsz_def)

lemma record_same:
  assumes "same_on m m' (b + 10) (b + rsz m b)"
  shows "lsz m' b = lsz m b" "psz m' b = psz m b" "rsz m' b = rsz m b" "rec_data m' b = rec_data m b"
proof -
  have l: "mem16 m' (b + 10) = mem16 m (b + 10)" using assms rsz_ge [of m b] by (intro mem16_same) auto
  then show ls: "lsz m' b = lsz m b" by (simp add: lsz_def)
  have "mem32 m' (b + 12) = mem32 m (b + 12)" if "mem16 m (b + 10) = 65535"
    using assms that by (intro mem32_same) (auto simp: rsz_def lsz_def)
  then show ps: "psz m' b = psz m b" using l by (simp add: psz_def)
  show "rsz m' b = rsz m b" using ls ps by (simp add: rsz_def)
  show "rec_data m' b = rec_data m b"
    unfolding rec_data_def ls ps using assms by (auto simp: same_on_def rsz_def)
qed

lemma fid_same: "same_on m m' (b + 8) (b + rsz m b) \<Longrightarrow> rec_fid m' b = rec_fid m b"
  unfolding rec_fid_def using rsz_ge [of m b] by (intro mem16_same) auto

text \<open>A record that keeps its identifier, its length and its payload.\<close>

definition unchanged :: "memory \<Rightarrow> memory \<Rightarrow> nat \<Rightarrow> bool" where
  "unchanged m m' b \<longleftrightarrow> rec_fid m' b = rec_fid m b \<and> rec_data m' b = rec_data m b \<and> rsz m' b = rsz m b"

lemma unchangedI: "same_on m m' (b + 8) (b + rsz m b) \<Longrightarrow> unchanged m m' b"
  using record_same [of m m' b] fid_same same_on_sub [of m m' "b + 8" _ "b + 10"] by (simp add: unchanged_def)

section \<open>The list\<close>

fun links :: "memory \<Rightarrow> nat \<Rightarrow> nat \<Rightarrow> nat list \<Rightarrow> bool" where
  "links m s p [] \<longleftrightarrow> mem32 m p = 0"
| "links m s p (b # bs) \<longleftrightarrow> mem32 m p = b \<and> 0 < b \<and> mem32 m (b + 4) = p \<and> s \<le> b \<and> b + rsz m b \<le> p \<and> links m s b bs"

fun seg :: "memory \<Rightarrow> nat \<Rightarrow> nat \<Rightarrow> nat list \<Rightarrow> nat \<Rightarrow> bool" where
  "seg m s p [] q \<longleftrightarrow> p = q"
| "seg m s p (b # bs) q \<longleftrightarrow> mem32 m p = b \<and> 0 < b \<and> mem32 m (b + 4) = p \<and> s \<le> b \<and> b + rsz m b \<le> p \<and> seg m s b bs q"

definition head :: "nat list \<Rightarrow> nat" where
  "head ys = (case ys of [] \<Rightarrow> 0 | y # _ \<Rightarrow> y)"

lemma links_append: "links m s p (xs @ ys) \<longleftrightarrow> (\<exists>q. seg m s p xs q \<and> links m s q ys)"
  by (induction xs arbitrary: p) auto

lemma seg_le: "seg m s p xs q \<Longrightarrow> q \<le> p \<and> (xs \<noteq> [] \<longrightarrow> q + rsz m q \<le> p)"
proof (induction xs arbitrary: p)
  case (Cons b bs)
  then have "q \<le> b" "b + rsz m b \<le> p" by auto
  moreover have "bs = [] \<longrightarrow> b = q" "bs \<noteq> [] \<longrightarrow> q + rsz m q \<le> b" using Cons by auto
  ultimately show ?case by (cases "bs = []") auto
qed simp

lemma seg_bounds: "seg m s p xs q \<Longrightarrow> b \<in> set xs \<Longrightarrow> s \<le> b \<and> q \<le> b \<and> b + rsz m b \<le> p"
proof (induction xs arbitrary: p)
  case (Cons x xs)
  show ?case
  proof (cases "b = x")
    case True then show ?thesis using Cons.prems seg_le [of m s x xs q] by auto
  next
    case False
    then have "s \<le> b \<and> q \<le> b \<and> b + rsz m b \<le> x" using Cons by auto
    then show ?thesis using Cons.prems rsz_ge [of m x] by auto
  qed
qed simp

lemma seg_apart: "seg m s p xs q \<Longrightarrow> b \<in> set xs \<Longrightarrow> b = q \<or> q + rsz m q \<le> b"
proof (induction xs arbitrary: p)
  case (Cons x xs)
  then show ?case using seg_le [of m s x xs q] by (cases "xs = []") auto
qed simp

lemma links_bounds: "links m s p bs \<Longrightarrow> b \<in> set bs \<Longrightarrow> s \<le> b \<and> b + rsz m b \<le> p"
proof (induction bs arbitrary: p)
  case (Cons x xs)
  then show ?case using rsz_ge [of m x] by fastforce
qed simp

lemma links_apart: "links m s p ys \<Longrightarrow> b \<in> set ys \<Longrightarrow> b = head ys \<or> b + rsz m b \<le> head ys"
  using links_bounds by (cases ys) (auto simp: head_def)

lemma seg_same:
  assumes "seg m s p xs q" "same_on m m' (q + 4) (p + 4)"
  shows "seg m' s p xs q"
  using assms
proof (induction xs arbitrary: p)
  case (Cons b bs)
  have le: "q \<le> b" "b + rsz m b \<le> p" using Cons.prems(1) seg_le [of m s b bs q] by auto
  have "seg m' s b bs q"
    by (rule Cons.IH) (use Cons.prems le rsz_ge [of m b] in \<open>auto intro: same_on_sub\<close>)
  moreover have "rsz m' b = rsz m b"
    by (rule record_same) (use Cons.prems(2) le in \<open>auto intro: same_on_sub\<close>)
  moreover have "mem32 m' p = mem32 m p" "mem32 m' (b + 4) = mem32 m (b + 4)"
    using le rsz_ge [of m b] by (auto intro!: mem32_same [OF Cons.prems(2)])
  ultimately show ?case using Cons.prems(1) by simp
qed simp

lemma links_same:
  assumes "links m s p bs" "same_on m m' s (p + 4)" "s \<le> p"
  shows "links m' s p bs"
  using assms
proof (induction bs arbitrary: p)
  case Nil
  then show ?case using mem32_same [OF Nil.prems(2), of p] by simp
next
  case (Cons b bs)
  have le: "s \<le> b" "b + rsz m b \<le> p" using Cons.prems(1) by auto
  have "links m' s b bs"
    by (rule Cons.IH) (use Cons.prems le rsz_ge [of m b] in \<open>auto intro: same_on_sub\<close>)
  moreover have "rsz m' b = rsz m b"
    by (rule record_same) (use Cons.prems(2) le in \<open>auto intro: same_on_sub\<close>)
  moreover have "mem32 m' p = mem32 m p" "mem32 m' (b + 4) = mem32 m (b + 4)"
    using le rsz_ge [of m b] Cons.prems(3) by (auto intro!: mem32_same [OF Cons.prems(2)])
  ultimately show ?case using Cons.prems(1) by simp
qed

text \<open>The rest of a list under a new predecessor: the link to it and its back link are written.\<close>

lemma links_relink:
  assumes "links m s p ys" "mem32 m' q = head ys" "ys \<noteq> [] \<longrightarrow> mem32 m' (head ys + 4) = q \<and> head ys + rsz m (head ys) \<le> q \<and>
      same_on m m' s (head ys + 4) \<and> same_on m m' (head ys + 8) (head ys + rsz m (head ys))"
  shows "links m' s q ys"
proof (cases ys)
  case Nil
  then show ?thesis using assms(2) by (simp add: head_def)
next
  case (Cons y zs)
  have h: "head ys = y" "ys \<noteq> []" by (simp_all add: Cons head_def)
  note a = assms(3) [unfolded h(1), rule_format, OF h(2)]
  have l: "s \<le> y" "links m s y zs" "0 < y" using assms(1) by (simp_all add: Cons)
  have "same_on m m' (y + 10) (y + rsz m y)" using a by (auto intro: same_on_sub)
  then have "rsz m' y = rsz m y" by (rule record_same)
  moreover have "links m' s y zs" using links_same [OF l(2) _ l(1)] a by blast
  ultimately show ?thesis using a assms(2) l(1,3) by (simp add: Cons head_def)
qed

text \<open>An update that spares everything but the bytes of one record, the link before it, and the back link after it.\<close>

definition spares :: "memory \<Rightarrow> memory \<Rightarrow> nat \<Rightarrow> nat \<Rightarrow> nat \<Rightarrow> nat list \<Rightarrow> bool" where
  "spares m m' lo hi q ys \<longleftrightarrow> (\<forall>a. \<not> (lo \<le> a \<and> a < hi) \<longrightarrow> \<not> (q \<le> a \<and> a < q + 4) \<longrightarrow>
     \<not> (ys \<noteq> [] \<and> head ys + 4 \<le> a \<and> a < head ys + 8) \<longrightarrow> m' a = m a)"

lemma spares_same:
  assumes "spares m m' lo hi q ys" "hi \<le> L \<or> H \<le> lo" "q + 4 \<le> L \<or> H \<le> q" "ys \<noteq> [] \<longrightarrow> head ys + 8 \<le> L \<or> H \<le> head ys + 4"
  shows "same_on m m' L H"
proof -
  have "m' a = m a" if "L \<le> a" "a < H" for a
  proof -
    have "\<not> (lo \<le> a \<and> a < hi)" "\<not> (q \<le> a \<and> a < q + 4)" using assms(2,3) that by linarith+
    moreover have "\<not> (ys \<noteq> [] \<and> head ys + 4 \<le> a \<and> a < head ys + 8)" using assms(4) that by linarith
    ultimately show ?thesis using assms(1) by (simp add: spares_def)
  qed
  then show ?thesis by (simp add: same_on_def)
qed

lemma spares_unchanged:
  assumes "seg m s p xs q" "links m s r ys" "spares m m' lo hi q ys" "lo \<le> hi" "hi \<le> q"
    "ys \<noteq> [] \<longrightarrow> head ys + rsz m (head ys) \<le> lo" "b \<in> set xs \<or> b \<in> set ys"
  shows "unchanged m m' b"
proof (rule unchangedI)
  have hd: "ys \<noteq> [] \<Longrightarrow> head ys + 12 \<le> lo" using assms(6) rsz_ge [of m "head ys"] by auto
  show "same_on m m' (b + 8) (b + rsz m b)"
  proof (cases "b \<in> set xs")
    case True
    then have "q \<le> b" "b = q \<or> q + 12 \<le> b"
      using seg_bounds [OF assms(1)] seg_apart [OF assms(1)] rsz_ge [of m q] by force+
    then show ?thesis using assms(4,5) hd by (intro spares_same [OF assms(3)]) auto
  next
    case False
    then have y: "b \<in> set ys" using assms(7) by simp
    then have "b = head ys \<or> b + rsz m b \<le> head ys" "ys \<noteq> []" using links_apart [OF assms(2)] by auto
    then show ?thesis using assms(4-6) hd by (intro spares_same [OF assms(3)]) auto
  qed
qed

text \<open>Insertion of a record of at most \<open>n\<close> bytes at \<open>b\<close>, in the gap below \<open>q\<close>.\<close>

lemma links_insert:
  assumes "seg m s p xs q" "links m s q ys" "s \<le> b" "b + n \<le> q" "0 < n" "ys \<noteq> [] \<longrightarrow> head ys + rsz m (head ys) \<le> b"
    and "spares m m' b (b + n) q ys" "mem32 m' q = b" "mem32 m' b = head ys" "mem32 m' (b + 4) = q"
    "ys \<noteq> [] \<longrightarrow> mem32 m' (head ys + 4) = b" "rsz m' b \<le> n" "0 < b"
  shows "links m' s p (xs @ b # ys)" "\<forall>c\<in>set xs \<union> set ys. unchanged m m' c"
proof -
  have hd: "ys \<noteq> [] \<Longrightarrow> head ys + 12 \<le> b" using assms(6) rsz_ge [of m "head ys"] by auto
  have "seg m' s p xs q"
    using assms(4) hd by (intro seg_same [OF assms(1)] spares_same [OF assms(7)]) auto
  moreover have "links m' s b ys"
    using assms(4,6,9,11) hd by (intro links_relink [OF assms(2)] impI conjI spares_same [OF assms(7)]) auto
  moreover have "b + rsz m' b \<le> q" using assms(4,12) by simp
  ultimately show "links m' s p (xs @ b # ys)"
    using assms(3,8,10,13) by (auto simp: links_append)
  show "\<forall>c\<in>set xs \<union> set ys. unchanged m m' c"
    using spares_unchanged [OF assms(1,2,7)] assms(4,6) by auto
qed

text \<open>Removal of the record at \<open>b\<close>.\<close>

lemma links_remove:
  assumes "seg m s p xs q" "links m s q (b # ys)"
    and "spares m m' b (b + rsz m b) q ys" "mem32 m' q = head ys" "ys \<noteq> [] \<longrightarrow> mem32 m' (head ys + 4) = q"
  shows "links m' s p (xs @ ys)" "\<forall>c\<in>set xs \<union> set ys. unchanged m m' c"
proof -
  have b: "links m s b ys" "b + rsz m b \<le> q" using assms(2) by auto
  have hd: "ys \<noteq> [] \<Longrightarrow> head ys + rsz m (head ys) \<le> b" "ys \<noteq> [] \<Longrightarrow> head ys + 12 \<le> b"
    using b(1) rsz_ge [of m "head ys"] by (cases ys; auto simp: head_def)+
  have "seg m' s p xs q"
    using b hd rsz_ge [of m b] by (intro seg_same [OF assms(1)] spares_same [OF assms(3)]) auto
  moreover have "links m' s q ys"
    using assms(4,5) b(2) hd rsz_ge [of m b] by (intro links_relink [OF b(1)] impI conjI spares_same [OF assms(3)]) auto
  ultimately show "links m' s p (xs @ ys)" by (auto simp: links_append)
  show "\<forall>c\<in>set xs \<union> set ys. unchanged m m' c"
    using spares_unchanged [OF assms(1) b(1) assms(3)] b(2) hd by auto
qed

text \<open>Overwriting length and payload of the record at \<open>b\<close> within its bytes.\<close>

lemma links_overwrite:
  assumes "seg m s p xs q" "links m s q (b # ys)" "\<forall>a. \<not> (b + 10 \<le> a \<and> a < b + rsz m b) \<longrightarrow> m' a = m a" "rsz m' b \<le> rsz m b"
  shows "links m' s p (xs @ b # ys)" "\<forall>c\<in>set xs \<union> set ys. unchanged m m' c"
proof -
  have b: "links m s b ys" "b + rsz m b \<le> q" "s \<le> b" "0 < b" using assms(2) by auto
  have hd: "ys \<noteq> [] \<Longrightarrow> head ys + rsz m (head ys) \<le> b" "ys \<noteq> [] \<Longrightarrow> head ys + 12 \<le> b"
    using b(1) rsz_ge [of m "head ys"] by (cases ys; auto simp: head_def)+
  have sp: "spares m m' b (b + rsz m b) q ys" using assms(3) by (auto simp: spares_def)
  have "seg m' s p xs q" using b assms(3) by (intro seg_same [OF assms(1)]) (auto simp: same_on_def)
  moreover have "links m' s b ys" using b assms(3) by (intro links_same [OF b(1)]) (auto simp: same_on_def)
  moreover have "mem32 m' q = b" "mem32 m' (b + 4) = q"
    using assms(2,3) b(2) by (auto simp: mem32_def)
  ultimately show "links m' s p (xs @ b # ys)" using b assms(4) by (auto simp: links_append)
  show "\<forall>c\<in>set xs \<union> set ys. unchanged m m' c"
    using spares_unchanged [OF assms(1) b(1) sp] b(2) hd by auto
qed

end
