(* ===== verification/Flash_Store.thy ===== *)
theory Flash_Store
  imports Record_Chain File_Table
begin

text \<open>
  The record store of \<open>fs/flash.c\<close> and the file operations of \<open>fs/file.c\<close> above it. Each file is a
  record \<open>next, prev, fid, length, payload\<close>; the records of a pool form a doubly linked list of descending
  addresses that starts at the end of the pool. A new record is put into the first gap that is large enough,
  is written completely, and only then linked into the list; a file that is rewritten in full
  gets a new record before the old one is unlinked and zeroed. Addresses are 32-bit numbers,
  kept as naturals; an allocation that ends at address 0, which the code uses for "no record", is refused.
  \<open>st_faults\<close> counts the flash operations that failed; it is read by no operation.
\<close>

abbreviation (input) FLASH_FILE_EXTENDED_LENGTH :: nat where "FLASH_FILE_EXTENDED_LENGTH \<equiv> 65535"

section \<open>State\<close>

record store =
  st_flash :: flash
  st_waits :: "nat list"
  st_faults :: nat
  st_end_data_pool :: nat
  st_start_rom_pool :: nat
  st_last_base :: nat
  st_num_files :: u32

definition flash_set_bounds :: "nat \<Rightarrow> nat \<Rightarrow> store \<Rightarrow> store" where
  "flash_set_bounds start endp st =
    (let end_rom = endp - 8 - 4; start_rom = end_rom - 4 * FLASH_SECTOR_SIZE; end_data = start_rom - 8 in
     st\<lparr>st_flash := (st_flash st)\<lparr>fl_end_rom_pool := end_rom, fl_start_data_pool := start\<rparr>,
       st_start_rom_pool := start_rom, st_end_data_pool := end_data, st_last_base := end_data\<rparr>)"

text \<open>Programming and committing, with the waits of the schedule.\<close>

definition prog :: "nat \<Rightarrow> bytes \<Rightarrow> store \<Rightarrow> status \<times> store" where
  "prog addr bs st = (case flash_program_block (st_waits st) addr (Some bs) (st_flash st) of
     (r, ws, fl) \<Rightarrow> (r, st\<lparr>st_flash := fl, st_waits := ws,
       st_faults := (if r = PICOKEYS_OK then st_faults st else st_faults st + 1)\<rparr>))"

definition flash_commit_sync :: "store \<Rightarrow> bool \<times> store" where
  "flash_commit_sync st =
    (let runs = (case st_waits st of [] \<Rightarrow> 0 | n # _ \<Rightarrow> n) in
     case low_flash_commit_sync runs (st_flash st) of
       (ok, fl) \<Rightarrow> (ok, st\<lparr>st_flash := fl, st_waits := tl (st_waits st),
         st_faults := (if ok then st_faults st else st_faults st + 1)\<rparr>))"

definition prog16 :: "nat \<Rightarrow> u16 \<Rightarrow> store \<Rightarrow> status \<times> store" where
  "prog16 addr v = prog addr (le_bytes16 v)"

definition prog32 :: "nat \<Rightarrow> u32 \<Rightarrow> store \<Rightarrow> status \<times> store" where
  "prog32 addr v = prog addr (le_bytes32 v)"

text \<open>\<open>if (r == PICOKEYS_OK) r = ...\<close>\<close>

definition and_then :: "status \<times> store \<Rightarrow> (store \<Rightarrow> status \<times> store) \<Rightarrow> status \<times> store" where
  "and_then rs g = (case rs of (r, st) \<Rightarrow> if r = PICOKEYS_OK then g st else (r, st))"

section \<open>Reading a record\<close>

definition rd16 :: "store \<Rightarrow> nat \<Rightarrow> nat" where "rd16 st a = unat (flash_read_uint16 (st_flash st) a)"
definition rd32 :: "store \<Rightarrow> nat \<Rightarrow> nat" where "rd32 st a = unat (flash_read_uint32 (st_flash st) a)"
definition rdptr :: "store \<Rightarrow> nat \<Rightarrow> nat" where "rdptr st a = unat (flash_read_uintptr (st_flash st) a)"

text \<open>\<open>length_size_at\<close> and \<open>payload_size_at\<close> read the length field at an address.\<close>

definition length_size_at :: "store \<Rightarrow> nat \<Rightarrow> nat" where
  "length_size_at st a = (if rd16 st a = FLASH_FILE_EXTENDED_LENGTH then 6 else 2)"

definition payload_size_at :: "store \<Rightarrow> nat \<Rightarrow> nat" where
  "payload_size_at st a = (if rd16 st a = FLASH_FILE_EXTENDED_LENGTH then rd32 st (a + 2) else rd16 st a)"

definition flash_record_size :: "store \<Rightarrow> nat \<Rightarrow> nat" where
  "flash_record_size st base = (10 + length_size_at st (base + 10) + payload_size_at st (base + 10)) mod 2 ^ 32"

definition file_get_size :: "store \<Rightarrow> file_t \<Rightarrow> nat" where
  "file_get_size st f = (case f_data f of None \<Rightarrow> 0 | Some d \<Rightarrow> payload_size_at st d)"

definition file_has_data :: "store \<Rightarrow> file_t \<Rightarrow> bool" where
  "file_has_data st f \<longleftrightarrow> f_data f \<noteq> None \<and> file_get_size st f > 0"

definition file_read_at :: "store \<Rightarrow> file_t \<Rightarrow> nat \<Rightarrow> nat \<Rightarrow> status + bytes" where
  "file_read_at st f offset n = (case f_data f of
     None \<Rightarrow> Inl PICOKEYS_ERR_NULL_PARAM
   | Some d \<Rightarrow>
       (let sz = file_get_size st f in
        if offset > sz \<or> n > sz - offset then Inl PICOKEYS_ERR_NULL_PARAM
        else if n = 0 then Inr []
        else flash_read_block (st_flash st) (d + length_size_at st d + offset) n))"

section \<open>Allocation\<close>

definition length_size_for :: "nat \<Rightarrow> nat" where
  "length_size_for sz = (if sz \<ge> FLASH_FILE_EXTENDED_LENGTH then 6 else 2)"

text \<open>The new record's own links, and the back link of its successor; the predecessor's link is written last,
  by the caller.\<close>

definition link_record :: "nat \<Rightarrow> nat \<Rightarrow> nat \<Rightarrow> store \<Rightarrow> status \<times> store" where
  "link_record addr next base st =
    and_then (and_then (prog32 addr (word_of_nat next) st) (prog32 (addr + 4) (word_of_nat base)))
      (\<lambda>st. if next \<noteq> 0 then prog32 (next + 4) (word_of_nat addr) st else (PICOKEYS_OK, st))"

text \<open>
  The loop over the gaps, from the end of the pool down. An address is a success unless it is 0x0, the
  value by which the caller is told of a failure; the links of a record there are written all the same.
\<close>

function alloc_loop :: "nat \<Rightarrow> nat \<Rightarrow> nat \<Rightarrow> store \<Rightarrow> (nat \<times> nat) option \<times> store" where
  "alloc_loop real_size startp base st =
    (if base < startp then (None, st)
     else if base < real_size then (None, st)
     else
       (let potential = base - real_size; next = rdptr st base in
        if next \<noteq> 0 \<and> (next \<ge> base \<or> flash_record_size st next > base - next) then (None, st)
        else
          (let gap_start = (if next \<noteq> 0 then next + flash_record_size st next else startp) in
           if potential \<ge> gap_start \<and> potential \<ge> startp then
             (case link_record potential next base st of
                (r, st) \<Rightarrow> (if r = PICOKEYS_OK \<and> potential \<noteq> 0 then Some (potential, base) else None, st))
           else if next = 0 then (None, st)
           else alloc_loop real_size startp next st)))"
  by auto
termination by (relation "measure (\<lambda>(_, _, base, _). base)") auto

declare alloc_loop.simps [simp del]

definition allocate_free_addr :: "nat \<Rightarrow> bool \<Rightarrow> store \<Rightarrow> (nat \<times> nat) option \<times> store" where
  "allocate_free_addr sz persistent st =
    (let real_size = 10 + length_size_for sz + sz;
         endp = (if persistent then fl_end_rom_pool (st_flash st) else st_end_data_pool st);
         startp = (if persistent then st_start_rom_pool st else fl_start_data_pool (st_flash st)) in
     if sz > 2 ^ 32 - 1 - (10 + length_size_for sz) then (None, st)
     else if real_size > endp - startp then (None, st)
     else alloc_loop real_size startp endp st)"

section \<open>Writing\<close>

definition write_file_length :: "nat \<Rightarrow> nat \<Rightarrow> store \<Rightarrow> status \<times> store" where
  "write_file_length d len st =
    (if len \<ge> FLASH_FILE_EXTENDED_LENGTH
     then and_then (prog16 d 0xffff st) (prog32 (d + 2) (word_of_nat len))
     else prog16 d (word_of_nat len) st)"

function copy_file_range :: "file_t \<Rightarrow> nat \<Rightarrow> nat \<Rightarrow> nat \<Rightarrow> store \<Rightarrow> status \<times> store" where
  "copy_file_range source source_offset destination len st =
    (if len > 0 then
       (let chunk = min 256 len in
        case file_read_at st source source_offset chunk of
          Inl r \<Rightarrow> (r, st)
        | Inr buffer \<Rightarrow> and_then (prog destination buffer st)
            (copy_file_range source (source_offset + chunk) (destination + chunk) (len - chunk)))
     else (PICOKEYS_OK, st))"
  by auto
termination by (relation "measure (\<lambda>(_, _, _, len, _). len)") auto

declare copy_file_range.simps [simp del]

function zero_loop :: "nat \<Rightarrow> nat \<Rightarrow> store \<Rightarrow> bool \<times> store" where
  "zero_loop addr len st =
    (if len > 0 then
       (let chunk = min 256 len in
        case prog addr (replicate chunk 0) st of
          (r, st) \<Rightarrow> if r \<noteq> PICOKEYS_OK then (False, st) else zero_loop (addr + chunk) (len - chunk) st)
     else (True, st))"
  by auto
termination by (relation "measure (\<lambda>(_, len, _). len)") auto

declare zero_loop.simps [simp del]

text \<open>\<open>flash_clear_file\<close>: only the results of the zeroing are looked at.\<close>

definition flash_clear_file :: "file_t \<Rightarrow> store \<Rightarrow> status \<times> file_t \<times> store" where
  "flash_clear_file f st = (case f_data f of
     None \<Rightarrow> (PICOKEYS_OK, f, st)
   | Some d \<Rightarrow>
       (let len = payload_size_at st d; payload = d + length_size_at st d; base = d - 10;
            prev = rdptr st (base + 4); next = rdptr st base;
            st = snd (prog32 prev (word_of_nat next) st);
            st = snd (prog16 d 0 st);
            (ok, st) = zero_loop payload len st
        in if \<not> ok then (PICOKEYS_EXEC_ERROR, f, st)
           else
             (let st = (if next > 0 then snd (prog32 (next + 4) (word_of_nat prev) st) else st);
                  st = snd (prog32 base 0 st);
                  st = snd (prog32 (base + 4) 0 st)
              in (PICOKEYS_OK, f\<lparr>f_data := None\<rparr>,
                  if st_num_files st > 0 then st\<lparr>st_num_files := st_num_files st - 1\<rparr> else st))))"

definition commit_or_fail :: "store \<Rightarrow> status \<times> store" where
  "commit_or_fail st = (case flash_commit_sync st of (ok, st) \<Rightarrow>
     (if ok then PICOKEYS_OK else PICOKEYS_ERR_MEMORY_FATAL, st))"

text \<open>The record fits where it is: the length is rewritten and the bytes overwritten.\<close>

definition write_in_place :: "nat \<Rightarrow> bytes \<Rightarrow> nat \<Rightarrow> bool \<Rightarrow> nat \<Rightarrow> store \<Rightarrow> status \<times> store" where
  "write_in_place d data offset partial old_size st =
    (let len = length data; lsz = length_size_at st d; extended = (rd16 st d = FLASH_FILE_EXTENDED_LENGTH) in
     and_then (and_then
       (if \<not> partial then
          (if extended then prog32 (d + 2) (word_of_nat len) st else prog16 d (word_of_nat len) st)
        else (PICOKEYS_OK, st))
       (\<lambda>st. if len > 0 then prog (d + lsz + offset) data st else (PICOKEYS_OK, st)))
       (\<lambda>st. if old_size > FLASH_SECTOR_SIZE then commit_or_fail st else (PICOKEYS_OK, st)))"

text \<open>The bytes of a new record: identifier and length, then the kept head of the old file, the data and the kept
  tail; a commit when the link to it lies in another sector; and the link.\<close>

definition fill_header :: "u16 \<Rightarrow> nat \<Rightarrow> nat \<Rightarrow> store \<Rightarrow> status \<times> store" where
  "fill_header fid addr new_size st =
    (case and_then (prog16 (addr + 8) fid st) (write_file_length (addr + 10) new_size) of
       (r, st) \<Rightarrow> (r, st\<lparr>st_num_files := st_num_files st + 1\<rparr>))"

definition fill_payload :: "file_t \<Rightarrow> nat \<Rightarrow> bytes \<Rightarrow> nat \<Rightarrow> bool \<Rightarrow> nat \<Rightarrow> store \<Rightarrow> status \<times> store" where
  "fill_payload old payload data offset partial old_size st =
    (let replacing = (f_data old \<noteq> None); write_end = offset + length data in
     and_then (and_then
       (if partial \<and> replacing \<and> offset > 0 then copy_file_range old 0 payload offset st else (PICOKEYS_OK, st))
       (\<lambda>st. if length data > 0 then prog (payload + offset) data st else (PICOKEYS_OK, st)))
       (\<lambda>st. if partial \<and> replacing \<and> write_end < old_size
          then copy_file_range old write_end (payload + write_end) (old_size - write_end) st else (PICOKEYS_OK, st)))"

definition fill_record ::
    "file_t \<Rightarrow> nat \<Rightarrow> nat \<Rightarrow> bytes \<Rightarrow> nat \<Rightarrow> bool \<Rightarrow> nat \<Rightarrow> nat \<Rightarrow> store \<Rightarrow> status \<times> store" where
  "fill_record old addr publish_at data offset partial old_size new_size st =
    and_then (and_then (and_then
      (fill_header (f_fid old) addr new_size st)
      (fill_payload old (addr + 10 + length_size_for new_size) data offset partial old_size))
      (\<lambda>st. if sector_of publish_at \<noteq> sector_of addr then commit_or_fail st else (PICOKEYS_OK, st)))
      (prog32 publish_at (word_of_nat addr))"

definition lower_base :: "nat \<Rightarrow> store \<Rightarrow> store" where
  "lower_base addr st = (if addr < st_last_base st then st\<lparr>st_last_base := addr\<rparr> else st)"

text \<open>The record does not fit where it is: a new one is written, and then the old one cleared.\<close>

definition write_new_record :: "bool \<Rightarrow> file_t \<Rightarrow> bytes \<Rightarrow> nat \<Rightarrow> bool \<Rightarrow> nat \<Rightarrow> nat \<Rightarrow> store \<Rightarrow> status \<times> file_t \<times> store" where
  "write_new_record persistent f data offset partial old_size new_size st =
    (case allocate_free_addr new_size persistent st of
         (None, st) \<Rightarrow> (PICOKEYS_ERR_NO_MEMORY, f, st)
       | (Some (addr, publish_at), st) \<Rightarrow>
           (let st = lower_base addr st;
                new_file = \<lparr>f_data = Some (addr + 10), f_fid = f_fid f\<rparr>;
                (r, st) = fill_record f addr publish_at data offset partial old_size new_size st
            in if r \<noteq> PICOKEYS_OK then (case flash_clear_file new_file st of (_, _, st) \<Rightarrow> (r, f, st))
               else if f_data f = None then (PICOKEYS_OK, new_file, st)
               else (case flash_clear_file f st of
                   (r, _, st) \<Rightarrow>
                     if r \<noteq> PICOKEYS_OK
                     then (case flash_clear_file new_file st of (_, _, st) \<Rightarrow> (PICOKEYS_ERR_MEMORY_FATAL, f, st))
                     else if 10 + length_size_for new_size + new_size > FLASH_SECTOR_SIZE
                     then (case flash_commit_sync st of
                         (ok, st) \<Rightarrow> if ok then (PICOKEYS_OK, new_file, st) else (PICOKEYS_ERR_MEMORY_FATAL, f, st))
                     else (PICOKEYS_OK, new_file, st))))"

definition flash_write_data_to_file_internal ::
    "bool \<Rightarrow> file_t \<Rightarrow> bytes \<Rightarrow> nat \<Rightarrow> bool \<Rightarrow> store \<Rightarrow> status \<times> file_t \<times> store" where
  "flash_write_data_to_file_internal persistent f data offset partial st =
    (let len = length data; old_size = file_get_size st f; write_end = offset + len;
         new_size = (if partial then max old_size write_end else len);
         extended = (case f_data f of None \<Rightarrow> False | Some d \<Rightarrow> rd16 st d = FLASH_FILE_EXTENDED_LENGTH);
         in_place = (f_data f \<noteq> None \<and>
           ((partial \<and> write_end \<le> old_size) \<or>
            (\<not> partial \<and> len \<le> old_size \<and> (extended \<or> len < FLASH_FILE_EXTENDED_LENGTH)))) in
     if len > 2 ^ 32 - 1 then (PICOKEYS_ERR_NULL_PARAM, f, st)
     else if offset > 2 ^ 32 - 1 - len \<or> (partial \<and> offset > old_size) then (PICOKEYS_ERR_NO_MEMORY, f, st)
     else if in_place then (case write_in_place (the (f_data f)) data offset partial old_size st of (r, st) \<Rightarrow> (r, f, st))
     else write_new_record persistent f data offset partial old_size new_size st)"

definition flash_write_data_to_file :: "bool \<Rightarrow> file_t \<Rightarrow> bytes \<Rightarrow> store \<Rightarrow> status \<times> file_t \<times> store" where
  "flash_write_data_to_file persistent f data = flash_write_data_to_file_internal persistent f data 0 False"

definition flash_write_data_to_file_offset ::
    "bool \<Rightarrow> file_t \<Rightarrow> bytes \<Rightarrow> nat \<Rightarrow> store \<Rightarrow> status \<times> file_t \<times> store" where
  "flash_write_data_to_file_offset persistent f data offset =
     flash_write_data_to_file_internal persistent f data offset True"

definition file_put_data :: "bool \<Rightarrow> file_t \<Rightarrow> bytes \<Rightarrow> store \<Rightarrow> status \<times> file_t \<times> store" where
  "file_put_data = flash_write_data_to_file"

definition file_put_data_offset :: "bool \<Rightarrow> file_t \<Rightarrow> bytes \<Rightarrow> nat \<Rightarrow> store \<Rightarrow> status \<times> file_t \<times> store" where
  "file_put_data_offset = flash_write_data_to_file_offset"

definition flash_free_space :: "store \<Rightarrow> nat" where
  "flash_free_space st = st_last_base st - fl_start_data_pool (st_flash st)"

definition flash_used_space :: "store \<Rightarrow> nat" where
  "flash_used_space st = st_end_data_pool st - st_last_base st"

definition flash_total_space :: "store \<Rightarrow> nat" where
  "flash_total_space st = st_end_data_pool st - fl_start_data_pool (st_flash st)"
section \<open>The operations on the memory they see\<close>

definition mem :: "store \<Rightarrow> memory" where
  "mem st a = (if in_pool (st_flash st) a then view (st_flash st) a else 0)"

definition good :: "store \<Rightarrow> bool" where "good st \<longleftrightarrow> flash_wf (st_flash st)"

definition pooled :: "store \<Rightarrow> nat \<Rightarrow> nat \<Rightarrow> bool" where
  "pooled st a n \<longleftrightarrow> (\<forall>i. a \<le> i \<and> i < a + n \<longrightarrow> in_pool (st_flash st) i)"

definition same_pools :: "store \<Rightarrow> store \<Rightarrow> bool" where
  "same_pools st st' \<longleftrightarrow> in_pool (st_flash st') = in_pool (st_flash st) \<and>
     st_end_data_pool st' = st_end_data_pool st \<and> st_start_rom_pool st' = st_start_rom_pool st"

lemma pooled_range: "pooled st a n \<Longrightarrow> n > 0 \<Longrightarrow> pool_range (st_flash st) a n"
  by (simp add: pooled_def pool_range_def)

lemma pooled_sub: "pooled st a n \<Longrightarrow> a \<le> b \<Longrightarrow> b + k \<le> a + n \<Longrightarrow> pooled st b k"
  by (simp add: pooled_def)

lemma same_pools_pooled: "same_pools st st' \<Longrightarrow> pooled st' a n = pooled st a n"
  by (simp add: same_pools_def pooled_def)

lemma same_pools_trans: "same_pools st st' \<Longrightarrow> same_pools st' st'' \<Longrightarrow> same_pools st st''"
  by (simp add: same_pools_def)

text \<open>Little-endian numbers.\<close>

lemma unat_byte: "unat (ucast (w AND 0xff) :: u8) = unat w mod 256" for w :: "'a::len word"
  unfolding mask8 take_bit_eq_mask [symmetric]
  by (simp only: unsigned_ucast_eq unsigned_take_bit_eq) (simp add: take_bit_eq_mod)

lemma digits4:
  fixes n :: nat assumes "n < 4294967296"
  shows "n mod 256 + 256 * (n div 256 mod 256) + 65536 * (n div 65536 mod 256) + 16777216 * (n div 16777216 mod 256) = n"
proof -
  have d: "n div 65536 = n div 256 div 256" "n div 16777216 = n div 256 div 256 div 256" by (simp_all flip: div_mult2_eq)
  define a b c where "a = n div 256" and "b = a div 256" and "c = b div 256"
  have "n = 256 * a + n mod 256" "a = 256 * b + a mod 256" "b = 256 * c + b mod 256" by (simp_all add: a_def b_def c_def)
  moreover have "c < 256" using assms by (simp add: a_def b_def c_def flip: div_mult2_eq)
  ultimately show ?thesis unfolding d by (simp flip: a_def b_def c_def)
qed

lemma le16_bytes: "le_bytes16 w ! 0 = ucast (w AND 0xff)" "le_bytes16 w ! 1 = ucast (drop_bit 8 w AND 0xff)" "length (le_bytes16 w) = 2"
  by (simp_all add: le_bytes16_def put_uint16_be_def)

lemma le32_bytes:
  "le_bytes32 w ! 0 = ucast (w AND 0xff)" "le_bytes32 w ! 1 = ucast (drop_bit 8 w AND 0xff)"
  "le_bytes32 w ! 2 = ucast (drop_bit 16 w AND 0xff)" "le_bytes32 w ! 3 = ucast (drop_bit 24 w AND 0xff)" "length (le_bytes32 w) = 4"
  by (simp_all add: le_bytes32_def put_uint32_be_def)

lemma mem16_written: "mem16 (map_write a (le_bytes16 w) m) a = unat w"
proof -
  have "unat w < 65536" using unsigned_less [of w, where 'a = nat] by simp
  moreover from this have "unat w div 256 < 256" by simp
  ultimately show ?thesis
    by (simp add: mem16_def map_write_def le16_bytes unat_byte drop_bit_eq_div unat_div del: One_nat_def)
qed

lemma mem32_written: "mem32 (map_write a (le_bytes32 w) m) a = unat w"
proof -
  have "unat w < 4294967296" using unsigned_less [of w, where 'a = nat] by simp
  note d = digits4 [OF this]
  have "mem32 (map_write a (le_bytes32 w) m) a = unat w mod 256 + 256 * (unat w div 256 mod 256) +
      65536 * (unat w div 65536 mod 256) + 16777216 * (unat w div 16777216 mod 256)"
    by (simp add: mem32_def map_write_def le32_bytes unat_byte drop_bit_eq_div unat_div del: One_nat_def)
  then show ?thesis using d by (rule trans)
qed

lemma map_write_other: "a < addr \<or> addr + length bs \<le> a \<Longrightarrow> map_write addr bs m a = m a"
  by (auto simp: map_write_def)

text \<open>Reads.\<close>

lemma read_mem:
  assumes "good st" "pooled st a n"
  shows "read_loop (st_flash st) a n = map (mem st) [a..<a + n]"
  using assms read_loop_view [of "st_flash st" a n] by (simp add: good_def pooled_def mem_def)

lemma unat_le16:
  fixes x y :: u8
  shows "unat (ucast x OR push_bit 8 (ucast y) :: u16) = unat x + 256 * unat y"
proof -
  have "le_bytes16 (make_uint16_be y x) = [x, y]" by (simp add: le_bytes16_def)
  then show ?thesis using mem16_written [of 0 "make_uint16_be y x" "\<lambda>_. 0"]
    by (simp add: mem16_def map_write_def make_uint16_be_def or.commute)
qed

lemma unat_le32:
  fixes x y z w :: u8
  shows "unat (ucast x OR push_bit 8 (ucast y) OR push_bit 16 (ucast z) OR push_bit 24 (ucast w) :: u32) =
     unat x + 256 * unat y + 65536 * unat z + 16777216 * unat w"
proof -
  have "le_bytes32 (make_uint32_be w z y x) = [x, y, z, w]" by (simp add: le_bytes32_def)
  then show ?thesis using mem32_written [of 0 "make_uint32_be w z y x" "\<lambda>_. 0"]
    by (simp add: mem32_def map_write_def make_uint32_be_def ac_simps)
qed

lemma rd16_mem: "good st \<Longrightarrow> pooled st a 2 \<Longrightarrow> rd16 st a = mem16 (mem st) a"
  by (simp add: rd16_def flash_read_uint16_def read_mem upt_conv_Cons Let_def unat_le16 mem16_def)

lemma upt4: "[a..<a + 4] = [a, a + 1, a + 2, a + 3]"
  by (simp add: upt_conv_Cons)

lemma rd32_mem: "good st \<Longrightarrow> pooled st a 4 \<Longrightarrow> rd32 st a = mem32 (mem st) a"
  unfolding rd32_def flash_read_uint32_def Let_def by (simp only: read_mem upt4 list.map nth_byte_numerals nth_Cons_0 unat_le32 mem32_def)

lemma rdptr_mem: "good st \<Longrightarrow> pooled st a 4 \<Longrightarrow> rdptr st a = mem32 (mem st) a"
  unfolding rdptr_def flash_read_uintptr_def Let_def by (simp only: read_mem upt4 list.map nth_byte_numerals nth_Cons_0 unat_le32 mem32_def)

text \<open>Writes: without a fault the memory is updated and nothing else of the store moves.\<close>

definition does :: "store \<Rightarrow> status \<times> store \<Rightarrow> memory \<Rightarrow> bool" where
  "does st rs m \<longleftrightarrow> st_faults (snd rs) = st_faults st \<longrightarrow>
     fst rs = PICOKEYS_OK \<and> good (snd rs) \<and> same_pools st (snd rs) \<and> mem (snd rs) = m"

lemma faults_mono: "st_faults st \<le> st_faults (snd (prog a bs st))" "st_faults st \<le> st_faults (snd (prog16 a v st))"
  "st_faults st \<le> st_faults (snd (prog32 a w st))" "st_faults st \<le> st_faults (snd (flash_commit_sync st))"
  "st_faults st \<le> st_faults (snd (commit_or_fail st))"
  by (simp_all add: prog16_def prog32_def prog_def commit_or_fail_def flash_commit_sync_def Let_def split: prod.split)

lemma prog_does:
  assumes "good st" "pooled st a (length bs)" "bs \<noteq> []"
  shows "does st (prog a bs st) (map_write a bs (mem st))"
proof -
  obtain r ws fl where p: "flash_program_block (st_waits st) a (Some bs) (st_flash st) = (r, ws, fl)" by (metis prod_cases3)
  show ?thesis
  proof (cases "r = PICOKEYS_OK")
    case True
    have "pool_range (st_flash st) a (length bs)" using assms(2,3) by (intro pooled_range) simp_all
    note v = flash_program_block_view [OF assms(1) [unfolded good_def] this p [unfolded True]]
    have "mem (snd (prog a bs st)) = map_write a bs (mem st)"
      using v(2) assms(2) by (auto simp: prog_def p mem_def writes_view_def map_write_def pooled_def)
    then show ?thesis using v True by (simp add: does_def prog_def p good_def same_pools_def writes_view_def)
  qed (simp add: does_def prog_def p)
qed

lemma prog16_does: "good st \<Longrightarrow> pooled st a 2 \<Longrightarrow> does st (prog16 a v st) (map_write a (le_bytes16 v) (mem st))"
  unfolding prog16_def by (rule prog_does) (use le16_bytes(3) [of v] in auto)

lemma prog32_does: "good st \<Longrightarrow> pooled st a 4 \<Longrightarrow> does st (prog32 a v st) (map_write a (le_bytes32 v) (mem st))"
  unfolding prog32_def by (rule prog_does) (use le32_bytes(5) [of v] in auto)

lemma commit_does: "good st \<Longrightarrow> does st (commit_or_fail st) (mem st)"
proof -
  assume g: "good st"
  obtain ok fl where c: "low_flash_commit_sync (case st_waits st of [] \<Rightarrow> 0 | n # _ \<Rightarrow> n) (st_flash st) = (ok, fl)" by force
  note v = commit_sync_view [OF g [unfolded good_def] c]
  show ?thesis
    using v(1,2) by (auto simp: does_def commit_or_fail_def flash_commit_sync_def Let_def c good_def same_pools_def mem_def same_view_def
        split: if_splits)
qed

lemma does_ok: "good st \<Longrightarrow> does st (PICOKEYS_OK, st) (mem st)"
  by (simp add: does_def same_pools_def)

lemma and_then_mono:
  "st_faults st \<le> st_faults (snd rs) \<Longrightarrow> (\<And>st. st_faults st \<le> st_faults (snd (g st))) \<Longrightarrow> st_faults st \<le> st_faults (snd (and_then rs g))"
  by (auto simp: and_then_def split: prod.split intro: le_trans)

lemma and_then_does:
  assumes "does st rs m" "st_faults st \<le> st_faults (snd rs)" "\<And>st. st_faults st \<le> st_faults (snd (g st))"
    "\<And>st1. good st1 \<Longrightarrow> same_pools st st1 \<Longrightarrow> mem st1 = m \<Longrightarrow> does st1 (g st1) m'"
  shows "does st (and_then rs g) m'"
proof -
  obtain r st1 where rs: "rs = (r, st1)" by force
  show ?thesis
  proof (cases "st_faults st1 = st_faults st \<and> r = PICOKEYS_OK")
    case True
    then have "good st1" "same_pools st st1" "mem st1 = m" using assms(1) by (simp_all add: does_def rs)
    with assms(4) [OF this] True show ?thesis
      by (auto simp: does_def and_then_def rs intro: same_pools_trans)
  next
    case False
    then show ?thesis using assms(1,2) assms(3) [of st1] by (auto simp: does_def and_then_def rs)
  qed
qed
section \<open>Allocation finds a gap\<close>

definition link_mem :: "nat \<Rightarrow> nat \<Rightarrow> nat \<Rightarrow> memory \<Rightarrow> memory" where
  "link_mem addr next base m =
    (let m = map_write (addr + 4) (le_bytes32 (word_of_nat base)) (map_write addr (le_bytes32 (word_of_nat next)) m)
     in if next \<noteq> 0 then map_write (next + 4) (le_bytes32 (word_of_nat addr)) m else m)"

lemma link_record_does:
  assumes "good st" "pooled st addr 8" "next \<noteq> 0 \<longrightarrow> pooled st (next + 4) 4"
  shows "does st (link_record addr next base st) (link_mem addr next base (mem st))"
proof -
  have p: "pooled st addr 4" "pooled st (addr + 4) 4" using assms(2) by (auto intro: pooled_sub)
  have "does st (and_then (prog32 addr (word_of_nat next) st) (prog32 (addr + 4) (word_of_nat base)))
      (map_write (addr + 4) (le_bytes32 (word_of_nat base)) (map_write addr (le_bytes32 (word_of_nat next)) (mem st)))"
  proof (rule and_then_does [OF prog32_does [OF assms(1) p(1)]])
    fix st1 assume "good st1" "same_pools st st1" "mem st1 = map_write addr (le_bytes32 (word_of_nat next)) (mem st)"
    then show "does st1 (prog32 (addr + 4) (word_of_nat base) st1)
        (map_write (addr + 4) (le_bytes32 (word_of_nat base)) (map_write addr (le_bytes32 (word_of_nat next)) (mem st)))"
      using prog32_does [of st1 "addr + 4"] p(2) by (simp add: same_pools_pooled)
  qed (auto intro: faults_mono)
  then show ?thesis
    unfolding link_record_def
  proof (rule and_then_does)
    fix st1 assume s1: "good st1" "same_pools st st1"
      "mem st1 = map_write (addr + 4) (le_bytes32 (word_of_nat base)) (map_write addr (le_bytes32 (word_of_nat next)) (mem st))"
    show "does st1 (if next \<noteq> 0 then prog32 (next + 4) (word_of_nat addr) st1 else (PICOKEYS_OK, st1)) (link_mem addr next base (mem st))"
    proof (cases "next = 0")
      case True
      then show ?thesis using s1 does_ok [OF s1(1)] by (simp add: link_mem_def)
    next
      case False
      then show ?thesis using s1 prog32_does [of st1 "next + 4" "word_of_nat addr"] assms(3)
        by (simp add: link_mem_def same_pools_pooled)
    qed
  qed (auto intro!: faults_mono and_then_mono)
qed

lemma link_record_mono: "st_faults st \<le> st_faults (snd (link_record addr next base st))"
  unfolding link_record_def by (auto intro!: faults_mono and_then_mono)

text \<open>Where the pool lies; the list of its records starts at the end \<open>p\<close> of the pool.\<close>

definition pool_at :: "store \<Rightarrow> nat \<Rightarrow> nat \<Rightarrow> bool" where
  "pool_at st s p \<longleftrightarrow> good st \<and> s \<le> p \<and> p + 4 < 2 ^ 32 \<and> pooled st s (p + 4 - s)"

lemma pool_at_pooled: "pool_at st s p \<Longrightarrow> s \<le> a \<Longrightarrow> a + n \<le> p + 4 \<Longrightarrow> pooled st a n"
  by (auto simp: pool_at_def intro: pooled_sub)

lemma pool_at_same: "pool_at st s p \<Longrightarrow> good st' \<Longrightarrow> same_pools st st' \<Longrightarrow> pool_at st' s p"
  by (simp add: pool_at_def same_pools_pooled)

lemma record_size_mem:
  assumes "pool_at st s p" "s \<le> b" "b + rsz (mem st) b \<le> p"
  shows "flash_record_size st b = rsz (mem st) b" "payload_size_at st (b + 10) = psz (mem st) b" "length_size_at st (b + 10) = lsz (mem st) b"
proof -
  have g: "good st" using assms(1) by (simp add: pool_at_def)
  have l: "rd16 st (b + 10) = mem16 (mem st) (b + 10)"
    using rsz_ge [of "mem st" b] assms by (intro rd16_mem [OF g] pool_at_pooled [OF assms(1)]) auto
  have "rd32 st (b + 10 + 2) = mem32 (mem st) (b + 12)" if "mem16 (mem st) (b + 10) = 65535"
  proof -
    have "rd32 st (b + 12) = mem32 (mem st) (b + 12)"
      using that assms(2,3) by (intro rd32_mem [OF g] pool_at_pooled [OF assms(1)]) (auto simp: rsz_def lsz_def)
    then show ?thesis by (simp add: add.commute)
  qed
  with l show "payload_size_at st (b + 10) = psz (mem st) b" "length_size_at st (b + 10) = lsz (mem st) b"
    by (simp_all add: payload_size_at_def length_size_at_def psz_def lsz_def)
  moreover have "rsz (mem st) b < 2 ^ 32" using assms(1,3) by (simp add: pool_at_def)
  ultimately show "flash_record_size st b = rsz (mem st) b" by (simp add: flash_record_size_def rsz_def)
qed

definition gap_ok :: "memory \<Rightarrow> nat \<Rightarrow> nat \<Rightarrow> nat list \<Rightarrow> bool" where
  "gap_ok m s pot ws \<longleftrightarrow> 0 < pot \<and> s \<le> pot \<and> (ws \<noteq> [] \<longrightarrow> head ws + rsz m (head ws) \<le> pot)"

text \<open>No gap below \<open>q\<close> has room for \<open>n\<close> bytes above address 0.\<close>

fun crowded :: "memory \<Rightarrow> nat \<Rightarrow> nat \<Rightarrow> nat \<Rightarrow> nat list \<Rightarrow> bool" where
  "crowded m s n q [] \<longleftrightarrow> q < max s 1 + n"
| "crowded m s n q (b # bs) \<longleftrightarrow> q < b + rsz m b + n \<and> crowded m s n b bs"

lemma crowded_small: "links m s q ys \<Longrightarrow> q < n \<Longrightarrow> crowded m s n q ys"
proof (induction ys arbitrary: q)
  case (Cons b bs)
  then have "b < n" using rsz_ge [of m b] by auto
  then show ?case using Cons by auto
qed simp

text \<open>
  What a refused allocation leaves: the memory as it was, or, when the only place was address 0, the
  two unused links there.
\<close>

definition untouched :: "nat \<Rightarrow> memory \<Rightarrow> memory \<Rightarrow> nat list \<Rightarrow> bool" where
  "untouched s m m' bs \<longleftrightarrow> m' = m \<or> s = 0 \<and> (\<forall>b\<in>set bs. 12 \<le> b) \<and> (\<forall>a\<ge>8. m' a = m a)"

lemma link_mem_zero: "8 \<le> a \<Longrightarrow> link_mem 0 0 q m a = m a"
  by (simp add: link_mem_def map_write_other le32_bytes)

lemma alloc_loop_spec:
  assumes "pool_at st s p" "links (mem st) s q ys" "s \<le> q" "q \<le> p" "12 \<le> n" "alloc_loop n s q st = (res, st')" "st_faults st' = st_faults st"
  shows "good st' \<and> same_pools st st' \<and>
    (case res of None \<Rightarrow> untouched s (mem st) (mem st') (q # ys) \<and> crowded (mem st) s n q ys
     | Some (pot, base) \<Rightarrow> \<exists>zs ws. ys = zs @ ws \<and> seg (mem st) s q zs base \<and> links (mem st) s base ws \<and> pot + n = base \<and>
         gap_ok (mem st) s pot ws \<and> mem st' = link_mem pot (head ws) base (mem st))"
  using assms(2-6)
proof (induction ys arbitrary: q)
  case Nil
  have g: "good st" using assms(1) by (simp add: pool_at_def)
  have nx: "rdptr st q = 0" using Nil rdptr_mem [OF g pool_at_pooled [OF assms(1)], of q] by simp
  show ?case
  proof (cases "n \<le> q \<and> s \<le> q - n")
    case False
    then have "alloc_loop n s q st = (None, st)" using Nil nx by (subst alloc_loop.simps) (simp add: Let_def)
    then show ?thesis using Nil g False by (auto simp: same_pools_def untouched_def)
  next
    case True
    have "does st (link_record (q - n) 0 q st) (link_mem (q - n) 0 q (mem st))"
      using True Nil by (intro link_record_does g pool_at_pooled [OF assms(1)]) auto
    moreover obtain r st1 where l: "link_record (q - n) 0 q st = (r, st1)" by force
    moreover have "alloc_loop n s q st = (if r = PICOKEYS_OK \<and> q - n \<noteq> 0 then Some (q - n, q) else None, st1)"
      using Nil nx True l by (subst alloc_loop.simps) (simp add: Let_def)
    ultimately have d: "r = PICOKEYS_OK" "res = (if q - n \<noteq> 0 then Some (q - n, q) else None)" "good st'" "same_pools st st'"
      "mem st' = link_mem (q - n) 0 q (mem st)"
      using Nil True assms(7) by (auto simp: does_def)
    show ?thesis
    proof (cases "q = n")
      case eq: True
      then have "mem st' = link_mem 0 0 q (mem st)" using d(5) by simp
      then have "untouched s (mem st) (mem st') [q]" using eq True Nil(4) by (simp add: untouched_def link_mem_zero)
      then show ?thesis using d eq by simp
    next
      case False
      then show ?thesis using d Nil True by (auto simp: gap_ok_def head_def)
    qed
  qed
next
  case (Cons b bs)
  have g: "good st" using assms(1) by (simp add: pool_at_def)
  have b: "mem32 (mem st) q = b" "s \<le> b" "b + rsz (mem st) b \<le> q" "links (mem st) s b bs" "0 < b" using Cons.prems(1) by auto
  have nx: "rdptr st q = b" using Cons.prems b rdptr_mem [OF g pool_at_pooled [OF assms(1)], of q] by simp
  have rs: "flash_record_size st b = rsz (mem st) b"
    using record_size_mem [OF assms(1) b(2)] b(3) Cons.prems(3) by simp
  have pos: "b \<noteq> 0" "b < q" "b \<le> p" using b assms(1) Cons.prems(3) rsz_ge [of "mem st" b] by (auto simp: pool_at_def)
  show ?case
  proof (cases "n \<le> q \<and> b + rsz (mem st) b \<le> q - n")
    case True
    have "does st (link_record (q - n) b q st) (link_mem (q - n) b q (mem st))"
      using True Cons.prems b pos rsz_ge [of "mem st" b]
      by (intro link_record_does g impI pool_at_pooled [OF assms(1)]) auto
    moreover obtain r st1 where l: "link_record (q - n) b q st = (r, st1)" by force
    moreover have "alloc_loop n s q st = (if r = PICOKEYS_OK \<and> q - n \<noteq> 0 then Some (q - n, q) else None, st1)"
    proof -
      have "\<not> rsz (mem st) b > q - b" "\<not> q \<le> b" "\<not> q < s" "s \<le> q - n" using True b pos by auto
      then show ?thesis using nx True l rs pos by (subst alloc_loop.simps) (simp add: Let_def)
    qed
    moreover have "q - n \<noteq> 0" using True pos(1) by linarith
    ultimately have d: "r = PICOKEYS_OK" "res = Some (q - n, q)" "good st'" "same_pools st st'" "mem st' = link_mem (q - n) b q (mem st)"
      using Cons.prems(5) assms(7) by (auto simp: does_def)
    have "n < q" using \<open>q - n \<noteq> 0\<close> by simp
    then have "b # bs = [] @ (b # bs) \<and> seg (mem st) s q [] q \<and> links (mem st) s q (b # bs) \<and> q - n + n = q \<and>
        gap_ok (mem st) s (q - n) (b # bs) \<and> mem st' = link_mem (q - n) (head (b # bs)) q (mem st)"
      using Cons.prems(1) True b d(5) pos(1) by (simp add: gap_ok_def head_def)
    then show ?thesis unfolding d(2) using d(3,4) by (simp only: option.case prod.case) blast
  next
    case False
    show ?thesis
    proof (cases "q < n")
      case True
      then have "alloc_loop n s q st = (None, st)" by (subst alloc_loop.simps) simp
      then show ?thesis using Cons.prems g crowded_small [OF Cons.prems(1) True] by (simp add: same_pools_def untouched_def)
    next
      case ge: False
      then have "alloc_loop n s q st = alloc_loop n s b st"
      proof -
        have "\<not> rsz (mem st) b > q - b" "\<not> q \<le> b" "\<not> q < s" using b pos by auto
        then show ?thesis using ge nx False rs pos by (subst alloc_loop.simps) (simp add: Let_def)
      qed
      then have "alloc_loop n s b st = (res, st')" using Cons.prems(5) by simp
      note ih = Cons.IH [OF b(4) b(2) pos(3) Cons.prems(4) this]
      show ?thesis
      proof (cases res)
        case None
        then show ?thesis using ih False ge pos(2) by (auto simp: untouched_def)
      next
        case (Some x)
        obtain pot base where x: "x = (pot, base)" by force
        obtain zs ws where zw: "bs = zs @ ws" "seg (mem st) s b zs base" "links (mem st) s base ws" "pot + n = base"
          "gap_ok (mem st) s pot ws" "mem st' = link_mem pot (head ws) base (mem st)"
          using ih by (auto simp: Some x)
        then have "b # bs = (b # zs) @ ws \<and> seg (mem st) s q (b # zs) base \<and> links (mem st) s base ws \<and> pot + n = base \<and>
            gap_ok (mem st) s pot ws \<and> mem st' = link_mem pot (head ws) base (mem st)"
          using Cons.prems(1) by simp
        then show ?thesis unfolding Some x using ih by (simp only: option.case prod.case) blast
      qed
    qed
  qed
qed
section \<open>Clearing a record\<close>

lemma map_write_append: "map_write (a + length xs) ys (map_write a xs m) = map_write a (xs @ ys) m"
  by (rule ext) (auto simp: map_write_def nth_append)

lemma map_write_Nil [simp]: "map_write a [] m = m"
  by (rule ext) (auto simp: map_write_def)

lemma zero_loop_does:
  assumes "good st" "pooled st addr len" "zero_loop addr len st = (ok, st')" "st_faults st' \<le> st_faults st"
  shows "ok \<and> good st' \<and> same_pools st st' \<and> mem st' = map_write addr (replicate len 0) (mem st) \<and> st_faults st' = st_faults st"
  using assms
proof (induction addr len st rule: zero_loop.induct)
  case (1 addr len st)
  show ?case
  proof (cases "len > 0")
    case False
    then show ?thesis using "1.prems" by (subst (asm) zero_loop.simps) (auto simp: same_pools_def)
  next
    case True
    define chunk where "chunk = min 256 len"
    obtain r st1 where p: "prog addr (replicate chunk 0) st = (r, st1)" by force
    have c: "0 < chunk" "chunk \<le> len" using True by (simp_all add: chunk_def)
    then have ne: "replicate chunk (0 :: u8) \<noteq> []" by simp
    have mono: "st_faults st \<le> st_faults st1" using faults_mono(1) [of st addr "replicate chunk 0"] p by simp
    have d: "does st (r, st1) (map_write addr (replicate chunk 0) (mem st))"
      using prog_does [OF "1.prems"(1) _ ne, of addr] "1.prems"(2) c p by (simp add: pooled_sub)
    show ?thesis
    proof (cases "r = PICOKEYS_OK")
      case False
      have "zero_loop addr len st = (False, st1)"
        using True p False by (subst zero_loop.simps) (simp add: Let_def chunk_def [symmetric])
      then show ?thesis using "1.prems"(3,4) d False mono by (auto simp: does_def)
    next
      case ok: True
      have z: "zero_loop (addr + chunk) (len - chunk) st1 = (ok, st')"
        using "1.prems"(3) True p ok by (subst (asm) zero_loop.simps) (simp add: Let_def chunk_def [symmetric])
      have f1: "st_faults st1 = st_faults st" using p ok by (auto simp: prog_def split: prod.splits)
      then have s1: "good st1" "same_pools st st1" "mem st1 = map_write addr (replicate chunk 0) (mem st)" using d by (auto simp: does_def)
      have "pooled st1 (addr + chunk) (len - chunk)"
        using "1.prems"(2) c same_pools_pooled [OF s1(2)] by (auto intro: pooled_sub)
      then have ih: "ok \<and> good st' \<and> same_pools st1 st' \<and> mem st' = map_write (addr + chunk) (replicate (len - chunk) 0) (mem st1) \<and>
          st_faults st' = st_faults st1"
        using "1.IH" [OF True chunk_def p [symmetric] _ s1(1)] ok z f1 "1.prems"(4) by auto
      have "mem st' = map_write addr (replicate len 0) (mem st)"
        using ih s1(3) map_write_append [of addr "replicate chunk 0" "replicate (len - chunk) 0" "mem st"] c(2)
        by (simp flip: replicate_add)
      then show ?thesis using ih s1(2) f1 by (auto intro: same_pools_trans)
    qed
  qed
qed

lemma zero_loop_mono: "st_faults st \<le> st_faults (snd (zero_loop addr len st))"
proof (induction addr len st rule: zero_loop.induct)
  case (1 addr len st)
  show ?case
  proof (cases "len > 0")
    case True
    obtain r st1 where p: "prog addr (replicate (min 256 len) 0) st = (r, st1)" by force
    have "st_faults st \<le> st_faults st1" using faults_mono(1) [of st addr "replicate (min 256 len) 0"] p by simp
    then show ?thesis
      using True p "1.IH" [OF True refl p [symmetric]] by (subst zero_loop.simps) (auto simp: Let_def)
  qed (subst zero_loop.simps, simp)
qed
text \<open>The memory after the record at \<open>b\<close>, between \<open>q\<close> and \<open>n\<close>, was cleared.\<close>

definition clear_mem :: "nat \<Rightarrow> nat \<Rightarrow> nat \<Rightarrow> nat \<Rightarrow> nat \<Rightarrow> memory \<Rightarrow> memory" where
  "clear_mem b q n payload len m =
    (let m = map_write q (le_bytes32 (word_of_nat n)) m;
         m = map_write payload (replicate len 0) (map_write (b + 10) (le_bytes16 0) m);
         m = (if n > 0 then map_write (n + 4) (le_bytes32 (word_of_nat q)) m else m)
     in map_write (b + 4) (le_bytes32 0) (map_write b (le_bytes32 0) m))"

lemma snd_prog32_does:
  assumes "good st" "pooled st a 4" "st_faults (snd (prog32 a v st)) \<le> st_faults st"
  shows "good (snd (prog32 a v st)) \<and> same_pools st (snd (prog32 a v st)) \<and>
    mem (snd (prog32 a v st)) = map_write a (le_bytes32 v) (mem st) \<and> st_faults (snd (prog32 a v st)) = st_faults st"
  using prog32_does [OF assms(1,2), of v] assms(3) faults_mono(3) [of st a v] by (simp add: does_def)

lemma snd_prog16_does:
  assumes "good st" "pooled st a 2" "st_faults (snd (prog16 a v st)) \<le> st_faults st"
  shows "good (snd (prog16 a v st)) \<and> same_pools st (snd (prog16 a v st)) \<and>
    mem (snd (prog16 a v st)) = map_write a (le_bytes16 v) (mem st) \<and> st_faults (snd (prog16 a v st)) = st_faults st"
  using prog16_does [OF assms(1,2), of v] assms(3) faults_mono(2) [of st a v] by (simp add: does_def)

lemma clear_file_mem:
  assumes "pool_at st s p" "links (mem st) s p (xs @ b # ys)" "seg (mem st) s p xs q" "links (mem st) s q (b # ys)"
    "f_data f = Some (b + 10)" "flash_clear_file f st = (r, f', st')" "st_faults st' \<le> st_faults st"
  shows "r = PICOKEYS_OK \<and> f' = f\<lparr>f_data := None\<rparr> \<and> good st' \<and> same_pools st st' \<and> st_faults st' = st_faults st \<and>
    mem st' = clear_mem b q (head ys) (b + 10 + lsz (mem st) b) (psz (mem st) b) (mem st)"
proof -
  let ?m = "mem st"
  have g: "good st" using assms(1) by (simp add: pool_at_def)
  have b: "mem32 ?m q = b" "mem32 ?m (b + 4) = q" "s \<le> b" "b + rsz ?m b \<le> q" "links ?m s b ys" using assms(4) by auto
  have q: "q \<le> p" "s \<le> q" using seg_le [OF assms(3)] b by auto
  have n: "mem32 ?m b = head ys" using b(5) by (cases ys) (simp_all add: head_def)
  have hn: "head ys > 0 \<Longrightarrow> s \<le> head ys \<and> head ys + 12 \<le> b"
    using b(5) rsz_ge [of ?m "head ys"] by (cases ys) (auto simp: head_def)
  have r12: "12 \<le> rsz ?m b" by (rule rsz_ge)
  have P: "pooled st a k" if "s \<le> a" "a + k \<le> q + 4" for a k
    using that q by (intro pool_at_pooled [OF assms(1)]) auto
  have rb: "rdptr st (b + 4) = q" "rdptr st b = head ys"
    using b n r12 P rdptr_mem [OF g] by simp_all
  have sz: "payload_size_at st (b + 10) = psz ?m b" "length_size_at st (b + 10) = lsz ?m b"
    using record_size_mem [OF assms(1) b(3)] b(4) q by auto
  define st1 where "st1 = snd (prog32 q (word_of_nat (head ys)) st)"
  define st2 where "st2 = snd (prog16 (b + 10) 0 st1)"
  obtain ok st3 where z: "zero_loop (b + 10 + lsz ?m b) (psz ?m b) st2 = (ok, st3)" by force
  define st4 where "st4 = (if head ys > 0 then snd (prog32 (head ys + 4) (word_of_nat q) st3) else st3)"
  define st5 where "st5 = snd (prog32 b 0 st4)"
  define st6 where "st6 = snd (prog32 (b + 4) 0 st5)"
  have run: "flash_clear_file f st = (if \<not> ok then (PICOKEYS_EXEC_ERROR, f, st3)
      else (PICOKEYS_OK, f\<lparr>f_data := None\<rparr>, if st_num_files st6 > 0 then st6\<lparr>st_num_files := st_num_files st6 - 1\<rparr> else st6))"
  proof -
    have d: "b + 10 - 10 = b" by simp
    show ?thesis
      unfolding flash_clear_file_def assms(5) option.case Let_def d rb sz st1_def [symmetric] st2_def [symmetric] z prod.case
        st4_def [symmetric] st5_def [symmetric] st6_def [symmetric] ..
  qed
  have mono: "st_faults st \<le> st_faults st1" "st_faults st1 \<le> st_faults st2" "st_faults st2 \<le> st_faults st3"
    "st_faults st3 \<le> st_faults st4" "st_faults st4 \<le> st_faults st5" "st_faults st5 \<le> st_faults st6"
    using faults_mono(2,3) zero_loop_mono [of st2 "b + 10 + lsz ?m b" "psz ?m b"] unfolding z by (auto simp: st1_def st2_def st4_def st5_def st6_def)
  have f3: "st_faults st3 \<le> st_faults st" using assms(6,7) mono unfolding run by (auto split: if_splits)
  have s1: "good st1" "same_pools st st1" "mem st1 = map_write q (le_bytes32 (word_of_nat (head ys))) ?m"
    using snd_prog32_does [OF g P, of q] f3 mono q by (auto simp: st1_def)
  have P1: "pooled t a k" if "same_pools st t" "s \<le> a" "a + k \<le> q + 4" for t a k
    using that P same_pools_pooled [OF that(1)] by simp
  have s2: "good st2" "same_pools st st2" "mem st2 = map_write (b + 10) (le_bytes16 0) (mem st1)"
    using snd_prog16_does [OF s1(1) P1 [OF s1(2)], of "b + 10" 0] f3 mono b r12 s1(2)
    by (auto simp: st2_def intro: same_pools_trans)
  have "b + 10 + lsz ?m b + psz ?m b \<le> q" using b(4) by (simp add: rsz_def)
  then have s3: "ok" "good st3" "same_pools st st3" "mem st3 = map_write (b + 10 + lsz ?m b) (replicate (psz ?m b) 0) (mem st2)"
    using zero_loop_does [OF s2(1) P1 [OF s2(2)] z] f3 mono b(3) s2(2) by (auto intro: same_pools_trans)
  have f6: "st_faults st6 \<le> st_faults st" using assms(6,7) s3(1) unfolding run by (auto split: if_splits)
  have s4: "good st4" "same_pools st st4" "mem st4 = (if head ys > 0 then map_write (head ys + 4) (le_bytes32 (word_of_nat q)) (mem st3) else mem st3)"
  proof -
    have "good st4 \<and> same_pools st st4 \<and> mem st4 = (if head ys > 0 then map_write (head ys + 4) (le_bytes32 (word_of_nat q)) (mem st3) else mem st3)"
    proof (cases "head ys > 0")
      case True
      then have "pooled st3 (head ys + 4) 4" using hn b(4) by (intro P1 s3(3)) auto
      then show ?thesis
        using snd_prog32_does [OF s3(2), of "head ys + 4" "word_of_nat q"] True f6 mono s3(3) by (auto simp: st4_def intro: same_pools_trans)
    qed (use s3 in \<open>simp add: st4_def\<close>)
    then show "good st4" "same_pools st st4" "mem st4 = (if head ys > 0 then map_write (head ys + 4) (le_bytes32 (word_of_nat q)) (mem st3) else mem st3)"
      by simp_all
  qed
  have s5: "good st5" "same_pools st st5" "mem st5 = map_write b (le_bytes32 0) (mem st4)"
    using snd_prog32_does [OF s4(1) P1 [OF s4(2)], of b 0] f6 mono b s4(2) r12 by (auto simp: st5_def intro: same_pools_trans)
  have s6: "good st6" "same_pools st st6" "mem st6 = map_write (b + 4) (le_bytes32 0) (mem st5)"
    using snd_prog32_does [OF s5(1) P1 [OF s5(2)], of "b + 4" 0] f6 mono b s5(2) r12 by (auto simp: st6_def intro: same_pools_trans)
  have m6: "mem st6 = clear_mem b q (head ys) (b + 10 + lsz ?m b) (psz ?m b) ?m"
    by (simp add: s6(3) s5(3) s4(3) s3(4) s2(3) s1(3) clear_mem_def Let_def)
  have "st_faults st6 = st_faults st" using f6 mono by linarith
  then show ?thesis using assms(6) s3(1) s6(1,2) m6 unfolding run
    by (auto simp: good_def same_pools_def mem_def fun_eq_iff split: if_splits)
qed

end
