(* ===== verification/Flash_Files.thy ===== *)
theory Flash_Files
  imports Flash_Store
begin

text \<open>
  What the record store guarantees to the files above it: as long as no flash operation fails, writing a file,
  in place or into a new record, and deleting one keep the list of records, change the contents
  of that file only, and a later read returns what was written.
\<close>

section \<open>Memory updates\<close>

lemma unat32: "x < 4294967296 \<Longrightarrow> unat (word_of_nat x :: u32) = x"
  by (simp add: unsigned_of_nat take_bit_nat_eq_self)

lemma unat16: "x < 65536 \<Longrightarrow> unat (word_of_nat x :: u16) = x"
  by (simp add: unsigned_of_nat take_bit_nat_eq_self)

lemma mem32_other: "a + 4 \<le> addr \<or> addr + length bs \<le> a \<Longrightarrow> mem32 (map_write addr bs m) a = mem32 m a"
  by (auto simp: mem32_def map_write_other)

lemma mem16_other: "a + 2 \<le> addr \<or> addr + length bs \<le> a \<Longrightarrow> mem16 (map_write addr bs m) a = mem16 m a"
  by (auto simp: mem16_def map_write_other)

lemma same_on_write: "hi \<le> addr \<or> addr + length bs \<le> lo \<Longrightarrow> same_on m (map_write addr bs m) lo hi"
  by (auto simp: same_on_def map_write_other)

lemma map_written: "map (map_write addr bs m) [addr..<addr + length bs] = bs"
  by (rule nth_equalityI) (auto simp: map_write_def)

lemma clear_mem_chain:
  assumes "mem32 m q = b" "b + rsz m b \<le> q" "q < 2 ^ 32" "links m s b ys" "0 < b"
  defines "m' \<equiv> clear_mem b q (head ys) (b + 10 + lsz m b) (psz m b) m"
  shows "spares m m' b (b + rsz m b) q ys" "mem32 m' q = head ys" "ys \<noteq> [] \<longrightarrow> mem32 m' (head ys + 4) = q"
proof -
  note len = le16_bytes(3) le32_bytes(5)
  have r: "b + 12 \<le> q" "b + 10 + lsz m b + psz m b = b + rsz m b" "2 \<le> lsz m b"
    using assms(2) rsz_ge [of m b] by (auto simp: rsz_def lsz_def)
  have n: "ys \<noteq> [] \<Longrightarrow> 0 < head ys \<and> head ys + 12 \<le> b" "ys = [] \<Longrightarrow> head ys = 0"
    using assms(4,5) rsz_ge [of m "head ys"] by (cases ys; auto simp: head_def)+
  then have h: "head ys < 4294967296" using r assms(3) by (cases "ys = []") auto
  have "m' a = m a" if a: "\<not> (b \<le> a \<and> a < b + rsz m b)" "\<not> (q \<le> a \<and> a < q + 4)"
      "\<not> (ys \<noteq> [] \<and> head ys + 4 \<le> a \<and> a < head ys + 8)" for a
  proof -
    have "a < b \<or> b + 4 \<le> a" "a < b + 4 \<or> b + 4 + 4 \<le> a" "a < b + 10 \<or> b + 10 + 2 \<le> a"
      "a < b + 10 + lsz m b \<or> b + 10 + lsz m b + psz m b \<le> a" "a < q \<or> q + 4 \<le> a"
      "head ys > 0 \<longrightarrow> a < head ys + 4 \<or> head ys + 4 + 4 \<le> a"
      using a r n rsz_ge [of m b] by (linarith | auto)+
    then show ?thesis by (simp add: m'_def clear_mem_def Let_def map_write_other len)
  qed
  then show "spares m m' b (b + rsz m b) q ys" by (simp add: spares_def)
  have e: "mem32 m' q = mem32 (map_write q (le_bytes32 (word_of_nat (head ys))) m) q"
    unfolding m'_def clear_mem_def Let_def
    using r n assms(2) by (cases "ys = []") (simp_all add: mem32_other len)
  show "mem32 m' q = head ys" unfolding e mem32_written by (rule unat32 [OF h])
  show "ys \<noteq> [] \<longrightarrow> mem32 m' (head ys + 4) = q"
  proof
    assume y: "ys \<noteq> []"
    have "mem32 m' (head ys + 4) = unat (word_of_nat q :: u32)"
      unfolding m'_def clear_mem_def Let_def
      using r n(1) [OF y] by (simp add: mem32_other len mem32_written)
    then show "mem32 m' (head ys + 4) = q" using assms(3) unat32 [of q] by simp
  qed
qed

text \<open>Nothing outside a pool changes.\<close>

definition outside :: "nat \<Rightarrow> nat \<Rightarrow> memory \<Rightarrow> memory \<Rightarrow> bool" where
  "outside s p m m' \<longleftrightarrow> (\<forall>a. a < s \<or> p + 4 \<le> a \<longrightarrow> m' a = m a)"

lemma outside_trans: "outside s p m m' \<Longrightarrow> outside s p m' m'' \<Longrightarrow> outside s p m m''"
  by (simp add: outside_def)

lemma spares_outside:
  assumes "spares m m' lo hi q ys" "links m s r ys" "r \<le> p" "s \<le> lo" "hi \<le> p" "s \<le> q" "q \<le> p"
  shows "outside s p m m'"
  unfolding outside_def
proof (intro allI impI)
  fix a assume a: "a < s \<or> p + 4 \<le> a"
  have "s \<le> head ys \<and> head ys + 12 \<le> p" if "ys \<noteq> []"
    using that assms(2,3) rsz_ge [of m "head ys"] by (cases ys) (auto simp: head_def)
  then have "\<not> (ys \<noteq> [] \<and> head ys + 4 \<le> a \<and> a < head ys + 8)" using a by auto
  then show "m' a = m a" using a assms(1,4-7) by (auto simp: spares_def)
qed

lemma clear_file_chain:
  assumes "pool_at st s p" "links (mem st) s p (xs @ b # ys)"
    "f_data f = Some (b + 10)" "flash_clear_file f st = (r, f', st')" "st_faults st' \<le> st_faults st"
  shows "r = PICOKEYS_OK \<and> f' = f\<lparr>f_data := None\<rparr> \<and> pool_at st' s p \<and> same_pools st st' \<and> st_faults st' = st_faults st \<and>
    links (mem st') s p (xs @ ys) \<and> (\<forall>c\<in>set xs \<union> set ys. unchanged (mem st) (mem st') c) \<and> outside s p (mem st) (mem st')"
proof -
  obtain q where q: "seg (mem st) s p xs q" "links (mem st) s q (b # ys)" using assms(2) unfolding links_append by blast
  note c = clear_file_mem [OF assms(1,2) q assms(3-5)]
  have b: "mem32 (mem st) q = b" "b + rsz (mem st) b \<le> q" "links (mem st) s b ys" using q(2) by auto
  have w: "q < 2 ^ 32" "0 < b" "q \<le> p" "s \<le> b" using assms(1) seg_le [OF q(1)] q(2) by (auto simp: pool_at_def)
  note k = clear_mem_chain [OF b(1,2) w(1) b(3) w(2)]
  have "outside s p (mem st) (mem st')" using spares_outside [OF k(1) b(3)] w b(2) c by simp
  moreover
  have "links (mem st') s p (xs @ ys)" "\<forall>c\<in>set xs \<union> set ys. unchanged (mem st) (mem st') c"
    using links_remove [OF q k] c by simp_all
  ultimately show ?thesis using c pool_at_same [OF assms(1)] by blast
qed
section \<open>Reading a file\<close>

text \<open>The file whose record starts at \<open>b\<close>, within the pool.\<close>

definition record_in :: "store \<Rightarrow> nat \<Rightarrow> nat \<Rightarrow> nat \<Rightarrow> file_t \<Rightarrow> bool" where
  "record_in st s p b f \<longleftrightarrow> pool_at st s p \<and> s \<le> b \<and> b + rsz (mem st) b \<le> p \<and> f_data f = Some (b + 10)"

lemma rec_data_length [simp]: "length (rec_data m b) = psz m b"
  by (simp add: rec_data_def)

lemma file_size_rec: "record_in st s p b f \<Longrightarrow> file_get_size st f = psz (mem st) b"
  using record_size_mem(2) [of st s p b] by (simp add: record_in_def file_get_size_def)

lemma file_read_rec:
  assumes "record_in st s p b f" "off + n \<le> psz (mem st) b"
  shows "file_read_at st f off n = Inr (take n (drop off (rec_data (mem st) b)))"
proof (cases "n = 0")
  case True
  then show ?thesis using assms file_size_rec [OF assms(1)] by (auto simp: file_read_at_def record_in_def Let_def)
next
  case False
  have a: "pool_at st s p" "s \<le> b" "b + rsz (mem st) b \<le> p" "f_data f = Some (b + 10)" using assms(1) by (auto simp: record_in_def)
  let ?a = "b + 10 + lsz (mem st) b + off"
  have "pooled st ?a n" using a assms(2) by (intro pool_at_pooled [OF a(1)]) (auto simp: rsz_def)
  then have "read_loop (st_flash st) ?a n = map (mem st) [?a..<?a + n]" using a(1) by (intro read_mem) (auto simp: pool_at_def)
  also have "\<dots> = take n (drop off (rec_data (mem st) b))"
    unfolding rec_data_def using assms(2) by (simp add: drop_map take_map add.assoc)
  finally show ?thesis
    using False assms(2) a(4) file_size_rec [OF assms(1)] record_size_mem(3) [OF a(1-3)]
    by (simp add: file_read_at_def flash_read_block_def Let_def)
qed

lemma record_in_write:
  assumes "record_in st s p b f" "good st'" "same_pools st st'" "mem st' = map_write addr bs (mem st)"
    "addr + length bs \<le> b + 8 \<or> b + rsz (mem st) b \<le> addr"
  shows "record_in st' s p b f" "rec_data (mem st') b = rec_data (mem st) b" "rsz (mem st') b = rsz (mem st) b"
    "psz (mem st') b = psz (mem st) b"
proof -
  have "same_on (mem st) (mem st') (b + 10) (b + rsz (mem st) b)"
    using assms(4,5) same_on_write [of "b + rsz (mem st) b" addr bs "b + 10" "mem st"] by auto
  note s = record_same [OF this]
  show "rec_data (mem st') b = rec_data (mem st) b" "rsz (mem st') b = rsz (mem st) b" "psz (mem st') b = psz (mem st) b" using s by auto
  then show "record_in st' s p b f" using assms(1-3) pool_at_same [of st s p st'] by (simp add: record_in_def)
qed

section \<open>Copying from the old record\<close>

lemma copy_mono: "st_faults st \<le> st_faults (snd (copy_file_range old off dst len st))"
proof (induction old off dst len st rule: copy_file_range.induct)
  case (1 old off dst len st)
  show ?case
  proof (cases "len > 0")
    case True
    show ?thesis
    proof (cases "file_read_at st old off (min 256 len)")
      case (Inl r) then show ?thesis using True by (subst copy_file_range.simps) (simp add: Let_def)
    next
      case (Inr buf)
      obtain r st1 where p: "prog dst buf st = (r, st1)" by force
      have "st_faults st \<le> st_faults st1" using faults_mono(1) [of st dst buf] p by simp
      then show ?thesis
        using True p Inr "1.IH" [OF True refl Inr, of st1] by (subst copy_file_range.simps) (auto simp: Let_def and_then_def)
    qed
  qed (subst copy_file_range.simps, simp)
qed

lemma copy_does:
  assumes "record_in st s p b old" "off + len \<le> psz (mem st) b" "s \<le> dst" "dst + len \<le> p"
    "dst + len \<le> b + 8 \<or> b + rsz (mem st) b \<le> dst"
  shows "does st (copy_file_range old off dst len st) (map_write dst (take len (drop off (rec_data (mem st) b))) (mem st))"
  using assms
proof (induction old off dst len st rule: copy_file_range.induct)
  case (1 old off dst len st)
  let ?d = "rec_data (mem st) b"
  have pool: "pool_at st s p" "good st" using "1.prems"(1) by (auto simp: record_in_def pool_at_def)
  show ?case
  proof (cases "len > 0")
    case False
    then show ?thesis using does_ok [OF pool(2)] by (subst copy_file_range.simps) simp
  next
    case True
    define chunk where "chunk = min 256 len"
    define buf where "buf = take chunk (drop off ?d)"
    have c: "0 < chunk" "chunk \<le> len" using True by (simp_all add: chunk_def)
    have buf: "length buf = chunk" using c "1.prems"(2) by (simp add: buf_def)
    have rd: "file_read_at st old off chunk = Inr buf"
      unfolding buf_def by (rule file_read_rec [OF "1.prems"(1)]) (use c "1.prems"(2) in simp)
    have run: "copy_file_range old off dst len st =
        and_then (prog dst buf st) (copy_file_range old (off + chunk) (dst + chunk) (len - chunk))"
      using True by (subst copy_file_range.simps) (simp add: Let_def rd [unfolded chunk_def] chunk_def)
    have "does st (prog dst buf st) (map_write dst buf (mem st))"
      using buf c "1.prems"(3,4) by (intro prog_does [OF pool(2)] pool_at_pooled [OF pool(1)]) auto
    then show ?thesis
      unfolding run
    proof (rule and_then_does)
      fix st1 assume s1: "good st1" "same_pools st st1" "mem st1 = map_write dst buf (mem st)"
      have w: "record_in st1 s p b old" "rec_data (mem st1) b = ?d" "rsz (mem st1) b = rsz (mem st) b" "psz (mem st1) b = psz (mem st) b"
        using record_in_write [OF "1.prems"(1) s1] "1.prems"(5) buf c(2) by auto
      have "does st1 (copy_file_range old (off + chunk) (dst + chunk) (len - chunk) st1)
          (map_write (dst + chunk) (take (len - chunk) (drop (off + chunk) ?d)) (mem st1))"
        using "1.IH" [OF True chunk_def rd, of st1] w "1.prems"(2-5) c by auto
      moreover have "map_write (dst + chunk) (take (len - chunk) (drop (off + chunk) ?d)) (mem st1) =
          map_write dst (take len (drop off ?d)) (mem st)"
      proof -
        have "buf @ take (len - chunk) (drop (off + chunk) ?d) = take len (drop off ?d)"
          unfolding buf_def using c(2) take_add [of chunk "len - chunk" "drop off ?d"] by (simp add: add.commute)
        then show ?thesis using map_write_append [of dst buf] buf by (simp add: s1(3))
      qed
      ultimately show "does st1 (copy_file_range old (off + chunk) (dst + chunk) (len - chunk) st1)
          (map_write dst (take len (drop off ?d)) (mem st))" by simp
    qed (auto intro: faults_mono copy_mono)
  qed
qed
section \<open>Filling a new record\<close>

lemma append_does:
  assumes "does st rs (map_write a xs m)" "st_faults st \<le> st_faults (snd rs)" "\<And>st. st_faults st \<le> st_faults (snd (g st))"
    "\<And>st1. good st1 \<Longrightarrow> same_pools st st1 \<Longrightarrow> mem st1 = map_write a xs m \<Longrightarrow> does st1 (g st1) (map_write (a + length xs) ys (mem st1))"
  shows "does st (and_then rs g) (map_write a (xs @ ys) m)"
  by (rule and_then_does [OF assms(1-3)]) (use assms(4) map_write_append [of a xs ys m] in auto)

definition length_bytes :: "nat \<Rightarrow> bytes" where
  "length_bytes n = (if n \<ge> 65535 then le_bytes16 0xffff @ le_bytes32 (word_of_nat n) else le_bytes16 (word_of_nat n))"

lemma length_bytes_length [simp]: "length (length_bytes n) = length_size_for n"
  by (simp add: length_bytes_def length_size_for_def le16_bytes le32_bytes)

lemma write_length_mono: "st_faults st \<le> st_faults (snd (write_file_length d n st))"
  unfolding write_file_length_def by (auto intro!: faults_mono and_then_mono)

lemma write_length_does:
  assumes "good st" "pooled st d (length_size_for n)"
  shows "does st (write_file_length d n st) (map_write d (length_bytes n) (mem st))"
proof (cases "n \<ge> 65535")
  case False
  then show ?thesis using assms prog16_does [of st d] by (simp add: write_file_length_def length_bytes_def length_size_for_def)
next
  case True
  have p: "pooled st d 2" "pooled st (d + 2) 4" using assms(2) True by (auto simp: length_size_for_def intro: pooled_sub)
  have "does st (and_then (prog16 d 0xffff st) (prog32 (d + 2) (word_of_nat n)))
      (map_write d (le_bytes16 0xffff @ le_bytes32 (word_of_nat n)) (mem st))"
  proof (rule append_does [OF prog16_does [OF assms(1) p(1)]])
    fix st1 assume "good st1" "same_pools st st1"
    then show "does st1 (prog32 (d + 2) (word_of_nat n) st1) (map_write (d + length (le_bytes16 0xffff)) (le_bytes32 (word_of_nat n)) (mem st1))"
      unfolding le16_bytes by (intro prog32_does) (simp_all only: same_pools_pooled p)
  qed (auto intro: faults_mono)
  then show ?thesis using True by (simp add: write_file_length_def length_bytes_def)
qed

lemma does_num: "does st rs m \<Longrightarrow> does st (apsnd (\<lambda>st. st\<lparr>st_num_files := n st\<rparr>) rs) m"
proof -
  assume d: "does st rs m"
  obtain r st1 where rs: "rs = (r, st1)" by force
  have "mem (st1\<lparr>st_num_files := n st1\<rparr>) = mem st1" by (rule ext) (simp add: mem_def)
  then show ?thesis using d by (simp add: does_def good_def same_pools_def rs)
qed

text \<open>What a file holds after it was written, and what the new record needs to know of the old one.\<close>

definition new_content :: "bool \<Rightarrow> nat \<Rightarrow> bytes \<Rightarrow> bytes \<Rightarrow> bytes" where
  "new_content partial offset data old = (if partial then take offset old @ data @ drop (offset + length data) old else data)"

definition old_apart :: "store \<Rightarrow> nat \<Rightarrow> nat \<Rightarrow> nat \<Rightarrow> nat \<Rightarrow> file_t \<Rightarrow> bytes \<Rightarrow> bool" where
  "old_apart st s p lo hi old content \<longleftrightarrow> (case f_data old of
     None \<Rightarrow> content = []
   | Some d \<Rightarrow> (\<exists>b. d = b + 10 \<and> record_in st s p b old \<and> content = rec_data (mem st) b \<and> (hi \<le> b + 8 \<or> b + rsz (mem st) b \<le> lo)))"

lemma old_apart_write:
  assumes "old_apart st s p lo hi old content" "good st'" "same_pools st st'" "mem st' = map_write addr bs (mem st)"
    "lo \<le> addr" "addr + length bs \<le> hi"
  shows "old_apart st' s p lo hi old content"
proof (cases "f_data old")
  case (Some d)
  then obtain b where b: "d = b + 10" "record_in st s p b old" "content = rec_data (mem st) b" "hi \<le> b + 8 \<or> b + rsz (mem st) b \<le> lo"
    using assms(1) by (auto simp: old_apart_def)
  then show ?thesis using record_in_write [OF b(2) assms(2-4)] assms(5,6) Some by (auto simp: old_apart_def)
qed (use assms(1) in \<open>simp add: old_apart_def\<close>)

lemma old_copy_does:
  assumes "pool_at st s p" "old_apart st s p lo hi old content" "off + len \<le> length content" "s \<le> dst" "dst + len \<le> p"
    "lo \<le> dst" "dst + len \<le> hi" "c \<longleftrightarrow> f_data old \<noteq> None \<and> len > 0"
  shows "does st (if c then copy_file_range old off dst len st else (PICOKEYS_OK, st)) (map_write dst (take len (drop off content)) (mem st))"
proof (cases c)
  case True
  then obtain b where b: "record_in st s p b old" "content = rec_data (mem st) b" "hi \<le> b + 8 \<or> b + rsz (mem st) b \<le> lo"
    using assms(2,8) by (auto simp: old_apart_def)
  show ?thesis using copy_does [OF b(1), of off len dst] b(2,3) assms(3-7) True by auto
next
  case False
  then have "take len (drop off content) = []" using assms(2,3,8) by (auto simp: old_apart_def split: option.splits)
  moreover have "does st (PICOKEYS_OK, st) (mem st)" using does_ok assms(1) by (simp add: pool_at_def)
  ultimately show ?thesis using False by (simp only: map_write_Nil if_False)
qed

definition record_bytes :: "u16 \<Rightarrow> bytes \<Rightarrow> bytes" where
  "record_bytes fid content = le_bytes16 fid @ length_bytes (length content) @ content"

lemma record_bytes_length [simp]: "length (record_bytes fid content) = 2 + length_size_for (length content) + length content"
  by (simp add: record_bytes_def le16_bytes)
lemma old_kept_does:
  assumes "pool_at st s p" "old_apart st s p lo hi old content" "partial \<longrightarrow> off + len \<le> length content" "s \<le> dst" "dst + len \<le> p"
    "lo \<le> dst" "dst + len \<le> hi"
  shows "does st (if partial \<and> f_data old \<noteq> None \<and> len > 0 then copy_file_range old off dst len st else (PICOKEYS_OK, st))
      (map_write dst (if partial then take len (drop off content) else []) (mem st))"
proof (cases partial)
  case True
  then show ?thesis using old_copy_does [OF assms(1,2) _ assms(4-7) refl, of off] assms(3) by simp
next
  case False
  then show ?thesis using does_ok assms(1) by (simp add: pool_at_def)
qed

lemma fill_header_mono: "st_faults st \<le> st_faults (snd (fill_header fid addr n st))"
  using and_then_mono [OF faults_mono(2) [of st "addr + 8" fid], of "write_file_length (addr + 10) n"] write_length_mono
  by (auto simp: fill_header_def split: prod.split)

lemma fill_header_does:
  assumes "good st" "pooled st (addr + 8) (2 + length_size_for n)"
  shows "does st (fill_header fid addr n st) (map_write (addr + 8) (le_bytes16 fid @ length_bytes n) (mem st))"
proof -
  have p: "pooled st (addr + 8) 2" "pooled st (addr + 10) (length_size_for n)" using assms(2) by (auto intro: pooled_sub)
  have "does st (and_then (prog16 (addr + 8) fid st) (write_file_length (addr + 10) n))
      (map_write (addr + 8) (le_bytes16 fid @ length_bytes n) (mem st))"
  proof (rule append_does [OF prog16_does [OF assms(1) p(1)]])
    fix st1 assume s: "good st1" "same_pools st st1"
    have e: "addr + 8 + length (le_bytes16 fid) = addr + 10" by (simp add: le16_bytes)
    show "does st1 (write_file_length (addr + 10) n st1) (map_write (addr + 8 + length (le_bytes16 fid)) (length_bytes n) (mem st1))"
      unfolding e using p(2) same_pools_pooled [OF s(2)] by (intro write_length_does s(1)) simp
  qed (auto intro: faults_mono write_length_mono)
  from does_num [OF this, of "\<lambda>st. st_num_files st + 1"] show ?thesis
    by (simp add: fill_header_def apsnd_def map_prod_def)
qed

lemma fill_payload_mono: "st_faults st \<le> st_faults (snd (fill_payload old payload data offset partial old_size st))"
  unfolding fill_payload_def Let_def by (auto intro!: and_then_mono faults_mono copy_mono)

lemma fill_payload_does:
  assumes "pool_at st s p" "old_apart st s p lo hi old content" "s \<le> payload" "lo \<le> payload" "payload + length (new_content partial offset data content) \<le> hi"
    "hi \<le> p" "partial \<longrightarrow> offset \<le> length content" "\<not> partial \<longrightarrow> offset = 0"
  shows "does st (fill_payload old payload data offset partial (length content) st)
    (map_write payload (new_content partial offset data content) (mem st))"
proof -
  let ?stop = "offset + length data"
  define hd where "hd = (if partial then take offset (drop 0 content) else [])"
  define tl where "tl = (if partial then take (length content - ?stop) (drop ?stop content) else [])"
  have new: "new_content partial offset data content = (hd @ data) @ tl" by (simp add: new_content_def hd_def tl_def)
  have lens: "length hd = offset" "partial \<longrightarrow> length tl = length content - ?stop" "payload + (offset + length data + length tl) \<le> hi"
    using assms(5,7,8) unfolding new by (auto simp: hd_def tl_def)
  have later: "pool_at st1 s p \<and> old_apart st1 s p lo hi old content"
    if "good st1" "same_pools st st1" "mem st1 = map_write payload xs (mem st)" "payload + length xs \<le> hi" for st1 xs
    using pool_at_same [OF assms(1) that(1,2)] old_apart_write [OF assms(2) that(1-3) assms(4) that(4)] by blast
  have d1: "does st (if partial \<and> f_data old \<noteq> None \<and> offset > 0 then copy_file_range old 0 payload offset st else (PICOKEYS_OK, st))
      (map_write payload hd (mem st))"
    unfolding hd_def by (rule old_kept_does [OF assms(1,2)]) (use assms lens(3) in auto)
  have d2: "does st (and_then
       (if partial \<and> f_data old \<noteq> None \<and> offset > 0 then copy_file_range old 0 payload offset st else (PICOKEYS_OK, st))
       (\<lambda>st. if length data > 0 then prog (payload + offset) data st else (PICOKEYS_OK, st))) (map_write payload (hd @ data) (mem st))"
  proof (rule append_does [OF d1])
    fix st1 assume s: "good st1" "same_pools st st1"
    have "pooled st1 (payload + offset) (length data)"
      using lens(3) assms(3,6) same_pools_pooled [OF s(2)] by (auto intro!: pool_at_pooled [OF assms(1)])
    then show "does st1 (if length data > 0 then prog (payload + offset) data st1 else (PICOKEYS_OK, st1)) (map_write (payload + length hd) data (mem st1))"
      unfolding lens(1) using prog_does [OF s(1), of "payload + offset" data] does_ok [OF s(1)] by auto
  qed (auto intro: faults_mono copy_mono)
  show ?thesis
    unfolding new fill_payload_def Let_def
  proof (rule append_does [OF d2])
    fix st1 assume s: "good st1" "same_pools st st1" "mem st1 = map_write payload (hd @ data) (mem st)"
    have l: "pool_at st1 s p" "old_apart st1 s p lo hi old content" using later [OF s] lens by auto
    have e: "payload + length (hd @ data) = payload + ?stop" using lens(1) by simp
    have c: "?stop < length content \<longleftrightarrow> length content - ?stop > 0" by auto
    have b: "payload + ?stop + (length content - ?stop) \<le> hi" if partial using that lens by auto
    show "does st1 (if partial \<and> f_data old \<noteq> None \<and> ?stop < length content
        then copy_file_range old ?stop (payload + ?stop) (length content - ?stop) st1 else (PICOKEYS_OK, st1)) (map_write (payload + length (hd @ data)) tl (mem st1))"
    proof (cases "partial \<and> ?stop < length content")
      case True
      show ?thesis unfolding e tl_def c by (rule old_kept_does [OF l]) (use True b assms(3,4,6) in auto)
    next
      case False
      then have "tl = []" by (auto simp: tl_def)
      then show ?thesis using False does_ok [OF s(1)] by auto
    qed
  qed (auto intro!: and_then_mono faults_mono copy_mono)
qed

lemma fill_record_does:
  assumes "pool_at st s p" "old_apart st s p addr publish old content" "s \<le> addr"
    "addr + 10 + length_size_for n + n \<le> publish" "publish \<le> p" "partial \<longrightarrow> offset \<le> length content" "\<not> partial \<longrightarrow> offset = 0"
    "n = length (new_content partial offset data content)"
  shows "does st (fill_record old addr publish data offset partial (length content) n st)
    (map_write publish (le_bytes32 (word_of_nat addr))
      (map_write (addr + 8) (record_bytes (f_fid old) (new_content partial offset data content)) (mem st)))"
proof -
  let ?new = "new_content partial offset data content" and ?h = "le_bytes16 (f_fid old) @ length_bytes n"
  let ?payload = "addr + 10 + length_size_for n"
  have g: "good st" using assms(1) by (simp add: pool_at_def)
  have e: "addr + 8 + length ?h = ?payload" by (simp add: le16_bytes)
  have "pooled st (addr + 8) (2 + length_size_for n)" using assms(3-5) by (intro pool_at_pooled [OF assms(1)]) auto
  note d1 = fill_header_does [OF g this, of "f_fid old"]
  have d2: "does st (and_then (fill_header (f_fid old) addr n st) (fill_payload old ?payload data offset partial (length content)))
      (map_write (addr + 8) (record_bytes (f_fid old) ?new) (mem st))"
    unfolding record_bytes_def append_assoc [symmetric] assms(8) [symmetric]
  proof (rule append_does [OF d1 fill_header_mono])
    fix st1 assume s: "good st1" "same_pools st st1" "mem st1 = map_write (addr + 8) ?h (mem st)"
    have "pool_at st1 s p" by (rule pool_at_same [OF assms(1) s(1,2)])
    moreover have "old_apart st1 s p addr publish old content"
      using assms(4) e by (intro old_apart_write [OF assms(2) s]) auto
    ultimately show "does st1 (fill_payload old ?payload data offset partial (length content) st1) (map_write (addr + 8 + length ?h) ?new (mem st1))"
      unfolding e by (rule fill_payload_does) (use assms in auto)
  qed (rule fill_payload_mono)
  have m2: "st_faults st \<le> st_faults (snd (and_then (fill_header (f_fid old) addr n st) (fill_payload old ?payload data offset partial (length content))))"
    by (intro and_then_mono fill_header_mono fill_payload_mono)
  show ?thesis
    unfolding fill_record_def
  proof (rule and_then_does [OF and_then_does [OF d2 m2]])
    fix st1 assume s: "good st1" "same_pools st st1" "mem st1 = map_write (addr + 8) (record_bytes (f_fid old) ?new) (mem st)"
    have "pooled st1 publish 4" using assms(3-5) by (intro pool_at_pooled [OF pool_at_same [OF assms(1) s(1,2)]]) auto
    then show "does st1 (prog32 publish (word_of_nat addr) st1)
        (map_write publish (le_bytes32 (word_of_nat addr)) (map_write (addr + 8) (record_bytes (f_fid old) ?new) (mem st)))"
      using prog32_does [OF s(1)] s(3) by simp
  next
    fix st1 assume s: "good st1" "mem st1 = map_write (addr + 8) (record_bytes (f_fid old) ?new) (mem st)"
    show "does st1 (if sector_of publish \<noteq> sector_of addr then commit_or_fail st1 else (PICOKEYS_OK, st1))
        (map_write (addr + 8) (record_bytes (f_fid old) ?new) (mem st))"
      using commit_does [OF s(1)] does_ok [OF s(1)] s(2) by simp
  qed (auto intro!: faults_mono and_then_mono fill_header_mono fill_payload_mono)
qed
section \<open>The list with the new record\<close>

lemma record_bytes_rec:
  fixes c :: bytes and b :: nat and m :: memory and fid :: u16
  assumes "length c < 4294967296"
  defines "m' \<equiv> map_write (b + 8) (record_bytes fid c) m"
  shows "rec_fid m' b = unat fid" "rec_data m' b = c" "rsz m' b = 10 + length_size_for (length c) + length c"
proof -
  let ?n = "length c"
  define m1 where "m1 = map_write (b + 8) (le_bytes16 fid) m"
  define m2 where "m2 = map_write (b + 10) (length_bytes ?n) m1"
  have m': "m' = map_write (b + 10 + length_size_for ?n) c m2"
    unfolding m2_def m1_def m'_def record_bytes_def map_write_append [symmetric] by (simp add: le16_bytes ac_simps)
  have "rec_fid m' b = mem16 m1 (b + 8)"
    by (simp add: rec_fid_def m' m2_def mem16_other)
  then show "rec_fid m' b = unat fid" by (simp add: m1_def mem16_written)
  have big: "m2 = map_write (b + 10 + 2) (le_bytes32 (word_of_nat ?n)) (map_write (b + 10) (le_bytes16 0xffff) m1)" if "?n \<ge> 65535"
    using that map_write_append [of "b + 10" "le_bytes16 0xffff" "le_bytes32 (word_of_nat ?n)" m1] unfolding le16_bytes m2_def length_bytes_def by simp
  have l: "mem16 m' (b + 10) = (if ?n \<ge> 65535 then 65535 else ?n)"
  proof (cases "?n \<ge> 65535")
    case True
    then show ?thesis using mem16_written [of "b + 10" "0xffff"] by (simp add: m' big mem16_other length_size_for_def)
  next
    case False
    then show ?thesis by (simp add: m' mem16_other length_size_for_def m2_def length_bytes_def mem16_written unat16)
  qed
  have "mem32 m' (b + 12) = ?n" if n: "?n \<ge> 65535"
  proof -
    have e: "b + 12 = b + 10 + 2" by simp
    show ?thesis unfolding e m' big [OF n] using n assms(1)
      by (subst mem32_other) (simp_all only: mem32_written unat32, simp add: length_size_for_def)
  qed
  with l have s: "lsz m' b = length_size_for ?n" "psz m' b = ?n" by (auto simp: lsz_def psz_def length_size_for_def)
  show "rec_data m' b = c" unfolding rec_data_def s unfolding m' by (rule map_written)
  show "rsz m' b = 10 + length_size_for ?n + ?n" by (simp add: rsz_def s)
qed

lemma inserted_chain:
  fixes c :: bytes and fid :: u16
  assumes "seg m s p xs q" "links m s q ys" "gap_ok m s b ys" "q \<le> p" "p + 4 < 2 ^ 32"
    "b + (10 + length_size_for (length c) + length c) = q"
  defines "m' \<equiv> map_write q (le_bytes32 (word_of_nat b)) (map_write (b + 8) (record_bytes fid c) (link_mem b (head ys) q m))"
  shows "links m' s p (xs @ b # ys)" "\<forall>x\<in>set xs \<union> set ys. unchanged m m' x" "rec_fid m' b = unat fid" "rec_data m' b = c" "outside s p m m'"
proof -
  let ?n = "10 + length_size_for (length c) + length c"
  note len = le16_bytes(3) le32_bytes(5)
  have b: "s \<le> b" "b + 12 \<le> q" "b + 10 + (length_size_for (length c) + length c) = q"
    using assms(3,6) by (auto simp: gap_ok_def length_size_for_def split: if_splits)
  have y: "ys \<noteq> [] \<Longrightarrow> 0 < head ys \<and> head ys + 12 \<le> b" "ys = [] \<Longrightarrow> head ys = 0"
    using assms(2,3) rsz_ge [of m "head ys"] by (cases ys; auto simp: gap_ok_def head_def)+
  have bnd: "q < 4294967296" "b < 4294967296" "head ys < 4294967296" "length c < 4294967296"
    using b y assms(4,5) by (cases "ys = []"; auto)+
  have rb: "b + 8 + length (record_bytes fid c) = q" using b by simp
  define m0 where "m0 = map_write (b + 8) (record_bytes fid c) (link_mem b (head ys) q m)"
  have same: "same_on m0 m' (b + 8) (b + rsz m0 b)"
    using record_bytes_rec(3) [OF bnd(4)] assms(6) unfolding m'_def m0_def by (intro same_on_write) auto
  have u: "unchanged m0 m' b" by (rule unchangedI [OF same])
  then show f: "rec_fid m' b = unat fid" "rec_data m' b = c"
    using record_bytes_rec(1,2) [OF bnd(4), of b fid "link_mem b (head ys) q m"] by (simp_all add: unchanged_def m0_def)
  have rs: "rsz m' b \<le> ?n" using u record_bytes_rec(3) [OF bnd(4)] by (simp add: unchanged_def m0_def)
  have "m' a = m a" if a: "\<not> (b \<le> a \<and> a < b + ?n)" "\<not> (q \<le> a \<and> a < q + 4)"
      "\<not> (ys \<noteq> [] \<and> head ys + 4 \<le> a \<and> a < head ys + 8)" for a
  proof -
    have "a < q \<or> q + 4 \<le> a" "a < b + 8 \<or> b + 8 + length (record_bytes fid c) \<le> a" "a < b \<or> b + 4 \<le> a" "a < b + 4 \<or> b + 4 + 4 \<le> a"
      "head ys \<noteq> 0 \<longrightarrow> a < head ys + 4 \<or> head ys + 4 + 4 \<le> a"
      using a b y rb assms(6) by (linarith | auto)+
    then show ?thesis by (simp add: m'_def link_mem_def Let_def map_write_other len)
  qed
  then have sp: "spares m m' b (b + ?n) q ys" by (simp add: spares_def)
  then show "outside s p m m'" using spares_outside [OF _ assms(2,4)] b assms(4,6) by auto
  have "mem32 m' q = b" by (simp add: m'_def mem32_written unat32 bnd)
  moreover have "mem32 m' b = head ys" "mem32 m' (b + 4) = q"
    using b(2) y by (cases "ys = []"; simp add: m'_def link_mem_def Let_def mem32_other mem32_written len unat32 bnd)+
  moreover have "ys \<noteq> [] \<longrightarrow> mem32 m' (head ys + 4) = b"
    using b(2) y by (cases "ys = []"; simp add: m'_def link_mem_def Let_def mem32_other mem32_written len unat32 bnd)
  ultimately show "links m' s p (xs @ b # ys)" "\<forall>x\<in>set xs \<union> set ys. unchanged m m' x"
    using links_insert [OF assms(1,2) b(1) _ _ _ sp _ _ _ _ rs] assms(3,6) by (auto simp: gap_ok_def)
qed
section \<open>Overwriting in place\<close>

definition fits_in_place :: "memory \<Rightarrow> nat \<Rightarrow> nat \<Rightarrow> nat \<Rightarrow> bool \<Rightarrow> bool" where
  "fits_in_place m b len offset partial \<longleftrightarrow> (partial \<and> offset + len \<le> psz m b) \<or>
     (\<not> partial \<and> offset = 0 \<and> len \<le> psz m b \<and> (mem16 m (b + 10) = 65535 \<or> len < 65535))"

definition relength_mem :: "nat \<Rightarrow> nat \<Rightarrow> bool \<Rightarrow> memory \<Rightarrow> memory" where
  "relength_mem b len partial m = (if partial then m
     else if mem16 m (b + 10) = 65535 then map_write (b + 10 + 2) (le_bytes32 (word_of_nat len)) m
     else map_write (b + 10) (le_bytes16 (word_of_nat len)) m)"

lemma in_place_does:
  assumes "record_in st s p b f" "fits_in_place (mem st) b (length data) offset partial"
  shows "does st (write_in_place (b + 10) data offset partial old_size st)
    (map_write (b + 10 + lsz (mem st) b + offset) data (relength_mem b (length data) partial (mem st)))"
proof -
  let ?m = "mem st" and ?len = "length data"
  have a: "pool_at st s p" "s \<le> b" "b + rsz ?m b \<le> p" "good st" using assms(1) by (auto simp: record_in_def pool_at_def)
  have l: "rd16 st (b + 10) = mem16 ?m (b + 10)"
    using a rsz_ge [of ?m b] by (intro rd16_mem pool_at_pooled [OF a(1)]) auto
  note ls = record_size_mem(3) [OF a(1-3)]
  have "does st (if \<not> partial then (if rd16 st (b + 10) = 65535 then prog32 (b + 10 + 2) (word_of_nat ?len) st else prog16 (b + 10) (word_of_nat ?len) st)
      else (PICOKEYS_OK, st)) (relength_mem b ?len partial ?m)" (is "does st ?rs1 _")
  proof (cases "partial")
    case True then show ?thesis using does_ok [OF a(4)] by (simp add: relength_mem_def)
  next
    case False
    have "pooled st (b + 10) 2" "mem16 ?m (b + 10) = 65535 \<longrightarrow> pooled st (b + 10 + 2) 4"
      using a rsz_ge [of ?m b] by (auto intro!: pool_at_pooled [OF a(1)] simp: rsz_def lsz_def)
    then show ?thesis using False prog16_does [OF a(4)] prog32_does [OF a(4)] unfolding l by (simp add: relength_mem_def)
  qed
  moreover have m1: "st_faults st \<le> st_faults (snd ?rs1)" by (auto intro: faults_mono)
  ultimately have d: "does st (and_then ?rs1 (\<lambda>st. if ?len > 0 then prog (b + 10 + lsz ?m b + offset) data st else (PICOKEYS_OK, st)))
      (map_write (b + 10 + lsz ?m b + offset) data (relength_mem b ?len partial ?m))" (is "does st ?rs2 _")
  proof (rule and_then_does)
    fix st1 assume s: "good st1" "same_pools st st1" "mem st1 = relength_mem b ?len partial ?m"
    have "pooled st1 (b + 10 + lsz ?m b + offset) ?len"
      using assms(2) a(2,3) by (intro pool_at_pooled [OF pool_at_same [OF a(1) s(1,2)]]) (auto simp: fits_in_place_def rsz_def)
    then show "does st1 (if ?len > 0 then prog (b + 10 + lsz ?m b + offset) data st1 else (PICOKEYS_OK, st1))
        (map_write (b + 10 + lsz ?m b + offset) data (relength_mem b ?len partial ?m))"
      using prog_does [OF s(1), of _ data] does_ok [OF s(1)] s(3) by auto
  qed (auto intro: faults_mono)
  have "st_faults st \<le> st_faults (snd ?rs2)" by (rule and_then_mono [OF m1]) (auto intro: faults_mono)
  with d show ?thesis
    unfolding write_in_place_def Let_def ls
  proof (rule and_then_does)
    fix st1 assume s: "good st1" "mem st1 = map_write (b + 10 + lsz ?m b + offset) data (relength_mem b ?len partial ?m)"
    show "does st1 (if old_size > FLASH_SECTOR_SIZE then commit_or_fail st1 else (PICOKEYS_OK, st1))
        (map_write (b + 10 + lsz ?m b + offset) data (relength_mem b ?len partial ?m))"
      using commit_does [OF s(1)] does_ok [OF s(1)] s(2) by simp
  qed (auto intro: faults_mono)
qed

lemma relength_rec:
  assumes "fits_in_place m b len offset partial" "psz m b < 4294967296"
  defines "m1 \<equiv> relength_mem b len partial m"
  shows "lsz m1 b = lsz m b" "psz m1 b = (if partial then psz m b else len)" "\<forall>a. \<not> (b + 10 \<le> a \<and> a < b + 10 + lsz m b) \<longrightarrow> m1 a = m a"
proof -
  have "lsz m1 b = lsz m b \<and> psz m1 b = (if partial then psz m b else len)"
  proof (cases partial)
    case False
    have e: "b + 12 = b + 10 + 2" by simp
    show ?thesis
      using False assms(1,2)
      by (cases "mem16 m (b + 10) = 65535")
        (simp_all add: m1_def relength_mem_def lsz_def psz_def fits_in_place_def mem16_other mem16_written unat16 unat32 mem32_written e del: add_2_eq_Suc')
  qed (simp add: m1_def relength_mem_def)
  then show "lsz m1 b = lsz m b" "psz m1 b = (if partial then psz m b else len)" by simp_all
  show "\<forall>a. \<not> (b + 10 \<le> a \<and> a < b + 10 + lsz m b) \<longrightarrow> m1 a = m a"
    by (auto simp: m1_def relength_mem_def lsz_def map_write_def le16_bytes le32_bytes)
qed

lemma map_write_inside:
  assumes "off + length data \<le> n"
  shows "map (map_write (a + off) data m) [a..<a + n] = take off (map m [a..<a + n]) @ data @ drop (off + length data) (map m [a..<a + n])"
  by (rule nth_equalityI) (use assms in \<open>auto simp: map_write_def nth_append\<close>)
lemma in_place_rec:
  assumes "fits_in_place m b (length data) offset partial" "psz m b < 4294967296"
  defines "m' \<equiv> map_write (b + 10 + lsz m b + offset) data (relength_mem b (length data) partial m)"
  shows "\<forall>a. \<not> (b + 10 \<le> a \<and> a < b + rsz m b) \<longrightarrow> m' a = m a" "rsz m' b \<le> rsz m b" "rec_fid m' b = rec_fid m b"
    "rec_data m' b = new_content partial offset data (rec_data m b)"
proof -
  define m1 where "m1 = relength_mem b (length data) partial m"
  note r = relength_rec [OF assms(1,2), folded m1_def]
  have m': "m' = map_write (b + 10 + lsz m b + offset) data m1" by (simp add: m'_def m1_def)
  have fit: "offset + length data \<le> psz m b" "psz m1 b \<le> psz m b" using assms(1) r(2) by (auto simp: fits_in_place_def)
  have l16: "mem16 m' (b + 10) = mem16 m1 (b + 10)" unfolding m' by (rule mem16_other) (simp add: lsz_def)
  moreover have "mem16 m1 (b + 10) = 65535 \<Longrightarrow> mem32 m' (b + 12) = mem32 m1 (b + 12)"
    using r(1) unfolding m' by (intro mem32_other) (simp add: lsz_def split: if_splits)
  ultimately have s: "lsz m' b = lsz m b" "psz m' b = psz m1 b" unfolding r(1) [symmetric] by (auto simp: lsz_def psz_def)
  show "rsz m' b \<le> rsz m b" using s fit by (simp add: rsz_def)
  show o: "\<forall>a. \<not> (b + 10 \<le> a \<and> a < b + rsz m b) \<longrightarrow> m' a = m a"
  proof (intro allI impI)
    fix a assume a: "\<not> (b + 10 \<le> a \<and> a < b + rsz m b)"
    then have "m1 a = m a" using r(3) fit by (auto simp: rsz_def)
    moreover have "a < b + 10 + lsz m b + offset \<or> b + 10 + lsz m b + offset + length data \<le> a" using a fit by (auto simp: rsz_def)
    ultimately show "m' a = m a" by (simp add: m' map_write_other)
  qed
  then show "rec_fid m' b = rec_fid m b" by (simp add: rec_fid_def mem16_def)
  have d: "rec_data m' b = map m' [b + 10 + lsz m b..<b + 10 + lsz m b + psz m1 b]" by (simp only: rec_data_def s)
  show "rec_data m' b = new_content partial offset data (rec_data m b)"
  proof (cases partial)
    case True
    then have "m1 = m" "psz m1 b = psz m b" using r(2) by (simp_all add: m1_def relength_mem_def)
    then show ?thesis
      using map_write_inside [OF fit(1), of "b + 10 + lsz m b" m] True by (simp only: d) (simp add: rec_data_def new_content_def m')
  next
    case False
    then show ?thesis using map_written [of "b + 10 + lsz m b" data m1] assms(1) r(2)
      by (simp only: d) (simp add: new_content_def m' fits_in_place_def)
  qed
qed

section \<open>The store as a map from file identifiers to contents\<close>

definition contents :: "memory \<Rightarrow> nat list \<Rightarrow> nat \<rightharpoonup> bytes" where
  "contents m bs = map_of (map (\<lambda>b. (rec_fid m b, rec_data m b)) bs)"

definition stored :: "store \<Rightarrow> nat \<Rightarrow> nat \<Rightarrow> nat list \<Rightarrow> bool" where
  "stored st s p bs \<longleftrightarrow> pool_at st s p \<and> links (mem st) s p bs \<and> distinct (map (rec_fid (mem st)) bs)"

text \<open>The handle of a file agrees with the store: it points to the record of its identifier, or there is none.\<close>

definition refers :: "memory \<Rightarrow> nat list \<Rightarrow> file_t \<Rightarrow> bool" where
  "refers m bs f \<longleftrightarrow> (case f_data f of None \<Rightarrow> contents m bs (unat (f_fid f)) = None
     | Some d \<Rightarrow> \<exists>b\<in>set bs. d = b + 10 \<and> rec_fid m b = unat (f_fid f))"

definition old_content :: "memory \<Rightarrow> nat list \<Rightarrow> file_t \<Rightarrow> bytes" where
  "old_content m bs f = (case contents m bs (unat (f_fid f)) of None \<Rightarrow> [] | Some c \<Rightarrow> c)"

lemma contents_in:
  assumes "distinct (map (rec_fid m) bs)" "b \<in> set bs"
  shows "contents m bs (rec_fid m b) = Some (rec_data m b)"
  unfolding contents_def by (rule map_of_is_SomeI) (use assms in \<open>auto simp: comp_def\<close>)

lemma contents_none: "contents m bs k = None \<longleftrightarrow> k \<notin> rec_fid m ` set bs"
  by (auto simp: contents_def map_of_eq_None_iff image_iff)

lemma fids_unchanged: "\<forall>c\<in>set bs. unchanged m m' c \<Longrightarrow> map (rec_fid m') bs = map (rec_fid m) bs"
  by (simp add: unchanged_def)
lemma links_distinct: "links m s p bs \<Longrightarrow> distinct bs"
proof (induction bs arbitrary: p)
  case (Cons b bs)
  have "b \<notin> set bs" using links_bounds [of m s b bs b] Cons.prems rsz_ge [of m b] by auto
  then show ?case using Cons by auto
qed simp

lemma contents_iff:
  assumes "distinct (map (rec_fid m) bs)"
  shows "contents m bs k = Some d \<longleftrightarrow> (\<exists>c\<in>set bs. rec_fid m c = k \<and> rec_data m c = d)"
  unfolding contents_def using assms by (subst map_of_eq_Some_iff) (auto simp: comp_def)

lemma contents_update:
  assumes "distinct (map (rec_fid m) bs)" "distinct bs'" "set bs' = insert x {c \<in> set bs. rec_fid m c \<noteq> k}"
    "\<forall>c\<in>set bs. rec_fid m c \<noteq> k \<longrightarrow> unchanged m m' c" "rec_fid m' x = k" "rec_data m' x = d"
  shows "distinct (map (rec_fid m') bs')" "contents m' bs' = (contents m bs)(k \<mapsto> d)"
proof -
  have u: "rec_fid m' c = rec_fid m c \<and> rec_data m' c = rec_data m c" if "c \<in> set bs" "rec_fid m c \<noteq> k" for c
    using assms(4) that by (simp add: unchanged_def)
  have i: "inj_on (rec_fid m) (set bs)" using assms(1) by (simp add: distinct_map)
  have "inj_on (rec_fid m') (set bs')" unfolding assms(3) inj_on_def using u inj_onD [OF i] assms(5) by auto
  then show dis: "distinct (map (rec_fid m') bs')" using assms(2) by (simp add: distinct_map)
  have "contents m' bs' k' = Some d' \<longleftrightarrow> ((contents m bs)(k \<mapsto> d)) k' = Some d'" for k' d'
    unfolding contents_iff [OF dis] fun_upd_apply using contents_iff [OF assms(1), of k' d'] assms(3,5,6) u by auto
  then show "contents m' bs' = (contents m bs)(k \<mapsto> d)" by (intro ext) (metis not_Some_eq)
qed

lemma contents_delete:
  assumes "distinct (map (rec_fid m) bs)" "distinct bs'" "set bs' = {c \<in> set bs. rec_fid m c \<noteq> k}" "\<forall>c\<in>set bs'. unchanged m m' c"
  shows "distinct (map (rec_fid m') bs')" "contents m' bs' = (contents m bs)(k := None)"
proof -
  have u: "rec_fid m' c = rec_fid m c \<and> rec_data m' c = rec_data m c" if "c \<in> set bs'" for c
    using assms(4) that by (simp add: unchanged_def)
  have i: "inj_on (rec_fid m) (set bs)" using assms(1) by (simp add: distinct_map)
  have "inj_on (rec_fid m') (set bs')" unfolding inj_on_def using u inj_onD [OF i] assms(3) by auto
  then show dis: "distinct (map (rec_fid m') bs')" using assms(2) by (simp add: distinct_map)
  have "contents m' bs' k' = Some d' \<longleftrightarrow> ((contents m bs)(k := None)) k' = Some d'" for k' d'
    unfolding contents_iff [OF dis] fun_upd_apply using contents_iff [OF assms(1), of k' d'] assms(3) u by auto
  then show "contents m' bs' = (contents m bs)(k := None)" by (intro ext) (metis not_Some_eq)
qed

lemma record_in_stored: "stored st s p bs \<Longrightarrow> b \<in> set bs \<Longrightarrow> f_data f = Some (b + 10) \<Longrightarrow> record_in st s p b f"
  using links_bounds [of "mem st" s p bs b] by (auto simp: stored_def record_in_def)

lemma file_size_stored:
  assumes "stored st s p bs" "refers (mem st) bs f"
  shows "file_get_size st f = length (old_content (mem st) bs f)"
proof (cases "f_data f")
  case None
  then show ?thesis using assms(2) by (simp add: refers_def old_content_def file_get_size_def)
next
  case (Some d)
  then obtain b where b: "b \<in> set bs" "d = b + 10" "rec_fid (mem st) b = unat (f_fid f)" using assms(2) by (auto simp: refers_def)
  then have "contents (mem st) bs (unat (f_fid f)) = Some (rec_data (mem st) b)"
    using contents_in [of "mem st" bs b] assms(1) by (simp add: stored_def)
  then show ?thesis using file_size_rec [OF record_in_stored [OF assms(1) b(1)]] Some b by (simp add: old_content_def)
qed
lemma fid_elsewhere:
  assumes "distinct (map (rec_fid m) (xs @ b # ys))" "c \<in> set xs \<union> set ys"
  shows "rec_fid m c \<noteq> rec_fid m b"
  using assms by auto (metis rev_image_eqI)+

section \<open>Writing a file\<close>

definition pool_of :: "store \<Rightarrow> bool \<Rightarrow> nat \<Rightarrow> nat \<Rightarrow> bool" where
  "pool_of st persistent s p \<longleftrightarrow>
     s = (if persistent then st_start_rom_pool st else fl_start_data_pool (st_flash st)) \<and>
     p = (if persistent then fl_end_rom_pool (st_flash st) else st_end_data_pool st)"

definition wrote :: "store \<Rightarrow> store \<Rightarrow> nat \<Rightarrow> nat \<Rightarrow> nat list \<Rightarrow> nat list \<Rightarrow> file_t \<Rightarrow> bytes \<Rightarrow> bool" where
  "wrote st st' s p bs bs' f' d \<longleftrightarrow> stored st' s p bs' \<and> refers (mem st') bs' f' \<and> f_data f' \<noteq> None \<and>
     contents (mem st') bs' = (contents (mem st) bs)(unat (f_fid f') \<mapsto> d) \<and> same_pools st st' \<and> outside s p (mem st) (mem st') \<and>
     (\<forall>c\<in>set bs. rec_fid (mem st) c \<noteq> unat (f_fid f') \<longrightarrow> c \<in> set bs' \<and> unchanged (mem st) (mem st') c)"

lemma in_place_wrote:
  assumes "stored st s p bs" "b \<in> set bs" "f_data f = Some (b + 10)" "rec_fid (mem st) b = unat (f_fid f)"
    "fits_in_place (mem st) b (length data) offset partial"
    "write_in_place (b + 10) data offset partial old_size st = (r, st')" "st_faults st' = st_faults st"
  shows "r = PICOKEYS_OK \<and> wrote st st' s p bs bs f (new_content partial offset data (rec_data (mem st) b))"
proof -
  let ?m = "mem st" and ?m' = "mem st'"
  have rin: "record_in st s p b f" by (rule record_in_stored [OF assms(1-3)])
  have pool: "pool_at st s p" "links ?m s p bs" "distinct (map (rec_fid ?m) bs)" using assms(1) by (auto simp: stored_def)
  have w: "psz ?m b < 4294967296" "s \<le> b" "b + rsz ?m b \<le> p" using rin by (auto simp: record_in_def pool_at_def rsz_def)
  have d: "r = PICOKEYS_OK" "good st'" "same_pools st st'" "?m' = map_write (b + 10 + lsz ?m b + offset) data (relength_mem b (length data) partial ?m)"
    using in_place_does [OF rin assms(5), of old_size] assms(6,7) by (simp_all add: does_def)
  note i = in_place_rec [OF assms(5) w(1), folded d(4)]
  obtain xs ys q where split: "bs = xs @ b # ys" "seg ?m s p xs q" "links ?m s q (b # ys)"
    using pool(2) split_list [OF assms(2)] by (auto simp: links_append)
  note o = links_overwrite [OF split(2,3) i(1,2)]
  have inj: "rec_fid ?m c \<noteq> unat (f_fid f)" if "c \<in> set xs \<union> set ys" for c
    using fid_elsewhere [OF pool(3) [unfolded split(1)] that] assms(4) by simp
  then have k: "set bs = insert b {c \<in> set bs. rec_fid ?m c \<noteq> unat (f_fid f)}" "\<forall>c\<in>set bs. rec_fid ?m c \<noteq> unat (f_fid f) \<longrightarrow> unchanged ?m ?m' c"
    using o(2) assms(4) by (auto simp: split(1))
  note c = contents_update [OF pool(3) links_distinct [OF pool(2)] k]
  have "outside s p ?m ?m'" using i(1) w by (auto simp: outside_def)
  moreover have "refers ?m' bs f" using assms(2-4) i(3) by (auto simp: refers_def)
  ultimately show ?thesis
    using c [OF i(3) [unfolded assms(4)] i(4)] o(1) d pool_at_same [OF pool(1)] assms(3) k(2) by (simp add: wrote_def stored_def split(1))
qed

lemma linked_old_apart:
  assumes "stored st s p bs" "refers (mem st) bs f" "bs = zs @ ws" "seg (mem st) s p zs base" "links (mem st) s base ws"
    "gap_ok (mem st) s addr ws" "addr + 12 \<le> base" "good st1" "same_pools st st1" "mem st1 = link_mem addr (head ws) base (mem st)"
  shows "old_apart st1 s p addr base f (old_content (mem st) bs f)"
proof (cases "f_data f")
  case None
  then show ?thesis using assms(2) by (simp add: old_apart_def refers_def old_content_def)
next
  case (Some d)
  let ?m = "mem st"
  obtain b where b: "b \<in> set bs" "d = b + 10" "rec_fid ?m b = unat (f_fid f)" using assms(2) Some by (auto simp: refers_def)
  have c: "old_content ?m bs f = rec_data ?m b"
    using contents_in [of ?m bs b] assms(1) b by (simp add: stored_def old_content_def)
  have pl: "base \<le> b \<or> b + rsz ?m b \<le> addr \<and> (b = head ws \<or> b + rsz ?m b \<le> head ws)"
    using b(1) seg_bounds [OF assms(4), of b] links_apart [OF assms(5), of b] assms(6) by (auto simp: assms(3) gap_ok_def)
  have h: "head ws \<noteq> 0 \<longrightarrow> head ws + 12 \<le> addr"
    using assms(6) rsz_ge [of ?m "head ws"] by (cases ws) (auto simp: gap_ok_def head_def)
  have "mem st1 a = ?m a" if "b + 10 \<le> a" "a < b + rsz ?m b" for a
  proof -
    have "a < addr \<or> addr + 4 \<le> a" "a < addr + 4 \<or> addr + 4 + 4 \<le> a" "head ws \<noteq> 0 \<longrightarrow> a < head ws + 4 \<or> head ws + 4 + 4 \<le> a"
      using that pl h assms(7) by (linarith | auto)+
    then show ?thesis by (simp add: assms(10) link_mem_def Let_def map_write_other le32_bytes)
  qed
  then have "same_on ?m (mem st1) (b + 10) (b + rsz ?m b)" by (simp add: same_on_def)
  note r = record_same [OF this]
  have "record_in st s p b f" using record_in_stored [OF assms(1) b(1)] Some b(2) by simp
  then have "record_in st1 s p b f" using r pool_at_same [OF _ assms(8,9)] by (auto simp: record_in_def)
  then show ?thesis using Some b(2) c r pl assms(7) by (auto simp: old_apart_def)
qed

lemma allocate_spec:
  assumes "stored st s p bs" "pool_of st persistent s p" "allocate_free_addr n persistent st = (res, st1)" "st_faults st1 = st_faults st"
  defines "k \<equiv> 10 + length_size_for n + n"
  shows "good st1 \<and> same_pools st st1 \<and>
    (case res of None \<Rightarrow> untouched s (mem st) (mem st1) (p # bs) \<and> crowded (mem st) s k p bs
     | Some (addr, base) \<Rightarrow> \<exists>zs ws. bs = zs @ ws \<and> seg (mem st) s p zs base \<and> links (mem st) s base ws \<and> addr + k = base \<and>
         gap_ok (mem st) s addr ws \<and> mem st1 = link_mem addr (head ws) base (mem st))"
proof (cases "k > p - s")
  case True
  have "crowded (mem st) s k q ys" if "links (mem st) s q ys" "q \<le> p" for q ys
    using that
  proof (induction ys arbitrary: q)
    case (Cons b ys)
    then show ?case using True by fastforce
  qed (use True in auto)
  moreover have "allocate_free_addr n persistent st = (None, st)"
    using True assms(2) by (simp add: allocate_free_addr_def k_def pool_of_def Let_def)
  ultimately show ?thesis using assms(1,3) by (auto simp: stored_def pool_at_def same_pools_def untouched_def)
next
  case False
  have "p < 2 ^ 32" using assms(1) by (simp add: stored_def pool_at_def)
  then have "\<not> n > 2 ^ 32 - 1 - (10 + length_size_for n)" using False by (simp add: k_def)
  then have a: "alloc_loop k s p st = (res, st1)"
    using False assms(2,3) by (simp add: allocate_free_addr_def k_def pool_of_def Let_def split: if_splits)
  have "12 \<le> k" by (simp add: k_def length_size_for_def)
  then show ?thesis using assms(1,4) alloc_loop_spec [OF _ _ _ _ _ a, of p bs] by (simp add: stored_def pool_at_def)
qed
lemma alloc_loop_mono: "st_faults st \<le> st_faults (snd (alloc_loop n s q st))"
proof (induction n s q st rule: alloc_loop.induct)
  case (1 n s q st)
  show ?case
    using "1.IH" [OF _ _ refl refl _ refl] link_record_mono [of st "q - n" "rdptr st q" q]
    by (subst alloc_loop.simps) (auto simp: Let_def split: prod.split)
qed

lemma allocate_mono: "st_faults st \<le> st_faults (snd (allocate_free_addr n persistent st))"
  using alloc_loop_mono by (simp add: allocate_free_addr_def Let_def)

lemma fill_record_mono: "st_faults st \<le> st_faults (snd (fill_record old addr publish data offset partial old_size n st))"
  unfolding fill_record_def by (auto intro!: and_then_mono fill_header_mono fill_payload_mono faults_mono)

lemma clear_file_mono: "st_faults st \<le> st_faults (snd (snd (flash_clear_file f st)))"
proof (cases "f_data f")
  case (Some d)
  define st2 where "st2 = snd (prog16 d 0 (snd (prog32 (rdptr st (d - 10 + 4)) (word_of_nat (rdptr st (d - 10))) st)))"
  have m2: "st_faults st \<le> st_faults st2" unfolding st2_def by (intro le_trans [OF faults_mono(3) faults_mono(2)])
  obtain ok st3 where z: "zero_loop (d + length_size_at st d) (payload_size_at st d) st2 = (ok, st3)" by force
  have m3: "st_faults st \<le> st_faults st3" using zero_loop_mono [of st2 "d + length_size_at st d" "payload_size_at st d"] z m2 by simp
  define st4 where "st4 = (if rdptr st (d - 10) > 0 then snd (prog32 (rdptr st (d - 10) + 4) (word_of_nat (rdptr st (d - 10 + 4))) st3) else st3)"
  have m4: "st_faults st \<le> st_faults st4" using m3 faults_mono(3) by (auto simp: st4_def intro: le_trans)
  have "st_faults st4 \<le> st_faults (snd (prog32 (d - 10 + 4) 0 (snd (prog32 (d - 10) 0 st4))))"
    by (rule le_trans [OF faults_mono(3) faults_mono(3)])
  then show ?thesis
    using m3 m4 unfolding flash_clear_file_def Some option.case Let_def st2_def [symmetric] z prod.case st4_def [symmetric] by simp
qed (simp add: flash_clear_file_def)

lemma based [simp]:
  "mem (st\<lparr>st_last_base := x\<rparr>) = mem st" "good (st\<lparr>st_last_base := x\<rparr>) = good st"
  "same_pools st1 (st\<lparr>st_last_base := x\<rparr>) = same_pools st1 st"
  by (simp_all add: mem_def good_def same_pools_def fun_eq_iff)

lemma lower_base_simps [simp]:
  "mem (lower_base a st) = mem st" "good (lower_base a st) = good st" "same_pools st1 (lower_base a st) = same_pools st1 st"
  "st_faults (lower_base a st) = st_faults st"
  by (simp_all add: lower_base_def)

lemma insert_step:
  fixes data :: bytes and offset :: nat and partial :: bool
  assumes "stored st s p bs" "refers (mem st) bs f" "pool_of st persistent s p"
  defines "old \<equiv> old_content (mem st) bs f"
  defines "new \<equiv> new_content partial offset data old"
  assumes "allocate_free_addr (length new) persistent st = (Some (addr, base), st1)" "st_faults st1 = st_faults st"
    "fill_record f addr base data offset partial (length old) (length new) (lower_base addr st1) = (r, st2)" "st_faults st2 = st_faults st"
    "partial \<longrightarrow> offset \<le> length old" "\<not> partial \<longrightarrow> offset = 0"
  shows "r = PICOKEYS_OK \<and> pool_at st2 s p \<and> same_pools st st2 \<and> outside s p (mem st) (mem st2) \<and>
    (\<exists>zs ws. bs = zs @ ws \<and> links (mem st2) s p (zs @ addr # ws)) \<and> (\<forall>c\<in>set bs. unchanged (mem st) (mem st2) c) \<and>
    rec_fid (mem st2) addr = unat (f_fid f) \<and> rec_data (mem st2) addr = new"
proof -
  let ?k = "10 + length_size_for (length new) + length new" and ?t = "lower_base addr st1"
  obtain zs ws where a: "bs = zs @ ws" "seg (mem st) s p zs base" "links (mem st) s base ws" "addr + ?k = base"
      "gap_ok (mem st) s addr ws" "mem st1 = link_mem addr (head ws) base (mem st)" "good st1" "same_pools st st1"
    using allocate_spec [OF assms(1,3,6,7)] by auto
  have t: "good ?t" "same_pools st ?t" "mem ?t = link_mem addr (head ws) base (mem st)" using a by simp_all
  have pool: "pool_at st s p" "pool_at ?t s p" using assms(1) pool_at_same [OF _ t(1,2)] by (auto simp: stored_def)
  have b: "s \<le> addr" "addr + 12 \<le> base" "base \<le> p" using a(4,5) seg_le [OF a(2)] by (auto simp: gap_ok_def length_size_for_def split: if_splits)
  have "old_apart ?t s p addr base f old"
    unfolding old_def by (rule linked_old_apart [OF assms(1,2) a(1-3,5) b(2) t])
  then have d: "does ?t (r, st2) (map_write base (le_bytes32 (word_of_nat addr)) (map_write (addr + 8) (record_bytes (f_fid f) new) (mem ?t)))"
    using fill_record_does [OF pool(2) _ b(1) _ b(3) assms(10,11) refl, of f data] a(4) assms(8) by (simp add: new_def)
  then have st2: "r = PICOKEYS_OK" "good st2" "same_pools ?t st2"
    "mem st2 = map_write base (le_bytes32 (word_of_nat addr)) (map_write (addr + 8) (record_bytes (f_fid f) new) (link_mem addr (head ws) base (mem st)))"
    using assms(7,9) by (simp_all add: does_def t(3) [simplified])
  have "p + 4 < 2 ^ 32" using pool(1) by (auto simp: pool_at_def)
  note i = inserted_chain [OF a(2,3,5) b(3) this, of new "f_fid f", folded st2(4)]
  have "same_pools st st2" using same_pools_trans [OF t(2) st2(3)] .
  then show ?thesis using i [OF a(4)] st2(1) pool_at_same [OF pool(1) st2(2)] a(1) by auto
qed
lemma unchanged_trans: "unchanged m m' b \<Longrightarrow> unchanged m' m'' b \<Longrightarrow> unchanged m m'' b"
  by (simp add: unchanged_def)

lemma insert_wrote:
  assumes "stored st s p bs" "refers (mem st) bs f" "f_data f = None" "pool_at st2 s p" "same_pools st st2" "outside s p (mem st) (mem st2)"
    "bs = zs @ ws" "links (mem st2) s p (zs @ addr # ws)" "\<forall>c\<in>set bs. unchanged (mem st) (mem st2) c"
    "rec_fid (mem st2) addr = unat (f_fid f)" "rec_data (mem st2) addr = new"
  shows "wrote st st2 s p bs (zs @ addr # ws) \<lparr>f_data = Some (addr + 10), f_fid = f_fid f\<rparr> new"
proof -
  let ?m = "mem st" and ?m' = "mem st2" and ?k = "unat (f_fid f)"
  have dis: "distinct (map (rec_fid ?m) bs)" using assms(1) by (simp add: stored_def)
  have "\<forall>c\<in>set bs. rec_fid ?m c \<noteq> ?k"
    using assms(2,3) by (simp add: refers_def contents_none image_iff) metis
  then have "set (zs @ addr # ws) = insert addr {c \<in> set bs. rec_fid ?m c \<noteq> ?k}" using assms(7) by auto
  then have "distinct (map (rec_fid ?m') (zs @ addr # ws)) \<and> contents ?m' (zs @ addr # ws) = (contents ?m bs)(?k \<mapsto> new)"
    using contents_update [OF dis links_distinct [OF assms(8)] _ _ assms(10,11)] assms(9) by blast
  then show ?thesis using assms(4-10) by (simp add: wrote_def stored_def refers_def)
qed

lemma replace_wrote:
  assumes "stored st s p bs" "b \<in> set bs" "f_data f = Some (b + 10)" "rec_fid (mem st) b = unat (f_fid f)"
    and "pool_at st2 s p" "same_pools st st2" "outside s p (mem st) (mem st2)"
    "bs = zs @ ws" "links (mem st2) s p (zs @ addr # ws)" "\<forall>c\<in>set bs. unchanged (mem st) (mem st2) c"
    "rec_fid (mem st2) addr = unat (f_fid f)" "rec_data (mem st2) addr = new"
    and "flash_clear_file f st2 = (r, f', st3)" "st_faults st3 = st_faults st2"
  shows "r = PICOKEYS_OK \<and> (\<exists>bs'. wrote st st3 s p bs bs' \<lparr>f_data = Some (addr + 10), f_fid = f_fid f\<rparr> new)"
proof -
  let ?m = "mem st" and ?m3 = "mem st3" and ?k = "unat (f_fid f)"
  have dis: "distinct (map (rec_fid ?m) bs)" using assms(1) by (simp add: stored_def)
  have dl: "distinct (zs @ addr # ws)" by (rule links_distinct [OF assms(9)])
  then have ne: "addr \<noteq> b" "b \<in> set (zs @ addr # ws)" using assms(2,8) by auto
  obtain xs ys where sp: "zs @ addr # ws = xs @ b # ys" using split_list [OF ne(2)] by blast
  have sets: "set (xs @ ys) = insert addr (set bs - {b})"
  proof -
    have "set (xs @ ys) = set (zs @ addr # ws) - {b}" using dl unfolding sp by auto
    then show ?thesis using ne(1) assms(8) by auto
  qed
  have c: "r = PICOKEYS_OK" "pool_at st3 s p" "same_pools st2 st3" "links ?m3 s p (xs @ ys)" "outside s p (mem st2) ?m3"
    "\<forall>c\<in>set (xs @ ys). unchanged (mem st2) ?m3 c"
    using clear_file_chain [OF assms(5) assms(9) [unfolded sp] assms(3,13)] assms(14) by auto
  have "c = b" if "c \<in> set bs" "rec_fid ?m c = ?k" for c
    using inj_onD [of "rec_fid ?m" "set bs" c b] dis that assms(2,4) by (simp add: distinct_map)
  then have "set bs - {b} = {c \<in> set bs. rec_fid ?m c \<noteq> ?k}" using assms(4) by auto
  then have s': "set (xs @ ys) = insert addr {c \<in> set bs. rec_fid ?m c \<noteq> ?k}" using sets by simp
  moreover have keep: "\<forall>c\<in>set bs. rec_fid ?m c \<noteq> ?k \<longrightarrow> unchanged ?m ?m3 c"
    using c(6) assms(10) unfolding s' by (auto intro: unchanged_trans)
  moreover have "rec_fid ?m3 addr = ?k" "rec_data ?m3 addr = new" using c(6) assms(11,12) unfolding s' by (auto simp: unchanged_def)
  ultimately have "distinct (map (rec_fid ?m3) (xs @ ys)) \<and> contents ?m3 (xs @ ys) = (contents ?m bs)(?k \<mapsto> new)"
    using contents_update [OF dis links_distinct [OF c(4)]] by blast
  moreover have "addr \<in> set (xs @ ys)" "rec_fid ?m3 addr = ?k" using s' c(6) assms(11) by (auto simp: unchanged_def)
  ultimately have "wrote st st3 s p bs (xs @ ys) \<lparr>f_data = Some (addr + 10), f_fid = f_fid f\<rparr> new"
    using c(2-5) same_pools_trans [OF assms(6) c(3)] outside_trans [OF assms(7) c(5)] keep s' by (auto simp: wrote_def stored_def refers_def)
  then show ?thesis using c(1) by blast
qed

lemma wrote_commit:
  assumes "wrote st st3 s p bs bs' f' new" "flash_commit_sync st3 = (ok, st4)" "st_faults st4 = st_faults st3"
  shows "ok \<and> wrote st st4 s p bs bs' f' new"
proof -
  have "good st3" using assms(1) by (simp add: wrote_def stored_def pool_at_def)
  from commit_does [OF this] have "ok" "good st4" "same_pools st3 st4" "mem st4 = mem st3"
    using assms(2,3) by (auto simp: does_def commit_or_fail_def split: if_splits)
  then show ?thesis
    using assms(1) pool_at_same [of st3 s p st4] same_pools_trans [of st st3 st4] by (simp add: wrote_def stored_def)
qed
lemma new_content_length:
  "partial \<longrightarrow> offset \<le> length old \<Longrightarrow>
   length (new_content partial offset data old) = (if partial then max (length old) (offset + length data) else length data)"
  by (auto simp: new_content_def max_def)

lemma new_record_spec:
  fixes data :: bytes and offset :: nat and partial :: bool
  assumes "stored st s p bs" "refers (mem st) bs f" "pool_of st persistent s p"
  defines "old \<equiv> old_content (mem st) bs f"
  defines "new \<equiv> new_content partial offset data old"
  assumes "write_new_record persistent f data offset partial (length old) (length new) st = (r, f', st')" "st_faults st' = st_faults st"
    "partial \<longrightarrow> offset \<le> length old" "\<not> partial \<longrightarrow> offset = 0"
  shows "if r = PICOKEYS_OK then f_fid f' = f_fid f \<and> (\<exists>bs'. wrote st st' s p bs bs' f' new)
    else r = PICOKEYS_ERR_NO_MEMORY \<and> untouched s (mem st) (mem st') (p # bs) \<and> f' = f \<and> good st' \<and> same_pools st st' \<and>
      crowded (mem st) s (10 + length_size_for (length new) + length new) p bs"
proof -
  obtain res st1 where a: "allocate_free_addr (length new) persistent st = (res, st1)" by force
  have m1: "st_faults st \<le> st_faults st1" using allocate_mono [of st "length new" persistent] a by simp
  show ?thesis
  proof (cases res)
    case None
    then have "r = PICOKEYS_ERR_NO_MEMORY" "f' = f" "st' = st1" using assms(6) a by (simp_all add: write_new_record_def)
    then show ?thesis using allocate_spec [OF assms(1,3) a] assms(7) None by simp
  next
    case (Some x)
    obtain addr base where x: "x = (addr, base)" by force
    define nf where "nf = \<lparr>f_data = Some (addr + 10), f_fid = f_fid f\<rparr>"
    obtain r2 st2 where fl: "fill_record f addr base data offset partial (length old) (length new) (lower_base addr st1) = (r2, st2)" by force
    obtain r3 f3 st3 where cf: "flash_clear_file f st2 = (r3, f3, st3)" by (metis prod_cases3)
    obtain rn fn stn where cn: "flash_clear_file nf st2 = (rn, fn, stn)" by (metis prod_cases3)
    obtain rm fm stm where cm: "flash_clear_file nf st3 = (rm, fm, stm)" by (metis prod_cases3)
    obtain ok st4 where c4: "flash_commit_sync st3 = (ok, st4)" by force
    note run = assms(6) [unfolded write_new_record_def a Some x prod.case option.case Let_def fl nf_def [symmetric] cf cn cm c4]
    have "st_faults st1 \<le> st_faults st2" "st_faults st2 \<le> st_faults st3" "st_faults st2 \<le> st_faults stn" "st_faults st3 \<le> st_faults stm"
        "st_faults st3 \<le> st_faults st4"
      using fill_record_mono [of "lower_base addr st1" f addr base data offset partial "length old" "length new"] fl
        clear_file_mono [of st2 f] cf clear_file_mono [of st2 nf] cn clear_file_mono [of st3 nf] cm faults_mono(4) [of st3] c4 by auto
    moreover have "st' \<in> {st2, st3, st4, stn, stm}" using run by (auto split: if_splits)
    ultimately have q: "st_faults st1 = st_faults st" "st_faults st2 = st_faults st" using m1 assms(7) by auto
    obtain zs ws where i: "r2 = PICOKEYS_OK" "pool_at st2 s p" "same_pools st st2" "outside s p (mem st) (mem st2)" "bs = zs @ ws"
        "links (mem st2) s p (zs @ addr # ws)" "\<forall>c\<in>set bs. unchanged (mem st) (mem st2) c"
        "rec_fid (mem st2) addr = unat (f_fid f)" "rec_data (mem st2) addr = new"
      using insert_step [OF assms(1-3) a [unfolded Some x new_def old_def] q(1) fl [unfolded new_def old_def] q(2)]
        assms(8,9) unfolding new_def old_def by blast
    show ?thesis
    proof (cases "f_data f")
      case None
      then have "r = PICOKEYS_OK" "f' = nf" "st' = st2" using run i(1) by simp_all
      then show ?thesis using insert_wrote [OF assms(1,2) None i(2-9)] by (auto simp: nf_def)
    next
      case (Some d)
      then obtain b where b: "b \<in> set bs" "f_data f = Some (b + 10)" "rec_fid (mem st) b = unat (f_fid f)"
        using assms(2) by (auto simp: refers_def)
      have st': "st' \<in> {st3, st4, stm}" using run i(1) Some by (auto split: if_splits)
      then have q3: "st_faults st3 = st_faults st2"
        using assms(7) q \<open>st_faults st2 \<le> st_faults st3\<close> \<open>st_faults st3 \<le> st_faults stm\<close> \<open>st_faults st3 \<le> st_faults st4\<close> by auto
      obtain bs' where w: "r3 = PICOKEYS_OK" "wrote st st3 s p bs bs' nf new"
        using replace_wrote [OF assms(1) b i(2-9) cf q3] by (auto simp: nf_def)
      show ?thesis
      proof (cases "10 + length_size_for (length new) + length new > FLASH_SECTOR_SIZE")
        case False
        then have "r = PICOKEYS_OK" "f' = nf" "st' = st3" using run i(1) w(1) Some by simp_all
        then show ?thesis using w(2) by (auto simp: nf_def)
      next
        case True
        have "st' = st4" using run i(1) w(1) Some True by (auto split: if_splits)
        then have "ok \<and> wrote st st4 s p bs bs' nf new" using wrote_commit [OF w(2) c4] assms(7) q q3 by simp
        then show ?thesis using run i(1) w(1) Some True \<open>st' = st4\<close> by (auto simp: nf_def)
      qed
    qed
  qed
qed
lemma extended_stored:
  assumes "stored st s p bs" "b \<in> set bs"
  shows "rd16 st (b + 10) = mem16 (mem st) (b + 10)"
proof -
  have a: "pool_at st s p" "s \<le> b" "b + rsz (mem st) b \<le> p" using assms links_bounds [of "mem st" s p bs b] by (auto simp: stored_def)
  then have "pooled st (b + 10) 2" using rsz_ge [of "mem st" b] by (intro pool_at_pooled [OF a(1)]) auto
  then show ?thesis using a(1) by (intro rd16_mem) (auto simp: pool_at_def)
qed

lemma old_content_stored:
  "stored st s p bs \<Longrightarrow> b \<in> set bs \<Longrightarrow> rec_fid (mem st) b = unat (f_fid f) \<Longrightarrow> old_content (mem st) bs f = rec_data (mem st) b"
  using contents_in [of "mem st" bs b] by (simp add: stored_def old_content_def)

text \<open>The three ways a write can go: refused by its parameters, in place, or into a new record.\<close>

lemma write_cases:
  fixes data :: bytes and offset :: nat and partial :: bool
  assumes "stored st s p bs" "refers (mem st) bs f" "\<not> partial \<longrightarrow> offset = 0"
    "flash_write_data_to_file_internal persistent f data offset partial st = (r, f', st')"
  defines "old \<equiv> old_content (mem st) bs f"
  defines "new \<equiv> new_content partial offset data old"
  shows "st' = st \<and> f' = f \<and> r \<noteq> PICOKEYS_OK \<and> (2 ^ 32 \<le> offset + length data \<or> partial \<and> length old < offset) \<or>
    (partial \<longrightarrow> offset \<le> length old) \<and> (\<exists>b\<in>set bs. f_data f = Some (b + 10) \<and> rec_fid (mem st) b = unat (f_fid f) \<and>
       fits_in_place (mem st) b (length data) offset partial \<and>
       write_in_place (b + 10) data offset partial (length old) st = (r, st') \<and> f' = f) \<or>
    (partial \<longrightarrow> offset \<le> length old) \<and> write_new_record persistent f data offset partial (length old) (length new) st = (r, f', st')"
proof -
  have sz: "file_get_size st f = length old" unfolding old_def by (rule file_size_stored [OF assms(1,2)])
  note run = assms(4) [unfolded flash_write_data_to_file_internal_def Let_def sz]
  show ?thesis
  proof (cases "length data > 2 ^ 32 - 1 \<or> offset > 2 ^ 32 - 1 - length data \<or> partial \<and> offset > length old")
    case True
    then show ?thesis using run by (auto split: if_splits)
  next
    case False
    then have lim: "\<not> length data > 2 ^ 32 - 1" "\<not> (offset > 2 ^ 32 - 1 - length data \<or> partial \<and> offset > length old)"
      "partial \<longrightarrow> offset \<le> length old" by auto
    note run = run [unfolded if_not_P [OF lim(1)] if_not_P [OF lim(2)]]
    have nl: "(if partial then max (length old) (offset + length data) else length data) = length new"
      unfolding new_def by (rule new_content_length [OF lim(3), symmetric])
    show ?thesis
    proof (cases "f_data f")
      case None
      then show ?thesis using run lim(3) unfolding nl by simp
    next
      case (Some d)
      then obtain b where b: "b \<in> set bs" "f_data f = Some (b + 10)" "rec_fid (mem st) b = unat (f_fid f)"
        using assms(2) by (auto simp: refers_def)
      have l: "length old = psz (mem st) b" using old_content_stored [OF assms(1) b(1,3)] by (simp add: old_def)
      obtain r1 st1 where w: "write_in_place (b + 10) data offset partial (length old) st = (r1, st1)" by force
      show ?thesis
      proof (cases "fits_in_place (mem st) b (length data) offset partial")
        case True
        then have "r = r1 \<and> f' = f \<and> st' = st1"
          using run b(2) w l extended_stored [OF assms(1) b(1)] by (auto simp: fits_in_place_def split: if_splits)
        then show ?thesis using lim(3) b w True by blast
      next
        case False
        then have "write_new_record persistent f data offset partial (length old) (length new) st = (r, f', st')"
          using run b(2) l extended_stored [OF assms(1) b(1)] assms(3) unfolding nl by (auto simp: fits_in_place_def split: if_splits)
        then show ?thesis using lim(3) by blast
      qed
    qed
  qed
qed

lemma write_spec:
  fixes data :: bytes and offset :: nat and partial :: bool
  assumes "stored st s p bs" "refers (mem st) bs f" "pool_of st persistent s p" "\<not> partial \<longrightarrow> offset = 0"
    "flash_write_data_to_file_internal persistent f data offset partial st = (r, f', st')" "st_faults st' = st_faults st"
  defines "old \<equiv> old_content (mem st) bs f"
  defines "new \<equiv> new_content partial offset data old"
  shows "if r = PICOKEYS_OK then f_fid f' = f_fid f \<and> (\<exists>bs'. wrote st st' s p bs bs' f' new)
    else f' = f \<and> untouched s (mem st) (mem st') (p # bs) \<and> good st' \<and> same_pools st st' \<and>
      (2 ^ 32 \<le> offset + length data \<or> partial \<and> length old < offset \<or>
       crowded (mem st) s (10 + length_size_for (length new) + length new) p bs)"
proof -
  consider "st' = st" "f' = f" "r \<noteq> PICOKEYS_OK" "2 ^ 32 \<le> offset + length data \<or> partial \<and> length old < offset"
    | b where "b \<in> set bs" "f_data f = Some (b + 10)" "rec_fid (mem st) b = unat (f_fid f)"
      "fits_in_place (mem st) b (length data) offset partial"
      "write_in_place (b + 10) data offset partial (length old) st = (r, st')" "f' = f"
    | "write_new_record persistent f data offset partial (length old) (length new) st = (r, f', st')" "partial \<longrightarrow> offset \<le> length old"
    using write_cases [OF assms(1,2,4,5)] unfolding new_def old_def by blast
  then show ?thesis
  proof cases
    case 1
    then show ?thesis using assms(1) by (auto simp: same_pools_def stored_def pool_at_def untouched_def)
  next
    case 2
    have "old = rec_data (mem st) b" unfolding old_def by (rule old_content_stored [OF assms(1) 2(1,3)])
    then show ?thesis using in_place_wrote [OF assms(1) 2(1-5) assms(6)] 2(6) unfolding new_def by auto
  next
    case 3
    from new_record_spec [OF assms(1-3) 3(1) [unfolded new_def old_def] assms(6)] show ?thesis
      using 3(2) assms(4) unfolding new_def old_def by (auto split: if_splits)
  qed
qed

text \<open>A refused write leaves the list and every record as they were.\<close>

lemma untouched_stored:
  assumes "stored st s p bs" "untouched s (mem st) (mem st') (p # bs)" "good st'" "same_pools st st'"
  shows "stored st' s p bs" "\<forall>c\<in>set bs. unchanged (mem st) (mem st') c" "contents (mem st') bs = contents (mem st) bs"
    "outside s p (mem st) (mem st')"
proof -
  let ?m = "mem st" and ?m' = "mem st'"
  have l: "links ?m s p bs" "distinct (map (rec_fid ?m) bs)" "pool_at st s p" using assms(1) by (auto simp: stored_def)
  have u: "\<forall>c\<in>set bs. unchanged ?m ?m' c"
  proof
    fix c assume "c \<in> set bs"
    then have "same_on ?m ?m' (c + 8) (c + rsz ?m c)" using assms(2) by (auto simp: untouched_def same_on_def)
    then show "unchanged ?m ?m' c" by (rule unchangedI)
  qed
  then show "\<forall>c\<in>set bs. unchanged ?m ?m' c" .
  have "links ?m' s q ys" if "links ?m s q ys" "untouched s ?m ?m' (q # ys)" for q ys
    using that
  proof (induction ys arbitrary: q)
    case Nil
    then show ?case by (auto simp: untouched_def mem32_def)
  next
    case (Cons b ys)
    then have "links ?m' s b ys" by (auto simp: untouched_def)
    moreover have "mem32 ?m' q = mem32 ?m q" "mem32 ?m' (b + 4) = mem32 ?m (b + 4)"
      using Cons.prems(2) by (auto simp: untouched_def mem32_def)
    moreover have "same_on ?m ?m' (b + 10) (b + rsz ?m b)" using Cons.prems(2) by (auto simp: untouched_def same_on_def)
    ultimately show ?case using Cons.prems(1) record_same(3) [of ?m ?m' b] by simp
  qed
  then have "links ?m' s p bs" using l(1) assms(2) by blast
  moreover have "distinct (map (rec_fid ?m') bs)" unfolding fids_unchanged [OF u] by (rule l(2))
  ultimately show "stored st' s p bs" using pool_at_same [OF l(3) assms(3,4)] by (simp add: stored_def)
  have "map (\<lambda>b. (rec_fid ?m' b, rec_data ?m' b)) bs = map (\<lambda>b. (rec_fid ?m b, rec_data ?m b)) bs"
    using u by (simp add: unchanged_def)
  then show "contents ?m' bs = contents ?m bs" by (simp only: contents_def)
  show "outside s p ?m ?m'" using assms(2) by (auto simp: untouched_def outside_def)
qed

section \<open>Reading through a handle\<close>

lemma file_read_stored:
  assumes "stored st s p bs" "refers (mem st) bs f"
  shows "file_read_at st f off n = (case contents (mem st) bs (unat (f_fid f)) of None \<Rightarrow> Inl PICOKEYS_ERR_NULL_PARAM
    | Some c \<Rightarrow> if off > length c \<or> n > length c - off then Inl PICOKEYS_ERR_NULL_PARAM else Inr (take n (drop off c)))"
proof (cases "f_data f")
  case None
  then show ?thesis using assms(2) by (simp add: refers_def file_read_at_def)
next
  case (Some d)
  then obtain b where b: "b \<in> set bs" "d = b + 10" "rec_fid (mem st) b = unat (f_fid f)" using assms(2) by (auto simp: refers_def)
  have c: "contents (mem st) bs (unat (f_fid f)) = Some (rec_data (mem st) b)"
    using contents_in [of "mem st" bs b] assms(1) b by (simp add: stored_def)
  have r: "record_in st s p b f" using record_in_stored [OF assms(1) b(1)] Some b by simp
  show ?thesis
  proof (cases "off > psz (mem st) b \<or> n > psz (mem st) b - off")
    case True
    then show ?thesis using c Some file_size_rec [OF r] by (auto simp: file_read_at_def Let_def)
  next
    case False
    then show ?thesis using c file_read_rec [OF r, of off n] by auto
  qed
qed

lemma wrote_others:
  assumes "wrote st st' s p bs bs' f' d" "refers (mem st) bs g" "f_fid g \<noteq> f_fid f'"
  shows "refers (mem st') bs' g"
proof (cases "f_data g")
  case None
  have "unat (f_fid g) \<noteq> unat (f_fid f')" using assms(3) by (simp add: word_unat_eq_iff)
  then show ?thesis using None assms(1,2) by (simp add: refers_def wrote_def)
next
  case (Some a)
  then obtain b where b: "b \<in> set bs" "a = b + 10" "rec_fid (mem st) b = unat (f_fid g)" using assms(2) by (auto simp: refers_def)
  moreover have "unat (f_fid g) \<noteq> unat (f_fid f')" using assms(3) by (simp add: word_unat_eq_iff)
  ultimately have "b \<in> set bs'" "rec_fid (mem st') b = unat (f_fid g)" using assms(1) by (auto simp: wrote_def unchanged_def)
  then show ?thesis using Some b(2) by (auto simp: refers_def)
qed

lemma stored_outside:
  assumes "stored st s2 p2 cs" "outside s p (mem st) (mem st')" "good st'" "same_pools st st'" "p2 + 4 \<le> s \<or> p + 4 \<le> s2"
  shows "stored st' s2 p2 cs \<and> (\<forall>c\<in>set cs. unchanged (mem st) (mem st') c)"
proof -
  have l: "links (mem st) s2 p2 cs" "s2 \<le> p2" using assms(1) by (auto simp: stored_def pool_at_def)
  have same: "same_on (mem st) (mem st') s2 (p2 + 4)" using assms(2,5) by (auto simp: same_on_def outside_def)
  have u: "\<forall>c\<in>set cs. unchanged (mem st) (mem st') c"
  proof
    fix c assume "c \<in> set cs"
    then have "s2 \<le> c" "c + rsz (mem st) c \<le> p2" using links_bounds [OF l(1)] by auto
    then show "unchanged (mem st) (mem st') c" by (intro unchangedI same_on_sub [OF same]) auto
  qed
  then have "distinct (map (rec_fid (mem st')) cs)" using assms(1) unfolding fids_unchanged [OF u] by (simp add: stored_def)
  then show ?thesis using u links_same [OF l(1) same l(2)] pool_at_same [OF _ assms(3,4)] assms(1) by (simp add: stored_def)
qed

end
