(* ===== verification/Flash_Live.thy ===== *)
theory Flash_Live
  imports Flash_Files
begin

text \<open>
  The record store does not fail by itself: while the task of the other core runs in every wait, and the schedule
  of waits is long enough for the bytes to be written, no flash operation of a file
  write or of a deletion fails, so that a write is refused only when no gap is large enough.
\<close>

definition ready :: "store \<Rightarrow> nat \<Rightarrow> bool" where
  "ready st k \<longleftrightarrow> good st \<and> fl_locked_out (st_flash st) \<and> (\<forall>n\<in>set (st_waits st). n > 0) \<and> k \<le> length (st_waits st)"

lemma ready_le: "ready st k \<Longrightarrow> j \<le> k \<Longrightarrow> ready st j"
  by (simp add: ready_def)

definition smooth :: "store \<Rightarrow> status \<times> store \<Rightarrow> nat \<Rightarrow> bool" where
  "smooth st rs k \<longleftrightarrow> (\<forall>j. ready st (k + j) \<longrightarrow>
     fst rs = PICOKEYS_OK \<and> st_faults (snd rs) = st_faults st \<and> ready (snd rs) j)"

lemma smooth_weaken: "smooth st rs k \<Longrightarrow> k \<le> k' \<Longrightarrow> smooth st rs k'"
  unfolding smooth_def
proof (intro allI impI)
  fix j assume a: "\<forall>j. ready st (k + j) \<longrightarrow> fst rs = PICOKEYS_OK \<and> st_faults (snd rs) = st_faults st \<and> ready (snd rs) j"
    "k \<le> k'" "ready st (k' + j)"
  have "ready st (k + (k' - k + j))" using a(2,3) by simp
  then have "fst rs = PICOKEYS_OK \<and> st_faults (snd rs) = st_faults st \<and> ready (snd rs) (k' - k + j)" using a(1) by blast
  then show "fst rs = PICOKEYS_OK \<and> st_faults (snd rs) = st_faults st \<and> ready (snd rs) j" using ready_le by auto
qed

lemma smooth_ok: "smooth st (PICOKEYS_OK, st) 0"
  by (simp add: smooth_def)

lemma smooth_then:
  assumes "does st rs m" "smooth st rs k1"
    "\<And>st1. good st1 \<Longrightarrow> same_pools st st1 \<Longrightarrow> mem st1 = m \<Longrightarrow> smooth st1 (g st1) k2"
  shows "smooth st (and_then rs g) (k1 + k2)"
  unfolding smooth_def
proof (intro allI impI)
  fix j assume "ready st (k1 + k2 + j)"
  then have r: "fst rs = PICOKEYS_OK" "st_faults (snd rs) = st_faults st" "ready (snd rs) (k2 + j)"
    using assms(2) by (auto simp: smooth_def add.assoc)
  then have "smooth (snd rs) (g (snd rs)) k2" using assms(1,3) by (auto simp: does_def)
  then show "fst (and_then rs g) = PICOKEYS_OK \<and> st_faults (snd (and_then rs g)) = st_faults st \<and> ready (snd (and_then rs g)) j"
    using r by (auto simp: smooth_def and_then_def split: prod.split)
qed

lemma prog_smooth:
  assumes "pooled st a (length bs)" "bs \<noteq> []"
  shows "smooth st (prog a bs st) (length bs)"
  unfolding smooth_def
proof (intro allI impI)
  fix j assume r: "ready st (length bs + j)"
  then have g: "flash_wf (st_flash st)" "fl_locked_out (st_flash st)" "\<forall>n\<in>set (st_waits st). n > 0" "length bs + j \<le> length (st_waits st)"
    by (auto simp: ready_def good_def)
  have pr: "pool_range (st_flash st) a (length bs)" using assms by (intro pooled_range) simp_all
  obtain r' ws fl where p: "program_loop (st_waits st) a bs (st_flash st) = (r', ws, fl)" by (metis prod_cases3)
  have "r' = PICOKEYS_OK" "waits_left (st_waits st) ws (length bs)"
    using program_loop_runs [OF g(1-3), of bs a] pr g(4) p by (auto simp: pool_range_def)
  moreover from this have "flash_program_block (st_waits st) a (Some bs) (st_flash st) = (PICOKEYS_OK, ws, fl)"
    using p assms(2) by (simp add: flash_program_block_def)
  moreover from this have "flash_wf fl" "writes_view a bs (st_flash st) fl" using flash_program_block_view [OF g(1) pr] by blast+
  ultimately show "fst (prog a bs st) = PICOKEYS_OK \<and> st_faults (snd (prog a bs st)) = st_faults st \<and> ready (snd (prog a bs st)) j"
    using g by (auto simp: prog_def ready_def good_def waits_left_def writes_view_def)
qed

lemma le_bytes_not_Nil: "le_bytes16 v \<noteq> []" "le_bytes32 w \<noteq> []"
  using le16_bytes(3) [of v] le32_bytes(5) [of w] by auto

lemma prog16_smooth: "pooled st a 2 \<Longrightarrow> smooth st (prog16 a v st) 2"
  using prog_smooth [OF _ le_bytes_not_Nil(1), of st a v] by (simp add: prog16_def le16_bytes)

lemma prog32_smooth: "pooled st a 4 \<Longrightarrow> smooth st (prog32 a v st) 4"
  using prog_smooth [OF _ le_bytes_not_Nil(2), of st a v] by (simp add: prog32_def le32_bytes)

lemma commit_sync_smooth:
  assumes "ready st (Suc j)" "flash_commit_sync st = (ok, st')"
  shows "ok \<and> st_faults st' = st_faults st \<and> ready st' j"
proof -
  obtain n ws where w: "st_waits st = n # ws" "n > 0" "\<forall>k\<in>set ws. k > 0" "j \<le> length ws"
    using assms(1) by (cases "st_waits st") (auto simp: ready_def)
  have g: "flash_wf (st_flash st)" "fl_locked_out (st_flash st)" using assms(1) by (auto simp: ready_def good_def)
  obtain ok' fl where c: "low_flash_commit_sync n (st_flash st) = (ok', fl)" by force
  have "ok'" using commit_sync_succeeds [of "st_flash st" n] g w(2) c by (simp add: flash_wf_def works_def)
  moreover have "flash_wf fl" "fl_locked_out fl" using commit_sync_view [OF g(1) c] g(2) by (auto simp: same_view_def)
  ultimately show ?thesis using assms(2) w c by (auto simp: flash_commit_sync_def Let_def ready_def good_def)
qed

lemma commit_smooth: "smooth st (commit_or_fail st) 1"
  unfolding smooth_def commit_or_fail_def using commit_sync_smooth [of st] by (auto split: prod.split)

lemma smooth_if:
  "\<lbrakk>c \<Longrightarrow> smooth st (g st) k\<rbrakk> \<Longrightarrow> smooth st (if c then g st else (PICOKEYS_OK, st)) k"
  using smooth_weaken [OF smooth_ok, of k st] by auto

section \<open>Writing a new record\<close>

lemma link_record_smooth:
  assumes "good st" "pooled st addr 8" "next \<noteq> 0 \<longrightarrow> pooled st (next + 4) 4"
  shows "smooth st (link_record addr next base st) 12"
proof -
  have p: "pooled st addr 4" "pooled st (addr + 4) 4" using assms(2) by (auto intro: pooled_sub)
  have d1: "does st (prog32 addr (word_of_nat next) st) (map_write addr (le_bytes32 (word_of_nat next)) (mem st))"
    by (rule prog32_does [OF assms(1) p(1)])
  have s2: "smooth st (and_then (prog32 addr (word_of_nat next) st) (prog32 (addr + 4) (word_of_nat base))) (4 + 4)"
    by (rule smooth_then [OF d1 prog32_smooth [OF p(1)]]) (intro prog32_smooth, simp only: same_pools_pooled p)
  have d2: "does st (and_then (prog32 addr (word_of_nat next) st) (prog32 (addr + 4) (word_of_nat base)))
      (map_write (addr + 4) (le_bytes32 (word_of_nat base)) (map_write addr (le_bytes32 (word_of_nat next)) (mem st)))"
  proof (rule and_then_does [OF d1])
    fix st1 assume "good st1" "same_pools st st1" "mem st1 = map_write addr (le_bytes32 (word_of_nat next)) (mem st)"
    then show "does st1 (prog32 (addr + 4) (word_of_nat base) st1)
        (map_write (addr + 4) (le_bytes32 (word_of_nat base)) (map_write addr (le_bytes32 (word_of_nat next)) (mem st)))"
      using prog32_does [of st1 "addr + 4"] p(2) by (simp add: same_pools_pooled)
  qed (auto intro: faults_mono)
  have "smooth st (link_record addr next base st) (4 + 4 + 4)"
    unfolding link_record_def
    by (rule smooth_then [OF d2 s2], rule smooth_if, rule prog32_smooth) (use assms(3) same_pools_pooled in blast)
  then show ?thesis by simp
qed

lemma alloc_loop_smooth:
  assumes "pool_at st s p" "links (mem st) s q ys" "s \<le> q" "q \<le> p" "12 \<le> n" "alloc_loop n s q st = (res, st')" "ready st (12 + j)"
  shows "st_faults st' = st_faults st \<and> ready st' j"
  using assms(2-6)
proof (induction ys arbitrary: q)
  case Nil
  have g: "good st" using assms(1) by (simp add: pool_at_def)
  have nx: "rdptr st q = 0" using Nil rdptr_mem [OF g pool_at_pooled [OF assms(1)], of q] by simp
  show ?case
  proof (cases "n \<le> q \<and> s \<le> q - n")
    case False
    then have "alloc_loop n s q st = (None, st)" using Nil nx by (subst alloc_loop.simps) (simp add: Let_def)
    then show ?thesis using Nil ready_le [OF assms(7)] by simp
  next
    case True
    have "smooth st (link_record (q - n) 0 q st) 12"
      using True Nil by (intro link_record_smooth g pool_at_pooled [OF assms(1)]) auto
    moreover obtain r st1 where l: "link_record (q - n) 0 q st = (r, st1)" by force
    moreover have "alloc_loop n s q st = (if r = PICOKEYS_OK \<and> q - n \<noteq> 0 then Some (q - n, q) else None, st1)"
      using Nil nx True l by (subst alloc_loop.simps) (simp add: Let_def)
    ultimately show ?thesis using Nil assms(7) by (auto simp: smooth_def)
  qed
next
  case (Cons b bs)
  have g: "good st" using assms(1) by (simp add: pool_at_def)
  have b: "mem32 (mem st) q = b" "s \<le> b" "b + rsz (mem st) b \<le> q" "links (mem st) s b bs" "0 < b" using Cons.prems(1) by auto
  have nx: "rdptr st q = b" using Cons.prems b rdptr_mem [OF g pool_at_pooled [OF assms(1)], of q] by simp
  have rs: "flash_record_size st b = rsz (mem st) b"
    using record_size_mem [OF assms(1) b(2)] b(3) Cons.prems(3) by simp
  have pos: "b \<noteq> 0" "b < q" "b \<le> p" using b assms(1) Cons.prems(3) rsz_ge [of "mem st" b] by (auto simp: pool_at_def)
  have nb: "\<not> rsz (mem st) b > q - b" "\<not> q \<le> b" "\<not> q < s" using b pos by auto
  consider "q < n" | "n \<le> q" "b + rsz (mem st) b \<le> q - n" | "n \<le> q" "\<not> b + rsz (mem st) b \<le> q - n" by linarith
  then show ?case
  proof cases
    case 1
    then have "alloc_loop n s q st = (None, st)" by (subst alloc_loop.simps) simp
    then show ?thesis using Cons.prems(5) ready_le [OF assms(7)] by simp
  next
    case 2
    have "smooth st (link_record (q - n) b q st) 12"
      using 2 Cons.prems b pos rsz_ge [of "mem st" b] by (intro link_record_smooth g impI pool_at_pooled [OF assms(1)]) auto
    moreover obtain r st1 where l: "link_record (q - n) b q st = (r, st1)" by force
    moreover have "alloc_loop n s q st = (if r = PICOKEYS_OK \<and> q - n \<noteq> 0 then Some (q - n, q) else None, st1)"
      using nx 2 l rs pos nb b(2) by (subst alloc_loop.simps) (simp add: Let_def)
    ultimately show ?thesis using Cons.prems(5) assms(7) by (auto simp: smooth_def)
  next
    case 3
    then have "alloc_loop n s q st = alloc_loop n s b st"
      using nx rs pos nb by (subst alloc_loop.simps) (simp add: Let_def)
    then show ?thesis using Cons.IH [OF b(4) b(2) pos(3) Cons.prems(4)] Cons.prems(5) by simp
  qed
qed

lemma allocate_smooth:
  assumes "stored st s p bs" "pool_of st persistent s p" "allocate_free_addr n persistent st = (res, st')" "ready st (12 + j)"
  shows "st_faults st' = st_faults st \<and> ready st' j"
proof -
  let ?k = "10 + length_size_for n + n"
  have "12 \<le> ?k" by (simp add: length_size_for_def)
  moreover have "st' = st \<or> alloc_loop ?k s p st = (res, st')"
    using assms(2,3) by (auto simp: allocate_free_addr_def pool_of_def Let_def split: if_splits)
  ultimately show ?thesis
    using assms(1,4) alloc_loop_smooth [of st s p p bs ?k res st' j] ready_le [OF assms(4), of j] by (auto simp: stored_def pool_at_def)
qed
lemma write_length_smooth:
  assumes "good st" "pooled st d (length_size_for n)"
  shows "smooth st (write_file_length d n st) (length_size_for n)"
proof (cases "n \<ge> 65535")
  case False
  then show ?thesis using assms prog16_smooth by (simp add: write_file_length_def length_size_for_def)
next
  case True
  have p: "pooled st d 2" "pooled st (d + 2) 4" using assms(2) True by (auto simp: length_size_for_def intro: pooled_sub)
  have "smooth st (and_then (prog16 d 0xffff st) (prog32 (d + 2) (word_of_nat n))) (2 + 4)"
    by (rule smooth_then [OF prog16_does [OF assms(1) p(1)] prog16_smooth [OF p(1)]]) (intro prog32_smooth, simp only: same_pools_pooled p)
  then show ?thesis using True by (simp add: write_file_length_def length_size_for_def)
qed

lemma fill_header_smooth:
  assumes "good st" "pooled st (addr + 8) (2 + length_size_for n)"
  shows "smooth st (fill_header fid addr n st) (2 + length_size_for n)"
proof -
  have p: "pooled st (addr + 8) 2" "pooled st (addr + 10) (length_size_for n)" using assms(2) by (auto intro: pooled_sub)
  have "smooth st (and_then (prog16 (addr + 8) fid st) (write_file_length (addr + 10) n)) (2 + length_size_for n)"
    by (rule smooth_then [OF prog16_does [OF assms(1) p(1)] prog16_smooth [OF p(1)]])
      (intro write_length_smooth, simp_all only: same_pools_pooled p)
  then show ?thesis
    by (auto simp: smooth_def fill_header_def ready_def good_def split: prod.split)
qed

lemma copy_smooth:
  assumes "record_in st s p b old" "off + len \<le> psz (mem st) b" "s \<le> dst" "dst + len \<le> p"
    "dst + len \<le> b + 8 \<or> b + rsz (mem st) b \<le> dst"
  shows "smooth st (copy_file_range old off dst len st) len"
  using assms
proof (induction old off dst len st rule: copy_file_range.induct)
  case (1 old off dst len st)
  have pool: "pool_at st s p" "good st" using "1.prems"(1) by (auto simp: record_in_def pool_at_def)
  show ?case
  proof (cases "len > 0")
    case False
    then show ?thesis using smooth_ok by (subst copy_file_range.simps) simp
  next
    case True
    define chunk where "chunk = min 256 len"
    define buf where "buf = take chunk (drop off (rec_data (mem st) b))"
    have c: "0 < chunk" "chunk \<le> len" using True by (simp_all add: chunk_def)
    have buf: "length buf = chunk" "buf \<noteq> []" using c "1.prems"(2) by (auto simp: buf_def)
    have rd: "file_read_at st old off chunk = Inr buf"
      unfolding buf_def by (rule file_read_rec [OF "1.prems"(1)]) (use c "1.prems"(2) in simp)
    have run: "copy_file_range old off dst len st =
        and_then (prog dst buf st) (copy_file_range old (off + chunk) (dst + chunk) (len - chunk))"
      using True by (subst copy_file_range.simps) (simp add: Let_def rd [unfolded chunk_def] chunk_def)
    have p: "pooled st dst (length buf)" using buf c "1.prems"(3,4) by (intro pool_at_pooled [OF pool(1)]) auto
    have "smooth st (copy_file_range old off dst len st) (length buf + (len - chunk))"
      unfolding run
    proof (rule smooth_then [OF prog_does [OF pool(2) p buf(2)] prog_smooth [OF p buf(2)]])
      fix st1 assume s1: "good st1" "same_pools st st1" "mem st1 = map_write dst buf (mem st)"
      have "record_in st1 s p b old" "rsz (mem st1) b = rsz (mem st) b" "psz (mem st1) b = psz (mem st) b"
        using record_in_write [OF "1.prems"(1) s1] "1.prems"(5) buf c(2) by auto
      then show "smooth st1 (copy_file_range old (off + chunk) (dst + chunk) (len - chunk) st1) (len - chunk)"
        using "1.IH" [OF True chunk_def rd, of st1] "1.prems"(2-5) c by auto
    qed
    then show ?thesis using buf c by simp
  qed
qed

lemma old_kept_smooth:
  assumes "pool_at st s p" "old_apart st s p lo hi old content" "off + len \<le> length content" "s \<le> dst" "dst + len \<le> p"
    "lo \<le> dst" "dst + len \<le> hi"
  shows "smooth st (if f_data old \<noteq> None then copy_file_range old off dst len st else (PICOKEYS_OK, st)) len"
proof (rule smooth_if)
  assume "f_data old \<noteq> None"
  then obtain b where b: "record_in st s p b old" "content = rec_data (mem st) b" "hi \<le> b + 8 \<or> b + rsz (mem st) b \<le> lo"
    using assms(2) by (auto simp: old_apart_def)
  show "smooth st (copy_file_range old off dst len st) len"
    using copy_smooth [OF b(1), of off len dst] b(2,3) assms(3-7) by auto
qed

lemma fill_payload_smooth:
  assumes "pool_at st s p" "old_apart st s p lo hi old content" "s \<le> payload" "lo \<le> payload" "payload + length (new_content partial offset data content) \<le> hi"
    "hi \<le> p" "partial \<longrightarrow> offset \<le> length content" "\<not> partial \<longrightarrow> offset = 0"
  shows "smooth st (fill_payload old payload data offset partial (length content) st) (length (new_content partial offset data content))"
proof -
  let ?stop = "offset + length data"
  define hd where "hd = (if partial then take offset (drop 0 content) else [])"
  let ?tl = "if partial then length content - ?stop else 0"
  have lens: "length hd = offset" "length (new_content partial offset data content) = offset + length data + ?tl"
    using assms(7,8) by (auto simp: hd_def new_content_def)
  define rs1 where "rs1 = (if partial \<and> f_data old \<noteq> None \<and> offset > 0 then copy_file_range old 0 payload offset st else (PICOKEYS_OK, st))"
  have d1: "does st rs1 (map_write payload hd (mem st))"
    unfolding rs1_def hd_def by (rule old_kept_does [OF assms(1,2)]) (use assms lens in auto)
  have s1: "smooth st rs1 offset"
    using old_kept_smooth [OF assms(1,2), of 0 offset payload] assms(3-7) lens unfolding rs1_def by (intro smooth_if) auto
  define rs2 where "rs2 = and_then rs1 (\<lambda>st. if length data > 0 then prog (payload + offset) data st else (PICOKEYS_OK, st))"
  have P: "pooled st1 (payload + offset) (length data)" if "same_pools st st1" for st1
    using lens assms(3,5,6) same_pools_pooled [OF that] by (auto intro!: pool_at_pooled [OF assms(1)])
  have d2: "does st rs2 (map_write payload (hd @ data) (mem st))"
    unfolding rs2_def
  proof (rule append_does [OF d1])
    fix st1 assume s: "good st1" "same_pools st st1"
    show "does st1 (if length data > 0 then prog (payload + offset) data st1 else (PICOKEYS_OK, st1)) (map_write (payload + length hd) data (mem st1))"
      unfolding lens(1) using prog_does [OF s(1) P [OF s(2)]] does_ok [OF s(1)] by auto
  qed (auto simp: rs1_def intro: faults_mono copy_mono)
  have s2: "smooth st rs2 (offset + length data)"
    unfolding rs2_def by (rule smooth_then [OF d1 s1], rule smooth_if, rule prog_smooth) (use P in auto)
  show ?thesis
    unfolding fill_payload_def Let_def rs1_def [symmetric] rs2_def [symmetric] lens(2)
  proof (rule smooth_then [OF d2 s2], rule smooth_if)
    fix st1 assume s: "good st1" "same_pools st st1" "mem st1 = map_write payload (hd @ data) (mem st)"
      and c: "partial \<and> f_data old \<noteq> None \<and> ?stop < length content"
    have "old_apart st1 s p lo hi old content" using lens assms(4,5) by (intro old_apart_write [OF assms(2) s]) auto
    then show "smooth st1 (copy_file_range old ?stop (payload + ?stop) (length content - ?stop) st1) ?tl"
      using old_kept_smooth [OF pool_at_same [OF assms(1) s(1,2)], of lo hi old content ?stop "length content - ?stop" "payload + ?stop"]
        c lens assms(3-6) by auto
  qed
qed

lemma fill_record_smooth:
  assumes "pool_at st s p" "old_apart st s p addr publish old content" "s \<le> addr"
    "addr + 10 + length_size_for n + n \<le> publish" "publish \<le> p" "partial \<longrightarrow> offset \<le> length content" "\<not> partial \<longrightarrow> offset = 0"
    "n = length (new_content partial offset data content)"
  shows "smooth st (fill_record old addr publish data offset partial (length content) n st) (13 + n)"
proof -
  let ?new = "new_content partial offset data content" and ?h = "le_bytes16 (f_fid old) @ length_bytes n"
  let ?payload = "addr + 10 + length_size_for n"
  have g: "good st" using assms(1) by (simp add: pool_at_def)
  have e: "addr + 8 + length ?h = ?payload" by (simp add: le16_bytes)
  have p: "pooled st (addr + 8) (2 + length_size_for n)" using assms(3-5) by (intro pool_at_pooled [OF assms(1)]) auto
  have old: "pool_at st1 s p \<and> old_apart st1 s p addr publish old content"
    if "good st1" "same_pools st st1" "mem st1 = map_write (addr + 8) ?h (mem st)" for st1
    using pool_at_same [OF assms(1) that(1,2)] old_apart_write [OF assms(2) that] assms(4) e by simp
  define rs2 where "rs2 = and_then (fill_header (f_fid old) addr n st) (fill_payload old ?payload data offset partial (length content))"
  have s2: "smooth st rs2 (2 + length_size_for n + n)"
    unfolding rs2_def
  proof (rule smooth_then [OF fill_header_does [OF g p] fill_header_smooth [OF g p]])
    fix st1 assume s: "good st1" "same_pools st st1" "mem st1 = map_write (addr + 8) ?h (mem st)"
    show "smooth st1 (fill_payload old ?payload data offset partial (length content) st1) n"
      unfolding assms(8) by (rule fill_payload_smooth [OF conjunct1 [OF old [OF s]] conjunct2 [OF old [OF s]]]) (use assms in auto)
  qed
  have d2: "does st rs2 (map_write (addr + 8) (?h @ ?new) (mem st))"
    unfolding rs2_def
  proof (rule append_does [OF fill_header_does [OF g p] fill_header_mono])
    fix st1 assume s: "good st1" "same_pools st st1" "mem st1 = map_write (addr + 8) ?h (mem st)"
    show "does st1 (fill_payload old ?payload data offset partial (length content) st1) (map_write (addr + 8 + length ?h) ?new (mem st1))"
      unfolding e by (rule fill_payload_does [OF conjunct1 [OF old [OF s]] conjunct2 [OF old [OF s]]]) (use assms in auto)
  qed (rule fill_payload_mono)
  define rs3 where "rs3 = and_then rs2 (\<lambda>st. if sector_of publish \<noteq> sector_of addr then commit_or_fail st else (PICOKEYS_OK, st))"
  have s3: "smooth st rs3 (2 + length_size_for n + n + 1)"
    unfolding rs3_def by (rule smooth_then [OF d2 s2], rule smooth_if, rule commit_smooth)
  have d3: "does st rs3 (map_write (addr + 8) (?h @ ?new) (mem st))"
    unfolding rs3_def
  proof (rule and_then_does [OF d2])
    fix st1 assume s: "good st1" "mem st1 = map_write (addr + 8) (?h @ ?new) (mem st)"
    show "does st1 (if sector_of publish \<noteq> sector_of addr then commit_or_fail st1 else (PICOKEYS_OK, st1)) (map_write (addr + 8) (?h @ ?new) (mem st))"
      using commit_does [OF s(1)] does_ok [OF s(1)] s(2) by simp
  qed (auto simp: rs2_def intro!: faults_mono and_then_mono fill_header_mono fill_payload_mono)
  have "smooth st (and_then rs3 (prog32 publish (word_of_nat addr))) (2 + length_size_for n + n + 1 + 4)"
    by (rule smooth_then [OF d3 s3], rule prog32_smooth) (use assms(3-5) pool_at_pooled [OF pool_at_same [OF assms(1)]] in auto)
  then show ?thesis unfolding fill_record_def rs3_def rs2_def
    by (rule smooth_weaken) (simp add: length_size_for_def)
qed
section \<open>Clearing and overwriting\<close>

definition steps_to :: "store \<Rightarrow> store \<Rightarrow> nat \<Rightarrow> bool" where
  "steps_to st st' j \<longleftrightarrow> st_faults st' = st_faults st \<and> ready st' j \<and> same_pools st st'"

lemma steps_to_trans: "steps_to st st1 k \<Longrightarrow> steps_to st1 st2 j \<Longrightarrow> steps_to st st2 j"
  by (auto simp: steps_to_def intro: same_pools_trans)

lemma prog32_steps: "ready st (4 + j) \<Longrightarrow> pooled st a 4 \<Longrightarrow> steps_to st (snd (prog32 a v st)) j"
  using prog32_smooth [of st a v] prog32_does [of st a v] by (auto simp: smooth_def does_def steps_to_def ready_def)

lemma prog16_steps: "ready st (2 + j) \<Longrightarrow> pooled st a 2 \<Longrightarrow> steps_to st (snd (prog16 a v st)) j"
  using prog16_smooth [of st a v] prog16_does [of st a v] by (auto simp: smooth_def does_def steps_to_def ready_def)

lemma zero_loop_steps:
  assumes "ready st (len + j)" "pooled st addr len" "zero_loop addr len st = (ok, st')"
  shows "steps_to st st' j"
  using assms
proof (induction addr len st rule: zero_loop.induct)
  case (1 addr len st)
  show ?case
  proof (cases "len > 0")
    case False
    then show ?thesis using "1.prems" by (subst (asm) zero_loop.simps) (auto simp: steps_to_def same_pools_def)
  next
    case True
    define chunk where "chunk = min 256 len"
    obtain r st1 where p: "prog addr (replicate chunk 0) st = (r, st1)" by force
    have c: "0 < chunk" "chunk \<le> len" using True by (simp_all add: chunk_def)
    then have ne: "replicate chunk (0 :: u8) \<noteq> []" "pooled st addr (length (replicate chunk (0 :: u8)))"
      using "1.prems"(2) by (auto intro: pooled_sub)
    have "ready st (chunk + (len - chunk + j))" using "1.prems"(1) c(2) by simp
    then have ok: "r = PICOKEYS_OK" and s1: "steps_to st st1 (len - chunk + j)"
      using prog_smooth [OF ne(2,1)] prog_does [OF _ ne(2,1)] p by (auto simp: smooth_def does_def steps_to_def ready_def)
    have "zero_loop (addr + chunk) (len - chunk) st1 = (ok, st')"
      using "1.prems"(3) True p ok by (subst (asm) zero_loop.simps) (simp add: Let_def chunk_def [symmetric])
    moreover have "pooled st1 (addr + chunk) (len - chunk)"
      using "1.prems"(2) c s1 same_pools_pooled [of st st1] by (auto simp: steps_to_def intro: pooled_sub)
    ultimately have "steps_to st1 st' j" using "1.IH" [OF True chunk_def p [symmetric]] ok s1 by (auto simp: steps_to_def)
    then show ?thesis using steps_to_trans [OF s1] by blast
  qed
qed

lemma clear_file_steps:
  assumes "pool_at st s p" "links (mem st) s p (xs @ b # ys)" "f_data f = Some (b + 10)"
    "flash_clear_file f st = (r, f', st')" "ready st (18 + psz (mem st) b + j)"
  shows "st_faults st' = st_faults st \<and> ready st' j"
proof -
  let ?m = "mem st"
  obtain q where seg: "seg ?m s p xs q" "links ?m s q (b # ys)" using assms(2) unfolding links_append by blast
  have g: "good st" using assms(1) by (simp add: pool_at_def)
  have b: "mem32 ?m q = b" "mem32 ?m (b + 4) = q" "s \<le> b" "b + rsz ?m b \<le> q" "links ?m s b ys" using seg(2) by auto
  have q: "q \<le> p" "s \<le> q" using seg_le [OF seg(1)] b by auto
  have n: "mem32 ?m b = head ys" using b(5) by (cases ys) (simp_all add: head_def)
  have hn: "head ys > 0 \<Longrightarrow> s \<le> head ys \<and> head ys + 12 \<le> b"
    using b(5) rsz_ge [of ?m "head ys"] by (cases ys) (auto simp: head_def)
  have r12: "12 \<le> rsz ?m b" "b + 10 + lsz ?m b + psz ?m b \<le> q" using rsz_ge [of ?m b] b(4) by (simp_all add: rsz_def)
  have P: "pooled t a k" if "same_pools st t" "s \<le> a" "a + k \<le> q + 4" for t a k
    using that q same_pools_pooled [OF that(1)] by (auto intro!: pool_at_pooled [OF assms(1)])
  have P0: "pooled st a k" if "s \<le> a" "a + k \<le> q + 4" for a k using P [OF _ that] by (simp add: same_pools_def)
  have rb: "rdptr st (b + 4) = q" "rdptr st b = head ys"
    using b n r12 P0 rdptr_mem [OF g] by simp_all
  have sz: "payload_size_at st (b + 10) = psz ?m b" "length_size_at st (b + 10) = lsz ?m b"
    using record_size_mem [OF assms(1) b(3)] b(4) q by auto
  define st1 where "st1 = snd (prog32 q (word_of_nat (head ys)) st)"
  define st2 where "st2 = snd (prog16 (b + 10) 0 st1)"
  obtain ok st3 where z: "zero_loop (b + 10 + lsz ?m b) (psz ?m b) st2 = (ok, st3)" by force
  define st4 where "st4 = (if head ys > 0 then snd (prog32 (head ys + 4) (word_of_nat q) st3) else st3)"
  define st5 where "st5 = snd (prog32 b 0 st4)"
  define st6 where "st6 = snd (prog32 (b + 4) 0 st5)"
  have run: "flash_clear_file f st = (if \<not> ok then (PICOKEYS_EXEC_ERROR, f, st3)
      else (PICOKEYS_OK, f\<lparr>f_data := None\<rparr>, if st_num_files st6 > 0 then st6\<lparr>st_num_files := st_num_files st6 - 1\<rparr> else st6))"
  proof -
    have d: "b + 10 - 10 = b" by simp
    show ?thesis
      unfolding flash_clear_file_def assms(3) option.case Let_def d rb sz st1_def [symmetric] st2_def [symmetric] z prod.case
        st4_def [symmetric] st5_def [symmetric] st6_def [symmetric] ..
  qed
  have "ready st (4 + (2 + (psz ?m b + (4 + (4 + (4 + j))))))" using assms(5) by (simp add: add.assoc)
  then have s1: "steps_to st st1 (2 + (psz ?m b + (4 + (4 + (4 + j)))))"
    unfolding st1_def by (rule prog32_steps) (use q in \<open>auto intro: P0\<close>)
  have s2: "steps_to st st2 (psz ?m b + (4 + (4 + (4 + j))))"
    by (rule steps_to_trans [OF s1], unfold st2_def, rule prog16_steps) (use s1 b(3,4) r12 in \<open>auto simp: steps_to_def intro!: P\<close>)
  have s3: "steps_to st st3 (4 + (4 + (4 + j)))"
    by (rule steps_to_trans [OF s2], rule zero_loop_steps [OF _ _ z]) (use s2 b(3) r12 in \<open>auto simp: steps_to_def intro!: P\<close>)
  have s4: "steps_to st st4 (4 + (4 + j))"
  proof (cases "head ys > 0")
    case True
    have "steps_to st3 (snd (prog32 (head ys + 4) (word_of_nat q) st3)) (4 + (4 + j))"
      by (rule prog32_steps) (use s3 True hn b(4) in \<open>auto simp: steps_to_def intro!: P\<close>)
    then show ?thesis using steps_to_trans [OF s3] True by (simp add: st4_def)
  qed (use s3 in \<open>auto simp: st4_def steps_to_def intro: ready_le\<close>)
  have s5: "steps_to st st5 (4 + j)"
    by (rule steps_to_trans [OF s4], unfold st5_def, rule prog32_steps) (use s4 b(3,4) r12 in \<open>auto simp: steps_to_def intro!: P\<close>)
  have s6: "steps_to st st6 j"
    by (rule steps_to_trans [OF s5], unfold st6_def, rule prog32_steps) (use s5 b(3,4) r12 in \<open>auto simp: steps_to_def intro!: P\<close>)
  have "st_faults st3 \<le> st_faults st" using s3 by (simp add: steps_to_def)
  have z2: "zero_loop (b + 10 + lsz ?m b) (psz ?m b) st2 = (ok, st3)" "st_faults st3 \<le> st_faults st2" "good st2" "pooled st2 (b + 10 + lsz ?m b) (psz ?m b)"
    using z s2 s3 b(3) r12 by (auto simp: steps_to_def ready_def intro!: P)
  have "ok" using zero_loop_does [OF z2(3,4,1,2)] by simp
  then show ?thesis using assms(4) s6 unfolding run by (auto simp: steps_to_def ready_def good_def split: if_splits)
qed

lemma in_place_smooth:
  assumes "record_in st s p b f" "fits_in_place (mem st) b (length data) offset partial"
  shows "smooth st (write_in_place (b + 10) data offset partial old_size st) (5 + length data)"
proof -
  let ?m = "mem st" and ?len = "length data"
  have a: "pool_at st s p" "s \<le> b" "b + rsz ?m b \<le> p" "good st" using assms(1) by (auto simp: record_in_def pool_at_def)
  have l: "rd16 st (b + 10) = mem16 ?m (b + 10)"
    using a rsz_ge [of ?m b] by (intro rd16_mem pool_at_pooled [OF a(1)]) auto
  note ls = record_size_mem(3) [OF a(1-3)]
  have pl: "pooled st (b + 10) 2" "mem16 ?m (b + 10) = 65535 \<longrightarrow> pooled st (b + 10 + 2) 4"
    using a rsz_ge [of ?m b] by (auto intro!: pool_at_pooled [OF a(1)] simp: rsz_def lsz_def)
  define rs1 where "rs1 = (if \<not> partial then (if rd16 st (b + 10) = 65535 then prog32 (b + 10 + 2) (word_of_nat ?len) st
      else prog16 (b + 10) (word_of_nat ?len) st) else (PICOKEYS_OK, st))"
  have d1: "does st rs1 (relength_mem b ?len partial ?m)"
    unfolding rs1_def l using does_ok [OF a(4)] prog16_does [OF a(4) pl(1)] prog32_does [OF a(4)] pl(2) by (auto simp: relength_mem_def)
  have s1: "smooth st rs1 4"
    unfolding rs1_def l using smooth_weaken [OF prog16_smooth [OF pl(1)], of 4] prog32_smooth pl(2) smooth_weaken [OF smooth_ok, of 4 st] by auto
  have P: "pooled st1 (b + 10 + lsz ?m b + offset) ?len" if "same_pools st st1" for st1
    using assms(2) a(2,3) same_pools_pooled [OF that] by (auto intro!: pool_at_pooled [OF a(1)] simp: fits_in_place_def rsz_def)
  define rs2 where "rs2 = and_then rs1 (\<lambda>st. if ?len > 0 then prog (b + 10 + lsz ?m b + offset) data st else (PICOKEYS_OK, st))"
  have s2: "smooth st rs2 (4 + ?len)"
    unfolding rs2_def by (rule smooth_then [OF d1 s1], rule smooth_if, rule prog_smooth) (use P in auto)
  have d2: "does st rs2 (map_write (b + 10 + lsz ?m b + offset) data (relength_mem b ?len partial ?m))"
    unfolding rs2_def
  proof (rule and_then_does [OF d1])
    fix st1 assume s: "good st1" "same_pools st st1" "mem st1 = relength_mem b ?len partial ?m"
    show "does st1 (if ?len > 0 then prog (b + 10 + lsz ?m b + offset) data st1 else (PICOKEYS_OK, st1))
        (map_write (b + 10 + lsz ?m b + offset) data (relength_mem b ?len partial ?m))"
      using prog_does [OF s(1) P [OF s(2)]] does_ok [OF s(1)] s(3) by auto
  qed (auto simp: rs1_def intro: faults_mono)
  have "smooth st (and_then rs2 (\<lambda>st. if old_size > FLASH_SECTOR_SIZE then commit_or_fail st else (PICOKEYS_OK, st))) (4 + ?len + 1)"
    by (rule smooth_then [OF d2 s2], rule smooth_if, rule commit_smooth)
  then show ?thesis unfolding write_in_place_def Let_def ls rs1_def [symmetric] rs2_def [symmetric] by (rule smooth_weaken) simp
qed
section \<open>A write goes through\<close>

lemma lower_base_ready [simp]: "ready (lower_base a st) k = ready st k"
  by (simp add: ready_def lower_base_def good_def)

lemma new_record_live:
  fixes data :: bytes and offset :: nat and partial :: bool
  assumes "stored st s p bs" "refers (mem st) bs f" "pool_of st persistent s p"
  defines "old \<equiv> old_content (mem st) bs f"
  defines "new \<equiv> new_content partial offset data old"
  assumes "write_new_record persistent f data offset partial (length old) (length new) st = (r, f', st')"
    "ready st (44 + length old + length new + j)" "partial \<longrightarrow> offset \<le> length old" "\<not> partial \<longrightarrow> offset = 0"
  shows "st_faults st' = st_faults st \<and> ready st' j"
proof -
  let ?k = "13 + length new + (18 + length old + (1 + j))"
  have r0: "ready st (12 + ?k)" by (rule ready_le [OF assms(7)]) simp
  obtain res st1 where a: "allocate_free_addr (length new) persistent st = (res, st1)" by force
  note a1 = allocate_smooth [OF assms(1,3) a r0]
  show ?thesis
  proof (cases res)
    case None
    then have "st' = st1" using assms(6) a by (simp add: write_new_record_def)
    then show ?thesis using a1 ready_le [of st1 ?k j] by simp
  next
    case (Some x)
    obtain addr base where x: "x = (addr, base)" by force
    define nf where "nf = \<lparr>f_data = Some (addr + 10), f_fid = f_fid f\<rparr>"
    let ?t = "lower_base addr st1"
    obtain zs ws where w: "bs = zs @ ws" "seg (mem st) s p zs base" "links (mem st) s base ws"
        "addr + (10 + length_size_for (length new) + length new) = base" "gap_ok (mem st) s addr ws"
        "mem st1 = link_mem addr (head ws) base (mem st)" "good st1" "same_pools st st1"
      using allocate_spec [OF assms(1,3) a] a1 by (auto simp: Some x)
    have t: "good ?t" "same_pools st ?t" "mem ?t = link_mem addr (head ws) base (mem st)" using w by simp_all
    have pool: "pool_at st s p" "pool_at ?t s p" using assms(1) pool_at_same [OF _ t(1,2)] by (auto simp: stored_def)
    have b: "s \<le> addr" "addr + 12 \<le> base" "base \<le> p" using w(4,5) seg_le [OF w(2)] by (auto simp: gap_ok_def length_size_for_def split: if_splits)
    have oa: "old_apart ?t s p addr base f old" unfolding old_def by (rule linked_old_apart [OF assms(1,2) w(1-3,5) b(2) t])
    obtain r2 st2 where fl: "fill_record f addr base data offset partial (length old) (length new) ?t = (r2, st2)" by force
    have "smooth ?t (r2, st2) (13 + length new)"
      using fill_record_smooth [OF pool(2) oa b(1) _ b(3) assms(8,9) refl, of data] w(4) fl by (simp add: new_def)
    then have "ready ?t ?k \<longrightarrow> r2 = PICOKEYS_OK \<and> st_faults st2 = st_faults ?t \<and> ready st2 (18 + length old + (1 + j))"
      unfolding smooth_def fst_conv snd_conv by (rule spec)
    then have f2: "r2 = PICOKEYS_OK" "st_faults st2 = st_faults st" "ready st2 (18 + length old + (1 + j))"
      using a1 by (simp_all only: lower_base_ready lower_base_simps)
    obtain r3 f3 st3 where cf: "flash_clear_file f st2 = (r3, f3, st3)" by (metis prod_cases3)
    obtain ok st4 where c4: "flash_commit_sync st3 = (ok, st4)" by force
    obtain rm fm stm where cm: "flash_clear_file nf st3 = (rm, fm, stm)" by (metis prod_cases3)
    note run = assms(6) [unfolded write_new_record_def a Some x prod.case option.case Let_def fl nf_def [symmetric] cf cm c4]
    obtain zs' ws' where i: "pool_at st2 s p" "same_pools st st2" "outside s p (mem st) (mem st2)" "bs = zs' @ ws'"
        "links (mem st2) s p (zs' @ addr # ws')" "\<forall>c\<in>set bs. unchanged (mem st) (mem st2) c"
        "rec_fid (mem st2) addr = unat (f_fid f)" "rec_data (mem st2) addr = new"
      using insert_step [OF assms(1-3) a [unfolded Some x new_def old_def] conjunct1 [OF a1] fl [unfolded new_def old_def] f2(2)]
        assms(8,9) unfolding new_def old_def by blast
    show ?thesis
    proof (cases "f_data f")
      case None
      then have "st' = st2" using run f2(1) by simp
      then show ?thesis using f2 ready_le [OF f2(3), of j] by simp
    next
      case (Some d)
      then obtain b where b: "b \<in> set bs" "f_data f = Some (b + 10)" "rec_fid (mem st) b = unat (f_fid f)"
        using assms(2) by (auto simp: refers_def)
      have od: "old = rec_data (mem st) b" unfolding old_def by (rule old_content_stored [OF assms(1) b(1,3)])
      have "unchanged (mem st) (mem st2) b" using i(6) b(1) by blast
      then have ps: "psz (mem st2) b = length old" using od rec_data_length [of "mem st2" b] by (simp add: unchanged_def)
      have "b \<in> set (zs' @ addr # ws')" using b(1) i(4) by auto
      then obtain xs ys where sp: "zs' @ addr # ws' = xs @ b # ys" using split_list by metis
      have c3: "st_faults st3 = st_faults st2 \<and> ready st3 (1 + j)"
        by (rule clear_file_steps [OF i(1) i(5) [unfolded sp] b(2) cf]) (simp only: ps f2(3))
      then have "r3 = PICOKEYS_OK" using clear_file_chain [OF i(1) i(5) [unfolded sp] b(2) cf] by simp
      then have "st' \<in> {st3, st4}" using run f2(1) Some by (auto split: if_splits)
      then show ?thesis using commit_sync_smooth [of st3 j, OF _ c4] c3 f2(2) ready_le [of st3 "1 + j" j] by auto
    qed
  qed
qed

lemma write_live:
  fixes data :: bytes and offset :: nat and partial :: bool
  assumes "stored st s p bs" "refers (mem st) bs f" "pool_of st persistent s p" "\<not> partial \<longrightarrow> offset = 0"
    "flash_write_data_to_file_internal persistent f data offset partial st = (r, f', st')"
  defines "old \<equiv> old_content (mem st) bs f"
  defines "new \<equiv> new_content partial offset data old"
  assumes "ready st (44 + length old + length new + j)"
  shows "st_faults st' = st_faults st \<and> ready st' j"
proof -
  consider "st' = st" "r \<noteq> PICOKEYS_OK"
    | b where "b \<in> set bs" "f_data f = Some (b + 10)" "fits_in_place (mem st) b (length data) offset partial"
      "write_in_place (b + 10) data offset partial (length old) st = (r, st')" "partial \<longrightarrow> offset \<le> length old"
    | "write_new_record persistent f data offset partial (length old) (length new) st = (r, f', st')" "partial \<longrightarrow> offset \<le> length old"
    using write_cases [OF assms(1,2,4,5)] unfolding new_def old_def by blast
  then show ?thesis
  proof cases
    case 1
    then show ?thesis using ready_le [OF assms(8), of j] by simp
  next
    case 2
    have "length data \<le> length new" using new_content_length [OF 2(5), of data] by (simp add: new_def le_max_iff_disj)
    then have "ready st (5 + length data + j)" using ready_le [OF assms(8)] by simp
    then show ?thesis
      using in_place_smooth [OF record_in_stored [OF assms(1) 2(1,2)] 2(3), of "length old"] 2(4) by (auto simp: smooth_def)
  next
    case 3
    from new_record_live [OF assms(1-3) 3(1) [unfolded new_def old_def] assms(8) [unfolded new_def old_def]] show ?thesis
      using 3(2) assms(4) unfolding old_def by blast
  qed
qed
section \<open>Properties\<close>

text \<open>
  C12. A file write refines the update of a map from identifiers to contents, in either pool and for a
  data pool that starts at address 0 as on the ESP32. The hypothesis \<open>ready\<close> says that the partition
  driver works, and that the task of the other core runs in every wait, so that no commit times out.
  When the write reports success the records still form a well-formed list, the handle points to the
  file's record, that file has the new contents (all of it for a full write; for a write at an offset
  the bytes of the old contents around the data are kept) and every other file has the contents it had.
  When it reports an error, the handle, the list and the contents of every file are as before, no byte
  has changed except possibly the eight bytes at address 0, and the error has a reason: the range is
  too long, the offset is beyond the end, or no gap of the pool has room for the new record above
  address 0. (Without \<open>ready\<close> this does not hold: a commit that times out after the old record was
  cleared loses the file.)
\<close>

theorem file_write_refines:
  assumes "stored st s p bs" "refers (mem st) bs f" "pool_of st persistent s p" "\<not> partial \<longrightarrow> offset = 0"
    "ready st (44 + length (old_content (mem st) bs f) + length (new_content partial offset data (old_content (mem st) bs f)))"
    "flash_write_data_to_file_internal persistent f data offset partial st = (r, f', st')"
  shows "if r = PICOKEYS_OK
    then f_fid f' = f_fid f \<and> (\<exists>bs'. stored st' s p bs' \<and> refers (mem st') bs' f' \<and>
      contents (mem st') bs' = (contents (mem st) bs)(unat (f_fid f) \<mapsto> new_content partial offset data (old_content (mem st) bs f)))
    else f' = f \<and> stored st' s p bs \<and> contents (mem st') bs = contents (mem st) bs \<and>
      (\<forall>a. 0 < s \<or> 8 \<le> a \<longrightarrow> mem st' a = mem st a) \<and>
      (2 ^ 32 \<le> offset + length data \<or> partial \<and> length (old_content (mem st) bs f) < offset \<or>
       crowded (mem st) s (10 + length_size_for (length (new_content partial offset data (old_content (mem st) bs f))) +
         length (new_content partial offset data (old_content (mem st) bs f))) p bs)"
proof -
  have "st_faults st' = st_faults st" using write_live [OF assms(1-4,6), of 0] assms(5) by simp
  note w = write_spec [OF assms(1-4,6) this]
  show ?thesis
  proof (cases "r = PICOKEYS_OK")
    case True
    then show ?thesis using w by (auto simp: wrote_def)
  next
    case False
    then have u: "untouched s (mem st) (mem st') (p # bs)" "good st'" "same_pools st st'" using w by auto
    then have "\<forall>a. 0 < s \<or> 8 \<le> a \<longrightarrow> mem st' a = mem st a" by (auto simp: untouched_def)
    with False w untouched_stored [OF assms(1) u] show ?thesis by simp
  qed
qed

text \<open>
  C13. What was put into a file is read back: after a successful \<open>file_put_data\<close> into either pool, a read
  of any range of the file returns those bytes of the data; and through every other handle every read returns what it returned
  before. By \<open>ready\<close> the partition driver works and the task of the other core runs in every wait, so that no commit times out.
\<close>

theorem file_put_then_read:
  assumes "stored st s p bs" "refers (mem st) bs f" "pool_of st persistent s p"
    "ready st (44 + length (old_content (mem st) bs f) + length data)"
    "file_put_data persistent f data st = (PICOKEYS_OK, f', st')" "off + n \<le> length data"
    "refers (mem st) bs g" "f_fid g \<noteq> f_fid f"
  shows "file_get_size st' f' = length data \<and> file_read_at st' f' off n = Inr (take n (drop off data)) \<and>
    (\<forall>off' n'. file_read_at st' g off' n' = file_read_at st g off' n')"
proof -
  have run: "flash_write_data_to_file_internal persistent f data 0 False st = (PICOKEYS_OK, f', st')"
    using assms(5) by (simp add: file_put_data_def flash_write_data_to_file_def)
  have new: "new_content False 0 data c = data" for c by (simp add: new_content_def)
  have "st_faults st' = st_faults st" using write_live [OF assms(1-3) _ run, of 0] assms(4) by (simp add: new)
  then obtain bs' where f: "f_fid f' = f_fid f" and w: "wrote st st' s p bs bs' f' data"
    using write_spec [OF assms(1-3) _ run] by (auto simp: new)
  have s': "stored st' s p bs'" "refers (mem st') bs' f'" and c: "contents (mem st') bs' = (contents (mem st) bs)(unat (f_fid f) \<mapsto> data)"
    using w f by (auto simp: wrote_def)
  have "file_get_size st' f' = length data" using file_size_stored [OF s'] c f by (simp add: old_content_def)
  moreover have "file_read_at st' f' off n = Inr (take n (drop off data))"
    using file_read_stored [OF s'] c f assms(6) by auto
  moreover have "file_read_at st' g off' n' = file_read_at st g off' n'" for off' n'
  proof -
    have "unat (f_fid g) \<noteq> unat (f_fid f)" using assms(8) by (simp add: word_unat_eq_iff)
    then show ?thesis
      using file_read_stored [OF s'(1) wrote_others [OF w assms(7)]] file_read_stored [OF assms(1,7)] c f assms(8) by simp
  qed
  ultimately show ?thesis by blast
qed

text \<open>
  C14. Clearing a file erases it and nothing else: its record leaves the list, every byte of its payload is
  zero afterwards, and the other records keep their place, identifier and contents. By \<open>ready\<close> the partition
  driver works and no commit times out.
\<close>

theorem clear_file_erases:
  assumes "stored st s p bs" "b \<in> set bs" "f_data f = Some (b + 10)" "ready st (18 + psz (mem st) b)"
    "flash_clear_file f st = (r, f', st')"
  shows "r = PICOKEYS_OK \<and> f_data f' = None \<and> (\<exists>bs'. stored st' s p bs' \<and> set bs' = set bs - {b} \<and>
      contents (mem st') bs' = (contents (mem st) bs)(rec_fid (mem st) b := None) \<and>
      (\<forall>c\<in>set bs'. unchanged (mem st) (mem st') c)) \<and>
    (\<forall>a. b + 10 + lsz (mem st) b \<le> a \<and> a < b + rsz (mem st) b \<longrightarrow> mem st' a = 0)"
proof -
  let ?m = "mem st"
  have pool: "pool_at st s p" "links ?m s p bs" "distinct (map (rec_fid ?m) bs)" using assms(1) by (auto simp: stored_def)
  obtain xs ys where sp: "bs = xs @ b # ys" using split_list [OF assms(2)] by blast
  note l = pool(2) [unfolded sp]
  have nf: "st_faults st' \<le> st_faults st" using clear_file_steps [OF pool(1) l assms(3,5), of 0] assms(4) by simp
  note c = clear_file_chain [OF pool(1) l assms(3,5) nf]
  have db: "distinct bs" by (rule links_distinct [OF pool(2)])
  then have set': "set (xs @ ys) = set bs - {b}" by (auto simp: sp)
  have "set bs - {b} = {d \<in> set bs. rec_fid ?m d \<noteq> rec_fid ?m b}"
    using pool(3) assms(2) inj_onD [of "rec_fid ?m" "set bs" _ b] by (auto simp: distinct_map)
  then have k: "distinct (map (rec_fid (mem st')) (xs @ ys))" "contents (mem st') (xs @ ys) = (contents ?m bs)(rec_fid ?m b := None)"
    using contents_delete [OF pool(3), of "xs @ ys" "rec_fid ?m b" "mem st'"] set' c db sp by auto
  obtain q where q: "seg ?m s p xs q" "links ?m s q (b # ys)" using l unfolding links_append by blast
  have mc: "mem st' = clear_mem b q (head ys) (b + 10 + lsz ?m b) (psz ?m b) ?m"
    using clear_file_mem [OF pool(1) l q assms(3,5) nf] by blast
  have hn: "head ys > 0 \<longrightarrow> head ys + 12 \<le> b" using q(2) rsz_ge [of ?m "head ys"] by (cases ys) (auto simp: head_def)
  have "mem st' a = 0" if "b + 10 + lsz ?m b \<le> a" "a < b + rsz ?m b" for a
  proof -
    have "map_write (b + 10 + lsz ?m b) (replicate (psz ?m b) 0) m a = 0" for m
      using that by (simp add: map_write_def rsz_def)
    moreover have "\<not> a < b + 4 + 4" "\<not> a < head ys + 4 + 4 \<or> head ys = 0" using that hn by auto
    ultimately show ?thesis unfolding mc clear_mem_def Let_def by (simp add: map_write_other le32_bytes)
  qed
  moreover have "stored st' s p (xs @ ys)" using c k(1) by (simp add: stored_def)
  ultimately show ?thesis using c k(2) set' by auto
qed

text \<open>
  The two pools do not disturb each other: a write into one of them, successful or refused, keeps the
  list of the other one well formed and every record in it as it was.
\<close>

theorem file_write_keeps_other_pool:
  assumes "stored st s p bs" "refers (mem st) bs f" "pool_of st persistent s p" "\<not> partial \<longrightarrow> offset = 0"
    "ready st (44 + length (old_content (mem st) bs f) + length (new_content partial offset data (old_content (mem st) bs f)))"
    "flash_write_data_to_file_internal persistent f data offset partial st = (r, f', st')"
    "stored st s2 p2 cs" "pool_of st (\<not> persistent) s2 p2" "st_end_data_pool st + 4 \<le> st_start_rom_pool st"
  shows "stored st' s2 p2 cs \<and> (\<forall>c\<in>set cs. unchanged (mem st) (mem st') c)"
proof -
  have "st_faults st' = st_faults st" using write_live [OF assms(1-4,6), of 0] assms(5) by simp
  note w = write_spec [OF assms(1-4,6) this]
  then have g: "good st'" "same_pools st st'" by (auto simp: wrote_def stored_def pool_at_def split: if_splits)
  moreover have "outside s p (mem st) (mem st')"
    using w untouched_stored(4) [OF assms(1) _ g] by (auto simp: wrote_def split: if_splits)
  ultimately have "outside s p (mem st) (mem st')" "good st'" "same_pools st st'" by simp_all
  then show ?thesis
    by (rule stored_outside [OF assms(7)]) (use assms(3,8,9) in \<open>auto simp: pool_of_def split: if_splits\<close>)
qed
section \<open>A concrete store\<close>

text \<open>The pools as \<open>low_flash_init\<close> and \<open>flash_set_bounds\<close> leave them on the ESP32: the data pool starts at address 0.\<close>

definition demo_store :: store where
  "demo_store = flash_set_bounds 0 100012 \<lparr>st_flash = blank_flash\<lparr>fl_map := (\<lambda>_. 0)\<rparr>, st_waits = replicate 200 1,
     st_faults = 0, st_end_data_pool = 0, st_start_rom_pool = 0, st_last_base = 0, st_num_files = 0\<rparr>"

definition demo_file :: file_t where
  "demo_file = \<lparr>f_data = None, f_fid = 0x1234\<rparr>"

lemma demo_mem: "mem demo_store = (\<lambda>_. 0)"
proof
  fix a
  have "find (holds a) (fl_pages (st_flash demo_store)) = None" by (simp add: demo_store_def flash_set_bounds_def blank_flash_def find_None_iff holds_def)
  then show "mem demo_store a = 0" by (simp add: mem_def view_def) (simp add: demo_store_def flash_set_bounds_def)
qed

lemma demo_stored: "stored demo_store 0 83608 []" "stored demo_store 83616 100000 []"
  by (simp_all add: stored_def demo_mem mem32_def pool_at_def good_def)
    (simp_all add: demo_store_def flash_set_bounds_def blank_flash_def flash_wf_defs pages_wf_def good_partition_works pooled_def in_pool_def)

lemma demo_pool: "pool_of demo_store False 0 83608" "pool_of demo_store (\<not> False) 83616 100000"
  "st_end_data_pool demo_store + 4 \<le> st_start_rom_pool demo_store"
  by (simp_all add: pool_of_def demo_store_def flash_set_bounds_def blank_flash_def)

lemma demo_refers: "f_data g = None \<Longrightarrow> refers m [] g"
  by (simp add: refers_def contents_def)

lemma demo_old: "old_content m [] f = []"
  by (simp add: old_content_def contents_def)

lemma demo_ready: "k \<le> 200 \<Longrightarrow> ready demo_store k"
  using demo_stored(1) by (simp add: ready_def stored_def pool_at_def) (simp add: demo_store_def flash_set_bounds_def blank_flash_def)

lemma demo_written:
  assumes "length data \<le> 100"
  obtains f' st' bs' where "file_put_data False demo_file data demo_store = (PICOKEYS_OK, f', st')"
    "f_fid f' = 0x1234" "wrote demo_store st' 0 83608 [] bs' f' data" "ready st' 50"
proof -
  obtain r f' st' where run: "flash_write_data_to_file_internal False demo_file data 0 False demo_store = (r, f', st')" by (metis prod_cases3)
  have new: "new_content False 0 data c = data" for c by (simp add: new_content_def)
  have rf: "refers (mem demo_store) [] demo_file" by (rule demo_refers) (simp add: demo_file_def)
  have l: "st_faults st' = st_faults demo_store \<and> ready st' 50"
    by (rule write_live [OF demo_stored(1) rf demo_pool(1) _ run]) (use assms in \<open>auto simp: new demo_old intro: demo_ready\<close>)
  have "\<not> crowded (mem demo_store) 0 (10 + length_size_for (length data) + length data) 83608 []"
    using assms by (simp add: length_size_for_def)
  with write_spec [OF demo_stored(1) rf demo_pool(1) _ run] l have "r = PICOKEYS_OK" "f_fid f' = f_fid demo_file"
      "\<exists>bs'. wrote demo_store st' 0 83608 [] bs' f' data"
    using assms by (auto simp: new split: if_splits)
  then show ?thesis
    using that run l by (auto simp: file_put_data_def flash_write_data_to_file_def demo_file_def)
qed

theorem file_write_refines_witness:
  "\<exists>f' st' bs'. flash_write_data_to_file_internal False demo_file [1, 2, 3] 0 False demo_store = (PICOKEYS_OK, f', st') \<and>
     contents (mem st') bs' = [0x1234 \<mapsto> [1, 2, 3]]"
proof -
  obtain r f' st' where run: "flash_write_data_to_file_internal False demo_file [1, 2, 3] 0 False demo_store = (r, f', st')" by (metis prod_cases3)
  have "refers (mem demo_store) [] demo_file" by (rule demo_refers) (simp add: demo_file_def)
  from file_write_refines [OF demo_stored(1) this demo_pool(1) _ _ run] show ?thesis
    using run by (simp add: demo_old new_content_def demo_ready demo_file_def length_size_for_def contents_def split: if_splits) blast
qed

theorem file_put_then_read_witness:
  "\<exists>f' st'. file_put_data False demo_file [1, 2, 3] demo_store = (PICOKEYS_OK, f', st') \<and> file_read_at st' f' 1 2 = Inr [2, 3]"
proof -
  obtain f' st' bs' where run: "file_put_data False demo_file [1, 2, 3] demo_store = (PICOKEYS_OK, f', st')"
    by (rule demo_written [of "[1, 2, 3]"]) simp_all
  let ?g = "\<lparr>f_data = None, f_fid = 0x4321\<rparr> :: file_t"
  have r: "refers (mem demo_store) [] demo_file" "refers (mem demo_store) [] ?g" by (rule demo_refers, simp add: demo_file_def)+
  from file_put_then_read [OF demo_stored(1) r(1) demo_pool(1) _ run _ r(2), of 1 2] show ?thesis
    using run by (simp add: demo_old demo_ready demo_file_def)
qed

theorem clear_file_erases_witness:
  "\<exists>st f st'. flash_clear_file f st = (PICOKEYS_OK, f\<lparr>f_data := None\<rparr>, st') \<and>
     (\<exists>bs. contents (mem st) bs = [0x1234 \<mapsto> [7, 8]]) \<and> (\<exists>bs'. contents (mem st') bs' = Map.empty)"
proof -
  obtain f st bs where w: "f_fid f = 0x1234" "wrote demo_store st 0 83608 [] bs f [7, 8]" "ready st 50"
    by (rule demo_written [of "[7, 8]"]) simp_all
  then have s: "stored st 0 83608 bs" "contents (mem st) bs = [0x1234 \<mapsto> [7, 8]]" "refers (mem st) bs f" "f_data f \<noteq> None"
    by (auto simp: wrote_def contents_def)
  then obtain b where b: "b \<in> set bs" "f_data f = Some (b + 10)" "rec_fid (mem st) b = 0x1234" using w(1) by (auto simp: refers_def)
  have "rec_data (mem st) b = [7, 8]" using contents_in [of "mem st" bs b] s(1,2) b by (simp add: stored_def)
  then have "psz (mem st) b = 2" using rec_data_length [of "mem st" b] by simp
  then have rd: "ready st (18 + psz (mem st) b)" using w(3) by (simp add: ready_le)
  obtain r f' st' where run: "flash_clear_file f st = (r, f', st')" by (metis prod_cases3)
  from clear_file_erases [OF s(1) b(1,2) rd run] obtain bs' where
    e: "r = PICOKEYS_OK" "contents (mem st') bs' = (contents (mem st) bs)(0x1234 := None)" using b(3) by auto
  have "f' = f\<lparr>f_data := None\<rparr>" using run e(1) b(2) by (auto simp: flash_clear_file_def Let_def split: prod.splits if_splits)
  moreover have "contents (mem st') bs' = Map.empty" using e(2) s(2) by simp
  ultimately show ?thesis using run e(1) s(2) by blast
qed

theorem file_write_keeps_other_pool_witness:
  "\<exists>r f' st'. flash_write_data_to_file_internal False demo_file [1, 2, 3] 0 False demo_store = (r, f', st') \<and>
     stored st' 83616 100000 []"
proof -
  obtain r f' st' where run: "flash_write_data_to_file_internal False demo_file [1, 2, 3] 0 False demo_store = (r, f', st')" by (metis prod_cases3)
  have "refers (mem demo_store) [] demo_file" by (rule demo_refers) (simp add: demo_file_def)
  from file_write_keeps_other_pool [OF demo_stored(1) this demo_pool(1) _ _ run demo_stored(2) demo_pool(2,3)] show ?thesis
    using run by (simp add: demo_old new_content_def demo_ready)
qed

end
