(* ===== verification/Object_Txn.thy ===== *)
theory Object_Txn
  imports Object_Crypto
begin

text \<open>
  The transactional object store of \<open>fs/object_store_txn.c\<close>: an object is kept in two slots, each a record
  file and a commit file; a write goes to the slot that is not current, the record before the commit, and
  the current slot is the valid commit of the highest generation. Above it \<open>file_object_record_id_allocate\<close>
  of \<open>fs/object_container.c\<close>, the counter of record identifiers.

  The files are seen here as \<open>Flash_Live\<close> shows them: a map from identifiers to contents, empty for a file
  of the index without data. Every operation on them that can fail takes its outcome from a script,
  so that a run stands for any pattern of failures of the layers below (an empty script is a run
  without failures). The authenticator is the parameter of \<open>Object_Container\<close>.
\<close>

section \<open>Files\<close>

text \<open>\<open>Lose\<close> is a deletion that reports an error after the contents are gone (\<open>flash_clear_file\<close> that fails
  while it zeroes the payload, or a metadata error before a completed one). A write goes to a file that was just
  created; when it fails the file stays without data, since \<open>flash_write_data_to_file\<close> sets the file's
  pointer last. Left out of the outcomes: a deletion that stops with the payload partly zeroed and the file still
  in the index, power loss between two operations, and writes that reach the flash in another order.
  \<open>commit_sync\<close> stands for the result of \<open>flash_commit_sync\<close> only; that a commit is a barrier is
  the subject of \<open>Low_Flash\<close>, and a map of current contents does not show it.\<close>

datatype outcome = Go | Fail status | Lose status

record file_object_txn_layout =
  l_namespace_id :: u16
  l_object_type :: u16
  l_object_id :: u32
  l_record_fid :: "u16 \<times> u16"
  l_commit_fid :: "u16 \<times> u16"

definition pick :: "'a \<times> 'a \<Rightarrow> u8 \<Rightarrow> 'a" where
  "pick p slot = (if slot = 0 then fst p else snd p)"

record file_object_txn_state =
  s_generation :: u32
  s_record_id :: u32
  s_payload_size :: u32
  s_commit_slot :: u8
  s_record_slot :: u8
  s_deleted :: bool

record txn_handle_entry =
  h_layout :: file_object_txn_layout
  h_state :: file_object_txn_state
  h_token :: u32

record 'c txn =
  tx_files :: "u16 \<rightharpoonup> bytes"
  tx_static :: "u16 \<Rightarrow> bool"
  tx_script :: "outcome list"
  tx_ctx :: 'c
  tx_handles :: "txn_handle_entry list"
  tx_next_handle :: u32

definition outcome_next :: "'c txn \<Rightarrow> outcome \<times> 'c txn" where
  "outcome_next w = (case tx_script w of [] \<Rightarrow> (Go, w) | x # xs \<Rightarrow> (x, w\<lparr>tx_script := xs\<rparr>))"

definition has_data :: "(u16 \<rightharpoonup> bytes) \<Rightarrow> u16 \<Rightarrow> bool" where
  "has_data fs fid = (case fs fid of None \<Rightarrow> False | Some d \<Rightarrow> d \<noteq> [])"

definition size_of :: "(u16 \<rightharpoonup> bytes) \<Rightarrow> u16 \<Rightarrow> nat" where
  "size_of fs fid = (case fs fid of None \<Rightarrow> 0 | Some d \<Rightarrow> length d)"

definition read_at :: "(u16 \<rightharpoonup> bytes) \<Rightarrow> u16 \<Rightarrow> nat \<Rightarrow> nat \<Rightarrow> status + bytes" where
  "read_at fs fid off n = (case fs fid of None \<Rightarrow> Inl PICOKEYS_ERR_NULL_PARAM
     | Some d \<Rightarrow> if off > length d \<or> n > length d - off then Inl PICOKEYS_ERR_NULL_PARAM else Inr (slice off n d))"

definition delete_no_commit :: "u16 \<Rightarrow> 'c txn \<Rightarrow> status \<times> 'c txn" where
  "delete_no_commit fid w = (case outcome_next w of (x, w) \<Rightarrow>
     (case x of Go \<Rightarrow> (PICOKEYS_OK, w\<lparr>tx_files := (tx_files w)(fid := None)\<rparr>)
      | Fail s \<Rightarrow> (if s = PICOKEYS_OK then PICOKEYS_EXEC_ERROR else s, w)
      | Lose s \<Rightarrow> (if s = PICOKEYS_OK then PICOKEYS_EXEC_ERROR else s, w\<lparr>tx_files := (tx_files w)(fid \<mapsto> [])\<rparr>)))"

definition new_file :: "u16 \<Rightarrow> 'c txn \<Rightarrow> bool \<times> 'c txn" where
  "new_file fid w = (case tx_files w fid of Some _ \<Rightarrow> (True, w)
     | None \<Rightarrow> (case outcome_next w of (x, w) \<Rightarrow>
         if x = Go then (True, w\<lparr>tx_files := (tx_files w)(fid \<mapsto> [])\<rparr>) else (False, w)))"

definition put_data :: "u16 \<Rightarrow> bytes \<Rightarrow> 'c txn \<Rightarrow> status \<times> 'c txn" where
  "put_data fid data w = (case outcome_next w of (x, w) \<Rightarrow>
     (case x of Go \<Rightarrow> (PICOKEYS_OK, w\<lparr>tx_files := (tx_files w)(fid \<mapsto> data)\<rparr>)
      | Fail s \<Rightarrow> (if s = PICOKEYS_OK then PICOKEYS_EXEC_ERROR else s, w)
      | Lose s \<Rightarrow> (if s = PICOKEYS_OK then PICOKEYS_EXEC_ERROR else s, w)))"

definition commit_sync :: "'c txn \<Rightarrow> bool \<times> 'c txn" where
  "commit_sync w = (case outcome_next w of (x, w) \<Rightarrow> (x = Go, w))"

section \<open>Layouts and tags\<close>

definition file_object_txn_layout_valid :: "'c txn \<Rightarrow> file_object_txn_layout \<Rightarrow> bool" where
  "file_object_txn_layout_valid w l =
    (let fids = [fst (l_record_fid l), snd (l_record_fid l), fst (l_commit_fid l), snd (l_commit_fid l)] in
     (\<forall>f\<in>set fids. f \<noteq> 0 \<and> f \<noteq> 0xffff \<and> \<not> tx_static w f) \<and> distinct fids)"

definition file_object_txn_tag_equal :: "bytes \<Rightarrow> bytes \<Rightarrow> bool" where
  "file_object_txn_tag_equal l r \<longleftrightarrow> diff_bytes FILE_OBJECT_AUTH_TAG_SIZE l r = 0"

definition file_object_txn_auth_buffer ::
    "'c file_object_authenticator \<Rightarrow> 'c \<Rightarrow> bytes \<Rightarrow> bytes \<Rightarrow> status \<times> bytes \<times> 'c" where
  "file_object_txn_auth_buffer a c first second =
    (case the (auth_start a) c of (r, c) \<Rightarrow>
       if r \<noteq> PICOKEYS_OK then (r, [], file_object_manifest_auth_abort a c)
       else
         (let (r, c) = the (auth_update a) c first;
              (r, c) = (if r = PICOKEYS_OK \<and> length second > 0 then the (auth_update a) c second else (r, c));
              (r, tag, c) = (if r = PICOKEYS_OK then the (auth_finish a) c else (r, [], c))
          in if r \<noteq> PICOKEYS_OK then (r, [], file_object_manifest_auth_abort a c) else (r, tag, c)))"

text \<open>The payload of a record file is fed to the authenticator in pieces of at most 256 bytes.\<close>

function auth_payload :: "'c file_object_authenticator \<Rightarrow> (u16 \<rightharpoonup> bytes) \<Rightarrow> u16 \<Rightarrow> nat \<Rightarrow> nat \<Rightarrow> 'c \<Rightarrow> status \<times> 'c" where
  "auth_payload a fs fid payload_size offset c =
    (if offset < payload_size then
       (let chunk = min 256 (payload_size - offset) in
        case read_at fs fid (32 + offset) chunk of
          Inl r \<Rightarrow> (r, c)
        | Inr buffer \<Rightarrow> (case the (auth_update a) c buffer of (r, c) \<Rightarrow>
            if r = PICOKEYS_OK then auth_payload a fs fid payload_size (offset + chunk) c else (r, c)))
     else (PICOKEYS_OK, c))"
  by auto
termination by (relation "measure (\<lambda>(_, _, _, n, off, _). n - off)") auto

declare auth_payload.simps [simp del]

definition file_object_txn_auth_record ::
    "'c file_object_authenticator \<Rightarrow> (u16 \<rightharpoonup> bytes) \<Rightarrow> u16 \<Rightarrow> bytes \<Rightarrow> nat \<Rightarrow> 'c \<Rightarrow> status \<times> bytes \<times> 'c" where
  "file_object_txn_auth_record a fs fid header payload_size c =
    (case the (auth_start a) c of (r, c) \<Rightarrow>
       if r \<noteq> PICOKEYS_OK then (r, [], file_object_manifest_auth_abort a c)
       else
         (let (r, c) = the (auth_update a) c header;
              (r, c) = (if r = PICOKEYS_OK then auth_payload a fs fid payload_size 0 c else (r, c));
              (r, tag, c) = (if r = PICOKEYS_OK then the (auth_finish a) c else (r, [], c))
          in if r \<noteq> PICOKEYS_OK then (r, [], file_object_manifest_auth_abort a c) else (r, tag, c)))"

section \<open>Reading a slot\<close>

definition record_magic :: bytes where "record_magic = [0x50, 0x4b, 0x52, 0x32]"
definition commit_magic :: bytes where "commit_magic = [0x50, 0x4b, 0x43, 0x32]"

definition record_header_ok :: "file_object_txn_layout \<Rightarrow> u8 \<Rightarrow> u32 \<Rightarrow> u32 \<Rightarrow> u32 \<Rightarrow> bytes \<Rightarrow> bool" where
  "record_header_ok l slot generation record_id payload_size header \<longleftrightarrow>
     take 4 header = record_magic \<and> header ! 4 = 1 \<and> header ! 5 = 32 \<and> header ! 6 = slot \<and> header ! 7 = 0 \<and>
     get_uint16_be (drop 8 header) = l_namespace_id l \<and> get_uint16_be (drop 10 header) = l_object_type l \<and>
     get_uint32_be (drop 12 header) = l_object_id l \<and> get_uint32_be (drop 16 header) = generation \<and>
     get_uint32_be (drop 20 header) = record_id \<and> get_uint32_be (drop 24 header) = payload_size \<and>
     get_uint16_be (drop 28 header) = pick (l_record_fid l) slot \<and> get_uint16_be (drop 30 header) = 0"

definition file_object_txn_validate_record ::
    "file_object_txn_layout \<Rightarrow> 'c file_object_authenticator \<Rightarrow> (u16 \<rightharpoonup> bytes) \<Rightarrow> u8 \<Rightarrow> u32 \<Rightarrow> u32 \<Rightarrow> u32 \<Rightarrow> bytes \<Rightarrow> 'c \<Rightarrow>
     status \<times> 'c" where
  "file_object_txn_validate_record l a fs slot generation record_id payload_size commit_record_tag c =
    (if slot > 1 then (PICOKEYS_WRONG_DATA, c)
     else
       (let fid = pick (l_record_fid l) slot; n = unat payload_size in
        if \<not> has_data fs fid then (PICOKEYS_ERR_FILE_NOT_FOUND, c)
        else if n > 2 ^ 32 - 1 - 32 - 16 \<or> size_of fs fid \<noteq> 32 + n + 16 then (PICOKEYS_WRONG_DATA, c)
        else (case read_at fs fid 0 32 of
            Inl r \<Rightarrow> (r, c)
          | Inr header \<Rightarrow>
              if \<not> record_header_ok l slot generation record_id payload_size header then (PICOKEYS_WRONG_DATA, c)
              else (case file_object_txn_auth_record a fs fid header n c of (r, calculated_tag, c) \<Rightarrow>
                  if r \<noteq> PICOKEYS_OK then (r, c)
                  else (case read_at fs fid (32 + n) 16 of
                      Inl r \<Rightarrow> (r, c)
                    | Inr stored_tag \<Rightarrow>
                        if \<not> file_object_txn_tag_equal calculated_tag stored_tag \<or>
                          \<not> file_object_txn_tag_equal calculated_tag commit_record_tag
                        then (PICOKEYS_WRONG_SIGNATURE, c) else (PICOKEYS_OK, c))))))"

definition commit_header_ok :: "file_object_txn_layout \<Rightarrow> u8 \<Rightarrow> bytes \<Rightarrow> bool" where
  "commit_header_ok l slot commit \<longleftrightarrow>
     take 4 commit = commit_magic \<and> commit ! 4 = 1 \<and> commit ! 5 = 48 \<and> commit ! 6 = slot \<and> commit ! 7 = 0x7f \<and>
     get_uint16_be (drop 8 commit) = l_namespace_id l \<and> get_uint16_be (drop 10 commit) = l_object_type l \<and>
     get_uint32_be (drop 12 commit) = l_object_id l \<and> get_uint32_be (drop 16 commit) \<noteq> 0 \<and>
     commit ! 27 AND NOT 1 = 0"

definition file_object_txn_parse_commit ::
    "file_object_txn_layout \<Rightarrow> 'c file_object_authenticator \<Rightarrow> (u16 \<rightharpoonup> bytes) \<Rightarrow> u8 \<Rightarrow> 'c \<Rightarrow>
     (status + file_object_txn_state) \<times> 'c" where
  "file_object_txn_parse_commit l a fs slot c =
    (let fid = pick (l_commit_fid l) slot in
     if \<not> has_data fs fid then (Inl PICOKEYS_ERR_FILE_NOT_FOUND, c)
     else if size_of fs fid \<noteq> 64 then (Inl PICOKEYS_WRONG_DATA, c)
     else (case read_at fs fid 0 64 of
         Inl r \<Rightarrow> (Inl r, c)
       | Inr commit \<Rightarrow>
         (let generation = get_uint32_be (drop 16 commit); record_id = get_uint32_be (drop 20 commit);
              payload_size = get_uint32_be (drop 28 commit); record_fid = get_uint16_be (drop 24 commit);
              record_slot = commit ! 26; deleted = (commit ! 27 AND 1 \<noteq> 0);
              state = \<lparr>s_generation = generation, s_record_id = record_id, s_payload_size = payload_size,
                s_commit_slot = slot, s_record_slot = record_slot, s_deleted = deleted\<rparr> in
          if \<not> commit_header_ok l slot commit then (Inl PICOKEYS_WRONG_DATA, c)
          else (case file_object_txn_auth_buffer a c (take 48 commit) [] of (r, calculated_tag, c) \<Rightarrow>
              if r \<noteq> PICOKEYS_OK then (Inl r, c)
              else if \<not> file_object_txn_tag_equal calculated_tag (drop 48 commit) then (Inl PICOKEYS_WRONG_SIGNATURE, c)
              else if deleted then
                (if record_id \<noteq> 0 \<or> payload_size \<noteq> 0 \<or> record_fid \<noteq> 0 \<or> record_slot \<noteq> 0xff \<or>
                   \<not> file_object_txn_tag_equal (drop 32 commit) (replicate 16 0)
                 then (Inl PICOKEYS_WRONG_DATA, c) else (Inr state, c))
              else if record_slot > 1 \<or> record_fid \<noteq> pick (l_record_fid l) record_slot \<or> record_id = 0
              then (Inl PICOKEYS_WRONG_DATA, c)
              else (case file_object_txn_validate_record l a fs record_slot generation record_id payload_size (drop 32 commit) c of
                  (r, c) \<Rightarrow> if r \<noteq> PICOKEYS_OK then (Inl r, c) else (Inr state, c))))))"

definition file_object_txn_invalid_record :: "status \<Rightarrow> bool" where
  "file_object_txn_invalid_record r \<longleftrightarrow>
     r = PICOKEYS_ERR_FILE_NOT_FOUND \<or> r = PICOKEYS_WRONG_DATA \<or> r = PICOKEYS_WRONG_SIGNATURE"

fun recover_slots ::
    "file_object_txn_layout \<Rightarrow> 'c file_object_authenticator \<Rightarrow> (u16 \<rightharpoonup> bytes) \<Rightarrow> u8 list \<Rightarrow> file_object_txn_state option \<Rightarrow> 'c \<Rightarrow>
     (status + file_object_txn_state) \<times> 'c" where
  "recover_slots l a fs [] selected c =
     (case selected of None \<Rightarrow> (Inl PICOKEYS_ERR_FILE_NOT_FOUND, c) | Some s \<Rightarrow> (Inr s, c))"
| "recover_slots l a fs (slot # slots) selected c =
    (case file_object_txn_parse_commit l a fs slot c of
       (Inl r, c) \<Rightarrow> if file_object_txn_invalid_record r then recover_slots l a fs slots selected c else (Inl r, c)
     | (Inr candidate, c) \<Rightarrow>
         (case selected of
            Some s \<Rightarrow> if s_generation candidate = s_generation s then (Inl PICOKEYS_WRONG_DATA, c)
              else recover_slots l a fs slots (if s_generation candidate > s_generation s then Some candidate else selected) c
          | None \<Rightarrow> recover_slots l a fs slots (Some candidate) c))"

definition file_object_txn_recover ::
    "file_object_txn_layout \<Rightarrow> 'c file_object_authenticator \<Rightarrow> (u16 \<rightharpoonup> bytes) \<Rightarrow> 'c \<Rightarrow> (status + file_object_txn_state) \<times> 'c" where
  "file_object_txn_recover l a fs c = recover_slots l a fs [0, 1] None c"
section \<open>Handles\<close>

abbreviation (input) FILE_OBJECT_TXN_MAX_HANDLES :: nat where "FILE_OBJECT_TXN_MAX_HANDLES \<equiv> 4"

definition file_object_txn_find_handle :: "'c txn \<Rightarrow> u32 \<Rightarrow> nat option" where
  "file_object_txn_find_handle w handle =
    (if handle = 0 then None else first_index (\<lambda>e. h_token e = handle) (tx_handles w))"

text \<open>
  The loop over the counter; a token that is 0 or in use is skipped. With four entries six tries are enough
  (\<open>allocate_token_fresh\<close> in \<open>Txn_Safety\<close>).
\<close>

fun allocate_token_loop :: "nat \<Rightarrow> 'c txn \<Rightarrow> (u32 \<times> 'c txn) option" where
  "allocate_token_loop 0 w = None"
| "allocate_token_loop (Suc n) w =
    (let handle = tx_next_handle w; w = w\<lparr>tx_next_handle := handle + 1\<rparr> in
     if handle \<noteq> 0 \<and> file_object_txn_find_handle w handle = None then Some (handle, w) else allocate_token_loop n w)"

definition file_object_txn_allocate_token :: "'c txn \<Rightarrow> (u32 \<times> 'c txn) option" where
  "file_object_txn_allocate_token w = allocate_token_loop (FILE_OBJECT_TXN_MAX_HANDLES + 2) w"

definition file_object_txn_resolve ::
    "u32 \<Rightarrow> 'c file_object_authenticator \<Rightarrow> 'c txn \<Rightarrow> (status + (txn_handle_entry \<times> file_object_txn_state)) \<times> 'c txn" where
  "file_object_txn_resolve handle a w = (case file_object_txn_find_handle w handle of
     None \<Rightarrow> (Inl PICOKEYS_ERR_STALE_HANDLE, w)
   | Some i \<Rightarrow>
       (let current = tx_handles w ! i in
        case file_object_txn_recover (h_layout current) a (tx_files w) (tx_ctx w) of
          (Inl r, c) \<Rightarrow>
            (Inl (if file_object_txn_invalid_record r then PICOKEYS_ERR_STALE_HANDLE else r), w\<lparr>tx_ctx := c\<rparr>)
        | (Inr recovered, c) \<Rightarrow>
            (if s_deleted recovered \<or> s_generation recovered \<noteq> s_generation (h_state current) \<or>
               s_record_id recovered \<noteq> s_record_id (h_state current) \<or>
               s_record_slot recovered \<noteq> s_record_slot (h_state current) \<or>
               s_payload_size recovered \<noteq> s_payload_size (h_state current)
             then Inl PICOKEYS_ERR_STALE_HANDLE else Inr (current, recovered), w\<lparr>tx_ctx := c\<rparr>)))"

definition file_object_txn_open ::
    "file_object_txn_layout \<Rightarrow> 'c file_object_authenticator option \<Rightarrow> 'c txn \<Rightarrow> (status + u32) \<times> 'c txn" where
  "file_object_txn_open l auth w =
    (if \<not> file_object_txn_layout_valid w l \<or> \<not> file_object_manifest_auth_valid auth then (Inl PICOKEYS_ERR_NULL_PARAM, w)
     else (case file_object_txn_recover l (the auth) (tx_files w) (tx_ctx w) of
         (Inl r, c) \<Rightarrow> (Inl r, w\<lparr>tx_ctx := c\<rparr>)
       | (Inr state, c) \<Rightarrow>
           (let w = w\<lparr>tx_ctx := c\<rparr> in
            if s_deleted state then (Inl PICOKEYS_ERR_FILE_NOT_FOUND, w)
            else (case first_index (\<lambda>e. h_token e = 0) (tx_handles w) of
                None \<Rightarrow> (Inl PICOKEYS_ERR_NO_MEMORY, w)
              | Some i \<Rightarrow> (case file_object_txn_allocate_token w of
                  None \<Rightarrow> (Inl PICOKEYS_ERR_NO_MEMORY, w)
                | Some (token, w) \<Rightarrow> (Inr token, w\<lparr>tx_handles := (tx_handles w)[i :=
                    \<lparr>h_layout = l, h_state = state, h_token = token\<rparr>]\<rparr>))))))"

definition file_object_txn_get_info ::
    "u32 \<Rightarrow> 'c file_object_authenticator option \<Rightarrow> 'c txn \<Rightarrow> (status + (u32 \<times> u32)) \<times> 'c txn" where
  "file_object_txn_get_info handle auth w =
    (if \<not> file_object_manifest_auth_valid auth then (Inl PICOKEYS_ERR_NULL_PARAM, w)
     else (case file_object_txn_resolve handle (the auth) w of
         (Inl r, w) \<Rightarrow> (Inl r, w)
       | (Inr (_, state), w) \<Rightarrow> (Inr (s_payload_size state, s_generation state), w)))"

definition file_object_txn_read_at ::
    "u32 \<Rightarrow> 'c file_object_authenticator option \<Rightarrow> nat \<Rightarrow> nat \<Rightarrow> 'c txn \<Rightarrow> (status + bytes) \<times> 'c txn" where
  "file_object_txn_read_at handle auth offset n w =
    (if \<not> file_object_manifest_auth_valid auth then (Inl PICOKEYS_ERR_NULL_PARAM, w)
     else (case file_object_txn_resolve handle (the auth) w of
         (Inl r, w) \<Rightarrow> (Inl r, w)
       | (Inr (entry, state), w) \<Rightarrow>
           (if offset > unat (s_payload_size state) \<or> n > unat (s_payload_size state) - offset then Inl PICOKEYS_WRONG_LENGTH
            else read_at (tx_files w) (pick (l_record_fid (h_layout entry)) (s_record_slot state)) (32 + offset) n, w)))"

definition zero_entry :: txn_handle_entry where
  "zero_entry = \<lparr>h_layout = \<lparr>l_namespace_id = 0, l_object_type = 0, l_object_id = 0, l_record_fid = (0, 0), l_commit_fid = (0, 0)\<rparr>,
     h_state = \<lparr>s_generation = 0, s_record_id = 0, s_payload_size = 0, s_commit_slot = 0, s_record_slot = 0, s_deleted = False\<rparr>,
     h_token = 0\<rparr>"

definition file_object_txn_close :: "u32 \<Rightarrow> 'c txn \<Rightarrow> status \<times> 'c txn" where
  "file_object_txn_close handle w = (case file_object_txn_find_handle w handle of
     None \<Rightarrow> (PICOKEYS_ERR_STALE_HANDLE, w)
   | Some i \<Rightarrow> (PICOKEYS_OK, w\<lparr>tx_handles := (tx_handles w)[i := zero_entry]\<rparr>))"

section \<open>Writing\<close>

definition file_object_txn_remove_file :: "u16 \<Rightarrow> 'c txn \<Rightarrow> status \<times> 'c txn" where
  "file_object_txn_remove_file fid w =
    (if tx_files w fid = None \<and> \<not> tx_static w fid then (PICOKEYS_OK, w)
     else if tx_static w fid then (PICOKEYS_WRONG_DATA, w)
     else delete_no_commit fid w)"

definition file_object_txn_replace_file :: "u16 \<Rightarrow> bytes \<Rightarrow> 'c txn \<Rightarrow> status \<times> 'c txn" where
  "file_object_txn_replace_file fid data w =
    (case file_object_txn_remove_file fid w of (r, w) \<Rightarrow>
       if r \<noteq> PICOKEYS_OK then (r, w)
       else (case new_file fid w of (ok, w) \<Rightarrow>
         if \<not> ok then (PICOKEYS_ERR_NO_MEMORY, w) else put_data fid data w))"

text \<open>The buffers are zeroed by \<open>calloc\<close> or their initializer; the fields are written at consecutive offsets.\<close>

definition txn_record_header :: "file_object_txn_layout \<Rightarrow> u8 \<Rightarrow> u32 \<Rightarrow> u32 \<Rightarrow> nat \<Rightarrow> bytes" where
  "txn_record_header l slot generation record_id len =
     record_magic @ [1, 32, slot, 0] @ put_uint16_be (l_namespace_id l) @ put_uint16_be (l_object_type l) @
     put_uint32_be (l_object_id l) @ put_uint32_be generation @ put_uint32_be record_id @ put_uint32_be (word_of_nat len) @
     put_uint16_be (pick (l_record_fid l) slot) @ [0, 0]"

definition file_object_txn_write_record ::
    "file_object_txn_layout \<Rightarrow> 'c file_object_authenticator \<Rightarrow> u8 \<Rightarrow> u32 \<Rightarrow> u32 \<Rightarrow> bytes \<Rightarrow> 'c txn \<Rightarrow> status \<times> bytes \<times> 'c txn" where
  "file_object_txn_write_record l a slot generation record_id data w =
    (if length data > 2 ^ 32 - 1 - 32 - 16 then (PICOKEYS_ERR_NO_MEMORY, replicate 16 0, w)
     else (case outcome_next w of (x, w) \<Rightarrow>
       if x \<noteq> Go then (PICOKEYS_ERR_MEMORY_FATAL, replicate 16 0, w)
       else
         (let header = txn_record_header l slot generation record_id (length data);
              (r, tag, c) = file_object_txn_auth_buffer a (tx_ctx w) header data;
              w = w\<lparr>tx_ctx := c\<rparr>
          in if r \<noteq> PICOKEYS_OK then (r, replicate 16 0, w)
             else (case file_object_txn_replace_file (pick (l_record_fid l) slot) (header @ data @ tag) w of
               (r, w) \<Rightarrow> (r, tag, w)))))"

definition txn_commit_header :: "file_object_txn_layout \<Rightarrow> u8 \<Rightarrow> u8 \<Rightarrow> u32 \<Rightarrow> u32 \<Rightarrow> nat \<Rightarrow> bytes \<Rightarrow> bool \<Rightarrow> bytes" where
  "txn_commit_header l commit_slot record_slot generation record_id payload_size record_tag deleted =
     commit_magic @ [1, 48, commit_slot, 0x7f] @ put_uint16_be (l_namespace_id l) @ put_uint16_be (l_object_type l) @
     put_uint32_be (l_object_id l) @ put_uint32_be generation @
     (if deleted then replicate 4 0 @ replicate 2 0 @ [0xff, 1] @ replicate 4 0 @ replicate 16 0
      else put_uint32_be record_id @ put_uint16_be (pick (l_record_fid l) record_slot) @ [record_slot, 0] @
        put_uint32_be (word_of_nat payload_size) @ record_tag)"

definition file_object_txn_write_commit ::
    "file_object_txn_layout \<Rightarrow> 'c file_object_authenticator \<Rightarrow> u8 \<Rightarrow> u8 \<Rightarrow> u32 \<Rightarrow> u32 \<Rightarrow> nat \<Rightarrow> bytes \<Rightarrow> bool \<Rightarrow> 'c txn \<Rightarrow>
     status \<times> 'c txn" where
  "file_object_txn_write_commit l a commit_slot record_slot generation record_id payload_size record_tag deleted w =
    (let header = txn_commit_header l commit_slot record_slot generation record_id payload_size record_tag deleted;
         (r, tag, c) = file_object_txn_auth_buffer a (tx_ctx w) header [];
         w = w\<lparr>tx_ctx := c\<rparr>
     in if r \<noteq> PICOKEYS_OK then (r, w)
        else file_object_txn_replace_file (pick (l_commit_fid l) commit_slot) (header @ tag) w)"

definition file_object_txn_next_state ::
    "file_object_txn_layout \<Rightarrow> 'c file_object_authenticator \<Rightarrow> 'c txn \<Rightarrow> (status + (u8 \<times> u32)) \<times> 'c txn" where
  "file_object_txn_next_state l a w = (case file_object_txn_recover l a (tx_files w) (tx_ctx w) of
     (Inl r, c) \<Rightarrow> (if r = PICOKEYS_ERR_FILE_NOT_FOUND then Inr (0, 1) else Inl r, w\<lparr>tx_ctx := c\<rparr>)
   | (Inr current, c) \<Rightarrow>
       (if s_generation current = 0xffffffff then Inl PICOKEYS_WRONG_DATA
        else Inr (s_commit_slot current XOR 1, s_generation current + 1), w\<lparr>tx_ctx := c\<rparr>))"

text \<open>\<open>if (r == PICOKEYS_OK) ...\<close>, and the commit to flash with its time limit.\<close>

definition then_do :: "status \<times> 'c txn \<Rightarrow> ('c txn \<Rightarrow> status \<times> 'c txn) \<Rightarrow> status \<times> 'c txn" where
  "then_do rw g = (case rw of (r, w) \<Rightarrow> if r = PICOKEYS_OK then g w else (r, w))"

definition then_commit :: "status \<times> 'c txn \<Rightarrow> status \<times> 'c txn" where
  "then_commit rw = then_do rw (\<lambda>w. case commit_sync w of (ok, w) \<Rightarrow> (if ok then PICOKEYS_OK else PICOKEYS_ERR_MEMORY_FATAL, w))"

definition clear_slot :: "file_object_txn_layout \<Rightarrow> u8 \<Rightarrow> 'c txn \<Rightarrow> status \<times> 'c txn" where
  "clear_slot l slot w = then_do (file_object_txn_remove_file (pick (l_commit_fid l) slot) w)
     (file_object_txn_remove_file (pick (l_record_fid l) slot))"

definition file_object_txn_put ::
    "file_object_txn_layout \<Rightarrow> 'c file_object_authenticator option \<Rightarrow> bytes \<Rightarrow> 'c txn \<Rightarrow> status \<times> 'c txn" where
  "file_object_txn_put l auth data w =
    (if \<not> file_object_txn_layout_valid w l \<or> \<not> file_object_manifest_auth_valid auth then (PICOKEYS_ERR_NULL_PARAM, w)
     else if length data > 2 ^ 32 - 1 then (PICOKEYS_WRONG_LENGTH, w)
     else (case file_object_txn_next_state l (the auth) w of
         (Inl r, w) \<Rightarrow> (r, w)
       | (Inr (target_slot, generation), w) \<Rightarrow>
         (case clear_slot l target_slot w of (r, w) \<Rightarrow>
            if r \<noteq> PICOKEYS_OK then (r, w)
            else (case file_object_txn_write_record l (the auth) target_slot generation generation data w of
              (r, record_tag, w) \<Rightarrow>
                then_commit (then_do (then_commit (r, w))
                  (file_object_txn_write_commit l (the auth) target_slot target_slot generation generation (length data) record_tag False))))))"

definition file_object_txn_delete ::
    "file_object_txn_layout \<Rightarrow> 'c file_object_authenticator option \<Rightarrow> 'c txn \<Rightarrow> status \<times> 'c txn" where
  "file_object_txn_delete l auth w =
    (if \<not> file_object_txn_layout_valid w l \<or> \<not> file_object_manifest_auth_valid auth then (PICOKEYS_ERR_NULL_PARAM, w)
     else (case file_object_txn_recover l (the auth) (tx_files w) (tx_ctx w) of
         (Inl r, c) \<Rightarrow> (r, w\<lparr>tx_ctx := c\<rparr>)
       | (Inr current, c) \<Rightarrow>
           (let w = w\<lparr>tx_ctx := c\<rparr>; target_slot = s_commit_slot current XOR 1 in
            if s_deleted current then (PICOKEYS_ERR_FILE_NOT_FOUND, w)
            else if s_generation current = 0xffffffff then (PICOKEYS_WRONG_DATA, w)
            else then_commit (then_do (then_commit (clear_slot l target_slot w))
              (file_object_txn_write_commit l (the auth) target_slot 0xff (s_generation current + 1) 0 0 (replicate 16 0) True)))))"
section \<open>What the slots hold\<close>

text \<open>
  The same without the calls: which records and commits are accepted under a MAC, the state a slot commits to,
  the current one, and the bytes of the object.
\<close>

definition record_valid :: "(bytes \<Rightarrow> bytes) \<Rightarrow> file_object_txn_layout \<Rightarrow> (u16 \<rightharpoonup> bytes) \<Rightarrow> u8 \<Rightarrow> u32 \<Rightarrow> u32 \<Rightarrow> u32 \<Rightarrow> bytes \<Rightarrow> bool" where
  "record_valid mac l fs slot generation record_id payload_size tag \<longleftrightarrow> slot \<le> 1 \<and>
     (case fs (pick (l_record_fid l) slot) of None \<Rightarrow> False | Some d \<Rightarrow>
        unat payload_size \<le> 2 ^ 32 - 1 - 32 - 16 \<and> length d = 32 + unat payload_size + 16 \<and>
        record_header_ok l slot generation record_id payload_size (take 32 d) \<and>
        mac (take (32 + unat payload_size) d) = drop (32 + unat payload_size) d \<and>
        mac (take (32 + unat payload_size) d) = take 16 tag)"

definition commit_deleted :: "bytes \<Rightarrow> bool" where
  "commit_deleted d \<longleftrightarrow> d ! 27 AND 1 \<noteq> 0"

definition commit_state :: "u8 \<Rightarrow> bytes \<Rightarrow> file_object_txn_state" where
  "commit_state slot d = \<lparr>s_generation = get_uint32_be (drop 16 d), s_record_id = get_uint32_be (drop 20 d),
     s_payload_size = get_uint32_be (drop 28 d), s_commit_slot = slot, s_record_slot = d ! 26, s_deleted = commit_deleted d\<rparr>"

definition commit_authentic :: "(bytes \<Rightarrow> bytes) \<Rightarrow> file_object_txn_layout \<Rightarrow> u8 \<Rightarrow> bytes \<Rightarrow> bool" where
  "commit_authentic mac l slot d \<longleftrightarrow> length d = 64 \<and> commit_header_ok l slot d \<and> mac (take 48 d) = drop 48 d"

definition commit_valid :: "(bytes \<Rightarrow> bytes) \<Rightarrow> file_object_txn_layout \<Rightarrow> (u16 \<rightharpoonup> bytes) \<Rightarrow> u8 \<Rightarrow> bytes \<Rightarrow> bool" where
  "commit_valid mac l fs slot d \<longleftrightarrow> commit_authentic mac l slot d \<and>
     (let s = commit_state slot d in
      if commit_deleted d then s_record_id s = 0 \<and> s_payload_size s = 0 \<and> get_uint16_be (drop 24 d) = 0 \<and> s_record_slot s = 0xff \<and>
        slice 32 16 d = replicate 16 0
      else s_record_slot s \<le> 1 \<and> get_uint16_be (drop 24 d) = pick (l_record_fid l) (s_record_slot s) \<and> s_record_id s \<noteq> 0 \<and>
        record_valid mac l fs (s_record_slot s) (s_generation s) (s_record_id s) (s_payload_size s) (drop 32 d))"

definition commit_of :: "(bytes \<Rightarrow> bytes) \<Rightarrow> file_object_txn_layout \<Rightarrow> (u16 \<rightharpoonup> bytes) \<Rightarrow> u8 \<Rightarrow> file_object_txn_state option" where
  "commit_of mac l fs slot = (case fs (pick (l_commit_fid l) slot) of None \<Rightarrow> None
     | Some d \<Rightarrow> if commit_valid mac l fs slot d then Some (commit_state slot d) else None)"

definition txn_current :: "(bytes \<Rightarrow> bytes) \<Rightarrow> file_object_txn_layout \<Rightarrow> (u16 \<rightharpoonup> bytes) \<Rightarrow> status + file_object_txn_state" where
  "txn_current mac l fs = (case (commit_of mac l fs 0, commit_of mac l fs 1) of
     (None, None) \<Rightarrow> Inl PICOKEYS_ERR_FILE_NOT_FOUND
   | (Some s, None) \<Rightarrow> Inr s
   | (None, Some s) \<Rightarrow> Inr s
   | (Some s, Some s') \<Rightarrow> if s_generation s' = s_generation s then Inl PICOKEYS_WRONG_DATA
       else Inr (if s_generation s' > s_generation s then s' else s))"

definition txn_value :: "(bytes \<Rightarrow> bytes) \<Rightarrow> file_object_txn_layout \<Rightarrow> (u16 \<rightharpoonup> bytes) \<Rightarrow> bytes option" where
  "txn_value mac l fs = (case txn_current mac l fs of
     Inl _ \<Rightarrow> None
   | Inr s \<Rightarrow> if s_deleted s then None
       else Some (slice 32 (unat (s_payload_size s)) (the (fs (pick (l_record_fid l) (s_record_slot s))))))"

text \<open>An authentic commit of a record points to the record file of its own slot.\<close>

definition txn_inv :: "(bytes \<Rightarrow> bytes) \<Rightarrow> file_object_txn_layout \<Rightarrow> (u16 \<rightharpoonup> bytes) \<Rightarrow> bool" where
  "txn_inv mac l fs \<longleftrightarrow> (\<forall>slot\<in>{0, 1}. \<forall>d. fs (pick (l_commit_fid l) slot) = Some d \<longrightarrow> commit_authentic mac l slot d \<longrightarrow>
     \<not> commit_deleted d \<longrightarrow> d ! 26 = slot)"

lemma tag_equal_iff: "16 \<le> length l \<Longrightarrow> 16 \<le> length r \<Longrightarrow> file_object_txn_tag_equal l r \<longleftrightarrow> take 16 l = take 16 r"
  by (simp add: file_object_txn_tag_equal_def diff_bytes_take)

lemma read_at_Some: "fs fid = Some d \<Longrightarrow> off + n \<le> length d \<Longrightarrow> read_at fs fid off n = Inr (slice off n d)"
  by (auto simp: read_at_def)

context mac_authenticator
begin

lemma auth_buffer_mac:
  assumes "ready c"
  shows "\<exists>c'. file_object_txn_auth_buffer auth c x y = (PICOKEYS_OK, mac (x @ y), c') \<and> ready c'"
proof -
  obtain c1 where 1: "the (auth_start auth) c = (PICOKEYS_OK, c1)" "active c1 []" using start_ok [OF assms] by blast
  obtain c2 where 2: "the (auth_update auth) c1 x = (PICOKEYS_OK, c2)" "active c2 x" using update_ok [OF 1(2), of x] by auto
  show ?thesis
  proof (cases "y = []")
    case True
    then show ?thesis using finish_ok [OF 2(2)] 1 2 by (auto simp: file_object_txn_auth_buffer_def)
  next
    case False
    obtain c3 where 3: "the (auth_update auth) c2 y = (PICOKEYS_OK, c3)" "active c3 (x @ y)" using update_ok [OF 2(2), of y] by auto
    then show ?thesis using finish_ok [OF 3(2)] 1 2 False by (auto simp: file_object_txn_auth_buffer_def)
  qed
qed

lemma auth_payload_mac:
  assumes "fs fid = Some d" "32 + n \<le> length d" "off \<le> n" "active c fed"
  shows "\<exists>c'. auth_payload auth fs fid n off c = (PICOKEYS_OK, c') \<and> active c' (fed @ slice (32 + off) (n - off) d)"
  using assms(2-4)
proof (induction "n - off" arbitrary: off c fed rule: less_induct)
  case less
  show ?case
  proof (cases "off < n")
    case False
    then show ?thesis using less.prems by (subst auth_payload.simps) (simp add: slice_def)
  next
    case True
    define k where "k = min 256 (n - off)"
    have k: "0 < k" "off + k \<le> n" "n - (off + k) < n - off" using True by (auto simp: k_def)
    have rd: "read_at fs fid (32 + off) k = Inr (slice (32 + off) k d)" using less.prems k by (intro read_at_Some [of fs fid, OF assms(1)]) auto
    obtain c1 where 1: "the (auth_update auth) c (slice (32 + off) k d) = (PICOKEYS_OK, c1)" "active c1 (fed @ slice (32 + off) k d)"
      using update_ok [OF less.prems(3)] by blast
    obtain c2 where 2: "auth_payload auth fs fid n (off + k) c1 = (PICOKEYS_OK, c2)"
        "active c2 ((fed @ slice (32 + off) k d) @ slice (32 + (off + k)) (n - (off + k)) d)"
      using less.hyps [OF k(3) less.prems(1) k(2) 1(2)] by auto
    have "slice (32 + off) k d @ slice (32 + (off + k)) (n - (off + k)) d = slice (32 + off) (n - off) d"
      using slice_join [of "32 + (off + k)" "32 + off" k d "n - (off + k)"] k by simp
    then show ?thesis using 1(1) 2 True rd by (subst auth_payload.simps) (simp add: Let_def k_def)
  qed
qed

lemma auth_record_mac:
  assumes "fs fid = Some d" "32 + n \<le> length d" "ready c"
  shows "\<exists>c'. file_object_txn_auth_record auth fs fid (take 32 d) n c = (PICOKEYS_OK, mac (take (32 + n) d), c') \<and> ready c'"
proof -
  obtain c1 where 1: "the (auth_start auth) c = (PICOKEYS_OK, c1)" "active c1 []" using start_ok [OF assms(3)] by blast
  obtain c2 where 2: "the (auth_update auth) c1 (take 32 d) = (PICOKEYS_OK, c2)" "active c2 (take 32 d)"
    using update_ok [OF 1(2), of "take 32 d"] by auto
  obtain c3 where 3: "auth_payload auth fs fid n 0 c2 = (PICOKEYS_OK, c3)" "active c3 (take 32 d @ slice 32 n d)"
    using auth_payload_mac [of fs fid d n 0, OF assms(1,2) _ 2(2)] by auto
  have "take 32 d @ slice 32 n d = take (32 + n) d" by (simp add: slice_def take_add)
  then show ?thesis using 1(1) 2(1) 3 finish_ok [OF 3(2)] by (auto simp: file_object_txn_auth_record_def)
qed

lemma validate_record_spec:
  assumes "ready c" "16 \<le> length tag"
  shows "\<exists>r c'. file_object_txn_validate_record l auth fs slot g i n tag c = (r, c') \<and> ready c' \<and>
    (r = PICOKEYS_OK \<longleftrightarrow> record_valid mac l fs slot g i n tag) \<and> (r \<noteq> PICOKEYS_OK \<longrightarrow> file_object_txn_invalid_record r)"
proof (cases "slot > 1 \<or> \<not> has_data fs (pick (l_record_fid l) slot)")
  case True
  then show ?thesis using assms(1)
    by (auto simp: file_object_txn_validate_record_def record_valid_def has_data_def file_object_txn_invalid_record_def Let_def
        split: option.splits)
next
  case False
  then obtain d where d: "fs (pick (l_record_fid l) slot) = Some d" "d \<noteq> []" "slot \<le> 1" "\<not> slot > 1" by (auto simp: has_data_def split: option.splits)
  note unf = file_object_txn_validate_record_def Let_def has_data_def size_of_def d(1)
  show ?thesis
  proof (cases "unat n > 2 ^ 32 - 1 - 32 - 16 \<or> length d \<noteq> 32 + unat n + 16 \<or> \<not> record_header_ok l slot g i n (take 32 d)")
    case True
    then show ?thesis using assms(1) d read_at_Some [of fs "pick (l_record_fid l) slot" d 0 32, OF d(1)]
      by (auto simp: unf record_valid_def file_object_txn_invalid_record_def slice_def)
  next
    case False
    then have s: "\<not> (unat n > 2 ^ 32 - 1 - 32 - 16 \<or> length d \<noteq> 32 + unat n + 16)" "record_header_ok l slot g i n (take 32 d)"
      "length d = 32 + unat n + 16" by auto
    have r: "read_at fs (pick (l_record_fid l) slot) 0 32 = Inr (take 32 d)"
        "read_at fs (pick (l_record_fid l) slot) (32 + unat n) 16 = Inr (drop (32 + unat n) d)"
      using read_at_Some [of fs "pick (l_record_fid l) slot" d 0 32, OF d(1)] read_at_Some [of fs "pick (l_record_fid l) slot" d "32 + unat n" 16, OF d(1)] s(3) by (simp_all add: slice_def)
    obtain c' where a: "file_object_txn_auth_record auth fs (pick (l_record_fid l) slot) (take 32 d) (unat n) c =
        (PICOKEYS_OK, mac (take (32 + unat n) d), c')" "ready c'"
      using auth_record_mac [of fs "pick (l_record_fid l) slot" d "unat n", OF d(1) _ assms(1)] s(3) by auto
    have "file_object_txn_tag_equal (mac (take (32 + unat n) d)) (drop (32 + unat n) d) \<longleftrightarrow> mac (take (32 + unat n) d) = drop (32 + unat n) d"
      "file_object_txn_tag_equal (mac (take (32 + unat n) d)) tag \<longleftrightarrow> mac (take (32 + unat n) d) = take 16 tag"
      using s(3) assms(2) by (simp_all add: tag_equal_iff length_mac)
    then show ?thesis
      using a s r d by (auto simp: unf record_valid_def file_object_txn_invalid_record_def)
  qed
qed

end

context mac_authenticator
begin

lemma parse_commit_spec:
  assumes "ready c"
  shows "\<exists>c'. ready c' \<and> (case commit_of mac l fs slot of
      Some s \<Rightarrow> file_object_txn_parse_commit l auth fs slot c = (Inr s, c')
    | None \<Rightarrow> \<exists>r. file_object_txn_invalid_record r \<and> file_object_txn_parse_commit l auth fs slot c = (Inl r, c'))"
proof (cases "fs (pick (l_commit_fid l) slot)")
  case None
  then show ?thesis using assms
    by (auto simp: commit_of_def file_object_txn_parse_commit_def has_data_def file_object_txn_invalid_record_def Let_def)
next
  case (Some d)
  have rd: "length d = 64 \<Longrightarrow> read_at fs (pick (l_commit_fid l) slot) 0 64 = Inr d"
    using read_at_Some [of fs "pick (l_commit_fid l) slot" d 0 64, OF Some] by (simp add: slice_def)
  note unf = file_object_txn_parse_commit_def has_data_def size_of_def Some Let_def
  show ?thesis
  proof (cases "length d = 64 \<and> commit_header_ok l slot d")
    case False
    then have "\<exists>r. file_object_txn_invalid_record r \<and> file_object_txn_parse_commit l auth fs slot c = (Inl r, c)"
      using rd by (auto simp: unf file_object_txn_invalid_record_def)
    moreover have "commit_of mac l fs slot = None" using False Some by (auto simp: commit_of_def commit_valid_def commit_authentic_def)
    ultimately show ?thesis using assms by auto
  next
    case True
    then have len: "length d = 64" "commit_header_ok l slot d" "d \<noteq> []" by auto
    obtain c1 where a: "file_object_txn_auth_buffer auth c (take 48 d) [] = (PICOKEYS_OK, mac (take 48 d), c1)" "ready c1"
      using auth_buffer_mac [OF assms, of "take 48 d" "[]"] by auto
    have te: "file_object_txn_tag_equal (mac (take 48 d)) (drop 48 d) \<longleftrightarrow> mac (take 48 d) = drop 48 d"
      using len(1) by (simp add: tag_equal_iff length_mac)
    have tz: "file_object_txn_tag_equal (drop 32 d) (replicate 16 0) \<longleftrightarrow> slice 32 16 d = replicate 16 0"
      using len(1) by (simp add: tag_equal_iff slice_def)
    have run: "file_object_txn_parse_commit l auth fs slot c =
      (if mac (take 48 d) \<noteq> drop 48 d then (Inl PICOKEYS_WRONG_SIGNATURE, c1)
       else if commit_deleted d then
         (if get_uint32_be (drop 20 d) \<noteq> 0 \<or> get_uint32_be (drop 28 d) \<noteq> 0 \<or> get_uint16_be (drop 24 d) \<noteq> 0 \<or> d ! 26 \<noteq> 0xff \<or>
            slice 32 16 d \<noteq> replicate 16 0
          then (Inl PICOKEYS_WRONG_DATA, c1) else (Inr (commit_state slot d), c1))
       else if d ! 26 > 1 \<or> get_uint16_be (drop 24 d) \<noteq> pick (l_record_fid l) (d ! 26) \<or> get_uint32_be (drop 20 d) = 0
       then (Inl PICOKEYS_WRONG_DATA, c1)
       else (case file_object_txn_validate_record l auth fs (d ! 26) (get_uint32_be (drop 16 d)) (get_uint32_be (drop 20 d))
           (get_uint32_be (drop 28 d)) (drop 32 d) c1 of (r, c) \<Rightarrow> if r \<noteq> PICOKEYS_OK then (Inl r, c) else (Inr (commit_state slot d), c)))"
      using len rd [OF len(1)] a(1) te tz unfolding unf commit_state_def commit_deleted_def by simp
    obtain r c2 where v: "file_object_txn_validate_record l auth fs (d ! 26) (get_uint32_be (drop 16 d)) (get_uint32_be (drop 20 d))
        (get_uint32_be (drop 28 d)) (drop 32 d) c1 = (r, c2)" "ready c2"
      "r = PICOKEYS_OK \<longleftrightarrow> record_valid mac l fs (d ! 26) (get_uint32_be (drop 16 d)) (get_uint32_be (drop 20 d)) (get_uint32_be (drop 28 d)) (drop 32 d)"
      "r \<noteq> PICOKEYS_OK \<longrightarrow> file_object_txn_invalid_record r"
      using validate_record_spec [OF a(2), of "drop 32 d"] len(1) by auto metis
    have co: "commit_of mac l fs slot = (if mac (take 48 d) = drop 48 d \<and>
        (if commit_deleted d then get_uint32_be (drop 20 d) = 0 \<and> get_uint32_be (drop 28 d) = 0 \<and> get_uint16_be (drop 24 d) = 0 \<and> d ! 26 = 0xff \<and>
           slice 32 16 d = replicate 16 0
         else \<not> d ! 26 > 1 \<and> get_uint16_be (drop 24 d) = pick (l_record_fid l) (d ! 26) \<and> get_uint32_be (drop 20 d) \<noteq> 0 \<and> r = PICOKEYS_OK)
        then Some (commit_state slot d) else None)"
      using len Some v(3) by (auto simp: commit_of_def commit_valid_def commit_authentic_def commit_state_def Let_def not_less)
    show ?thesis unfolding run v(1) prod.case co using a(2) v(2,4) by (auto simp: file_object_txn_invalid_record_def)
  qed
qed

lemma recover_spec:
  assumes "ready c"
  shows "\<exists>c'. ready c' \<and> file_object_txn_recover l auth fs c = (txn_current mac l fs, c')"
proof -
  obtain c1 where p0: "ready c1" "case commit_of mac l fs 0 of
      Some s \<Rightarrow> file_object_txn_parse_commit l auth fs 0 c = (Inr s, c1)
    | None \<Rightarrow> \<exists>r. file_object_txn_invalid_record r \<and> file_object_txn_parse_commit l auth fs 0 c = (Inl r, c1)"
    using parse_commit_spec [OF assms] by blast
  obtain c2 where p1: "ready c2" "case commit_of mac l fs 1 of
      Some s \<Rightarrow> file_object_txn_parse_commit l auth fs 1 c1 = (Inr s, c2)
    | None \<Rightarrow> \<exists>r. file_object_txn_invalid_record r \<and> file_object_txn_parse_commit l auth fs 1 c1 = (Inl r, c2)"
    using parse_commit_spec [OF p0(1)] by blast
  have "file_object_txn_recover l auth fs c = (txn_current mac l fs, c2)"
    using p0(2) p1(2)
    by (cases "commit_of mac l fs 0"; cases "commit_of mac l fs 1") (auto simp: file_object_txn_recover_def txn_current_def)
  then show ?thesis using p1(1) by blast
qed

end

section \<open>Slots are independent\<close>

definition other :: "u8 \<Rightarrow> u8" where "other slot = slot XOR 1"

lemma other_simps [simp]: "other 0 = 1" "other 1 = 0"
  by (simp_all add: other_def)

definition layout_distinct :: "file_object_txn_layout \<Rightarrow> bool" where
  "layout_distinct l \<longleftrightarrow> distinct [fst (l_record_fid l), snd (l_record_fid l), fst (l_commit_fid l), snd (l_commit_fid l)]"

lemma pick_distinct:
  assumes "layout_distinct l" "t \<in> {0, 1}"
  shows "pick (l_commit_fid l) t \<noteq> pick (l_record_fid l) t" "pick (l_commit_fid l) (other t) \<noteq> pick (l_commit_fid l) t"
    "pick (l_commit_fid l) (other t) \<noteq> pick (l_record_fid l) t" "pick (l_record_fid l) (other t) \<noteq> pick (l_commit_fid l) t"
    "pick (l_record_fid l) (other t) \<noteq> pick (l_record_fid l) t"
  using assms by (auto simp: layout_distinct_def pick_def)

text \<open>The files of the other slot are as they were.\<close>

definition keeps_slot :: "file_object_txn_layout \<Rightarrow> u8 \<Rightarrow> (u16 \<rightharpoonup> bytes) \<Rightarrow> (u16 \<rightharpoonup> bytes) \<Rightarrow> bool" where
  "keeps_slot l k fs fs' \<longleftrightarrow> fs' (pick (l_commit_fid l) k) = fs (pick (l_commit_fid l) k) \<and> fs' (pick (l_record_fid l) k) = fs (pick (l_record_fid l) k)"

lemma commit_of_keeps:
  assumes "txn_inv mac l fs" "k \<in> {0, 1}" "keeps_slot l k fs fs'"
  shows "commit_of mac l fs' k = commit_of mac l fs k"
proof (cases "fs (pick (l_commit_fid l) k)")
  case None
  then show ?thesis using assms(3) by (simp add: commit_of_def keeps_slot_def)
next
  case (Some d)
  have "commit_valid mac l fs' k d = commit_valid mac l fs k d"
  proof (cases "commit_authentic mac l k d \<and> \<not> commit_deleted d")
    case True
    then have "d ! 26 = k" using assms(1,2) Some by (auto simp: txn_inv_def)
    then show ?thesis using assms(3) by (simp add: commit_valid_def commit_state_def record_valid_def keeps_slot_def Let_def)
  qed (auto simp: commit_valid_def Let_def)
  then show ?thesis using Some assms(3) by (simp add: commit_of_def keeps_slot_def)
qed

lemma commit_of_no_data: "\<not> has_data fs (pick (l_commit_fid l) slot) \<Longrightarrow> commit_of mac l fs slot = None"
  by (auto simp: commit_of_def has_data_def commit_valid_def commit_authentic_def split: option.splits)

lemma commit_of_slot: "commit_of mac l fs slot = Some s \<Longrightarrow> s_commit_slot s = slot"
  by (auto simp: commit_of_def commit_state_def split: option.splits if_splits)

lemma commit_of_record_slot:
  "txn_inv mac l fs \<Longrightarrow> slot \<in> {0, 1} \<Longrightarrow> commit_of mac l fs slot = Some s \<Longrightarrow> s_deleted s \<or> s_record_slot s = slot"
  by (auto simp: commit_of_def commit_state_def txn_inv_def commit_valid_def split: option.splits if_splits)

lemma current_slot:
  "txn_current mac l fs = Inr s \<Longrightarrow> s_commit_slot s \<in> {0, 1} \<and> commit_of mac l fs (s_commit_slot s) = Some s"
proof -
  assume "txn_current mac l fs = Inr s"
  then obtain slot where "slot \<in> {0, 1}" "commit_of mac l fs slot = Some s"
    by (auto simp: txn_current_def split: option.splits if_splits)
  then show ?thesis using commit_of_slot by metis
qed

lemma inv_keeps:
  assumes "txn_inv mac l fs" "t \<in> {0, 1}" "keeps_slot l (other t) fs fs'"
    "\<And>d. fs' (pick (l_commit_fid l) t) = Some d \<Longrightarrow> commit_authentic mac l t d \<Longrightarrow> \<not> commit_deleted d \<Longrightarrow> d ! 26 = t"
  shows "txn_inv mac l fs'"
  using assms by (auto simp: txn_inv_def keeps_slot_def)
text \<open>With the other slot unchanged, what is current depends on the commit of the slot that was written.\<close>

lemma current_from_slots:
  assumes "t \<in> {0, 1}"
  shows "txn_current mac l fs = (case (commit_of mac l fs (other t), commit_of mac l fs t) of
     (None, None) \<Rightarrow> Inl PICOKEYS_ERR_FILE_NOT_FOUND
   | (Some s, None) \<Rightarrow> Inr s
   | (None, Some s) \<Rightarrow> Inr s
   | (Some s, Some s') \<Rightarrow> if s_generation s' = s_generation s then Inl PICOKEYS_WRONG_DATA
       else Inr (if s_generation s' > s_generation s then s' else s))"
  using assms by (auto simp: txn_current_def split: option.splits)

text \<open>The slot a writer takes: the one that is not current, with the next generation.\<close>

definition next_slot :: "(bytes \<Rightarrow> bytes) \<Rightarrow> file_object_txn_layout \<Rightarrow> (u16 \<rightharpoonup> bytes) \<Rightarrow> u8 \<Rightarrow> u32 \<Rightarrow> bool" where
  "next_slot mac l fs t g \<longleftrightarrow> t \<in> {0, 1} \<and> g \<noteq> 0 \<and>
     (case txn_current mac l fs of Inl r \<Rightarrow> r = PICOKEYS_ERR_FILE_NOT_FOUND \<and> g = 1
      | Inr s \<Rightarrow> s_commit_slot s = other t \<and> g = s_generation s + 1 \<and> s_generation s < g)"

lemma next_slot_other:
  assumes "next_slot mac l fs t g"
  shows "commit_of mac l fs (other t) = (case txn_current mac l fs of Inl _ \<Rightarrow> None | Inr s \<Rightarrow> Some s)"
proof -
  have t: "t \<in> {0, 1}" using assms by (simp add: next_slot_def)
  show ?thesis
  proof (cases "txn_current mac l fs")
    case (Inl r)
    then have "r = PICOKEYS_ERR_FILE_NOT_FOUND" using assms by (simp add: next_slot_def)
    with Inl show ?thesis unfolding current_from_slots [OF t, of mac l fs] by (auto split: option.splits if_splits)
  next
    case (Inr s)
    then show ?thesis using assms current_slot [OF Inr] by (simp add: next_slot_def)
  qed
qed

lemma slot_cleared:
  assumes "txn_inv mac l fs" "next_slot mac l fs t g" "keeps_slot l (other t) fs fs'" "commit_of mac l fs' t = None"
  shows "txn_current mac l fs' = txn_current mac l fs" "txn_value mac l fs' = txn_value mac l fs"
proof -
  have t: "t \<in> {0, 1}" "other t \<in> {0, 1}" using assms(2) by (auto simp: next_slot_def)
  have o: "commit_of mac l fs' (other t) = commit_of mac l fs (other t)" by (rule commit_of_keeps [OF assms(1) t(2) assms(3)])
  show c: "txn_current mac l fs' = txn_current mac l fs"
  proof (cases "txn_current mac l fs")
    case (Inl r)
    then have "r = PICOKEYS_ERR_FILE_NOT_FOUND" using assms(2) by (simp add: next_slot_def)
    then show ?thesis
      unfolding Inl current_from_slots [OF t(1), of mac l fs'] using next_slot_other [OF assms(2)] Inl o assms(4) by simp
  next
    case (Inr s)
    then show ?thesis
      unfolding Inr current_from_slots [OF t(1), of mac l fs'] using next_slot_other [OF assms(2)] Inr o assms(4) by simp
  qed
  show "txn_value mac l fs' = txn_value mac l fs"
  proof (cases "txn_current mac l fs")
    case (Inr s)
    then have "commit_of mac l fs (other t) = Some s" using next_slot_other [OF assms(2)] by simp
    then have "s_deleted s \<or> s_record_slot s = other t" using commit_of_record_slot [OF assms(1) t(2)] by blast
    then show ?thesis using c Inr assms(3) by (auto simp: txn_value_def keeps_slot_def)
  qed (simp add: txn_value_def c)
qed

lemma slot_written:
  assumes "txn_inv mac l fs" "next_slot mac l fs t g" "keeps_slot l (other t) fs fs'" "commit_of mac l fs' t = Some s" "s_generation s = g"
  shows "txn_current mac l fs' = Inr s"
proof -
  have t: "t \<in> {0, 1}" "other t \<in> {0, 1}" using assms(2) by (auto simp: next_slot_def)
  have o: "commit_of mac l fs' (other t) = (case txn_current mac l fs of Inl _ \<Rightarrow> None | Inr s \<Rightarrow> Some s)"
    using commit_of_keeps [OF assms(1) t(2) assms(3)] next_slot_other [OF assms(2)] by simp
  then show ?thesis
    unfolding current_from_slots [OF t(1), of mac l fs'] using assms(2,4,5)
    by (cases "txn_current mac l fs") (auto simp: next_slot_def)
qed

section \<open>The bytes written are accepted\<close>

lemma record_header_length [simp]: "length (txn_record_header l t g i n) = 32"
  by (simp add: txn_record_header_def record_magic_def)

lemma zero16: "get_uint16_be (0 # 0 # x) = 0"
  by (simp add: get_uint16_be_def make_uint16_be_def)

lemma record_header_accepted: "record_header_ok l t g i (word_of_nat n) (txn_record_header l t g i n)"
  by (simp add: record_header_ok_def txn_record_header_def record_magic_def nth_append nth_Cons' zero16)

lemma commit_header_length [simp]: "length tag = 16 \<Longrightarrow> length (txn_commit_header l t rs g i n tag deleted) = 48"
  by (simp add: txn_commit_header_def commit_magic_def)

lemma commit_header_accepted:
  assumes "length tag = 16" "g \<noteq> 0"
  shows "commit_header_ok l t (txn_commit_header l t rs g i n tag deleted @ x)"
  using assms by (simp add: commit_header_ok_def txn_commit_header_def commit_magic_def nth_append nth_Cons')
lemma commit_header_fields:
  fixes tag x :: bytes and l :: file_object_txn_layout and t :: u8 and g i :: u32 and n :: nat
  assumes "length tag = 16"
  defines "d \<equiv> txn_commit_header l t t g i n tag False @ x"
  shows "get_uint32_be (drop 16 d) = g" "get_uint32_be (drop 20 d) = i" "get_uint16_be (drop 24 d) = pick (l_record_fid l) t"
    "d ! 26 = t" "d ! 27 = 0" "get_uint32_be (drop 28 d) = word_of_nat n" "take 16 (drop 32 d) = tag"
  using assms(1) by (simp_all add: d_def txn_commit_header_def commit_magic_def nth_append nth_Cons')

lemma commit_header_fields_deleted:
  fixes tag x :: bytes and l :: file_object_txn_layout and t rs :: u8 and g i :: u32 and n :: nat
  defines "d \<equiv> txn_commit_header l t rs g i n tag True @ x"
  shows "get_uint32_be (drop 16 d) = g" "get_uint32_be (drop 20 d) = 0" "get_uint16_be (drop 24 d) = 0"
    "d ! 26 = 0xff" "d ! 27 = 1" "get_uint32_be (drop 28 d) = 0" "slice 32 16 d = replicate 16 0"
proof -
  have z: "replicate 4 (0 :: u8) = put_uint32_be 0" "replicate 2 (0 :: u8) = put_uint16_be 0"
    by (simp_all add: put_uint32_be_def put_uint16_be_def numeral_eq_Suc)
  show "get_uint32_be (drop 16 d) = g" "get_uint32_be (drop 20 d) = 0" "get_uint16_be (drop 24 d) = 0"
    "d ! 26 = 0xff" "d ! 27 = 1" "get_uint32_be (drop 28 d) = 0" "slice 32 16 d = replicate 16 0"
    unfolding d_def txn_commit_header_def if_True z by (simp_all add: commit_magic_def nth_append nth_Cons' slice_def)
qed

definition built_record :: "(bytes \<Rightarrow> bytes) \<Rightarrow> file_object_txn_layout \<Rightarrow> u8 \<Rightarrow> u32 \<Rightarrow> bytes \<Rightarrow> bytes" where
  "built_record mac l t g data = (let h = txn_record_header l t g g (length data) in h @ data @ mac (h @ data))"

definition built_tag :: "(bytes \<Rightarrow> bytes) \<Rightarrow> file_object_txn_layout \<Rightarrow> u8 \<Rightarrow> u32 \<Rightarrow> bytes \<Rightarrow> bytes" where
  "built_tag mac l t g data = mac (txn_record_header l t g g (length data) @ data)"

definition built_commit :: "(bytes \<Rightarrow> bytes) \<Rightarrow> file_object_txn_layout \<Rightarrow> u8 \<Rightarrow> u32 \<Rightarrow> bytes \<Rightarrow> bytes" where
  "built_commit mac l t g data = (let h = txn_commit_header l t t g g (length data) (built_tag mac l t g data) False in h @ mac h)"

definition deleted_commit :: "(bytes \<Rightarrow> bytes) \<Rightarrow> file_object_txn_layout \<Rightarrow> u8 \<Rightarrow> u32 \<Rightarrow> bytes" where
  "deleted_commit mac l t g = (let h = txn_commit_header l t 0xff g 0 0 (replicate 16 0) True in h @ mac h)"

context mac_authenticator
begin

lemma built_record_valid:
  assumes "fs (pick (l_record_fid l) t) = Some (built_record mac l t g data)" "t \<in> {0, 1}" "length data \<le> 2 ^ 32 - 1 - 32 - 16"
    "take 16 tag = built_tag mac l t g data"
  shows "record_valid mac l fs t g g (word_of_nat (length data)) tag"
proof -
  have u: "unat (word_of_nat (length data) :: u32) = length data" using assms(3) by (simp add: unsigned_of_nat take_bit_nat_eq_self)
  have "t \<le> 1" using assms(2) by auto
  then show ?thesis
    using assms u record_header_accepted [of l t g g "length data"] length_mac
    by (simp add: record_valid_def built_record_def built_tag_def Let_def)
qed

lemma built_commit_of:
  assumes "fs (pick (l_commit_fid l) t) = Some (built_commit mac l t g data)" "fs (pick (l_record_fid l) t) = Some (built_record mac l t g data)"
    "t \<in> {0, 1}" "g \<noteq> 0" "length data \<le> 2 ^ 32 - 1 - 32 - 16"
  shows "commit_of mac l fs t = Some \<lparr>s_generation = g, s_record_id = g, s_payload_size = word_of_nat (length data), s_commit_slot = t,
    s_record_slot = t, s_deleted = False\<rparr>"
proof -
  let ?tag = "built_tag mac l t g data"
  have lt: "length ?tag = 16" by (simp add: built_tag_def length_mac)
  let ?h = "txn_commit_header l t t g g (length data) ?tag False"
  have d: "built_commit mac l t g data = ?h @ mac ?h" by (simp add: built_commit_def Let_def)
  note f = commit_header_fields [OF lt, of l t g g "length data" "mac ?h", folded d]
  have "t \<le> 1" using assms(3) by auto
  moreover have "commit_authentic mac l t (built_commit mac l t g data)"
    unfolding d commit_authentic_def using commit_header_accepted [OF lt assms(4)] lt by (simp add: length_mac)
  ultimately have "commit_valid mac l fs t (built_commit mac l t g data)"
    using built_record_valid [where fs = fs, OF assms(2,3,5) f(7)] f assms(4) by (simp add: commit_valid_def commit_deleted_def commit_state_def Let_def)
  then show ?thesis using assms(1) f by (simp add: commit_of_def commit_state_def commit_deleted_def)
qed

lemma deleted_commit_of:
  assumes "fs (pick (l_commit_fid l) t) = Some (deleted_commit mac l t g)" "g \<noteq> 0"
  shows "commit_of mac l fs t = Some \<lparr>s_generation = g, s_record_id = 0, s_payload_size = 0, s_commit_slot = t, s_record_slot = 0xff, s_deleted = True\<rparr>"
proof -
  let ?h = "txn_commit_header l t 0xff g 0 0 (replicate 16 0) True"
  have d: "deleted_commit mac l t g = ?h @ mac ?h" by (simp add: deleted_commit_def Let_def)
  note f = commit_header_fields_deleted [of l t "0xff" g 0 0 "replicate 16 0" "mac ?h", folded d]
  have "commit_authentic mac l t (deleted_commit mac l t g)"
    unfolding d commit_authentic_def using commit_header_accepted [OF _ assms(2), of "replicate 16 0"] by (simp add: length_mac)
  then show ?thesis using assms(1) f by (simp add: commit_of_def commit_valid_def commit_deleted_def commit_state_def Let_def)
qed

end

section \<open>The writing operations\<close>

definition same_else :: "u16 set \<Rightarrow> 'c txn \<Rightarrow> 'c txn \<Rightarrow> bool" where
  "same_else S w w' \<longleftrightarrow> (\<forall>fid. fid \<notin> S \<longrightarrow> tx_files w' fid = tx_files w fid) \<and> tx_static w' = tx_static w \<and>
     tx_handles w' = tx_handles w \<and> tx_next_handle w' = tx_next_handle w"

lemma same_else_trans: "same_else S w w' \<Longrightarrow> same_else T w' w'' \<Longrightarrow> same_else (S \<union> T) w w''"
  by (simp add: same_else_def)

lemma same_else_mono: "same_else S w w' \<Longrightarrow> S \<subseteq> T \<Longrightarrow> same_else T w w'"
  by (auto simp: same_else_def)

lemma outcome_next_frame: "outcome_next w = (x, w') \<Longrightarrow> same_else {} w w' \<and> tx_ctx w' = tx_ctx w \<and> tx_files w' = tx_files w"
  by (auto simp: outcome_next_def same_else_def split: list.splits)

lemma remove_file_spec:
  assumes "file_object_txn_remove_file fid w = (r, w')"
  shows "same_else {fid} w w' \<and> tx_ctx w' = tx_ctx w \<and> (r = PICOKEYS_OK \<longrightarrow> tx_files w' fid = None) \<and>
    (r \<noteq> PICOKEYS_OK \<longrightarrow> tx_files w' = tx_files w \<or> tx_files w' fid = Some [])"
proof (cases "tx_static w fid \<or> tx_files w fid = None")
  case True
  then show ?thesis using assms by (auto simp: file_object_txn_remove_file_def same_else_def split: if_splits)
next
  case False
  obtain x w1 where x: "outcome_next w = (x, w1)" by force
  then show ?thesis
    using assms False outcome_next_frame [OF x]
    by (cases x) (auto simp: file_object_txn_remove_file_def delete_no_commit_def same_else_def split: if_splits)
qed

lemma put_data_spec:
  assumes "put_data fid data w = (r, w')"
  shows "same_else {fid} w w' \<and> tx_ctx w' = tx_ctx w \<and> (r = PICOKEYS_OK \<longrightarrow> tx_files w' fid = Some data) \<and>
    (r \<noteq> PICOKEYS_OK \<longrightarrow> tx_files w' = tx_files w)"
proof -
  obtain x w1 where x: "outcome_next w = (x, w1)" by force
  then show ?thesis
    using assms outcome_next_frame [OF x] by (cases x) (auto simp: put_data_def same_else_def split: if_splits)
qed

lemma new_file_spec:
  assumes "new_file fid w = (ok, w')"
  shows "same_else {fid} w w' \<and> tx_ctx w' = tx_ctx w \<and> (tx_files w' fid = tx_files w fid \<or> tx_files w' fid = Some [])"
proof -
  obtain x w1 where x: "outcome_next w = (x, w1)" by force
  then show ?thesis
    using assms outcome_next_frame [OF x] by (auto simp: new_file_def same_else_def split: option.splits if_splits)
qed

lemma replace_file_spec:
  assumes "file_object_txn_replace_file fid data w = (r, w')"
  shows "same_else {fid} w w' \<and> tx_ctx w' = tx_ctx w \<and> (r = PICOKEYS_OK \<longrightarrow> tx_files w' fid = Some data) \<and>
    (r \<noteq> PICOKEYS_OK \<longrightarrow> \<not> has_data (tx_files w) fid \<longrightarrow> \<not> has_data (tx_files w') fid)"
proof -
  obtain r1 w1 where 1: "file_object_txn_remove_file fid w = (r1, w1)" by force
  obtain ok w2 where 2: "new_file fid w1 = (ok, w2)" by force
  obtain r3 w3 where 3: "put_data fid data w2 = (r3, w3)" by force
  note s = remove_file_spec [OF 1] new_file_spec [OF 2] put_data_spec [OF 3]
  have "same_else {fid} w w1" "same_else {fid} w w2" "same_else {fid} w w3"
    using s same_else_trans [of "{fid}" w w1 "{fid}" w2] same_else_trans [of "{fid}" w w2 "{fid}" w3] by auto
  then show ?thesis
    using assms 1 2 3 s by (auto simp: file_object_txn_replace_file_def has_data_def split: if_splits)
qed

lemma clear_slot_spec:
  assumes "clear_slot l t w = (r, w')" "layout_distinct l" "t \<in> {0, 1}"
  defines "ct \<equiv> pick (l_commit_fid l) t" and "rt \<equiv> pick (l_record_fid l) t"
  shows "same_else {ct, rt} w w' \<and> tx_ctx w' = tx_ctx w \<and> (r = PICOKEYS_OK \<longrightarrow> tx_files w' ct = None \<and> tx_files w' rt = None) \<and>
    (r \<noteq> PICOKEYS_OK \<longrightarrow> tx_files w' = tx_files w \<or> \<not> has_data (tx_files w') ct)"
proof -
  have ne: "ct \<noteq> rt" using pick_distinct(1) [OF assms(2,3)] by (simp add: ct_def rt_def)
  obtain r1 w1 where 1: "file_object_txn_remove_file ct w = (r1, w1)" by force
  obtain r2 w2 where 2: "file_object_txn_remove_file rt w1 = (r2, w2)" by force
  note s = remove_file_spec [OF 1] remove_file_spec [OF 2]
  have "same_else {ct, rt} w w1" "same_else {ct, rt} w w2" "r1 = PICOKEYS_OK \<Longrightarrow> tx_files w2 ct = None"
    using s same_else_trans [of "{ct}" w w1 "{rt}" w2] same_else_mono [of "{ct}" w w1 "{ct, rt}"] ne by (auto simp: same_else_def insert_commute)
  then show ?thesis
    using assms(1) 1 2 s unfolding clear_slot_def then_do_def ct_def [symmetric] rt_def [symmetric] by (auto simp: has_data_def split: if_splits)
qed
lemma generation_next:
  fixes g :: u32
  assumes "g \<noteq> 0xffffffff"
  shows "g < g + 1" "g + 1 \<noteq> 0"
proof -
  have "unat g \<noteq> 4294967295" using assms by (simp add: word_unat_eq_iff)
  then have "unat g + 1 < 2 ^ 32" using unsigned_less [of g, where 'a = nat] by simp
  then have "unat (g + 1) = unat g + 1" by (simp add: unat_word_ariths)
  then show "g < g + 1" "g + 1 \<noteq> 0" by (auto simp: word_less_nat_alt)
qed

lemma other_other: "t \<in> {0, 1} \<Longrightarrow> other t \<in> {0, 1} \<and> other (other t) = t"
  by auto

lemma same_else_keeps:
  assumes "layout_distinct l" "t \<in> {0, 1}" "same_else {pick (l_commit_fid l) t, pick (l_record_fid l) t} w w'"
  shows "keeps_slot l (other t) (tx_files w) (tx_files w')"
  using pick_distinct [OF assms(1,2)] assms(3) by (simp add: keeps_slot_def same_else_def)

context mac_authenticator
begin

lemma next_state_spec:
  assumes "ready (tx_ctx w)" "file_object_txn_next_state l auth w = (res, w')"
  shows "\<exists>c'. ready c' \<and> w' = w\<lparr>tx_ctx := c'\<rparr> \<and> (case res of Inl r \<Rightarrow> r \<noteq> PICOKEYS_OK | Inr (t, g) \<Rightarrow> next_slot mac l (tx_files w) t g)"
proof -
  obtain c' where c: "ready c'" "file_object_txn_recover l auth (tx_files w) (tx_ctx w) = (txn_current mac l (tx_files w), c')"
    using recover_spec [OF assms(1)] by blast
  show ?thesis
  proof (cases "txn_current mac l (tx_files w)")
    case (Inl r)
    moreover have "r \<noteq> PICOKEYS_OK" using Inl by (auto simp: txn_current_def split: option.splits if_splits)
    ultimately show ?thesis using c assms(2) by (auto simp: file_object_txn_next_state_def next_slot_def)
  next
    case (Inr s)
    have s: "s_commit_slot s \<in> {0, 1}" using current_slot [OF Inr] by blast
    show ?thesis using c assms(2) Inr generation_next [of "s_generation s"] other_other [OF s]
      by (auto simp: file_object_txn_next_state_def next_slot_def other_def [symmetric])
  qed
qed

lemma write_record_spec:
  assumes "ready (tx_ctx w)" "file_object_txn_write_record l auth t g g data w = (r, tag, w')"
  shows "ready (tx_ctx w') \<and> same_else {pick (l_record_fid l) t} w w' \<and>
    (r = PICOKEYS_OK \<longrightarrow> length data \<le> 2 ^ 32 - 1 - 32 - 16 \<and> tag = built_tag mac l t g data \<and>
       tx_files w' (pick (l_record_fid l) t) = Some (built_record mac l t g data))"
proof (cases "length data > 2 ^ 32 - 1 - 32 - 16")
  case True
  then show ?thesis using assms by (auto simp: file_object_txn_write_record_def same_else_def)
next
  case False
  obtain x w1 where x: "outcome_next w = (x, w1)" by force
  note f = outcome_next_frame [OF x]
  show ?thesis
  proof (cases "x = Go")
    case no: False
    then show ?thesis using False assms x f by (auto simp: file_object_txn_write_record_def same_else_def)
  next
    case True
    let ?h = "txn_record_header l t g g (length data)"
    obtain c where c: "file_object_txn_auth_buffer auth (tx_ctx w1) ?h data = (PICOKEYS_OK, mac (?h @ data), c)" "ready c"
      using auth_buffer_mac [of "tx_ctx w1"] assms(1) f by auto
    obtain r2 w2 where rp: "file_object_txn_replace_file (pick (l_record_fid l) t) (?h @ data @ mac (?h @ data)) (w1\<lparr>tx_ctx := c\<rparr>) = (r2, w2)" by force
    have run: "r = r2" "tag = mac (?h @ data)" "w' = w2" using assms(2) False x True c(1) rp by (auto simp: file_object_txn_write_record_def Let_def)
    show ?thesis using replace_file_spec [OF rp] f c(2) False unfolding run
      by (auto simp: same_else_def built_tag_def built_record_def Let_def)
  qed
qed

lemma write_commit_frame:
  assumes "ready (tx_ctx w)" "file_object_txn_write_commit l auth t rs g i n tag deleted w = (r, w')"
  shows "ready (tx_ctx w') \<and> same_else {pick (l_commit_fid l) t} w w' \<and>
    (r = PICOKEYS_OK \<longrightarrow> tx_files w' (pick (l_commit_fid l) t) =
       Some (let h = txn_commit_header l t rs g i n tag deleted in h @ mac h)) \<and>
    (r \<noteq> PICOKEYS_OK \<longrightarrow> \<not> has_data (tx_files w) (pick (l_commit_fid l) t) \<longrightarrow> \<not> has_data (tx_files w') (pick (l_commit_fid l) t))"
proof -
  let ?h = "txn_commit_header l t rs g i n tag deleted"
  obtain c where c: "file_object_txn_auth_buffer auth (tx_ctx w) ?h [] = (PICOKEYS_OK, mac ?h, c)" "ready c"
    using auth_buffer_mac [OF assms(1), of ?h "[]"] by auto
  then have "file_object_txn_replace_file (pick (l_commit_fid l) t) (?h @ mac ?h) (w\<lparr>tx_ctx := c\<rparr>) = (r, w')"
    using assms(2) by (simp add: file_object_txn_write_commit_def Let_def)
  from replace_file_spec [OF this] show ?thesis using c(2) by (auto simp: same_else_def Let_def)
qed

end

lemma then_commit_frame:
  assumes "then_commit (r, w) = (r', w')"
  shows "same_else {} w w' \<and> tx_ctx w' = tx_ctx w \<and> tx_files w' = tx_files w \<and> (r' = PICOKEYS_OK \<longrightarrow> r = PICOKEYS_OK) \<and> (r \<noteq> PICOKEYS_OK \<longrightarrow> r' = r)"
proof -
  obtain x w1 where x: "outcome_next w = (x, w1)" by force
  then show ?thesis using assms outcome_next_frame [OF x]
    by (auto simp: then_commit_def then_do_def commit_sync_def same_else_def split: if_splits)
qed

text \<open>
  How a write into slot \<open>t\<close> leaves the files: as they were, or without a commit in that slot, or with the new
  commit; it reports success only in the last case.
\<close>

definition slot_outcome :: "file_object_txn_layout \<Rightarrow> u8 \<Rightarrow> status \<Rightarrow> (u16 \<rightharpoonup> bytes) \<Rightarrow> (u16 \<rightharpoonup> bytes) \<Rightarrow> ((u16 \<rightharpoonup> bytes) \<Rightarrow> bool) \<Rightarrow> bool" where
  "slot_outcome l t r fs fs' written \<longleftrightarrow> keeps_slot l (other t) fs fs' \<and>
     ((r \<noteq> PICOKEYS_OK \<and> (fs' = fs \<or> \<not> has_data fs' (pick (l_commit_fid l) t))) \<or> written fs')"

context mac_authenticator
begin

lemma put_outcome:
  assumes "ready (tx_ctx w)" "file_object_txn_layout_valid w l" "file_object_txn_put l (Some auth) data w = (r, w')"
  shows "ready (tx_ctx w') \<and> tx_static w' = tx_static w \<and> tx_handles w' = tx_handles w \<and> tx_next_handle w' = tx_next_handle w \<and>
    ((r \<noteq> PICOKEYS_OK \<and> tx_files w' = tx_files w) \<or>
     (\<exists>t g. next_slot mac l (tx_files w) t g \<and> slot_outcome l t r (tx_files w) (tx_files w') (\<lambda>fs. length data \<le> 2 ^ 32 - 1 - 32 - 16 \<and>
        fs (pick (l_commit_fid l) t) = Some (built_commit mac l t g data) \<and> fs (pick (l_record_fid l) t) = Some (built_record mac l t g data))))"
proof (cases "length data > 2 ^ 32 - 1")
  case True
  then show ?thesis using assms provided by (simp add: file_object_txn_put_def)
next
  case False
  obtain res w0 where n: "file_object_txn_next_state l auth w = (res, w0)" by force
  obtain c0 where c0: "ready c0" "w0 = w\<lparr>tx_ctx := c0\<rparr>" "case res of Inl r \<Rightarrow> r \<noteq> PICOKEYS_OK | Inr (t, g) \<Rightarrow> next_slot mac l (tx_files w) t g"
    using next_state_spec [OF assms(1) n] by blast
  show ?thesis
  proof (cases res)
    case (Inl e)
    then show ?thesis using assms False n c0 provided by (auto simp: file_object_txn_put_def)
  next
    case (Inr p)
    obtain t g where p: "p = (t, g)" by force
    have ns: "next_slot mac l (tx_files w) t g" using c0(3) by (simp add: Inr p)
    then have t: "t \<in> {0, 1}" by (simp add: next_slot_def)
    have ld: "layout_distinct l" using assms(2) by (simp add: layout_distinct_def file_object_txn_layout_valid_def Let_def)
    let ?c = "pick (l_commit_fid l) t" and ?r = "pick (l_record_fid l) t"
    have ne: "?c \<noteq> ?r" by (rule pick_distinct(1) [OF ld t])
    obtain r1 w1 where 1: "clear_slot l t w0 = (r1, w1)" by force
    note s1 = clear_slot_spec [OF 1 ld t]
    obtain r2 tag w2 where 2: "file_object_txn_write_record l auth t g g data w1 = (r2, tag, w2)" by (metis prod_cases3)
    obtain r3 w3 where 3: "then_commit (r2, w2) = (r3, w3)" by force
    obtain r4 w4 where 4: "file_object_txn_write_commit l auth t t g g (length data) tag False w3 = (r4, w4)" by force
    have run: "(r, w') = (if r1 \<noteq> PICOKEYS_OK then (r1, w1) else then_commit (if r3 = PICOKEYS_OK then (r4, w4) else (r3, w3)))"
      using assms(2,3) False n Inr p 1 2 3 4 provided by (auto simp: file_object_txn_put_def then_do_def)
    show ?thesis
    proof (cases "r1 = PICOKEYS_OK")
      case no: False
      have "slot_outcome l t r (tx_files w) (tx_files w') W" for W
        using run no s1 c0(2) same_else_keeps [OF ld t, of w0 w1] by (auto simp: slot_outcome_def)
      then show ?thesis using run no s1 c0(1,2) ns by (auto simp: same_else_def)
    next
      case ok: True
      have s2: "ready (tx_ctx w2)" "same_else {?r} w1 w2" "r2 = PICOKEYS_OK \<longrightarrow> length data \<le> 2 ^ 32 - 1 - 32 - 16 \<and>
          tag = built_tag mac l t g data \<and> tx_files w2 ?r = Some (built_record mac l t g data)"
        using write_record_spec [OF _ 2] s1 c0 by auto
      note s3 = then_commit_frame [OF 3]
      have s4: "ready (tx_ctx w4)" "same_else {?c} w3 w4"
        "r4 = PICOKEYS_OK \<longrightarrow> tx_files w4 ?c = Some (let h = txn_commit_header l t t g g (length data) tag False in h @ mac h)"
        "r4 \<noteq> PICOKEYS_OK \<longrightarrow> \<not> has_data (tx_files w3) ?c \<longrightarrow> \<not> has_data (tx_files w4) ?c"
        using write_commit_frame [OF _ 4] s3 s2(1) by auto
      have nc: "\<not> has_data (tx_files w3) ?c" using s1 s2(2) s3 ok ne by (auto simp: has_data_def same_else_def)
      have e3: "same_else {?c, ?r} w0 w3" "same_else {?c, ?r} w0 w4" using s1 s2(2) s3 s4(2) by (auto simp: same_else_def)
      obtain rx wx where x: "(if r3 = PICOKEYS_OK then (r4, w4) else (r3, w3)) = (rx, wx)" by force
      have run': "then_commit (rx, wx) = (r, w')" using run ok x by simp
      note s5 = then_commit_frame [OF run']
      have fx: "ready (tx_ctx wx)" "same_else {?c, ?r} w0 wx"
        "rx = PICOKEYS_OK \<longrightarrow> length data \<le> 2 ^ 32 - 1 - 32 - 16 \<and> tx_files wx ?c = Some (built_commit mac l t g data) \<and>
           tx_files wx ?r = Some (built_record mac l t g data)"
        "rx \<noteq> PICOKEYS_OK \<longrightarrow> \<not> has_data (tx_files wx) ?c"
        using x s2 s3 s4 e3 nc ne by (auto simp: built_commit_def same_else_def split: if_splits)
      have "slot_outcome l t r (tx_files w) (tx_files w') (\<lambda>fs. length data \<le> 2 ^ 32 - 1 - 32 - 16 \<and>
          fs ?c = Some (built_commit mac l t g data) \<and> fs ?r = Some (built_record mac l t g data))"
        using s5 fx(3,4) same_else_keeps [OF ld t fx(2)] c0(2) by (cases "rx = PICOKEYS_OK") (auto simp: slot_outcome_def)
      then show ?thesis using ns s5 fx(1,2) c0(2) by (auto simp: same_else_def)
    qed
  qed
qed

end

context mac_authenticator
begin

lemma delete_outcome:
  assumes "ready (tx_ctx w)" "file_object_txn_layout_valid w l" "file_object_txn_delete l (Some auth) w = (r, w')"
  shows "ready (tx_ctx w') \<and> tx_static w' = tx_static w \<and> tx_handles w' = tx_handles w \<and> tx_next_handle w' = tx_next_handle w \<and>
    ((r \<noteq> PICOKEYS_OK \<and> tx_files w' = tx_files w) \<or>
     (\<exists>t g. next_slot mac l (tx_files w) t g \<and> txn_value mac l (tx_files w) \<noteq> None \<and> slot_outcome l t r (tx_files w) (tx_files w')
        (\<lambda>fs. fs (pick (l_commit_fid l) t) = Some (deleted_commit mac l t g))))"
proof -
  obtain c0 where c0: "ready c0" "file_object_txn_recover l auth (tx_files w) (tx_ctx w) = (txn_current mac l (tx_files w), c0)"
    using recover_spec [OF assms(1)] by blast
  have ld: "layout_distinct l" using assms(2) by (simp add: layout_distinct_def file_object_txn_layout_valid_def Let_def)
  show ?thesis
  proof (cases "txn_current mac l (tx_files w)")
    case (Inl e)
    moreover have "e \<noteq> PICOKEYS_OK" using Inl by (auto simp: txn_current_def split: option.splits if_splits)
    ultimately show ?thesis using assms c0 provided by (auto simp: file_object_txn_delete_def)
  next
    case (Inr s)
    show ?thesis
    proof (cases "s_deleted s \<or> s_generation s = 0xffffffff")
      case True
      then show ?thesis using assms c0 Inr provided by (auto simp: file_object_txn_delete_def Let_def split: if_splits)
    next
      case False
      let ?t = "other (s_commit_slot s)" and ?g = "s_generation s + 1"
      have sl: "s_commit_slot s \<in> {0, 1}" using current_slot [OF Inr] by blast
      have t: "?t \<in> {0, 1}" and ns: "next_slot mac l (tx_files w) ?t ?g"
        using other_other [OF sl] generation_next [of "s_generation s"] False Inr by (auto simp: next_slot_def)
      have v: "txn_value mac l (tx_files w) \<noteq> None" using Inr False by (simp add: txn_value_def)
      let ?c = "pick (l_commit_fid l) ?t" and ?r = "pick (l_record_fid l) ?t"
      define w0 where "w0 = w\<lparr>tx_ctx := c0\<rparr>"
      obtain r1 w1 where 1: "clear_slot l ?t w0 = (r1, w1)" by force
      note s1 = clear_slot_spec [OF 1 ld t]
      obtain r2 w2 where 2: "then_commit (r1, w1) = (r2, w2)" by force
      note s2 = then_commit_frame [OF 2]
      obtain r3 w3 where 3: "file_object_txn_write_commit l auth ?t 0xff ?g 0 0 (replicate 16 0) True w2 = (r3, w3)" by force
      obtain rx wx where x: "(if r2 = PICOKEYS_OK then (r3, w3) else (r2, w2)) = (rx, wx)" by force
      have run: "then_commit (rx, wx) = (r, w')"
        using assms(2,3) False c0(2) Inr 1 2 3 x provided
        by (auto simp: file_object_txn_delete_def then_do_def Let_def w0_def other_def split: if_splits)
      note s4 = then_commit_frame [OF run]
      have rd: "ready (tx_ctx w2)" using s1 s2 c0(1) by (simp add: w0_def)
      have s3: "ready (tx_ctx w3)" "same_else {?c} w2 w3" "r3 = PICOKEYS_OK \<longrightarrow> tx_files w3 ?c = Some (deleted_commit mac l ?t ?g)"
        "r3 \<noteq> PICOKEYS_OK \<longrightarrow> \<not> has_data (tx_files w2) ?c \<longrightarrow> \<not> has_data (tx_files w3) ?c"
        using write_commit_frame [OF rd 3] by (auto simp: deleted_commit_def)
      have e2: "same_else {?c, ?r} w0 w2" using s1 s2 by (auto simp: same_else_def)
      have e3: "same_else {?c, ?r} w0 w3" using same_else_trans [OF e2 s3(2)] by (simp add: insert_absorb)
      have f1: "tx_files w2 = tx_files w1" "r2 = PICOKEYS_OK \<Longrightarrow> r1 = PICOKEYS_OK" using s2 by blast+
      have f0: "r1 = PICOKEYS_OK \<Longrightarrow> \<not> has_data (tx_files w1) ?c" using s1 by (simp add: has_data_def)
      have nd: "r2 = PICOKEYS_OK \<Longrightarrow> \<not> has_data (tx_files w2) ?c" using f0 f1 by simp
      have f2: "tx_files w2 = tx_files w0 \<or> \<not> has_data (tx_files w2) ?c"
        unfolding f1(1) using f0 s1 by blast
      have fx: "ready (tx_ctx wx)" "same_else {?c, ?r} w0 wx" "rx = PICOKEYS_OK \<longrightarrow> tx_files wx ?c = Some (deleted_commit mac l ?t ?g)"
        "rx \<noteq> PICOKEYS_OK \<longrightarrow> tx_files wx = tx_files w0 \<or> \<not> has_data (tx_files wx) ?c"
        using x e2 e3 rd s3 nd f2 by (auto split: if_splits)
      have "slot_outcome l ?t r (tx_files w) (tx_files w') (\<lambda>fs. fs ?c = Some (deleted_commit mac l ?t ?g))"
        using s4 fx(3,4) same_else_keeps [OF ld t fx(2)] by (cases "rx = PICOKEYS_OK") (auto simp: slot_outcome_def w0_def)
      then show ?thesis using ns v s4 fx(1,2) by (auto simp: same_else_def w0_def)
    qed
  qed
qed

text \<open>The outcome in terms of what is current.\<close>

lemma slot_outcome_cases:
  assumes "txn_inv mac l fs" "next_slot mac l fs t g" "slot_outcome l t r fs fs' W"
    and "W fs' \<Longrightarrow> commit_of mac l fs' t = Some s \<and> s_generation s = g \<and>
      (\<forall>d. fs' (pick (l_commit_fid l) t) = Some d \<longrightarrow> \<not> commit_deleted d \<longrightarrow> d ! 26 = t)"
  shows "txn_inv mac l fs' \<and>
    ((r \<noteq> PICOKEYS_OK \<and> txn_current mac l fs' = txn_current mac l fs \<and> txn_value mac l fs' = txn_value mac l fs) \<or>
     (W fs' \<and> txn_current mac l fs' = Inr s))"
proof -
  have t: "t \<in> {0, 1}" using assms(2) by (simp add: next_slot_def)
  have k: "keeps_slot l (other t) fs fs'" using assms(3) by (simp add: slot_outcome_def)
  consider "r \<noteq> PICOKEYS_OK" "fs' = fs" | "r \<noteq> PICOKEYS_OK" "\<not> has_data fs' (pick (l_commit_fid l) t)" | "W fs'"
    using assms(3) by (auto simp: slot_outcome_def)
  then show ?thesis
  proof cases
    case 1
    then show ?thesis using assms(1) by simp
  next
    case 2
    have "txn_inv mac l fs'"
      by (rule inv_keeps [OF assms(1) t k]) (use 2(2) in \<open>auto simp: has_data_def commit_authentic_def\<close>)
    then show ?thesis using slot_cleared [OF assms(1,2) k commit_of_no_data [OF 2(2)]] 2(1) by simp
  next
    case 3
    note s = assms(4) [OF 3]
    have "txn_inv mac l fs'" by (rule inv_keeps [OF assms(1) t k]) (use s in auto)
    then show ?thesis using slot_written [OF assms(1,2) k] s 3 by blast
  qed
qed

lemma put_effect:
  assumes "ready (tx_ctx w)" "file_object_txn_layout_valid w l" "txn_inv mac l (tx_files w)"
    "file_object_txn_put l (Some auth) data w = (r, w')"
  shows "ready (tx_ctx w') \<and> file_object_txn_layout_valid w' l \<and> txn_inv mac l (tx_files w') \<and> tx_handles w' = tx_handles w \<and>
    tx_next_handle w' = tx_next_handle w \<and>
    ((r \<noteq> PICOKEYS_OK \<and> txn_current mac l (tx_files w') = txn_current mac l (tx_files w) \<and> txn_value mac l (tx_files w') = txn_value mac l (tx_files w)) \<or>
     (\<exists>t g. next_slot mac l (tx_files w) t g \<and> length data \<le> 2 ^ 32 - 1 - 32 - 16 \<and> keeps_slot l (other t) (tx_files w) (tx_files w') \<and>
        txn_current mac l (tx_files w') = Inr \<lparr>s_generation = g, s_record_id = g, s_payload_size = word_of_nat (length data),
          s_commit_slot = t, s_record_slot = t, s_deleted = False\<rparr> \<and> txn_value mac l (tx_files w') = Some data))"
proof -
  note o = put_outcome [OF assms(1,2,4)]
  have lv: "file_object_txn_layout_valid w' l" using o assms(2) by (simp add: file_object_txn_layout_valid_def Let_def)
  show ?thesis
  proof (cases "r \<noteq> PICOKEYS_OK \<and> tx_files w' = tx_files w")
    case True
    then show ?thesis using o assms(3) lv by auto
  next
    case False
    define W where "W t g fs \<longleftrightarrow> length data \<le> 2 ^ 32 - 1 - 32 - 16 \<and> fs (pick (l_commit_fid l) t) = Some (built_commit mac l t g data) \<and>
        fs (pick (l_record_fid l) t) = Some (built_record mac l t g data)" for t g and fs :: "u16 \<rightharpoonup> bytes"
    obtain t g where ns: "next_slot mac l (tx_files w) t g" and so: "slot_outcome l t r (tx_files w) (tx_files w') (W t g)"
      using o False unfolding W_def by blast
    let ?s = "\<lparr>s_generation = g, s_record_id = g, s_payload_size = word_of_nat (length data), s_commit_slot = t, s_record_slot = t, s_deleted = False\<rparr>"
    have t: "t \<in> {0, 1}" "g \<noteq> 0" using ns by (auto simp: next_slot_def)
    have lt: "length (built_tag mac l t g data) = 16" by (simp add: built_tag_def length_mac)
    have w: "commit_of mac l (tx_files w') t = Some ?s \<and> s_generation ?s = g \<and>
        (\<forall>d. tx_files w' (pick (l_commit_fid l) t) = Some d \<longrightarrow> \<not> commit_deleted d \<longrightarrow> d ! 26 = t)" if "W t g (tx_files w')"
      using that built_commit_of [where fs = "tx_files w'", OF _ _ t] commit_header_fields(4) [OF lt] by (simp add: W_def built_commit_def Let_def)
    have k: "keeps_slot l (other t) (tx_files w) (tx_files w')" using so by (simp add: slot_outcome_def)
    have v: "txn_value mac l (tx_files w') = Some data" if "txn_current mac l (tx_files w') = Inr ?s" "W t g (tx_files w')"
    proof -
      have "unat (word_of_nat (length data) :: u32) = length data" using that(2) by (simp add: W_def unsigned_of_nat take_bit_nat_eq_self)
      then show ?thesis using that by (simp add: txn_value_def W_def built_record_def Let_def slice_def)
    qed
    from slot_outcome_cases [OF assms(3) ns so w] show ?thesis using o lv ns k v by (auto simp: W_def)
  qed
qed

end

context mac_authenticator
begin

lemma delete_effect:
  assumes "ready (tx_ctx w)" "file_object_txn_layout_valid w l" "txn_inv mac l (tx_files w)"
    "file_object_txn_delete l (Some auth) w = (r, w')"
  shows "ready (tx_ctx w') \<and> file_object_txn_layout_valid w' l \<and> txn_inv mac l (tx_files w') \<and> tx_handles w' = tx_handles w \<and>
    tx_next_handle w' = tx_next_handle w \<and>
    ((r \<noteq> PICOKEYS_OK \<and> txn_current mac l (tx_files w') = txn_current mac l (tx_files w) \<and> txn_value mac l (tx_files w') = txn_value mac l (tx_files w)) \<or>
     (\<exists>t g. next_slot mac l (tx_files w) t g \<and>
        txn_current mac l (tx_files w') = Inr \<lparr>s_generation = g, s_record_id = 0, s_payload_size = 0,
          s_commit_slot = t, s_record_slot = 0xff, s_deleted = True\<rparr> \<and> txn_value mac l (tx_files w') = None))"
proof -
  note o = delete_outcome [OF assms(1,2,4)]
  have lv: "file_object_txn_layout_valid w' l" using o assms(2) by (simp add: file_object_txn_layout_valid_def Let_def)
  show ?thesis
  proof (cases "r \<noteq> PICOKEYS_OK \<and> tx_files w' = tx_files w")
    case True
    then show ?thesis using o assms(3) lv by auto
  next
    case False
    define W where "W t g fs \<longleftrightarrow> fs (pick (l_commit_fid l) t) = Some (deleted_commit mac l t g)" for t g and fs :: "u16 \<rightharpoonup> bytes"
    obtain t g where ns: "next_slot mac l (tx_files w) t g" and so: "slot_outcome l t r (tx_files w) (tx_files w') (W t g)"
      using o False unfolding W_def by blast
    let ?s = "\<lparr>s_generation = g, s_record_id = 0, s_payload_size = 0, s_commit_slot = t, s_record_slot = 0xff, s_deleted = True\<rparr>"
    have t: "t \<in> {0, 1}" "g \<noteq> 0" using ns by (auto simp: next_slot_def)
    have w: "commit_of mac l (tx_files w') t = Some ?s \<and> s_generation ?s = g \<and>
        (\<forall>d. tx_files w' (pick (l_commit_fid l) t) = Some d \<longrightarrow> \<not> commit_deleted d \<longrightarrow> d ! 26 = t)" if "W t g (tx_files w')"
    proof -
      have "commit_of mac l (tx_files w') t = Some ?s" using that deleted_commit_of [where fs = "tx_files w'"] t(2) by (simp add: W_def)
      then show ?thesis by (auto simp: commit_of_def commit_state_def split: option.splits if_splits)
    qed
    from slot_outcome_cases [OF assms(3) ns so w] show ?thesis using o lv ns by (auto simp: txn_value_def)
  qed
qed

end

end
