(* ===== verification/Txn_Safety.thy ===== *)
theory Txn_Safety
  imports Object_Txn
begin

text \<open>
  What the transactional store gives its callers: handles (fresh tokens, reading what was written, a
  handle that goes stale with the next change), sequences of updates with failures against an atomic
  register, and the record identifier counter \<open>file_object_record_id_allocate\<close> of \<open>fs/object_container.c\<close>.
\<close>

section \<open>The record identifier counter\<close>

definition file_object_record_id_magic :: bytes where "file_object_record_id_magic = [0x50, 0x4b, 0x52, 0x49]"

definition record_id_state_ok :: "bytes \<Rightarrow> bool" where
  "record_id_state_ok state \<longleftrightarrow> take 4 state = file_object_record_id_magic \<and> state ! 4 = 1 \<and> state ! 5 = 0 \<and> state ! 6 = 0 \<and> state ! 7 = 0"

definition record_id_state :: "u64 \<Rightarrow> bytes" where
  "record_id_state next_id = file_object_record_id_magic @ [1, 0, 0, 0] @ put_uint64_be next_id"

text \<open>The block after a successful open: the previous identifier is read, checked and the handle closed.\<close>

definition record_id_next :: "u32 \<Rightarrow> 'c file_object_authenticator option \<Rightarrow> 'c txn \<Rightarrow> (status + u64) \<times> 'c txn" where
  "record_id_next handle auth w =
    (let (info, w) = file_object_txn_get_info handle auth w;
         r = (case info of Inl r \<Rightarrow> r | Inr (payload_size, _) \<Rightarrow> if payload_size \<noteq> 16 then PICOKEYS_WRONG_DATA else PICOKEYS_OK);
         (got, w) = (if r = PICOKEYS_OK then file_object_txn_read_at handle auth 0 16 w else (Inl r, w));
         res = (case got of Inl r \<Rightarrow> Inl r | Inr state \<Rightarrow>
           if \<not> record_id_state_ok state then Inl PICOKEYS_WRONG_DATA
           else (let previous_id = get_uint64_be (drop 8 state) in
             if previous_id = 0 \<or> previous_id = 0xffffffffffffffff then Inl PICOKEYS_WRONG_DATA else Inr (previous_id + 1)));
         (close_result, w) = file_object_txn_close handle w
     in (case res of Inl r \<Rightarrow> Inl r | Inr next_id \<Rightarrow> if close_result \<noteq> PICOKEYS_OK then Inl close_result else Inr next_id, w))"

definition file_object_record_id_allocate ::
    "file_object_txn_layout \<Rightarrow> 'c file_object_authenticator option \<Rightarrow> 'c txn \<Rightarrow> (status + u64) \<times> 'c txn" where
  "file_object_record_id_allocate l auth w =
    (if auth = None then (Inl PICOKEYS_ERR_NULL_PARAM, w)
     else
       (let (opened, w) = file_object_txn_open l auth w;
            (res, w) = (case opened of
                Inr handle \<Rightarrow> record_id_next handle auth w
              | Inl r \<Rightarrow> (if r = PICOKEYS_ERR_FILE_NOT_FOUND then Inr 1 else Inl r, w))
        in case res of Inl r \<Rightarrow> (Inl r, w)
           | Inr next_id \<Rightarrow>
               (case then_do (file_object_txn_put l auth (record_id_state next_id) w) (file_object_txn_put l auth (record_id_state next_id)) of
                  (r, w) \<Rightarrow> (if r \<noteq> PICOKEYS_OK then Inl r else Inr next_id, w))))"

section \<open>Handles\<close>

text \<open>Six candidates of the counter cannot all be 0 or in use.\<close>

lemma find_handle_None:
  "handle \<noteq> 0 \<Longrightarrow> file_object_txn_find_handle w handle = None \<longleftrightarrow> handle \<notin> h_token ` set (tx_handles w)"
  by (auto simp: file_object_txn_find_handle_def first_index_None)

lemma allocate_token_loop_None:
  "allocate_token_loop n w = None \<Longrightarrow> i < n \<Longrightarrow> tx_next_handle w + word_of_nat i \<in> insert 0 (h_token ` set (tx_handles w))"
proof (induction n arbitrary: w i)
  case (Suc n)
  have now: "tx_next_handle w \<in> insert 0 (h_token ` set (tx_handles w))"
    and rest: "allocate_token_loop n (w\<lparr>tx_next_handle := tx_next_handle w + 1\<rparr>) = None"
    using Suc.prems(1) find_handle_None [of "tx_next_handle w" "w\<lparr>tx_next_handle := tx_next_handle w + 1\<rparr>"]
    by (cases "tx_next_handle w = 0"; simp add: Let_def split: if_splits)+
  show ?case
  proof (cases i)
    case 0
    then show ?thesis using now by simp
  next
    case (Suc j)
    then show ?thesis using Suc.IH [OF rest, of j] Suc.prems(2) by (simp add: add.assoc)
  qed
qed simp

lemma allocate_token_loop_Some:
  "allocate_token_loop n w = Some (h, w') \<Longrightarrow>
    h \<noteq> 0 \<and> h \<notin> h_token ` set (tx_handles w) \<and> w' = w\<lparr>tx_next_handle := tx_next_handle w'\<rparr>"
proof (induction n arbitrary: w)
  case (Suc n)
  show ?case
  proof (cases "tx_next_handle w \<noteq> 0 \<and> file_object_txn_find_handle (w\<lparr>tx_next_handle := tx_next_handle w + 1\<rparr>) (tx_next_handle w) = None")
    case True
    then show ?thesis
      using Suc.prems find_handle_None [of "tx_next_handle w" "w\<lparr>tx_next_handle := tx_next_handle w + 1\<rparr>"] by (auto simp: Let_def)
  next
    case False
    then have "allocate_token_loop n (w\<lparr>tx_next_handle := tx_next_handle w + 1\<rparr>) = Some (h, w')" using Suc.prems by (auto simp: Let_def split: if_splits)
    from Suc.IH [OF this] show ?thesis by auto
  qed
qed simp

lemma allocate_token_fresh:
  assumes "length (tx_handles w) = 4"
  shows "\<exists>h n. file_object_txn_allocate_token w = Some (h, w\<lparr>tx_next_handle := n\<rparr>) \<and> h \<noteq> 0 \<and> h \<notin> h_token ` set (tx_handles w)"
proof (cases "file_object_txn_allocate_token w")
  case None
  let ?f = "\<lambda>i. tx_next_handle w + word_of_nat i" and ?used = "insert 0 (h_token ` set (tx_handles w))"
  have "?f ` {..<6} \<subseteq> ?used" using allocate_token_loop_None [of 6 w] None by (auto simp: file_object_txn_allocate_token_def)
  then have "card (?f ` {..<6}) \<le> card ?used" by (intro card_mono) simp_all
  also have "card ?used \<le> Suc (card (set (tx_handles w)))"
using card_image_le [of "set (tx_handles w)" h_token] card_insert_le_m1 [of "Suc (card (set (tx_handles w)))" "h_token ` set (tx_handles w)" 0] by simp
  also have "\<dots> \<le> 5" using card_length [of "tx_handles w"] assms by simp
  finally have "card (?f ` {..<6}) \<le> 5" .
  moreover have "inj_on ?f {..<6}"
  proof (rule inj_onI)
    fix x y :: nat
    assume "x \<in> {..<6}" "y \<in> {..<6}" "?f x = ?f y"
    then have "unat (word_of_nat x :: u32) = unat (word_of_nat y :: u32)" "x < 2 ^ 32" "y < 2 ^ 32" by simp_all
    then show "x = y" by (simp add: unsigned_of_nat take_bit_nat_eq_self)
  qed
  ultimately show ?thesis by (simp add: card_image)
next
  case (Some p)
  then show ?thesis using allocate_token_loop_Some [of 6 w "fst p" "snd p"] by (cases p) (auto simp: file_object_txn_allocate_token_def)
qed

lemma current_Inl: "txn_current mac l fs = Inl r \<Longrightarrow> file_object_txn_invalid_record r \<and> r \<noteq> PICOKEYS_OK"
  by (auto simp: txn_current_def file_object_txn_invalid_record_def split: option.splits if_splits)

definition handle_entry_of :: "u32 \<Rightarrow> 'c txn \<Rightarrow> txn_handle_entry option" where
  "handle_entry_of handle w = map_option ((!) (tx_handles w)) (file_object_txn_find_handle w handle)"

definition fresh_state :: "txn_handle_entry \<Rightarrow> file_object_txn_state \<Rightarrow> bool" where
  "fresh_state e s \<longleftrightarrow> \<not> s_deleted s \<and> s_generation s = s_generation (h_state e) \<and> s_record_id s = s_record_id (h_state e) \<and>
     s_record_slot s = s_record_slot (h_state e) \<and> s_payload_size s = s_payload_size (h_state e)"

context mac_authenticator
begin

lemma resolve_spec:
  assumes "ready (tx_ctx w)" "handle_entry_of handle w = Some e"
  shows "\<exists>c'. ready c' \<and> file_object_txn_resolve handle auth w =
    (case txn_current mac (h_layout e) (tx_files w) of
       Inl _ \<Rightarrow> Inl PICOKEYS_ERR_STALE_HANDLE
     | Inr s \<Rightarrow> if fresh_state e s then Inr (e, s) else Inl PICOKEYS_ERR_STALE_HANDLE, w\<lparr>tx_ctx := c'\<rparr>)"
proof -
  obtain i where i: "file_object_txn_find_handle w handle = Some i" "e = tx_handles w ! i"
    using assms(2) by (auto simp: handle_entry_of_def)
  obtain c' where c: "ready c'" "file_object_txn_recover (h_layout e) auth (tx_files w) (tx_ctx w) = (txn_current mac (h_layout e) (tx_files w), c')"
    using recover_spec [OF assms(1)] by blast
  have "file_object_txn_resolve handle auth w = (case txn_current mac (h_layout e) (tx_files w) of
       Inl _ \<Rightarrow> Inl PICOKEYS_ERR_STALE_HANDLE
     | Inr s \<Rightarrow> if fresh_state e s then Inr (e, s) else Inl PICOKEYS_ERR_STALE_HANDLE, w\<lparr>tx_ctx := c'\<rparr>)"
  proof (cases "txn_current mac (h_layout e) (tx_files w)")
    case (Inl r)
    then show ?thesis using i c(2) current_Inl [OF Inl] by (simp add: file_object_txn_resolve_def)
  next
    case (Inr s)
    then show ?thesis using i c(2) by (simp add: file_object_txn_resolve_def fresh_state_def)
  qed
  then show ?thesis using c(1) by blast
qed

lemma open_spec:
  assumes "ready (tx_ctx w)" "file_object_txn_layout_valid w l" "length (tx_handles w) = 4"
  shows "\<exists>c'. ready c' \<and> (case txn_current mac l (tx_files w) of
      Inl r \<Rightarrow> file_object_txn_open l (Some auth) w = (Inl r, w\<lparr>tx_ctx := c'\<rparr>)
    | Inr s \<Rightarrow>
        if s_deleted s then file_object_txn_open l (Some auth) w = (Inl PICOKEYS_ERR_FILE_NOT_FOUND, w\<lparr>tx_ctx := c'\<rparr>)
        else if 0 \<notin> h_token ` set (tx_handles w) then file_object_txn_open l (Some auth) w = (Inl PICOKEYS_ERR_NO_MEMORY, w\<lparr>tx_ctx := c'\<rparr>)
        else \<exists>h n i. h \<noteq> 0 \<and> h \<notin> h_token ` set (tx_handles w) \<and> i < 4 \<and> h_token (tx_handles w ! i) = 0 \<and>
          file_object_txn_open l (Some auth) w = (Inr h, w\<lparr>tx_ctx := c', tx_next_handle := n,
            tx_handles := (tx_handles w)[i := \<lparr>h_layout = l, h_state = s, h_token = h\<rparr>]\<rparr>))"
proof -
  obtain c' where c: "ready c'" "file_object_txn_recover l auth (tx_files w) (tx_ctx w) = (txn_current mac l (tx_files w), c')"
    using recover_spec [OF assms(1)] by blast
  note run = file_object_txn_open_def assms(2) provided c(2) option.sel prod.case Let_def simp_thms if_False
  show ?thesis
  proof (cases "txn_current mac l (tx_files w)")
    case (Inl r)
    then show ?thesis using c(1) by (auto simp: run)
  next
    case (Inr s)
    show ?thesis
    proof (cases "s_deleted s \<or> 0 \<notin> h_token ` set (tx_handles w)")
      case True
      have "first_index (\<lambda>e. h_token e = 0) (tx_handles w) = None \<longleftrightarrow> 0 \<notin> h_token ` set (tx_handles w)" by (auto simp: first_index_None)
      then show ?thesis using c(1) Inr True by (auto simp: run)
    next
      case False
      then obtain i where i: "first_index (\<lambda>e. h_token e = 0) (tx_handles w) = Some i"
        by (cases "first_index (\<lambda>e. h_token e = 0) (tx_handles w)") (auto simp: first_index_None)
      obtain h n where h: "file_object_txn_allocate_token (w\<lparr>tx_ctx := c'\<rparr>) = Some (h, w\<lparr>tx_ctx := c', tx_next_handle := n\<rparr>)"
          "h \<noteq> 0" "h \<notin> h_token ` set (tx_handles w)"
        using allocate_token_fresh [of "w\<lparr>tx_ctx := c'\<rparr>"] assms(3) by auto
      have "file_object_txn_open l (Some auth) w = (Inr h, w\<lparr>tx_ctx := c', tx_next_handle := n,
            tx_handles := (tx_handles w)[i := \<lparr>h_layout = l, h_state = s, h_token = h\<rparr>]\<rparr>)"
        using Inr False i h(1) by (simp add: run)
      then show ?thesis using c(1) Inr False h(2,3) first_index_Some [OF i] assms(3) by auto
    qed
  qed
qed

end

section \<open>Reading through a handle\<close>

lemma opened_entry:
  assumes "h \<noteq> 0" "h \<notin> h_token ` set (tx_handles w)" "i < length (tx_handles w)" "h_token e = h"
    "tx_handles w' = (tx_handles w)[i := e]"
  shows "handle_entry_of h w' = Some e"
proof -
  have "first_index (\<lambda>e. h_token e = h) (tx_handles w') \<noteq> None"
    using assms(3-5) set_update_memI [of i "tx_handles w" e] by (auto simp: first_index_None)
  then obtain j where j: "first_index (\<lambda>e. h_token e = h) (tx_handles w') = Some j" by blast
  then have "j < length (tx_handles w)" "h_token ((tx_handles w)[i := e] ! j) = h" using first_index_Some [OF j] assms(5) by auto
  then have "j = i" using assms(2) by (metis image_eqI nth_list_update_neq nth_mem)
  then show ?thesis using j assms(1,3,5) by (simp add: handle_entry_of_def file_object_txn_find_handle_def)
qed

lemma current_record:
  assumes "txn_current mac l fs = Inr s" "\<not> s_deleted s"
  obtains d where "fs (pick (l_record_fid l) (s_record_slot s)) = Some d" "length d = 32 + unat (s_payload_size s) + 16"
    "txn_value mac l fs = Some (slice 32 (unat (s_payload_size s)) d)"
proof -
  obtain t c where c: "commit_valid mac l fs t c" "s = commit_state t c"
    using current_slot [OF assms(1)] by (auto simp: commit_of_def split: option.splits if_splits)
  then have "\<not> commit_deleted c" using assms(2) by (simp add: commit_state_def)
  then have "record_valid mac l fs (s_record_slot s) (s_generation s) (s_record_id s) (s_payload_size s) (drop 32 c)"
    using c by (simp add: commit_valid_def Let_def)
  then obtain d where "fs (pick (l_record_fid l) (s_record_slot s)) = Some d" "length d = 32 + unat (s_payload_size s) + 16"
    by (auto simp: record_valid_def split: option.splits)
  then show thesis using that assms by (simp add: txn_value_def)
qed

context mac_authenticator
begin

lemma handle_read:
  assumes "ready (tx_ctx w)" "handle_entry_of handle w = Some e" "txn_current mac (h_layout e) (tx_files w) = Inr s" "fresh_state e s"
    "txn_value mac (h_layout e) (tx_files w) = Some v"
  shows "\<exists>c'. ready c' \<and> file_object_txn_read_at handle (Some auth) off n w =
      (if off + n \<le> length v then Inr (slice off n v) else Inl PICOKEYS_WRONG_LENGTH, w\<lparr>tx_ctx := c'\<rparr>)"
    "\<exists>c'. ready c' \<and> file_object_txn_get_info handle (Some auth) w = (Inr (s_payload_size s, s_generation s), w\<lparr>tx_ctx := c'\<rparr>)"
    "unat (s_payload_size s) = length v"
proof -
  have nd: "\<not> s_deleted s" using assms(4) by (simp add: fresh_state_def)
  obtain d where d: "tx_files w (pick (l_record_fid (h_layout e)) (s_record_slot s)) = Some d" "length d = 32 + unat (s_payload_size s) + 16"
      "txn_value mac (h_layout e) (tx_files w) = Some (slice 32 (unat (s_payload_size s)) d)"
    using current_record [OF assms(3) nd] by blast
  have v: "v = slice 32 (unat (s_payload_size s)) d" using d(3) assms(5) by simp
  show len: "unat (s_payload_size s) = length v" using d(2) by (simp add: v slice_def)
  obtain c' where c: "ready c'" "file_object_txn_resolve handle auth w = (Inr (e, s), w\<lparr>tx_ctx := c'\<rparr>)"
    using resolve_spec [OF assms(1,2)] assms(3,4) by auto
  show "\<exists>c'. ready c' \<and> file_object_txn_get_info handle (Some auth) w = (Inr (s_payload_size s, s_generation s), w\<lparr>tx_ctx := c'\<rparr>)"
    using c provided by (auto simp: file_object_txn_get_info_def)
  have rd: "read_at (tx_files w) (pick (l_record_fid (h_layout e)) (s_record_slot s)) (32 + off) n = Inr (slice off n v)" if "off + n \<le> length v"
  proof -
    have "slice (32 + off) n d = slice off n v" unfolding v by (rule slice_slice [symmetric]) (use that len in simp)
    then show ?thesis using read_at_Some [where fs = "tx_files w" and off = "32 + off" and n = n, OF d(1)] d(2) that len by simp
  qed
  have "(off > unat (s_payload_size s) \<or> n > unat (s_payload_size s) - off) \<longleftrightarrow> \<not> off + n \<le> length v" using len by auto
  then show "\<exists>c'. ready c' \<and> file_object_txn_read_at handle (Some auth) off n w =
      (if off + n \<le> length v then Inr (slice off n v) else Inl PICOKEYS_WRONG_LENGTH, w\<lparr>tx_ctx := c'\<rparr>)"
    using c provided rd by (auto simp: file_object_txn_read_at_def)
qed

lemma handle_stale:
  assumes "ready (tx_ctx w)" "handle_entry_of handle w = Some e"
    "\<And>s. txn_current mac (h_layout e) (tx_files w) = Inr s \<Longrightarrow> \<not> fresh_state e s"
  shows "fst (file_object_txn_read_at handle (Some auth) off n w) = Inl PICOKEYS_ERR_STALE_HANDLE"
    "fst (file_object_txn_get_info handle (Some auth) w) = Inl PICOKEYS_ERR_STALE_HANDLE"
proof -
  obtain c' where "file_object_txn_resolve handle auth w = (Inl PICOKEYS_ERR_STALE_HANDLE, w\<lparr>tx_ctx := c'\<rparr>)"
    using resolve_spec [OF assms(1,2)] assms(3) by (auto split: sum.splits)
  then show "fst (file_object_txn_read_at handle (Some auth) off n w) = Inl PICOKEYS_ERR_STALE_HANDLE"
    "fst (file_object_txn_get_info handle (Some auth) w) = Inl PICOKEYS_ERR_STALE_HANDLE"
    using provided by (simp_all add: file_object_txn_read_at_def file_object_txn_get_info_def)
qed

text \<open>An object that has a value opens, and the handle reads it.\<close>

lemma open_reads:
  assumes "ready (tx_ctx w)" "file_object_txn_layout_valid w l" "length (tx_handles w) = 4" "0 \<in> h_token ` set (tx_handles w)"
    "txn_current mac l (tx_files w) = Inr s" "txn_value mac l (tx_files w) = Some v"
  shows "\<exists>h w'. file_object_txn_open l (Some auth) w = (Inr h, w') \<and> h \<noteq> 0 \<and> h \<notin> h_token ` set (tx_handles w) \<and> ready (tx_ctx w') \<and>
    tx_files w' = tx_files w \<and> tx_static w' = tx_static w \<and> tx_script w' = tx_script w \<and> length (tx_handles w') = 4 \<and>
    handle_entry_of h w' = Some \<lparr>h_layout = l, h_state = s, h_token = h\<rparr> \<and> fresh_state \<lparr>h_layout = l, h_state = s, h_token = h\<rparr> s"
proof -
  have nd: "\<not> s_deleted s" using assms(5,6) by (auto simp: txn_value_def split: if_splits)
  obtain c' h n i where o: "ready c'" "h \<noteq> 0" "h \<notin> h_token ` set (tx_handles w)" "i < 4"
      "file_object_txn_open l (Some auth) w = (Inr h, w\<lparr>tx_ctx := c', tx_next_handle := n,
         tx_handles := (tx_handles w)[i := \<lparr>h_layout = l, h_state = s, h_token = h\<rparr>]\<rparr>)"
    using open_spec [OF assms(1-3)] assms(4,5) nd by auto
  show ?thesis
    unfolding o(5) using o(1-4) assms(3) nd
      opened_entry [of h w i "\<lparr>h_layout = l, h_state = s, h_token = h\<rparr>"
        "w\<lparr>tx_ctx := c', tx_next_handle := n, tx_handles := (tx_handles w)[i := \<lparr>h_layout = l, h_state = s, h_token = h\<rparr>]\<rparr>"]
    by (auto simp: fresh_state_def)
qed

end

section \<open>Sequences of updates\<close>

text \<open>Each update runs under its own script of failures, so a run covers any failure pattern between two changes.\<close>

datatype txn_update = Put bytes | Delete

definition txn_apply :: "file_object_txn_layout \<Rightarrow> 'c file_object_authenticator option \<Rightarrow> txn_update \<Rightarrow> 'c txn \<Rightarrow> status \<times> 'c txn" where
  "txn_apply l auth u w = (case u of Put data \<Rightarrow> file_object_txn_put l auth data w | Delete \<Rightarrow> file_object_txn_delete l auth w)"

fun txn_run ::
    "file_object_txn_layout \<Rightarrow> 'c file_object_authenticator option \<Rightarrow> (outcome list \<times> txn_update) list \<Rightarrow> 'c txn \<Rightarrow> status list \<times> 'c txn" where
  "txn_run l auth [] w = ([], w)"
| "txn_run l auth ((script, u) # us) w =
    (case txn_apply l auth u (w\<lparr>tx_script := script\<rparr>) of (r, w) \<Rightarrow> (case txn_run l auth us w of (rs, w) \<Rightarrow> (r # rs, w)))"

text \<open>The register the store implements.\<close>

definition register_update :: "txn_update \<Rightarrow> bytes option" where
  "register_update u = (case u of Put data \<Rightarrow> Some data | Delete \<Rightarrow> None)"

fun register_run :: "(bool \<times> txn_update) list \<Rightarrow> bytes option \<Rightarrow> bytes option" where
  "register_run [] v = v"
| "register_run ((applied, u) # us) v = register_run us (if applied then register_update u else v)"

text \<open>A well-behaved store: the authenticator is ready, the layout valid and the commits point to their own slot.\<close>

definition txn_good :: "('c \<Rightarrow> bool) \<Rightarrow> (bytes \<Rightarrow> bytes) \<Rightarrow> file_object_txn_layout \<Rightarrow> 'c txn \<Rightarrow> bool" where
  "txn_good ready mac l w \<longleftrightarrow> ready (tx_ctx w) \<and> file_object_txn_layout_valid w l \<and> txn_inv mac l (tx_files w)"

lemma txn_good_script [simp]: "txn_good ready mac l (w\<lparr>tx_script := s\<rparr>) = txn_good ready mac l w"
  by (simp add: txn_good_def file_object_txn_layout_valid_def)

context mac_authenticator
begin

lemma update_effect:
  assumes "txn_good ready mac l w" "txn_apply l (Some auth) u w = (r, w')"
  shows "txn_good ready mac l w' \<and> tx_handles w' = tx_handles w \<and>
    ((r \<noteq> PICOKEYS_OK \<and> txn_current mac l (tx_files w') = txn_current mac l (tx_files w) \<and> txn_value mac l (tx_files w') = txn_value mac l (tx_files w)) \<or>
     (\<exists>t g s. next_slot mac l (tx_files w) t g \<and> txn_current mac l (tx_files w') = Inr s \<and> s_generation s = g \<and>
        txn_value mac l (tx_files w') = register_update u))"
proof (cases u)
  case (Put data)
  then show ?thesis using put_effect [of w l data r w'] assms by (fastforce simp: txn_good_def txn_apply_def register_update_def)
next
  case Delete
  then show ?thesis using delete_effect [of w l r w'] assms by (fastforce simp: txn_good_def txn_apply_def register_update_def)
qed

lemma updates_atomic:
  assumes "txn_good ready mac l w" "txn_run l (Some auth) us w = (rs, w')"
  shows "txn_good ready mac l w' \<and> (\<exists>applied. length applied = length us \<and> length rs = length us \<and>
    (\<forall>i<length us. rs ! i = PICOKEYS_OK \<longrightarrow> applied ! i) \<and>
    txn_value mac l (tx_files w') = register_run (zip applied (map snd us)) (txn_value mac l (tx_files w)))"
  using assms
proof (induction us arbitrary: w rs)
  case (Cons x us)
  obtain script u where x: "x = (script, u)" by force
  obtain r w1 where a: "txn_apply l (Some auth) u (w\<lparr>tx_script := script\<rparr>) = (r, w1)" by force
  obtain rs1 w2 where b: "txn_run l (Some auth) us w1 = (rs1, w2)" by force
  have eq: "rs = r # rs1" "w' = w2" using Cons.prems(2) a b x by auto
  have e: "txn_good ready mac l w1" "(r \<noteq> PICOKEYS_OK \<and> txn_value mac l (tx_files w1) = txn_value mac l (tx_files w)) \<or>
      txn_value mac l (tx_files w1) = register_update u"
    using update_effect [OF _ a] Cons.prems(1) by auto
  obtain ap where ap: "txn_good ready mac l w2" "length ap = length us" "length rs1 = length us" "\<forall>i<length us. rs1 ! i = PICOKEYS_OK \<longrightarrow> ap ! i"
      "txn_value mac l (tx_files w2) = register_run (zip ap (map snd us)) (txn_value mac l (tx_files w1))"
    using Cons.IH [OF e(1), of rs1] b eq(2) by auto
  define k where "k \<longleftrightarrow> \<not> (r \<noteq> PICOKEYS_OK \<and> txn_value mac l (tx_files w1) = txn_value mac l (tx_files w))"
  have k: "r = PICOKEYS_OK \<longrightarrow> k" "txn_value mac l (tx_files w1) = (if k then register_update u else txn_value mac l (tx_files w))"
    using e(2) by (auto simp: k_def)
  show ?case
  proof (intro conjI exI [of _ "k # ap"])
    show "\<forall>i<length (x # us). rs ! i = PICOKEYS_OK \<longrightarrow> (k # ap) ! i" using k(1) ap(4) by (auto simp: eq nth_Cons split: nat.split)
  qed (use ap k eq x in simp_all)
qed simp

end

section \<open>Identifiers\<close>

definition id_high_water :: "(bytes \<Rightarrow> bytes) \<Rightarrow> file_object_txn_layout \<Rightarrow> (u16 \<rightharpoonup> bytes) \<Rightarrow> u64" where
  "id_high_water mac l fs = (case txn_value mac l fs of None \<Rightarrow> 0 | Some state \<Rightarrow> get_uint64_be (drop 8 state))"

definition without_slot :: "file_object_txn_layout \<Rightarrow> u8 \<Rightarrow> (u16 \<rightharpoonup> bytes) \<Rightarrow> (u16 \<rightharpoonup> bytes)" where
  "without_slot l k fs = fs(pick (l_commit_fid l) k := None, pick (l_record_fid l) k := None)"

lemma record_id_state_value [simp]: "get_uint64_be (drop 8 (record_id_state n)) = n"
  by (simp add: record_id_state_def file_object_record_id_magic_def)

lemma without_slot_keeps:
  assumes "layout_distinct l" "k \<in> {0, 1}"
  shows "keeps_slot l (other k) fs (without_slot l k fs)" "commit_of mac l (without_slot l k fs) k = None"
  using pick_distinct [OF assms] by (simp_all add: keeps_slot_def without_slot_def commit_of_def)

lemma next_id:
  fixes i :: u64
  assumes "i \<noteq> 0xffffffffffffffff"
  shows "i < i + 1"
proof -
  have "unat i \<noteq> 18446744073709551615" using assms by (simp add: word_unat_eq_iff)
  then have "unat i + 1 < 2 ^ 64" using unsigned_less [of i, where 'a = nat] by simp
  then have "unat (i + 1) = unat i + 1" by (simp add: unat_word_ariths)
  then show ?thesis by (simp add: word_less_nat_alt)
qed

context mac_authenticator
begin

text \<open>After two writes of the same bytes either slot is enough.\<close>

lemma put_twice:
  assumes "txn_good ready mac l w" "file_object_txn_put l (Some auth) data w = (PICOKEYS_OK, w1)"
    "file_object_txn_put l (Some auth) data w1 = (PICOKEYS_OK, w2)" "k \<in> {0, 1}"
  shows "txn_value mac l (without_slot l k (tx_files w2)) = Some data"
proof -
  have g: "ready (tx_ctx w)" "file_object_txn_layout_valid w l" "txn_inv mac l (tx_files w)" using assms(1) by (simp_all add: txn_good_def)
  note p1 = put_effect [OF g assms(2)]
  then have g1: "ready (tx_ctx w1)" "file_object_txn_layout_valid w1 l" "txn_inv mac l (tx_files w1)" "txn_value mac l (tx_files w1) = Some data" by auto
  obtain t g s2 where p2: "next_slot mac l (tx_files w1) t g" "keeps_slot l (other t) (tx_files w1) (tx_files w2)"
      "txn_current mac l (tx_files w2) = Inr s2" "s_commit_slot s2 = t" "s_record_slot s2 = t" "\<not> s_deleted s2"
      "txn_value mac l (tx_files w2) = Some data" "txn_inv mac l (tx_files w2)"
    using put_effect [OF g1(1-3) assms(3)] by auto
  have ld: "layout_distinct l" using g1(2) by (simp add: layout_distinct_def file_object_txn_layout_valid_def Let_def)
  have t: "t \<in> {0, 1}" "other t \<in> {0, 1}" "other (other t) = t" using p2(1) by (auto simp: next_slot_def)
  note ws = without_slot_keeps [OF ld assms(4), where fs = "tx_files w2"]
  consider "k = t" | "k = other t" using t(1) assms(4) by auto
  then show ?thesis
  proof cases
    case 1
    have "keeps_slot l (other t) (tx_files w1) (without_slot l k (tx_files w2))" using ws(1) p2(2) 1 by (simp add: keeps_slot_def)
    then show ?thesis using slot_cleared(2) [OF g1(3) p2(1)] ws(2) 1 g1(4) by simp
  next
    case 2
    have kt: "keeps_slot l t (tx_files w2) (without_slot l k (tx_files w2))" using ws(1) 2 t(3) by simp
    have "commit_of mac l (without_slot l k (tx_files w2)) t = Some s2"
      using commit_of_keeps [OF p2(8) t(1) kt] current_slot [OF p2(3)] p2(4) by simp
    then have "txn_current mac l (without_slot l k (tx_files w2)) = Inr s2"
      unfolding current_from_slots [OF t(1), of mac l] using ws(2) 2 by simp
    then show ?thesis using p2(3,5,6,7) kt by (simp add: txn_value_def keeps_slot_def)
  qed
qed

end

text \<open>What the calls around the counter keep.\<close>

definition same_store :: "'c txn \<Rightarrow> 'c txn \<Rightarrow> bool" where
  "same_store w w' \<longleftrightarrow> tx_files w' = tx_files w \<and> tx_static w' = tx_static w \<and> tx_script w' = tx_script w \<and>
     length (tx_handles w') = length (tx_handles w)"

lemma close_keeps: "file_object_txn_close h w = (r, w') \<Longrightarrow> same_store w w' \<and> tx_ctx w' = tx_ctx w"
  by (auto simp: file_object_txn_close_def same_store_def split: option.splits)

lemma txn_good_same_store: "txn_good ready mac l w \<Longrightarrow> same_store w w' \<Longrightarrow> ready (tx_ctx w') \<Longrightarrow> txn_good ready mac l w'"
  by (simp add: txn_good_def same_store_def file_object_txn_layout_valid_def Let_def)

context mac_authenticator
begin

lemma record_id_next_spec:
  assumes "ready (tx_ctx w)" "handle_entry_of handle w = Some e" "txn_current mac (h_layout e) (tx_files w) = Inr s" "fresh_state e s"
    "txn_value mac (h_layout e) (tx_files w) = Some v" "record_id_next handle (Some auth) w = (res, w')"
  shows "same_store w w' \<and> ready (tx_ctx w') \<and> (\<forall>i. res = Inr i \<longrightarrow> i = get_uint64_be (drop 8 v) + 1 \<and> get_uint64_be (drop 8 v) < i)"
proof -
  obtain c1 where c1: "ready c1" "file_object_txn_get_info handle (Some auth) w = (Inr (s_payload_size s, s_generation s), w\<lparr>tx_ctx := c1\<rparr>)"
    using handle_read(2) [OF assms(1-5)] by blast
  define w1 where "w1 = w\<lparr>tx_ctx := c1\<rparr>"
  have len: "unat (s_payload_size s) = length v" by (rule handle_read(3) [OF assms(1-5)])
  have h1: "handle_entry_of handle w1 = Some e" using assms(2) by (auto simp: w1_def handle_entry_of_def file_object_txn_find_handle_def split: if_splits)
  obtain c2 where c2: "ready c2" "file_object_txn_read_at handle (Some auth) 0 16 w1 =
      (if 0 + 16 \<le> length v then Inr (slice 0 16 v) else Inl PICOKEYS_WRONG_LENGTH, w1\<lparr>tx_ctx := c2\<rparr>)"
    using handle_read(1) [OF _ h1, of s v 0 16] assms(3-5) c1(1) by (auto simp: w1_def)
  define got where "got = (if s_payload_size s = 16 then (Inr v, w1\<lparr>tx_ctx := c2\<rparr>) else (Inl PICOKEYS_WRONG_DATA, w1))"
  have l16: "s_payload_size s = 16 \<Longrightarrow> length v = 16" using len by simp
  obtain cr w3 where cl: "file_object_txn_close handle (snd got) = (cr, w3)" by force
  have k: "same_store w w3" "ready (tx_ctx w3)"
    using close_keeps [OF cl] c1(1) c2(1) by (auto simp: same_store_def got_def w1_def split: if_splits)
  have run: "w' = w3" "\<And>i. res = Inr i \<Longrightarrow> s_payload_size s = 16 \<and> get_uint64_be (drop 8 v) \<noteq> 0xffffffffffffffff \<and> i = get_uint64_be (drop 8 v) + 1"
    using assms(6) c1(2) c2(2) l16 cl unfolding record_id_next_def w1_def [symmetric] got_def Let_def
    by (auto simp: slice_def split: if_splits)
  show ?thesis using k run next_id by auto
qed

lemma allocate_candidate:
  assumes "txn_good ready mac l w" "length (tx_handles w) = 4"
    "(case file_object_txn_open l (Some auth) w of (opened, w) \<Rightarrow> (case opened of Inr handle \<Rightarrow> record_id_next handle (Some auth) w
      | Inl r \<Rightarrow> (if r = PICOKEYS_ERR_FILE_NOT_FOUND then Inr 1 else Inl r, w))) = (res, w')"
  shows "same_store w w' \<and> ready (tx_ctx w') \<and> (\<forall>i. res = Inr i \<longrightarrow> id_high_water mac l (tx_files w) < i)"
proof -
  have g: "ready (tx_ctx w)" "file_object_txn_layout_valid w l" using assms(1) by (simp_all add: txn_good_def)
  note os = open_spec [OF g assms(2)]
  show ?thesis
  proof (cases "txn_current mac l (tx_files w)")
    case (Inl r)
    then have "id_high_water mac l (tx_files w) = 0" by (simp add: id_high_water_def txn_value_def)
    then show ?thesis using os Inl assms(3) by (auto simp: same_store_def split: if_splits)
  next
    case (Inr s)
    show ?thesis
    proof (cases "txn_value mac l (tx_files w)")
      case None
      then have "id_high_water mac l (tx_files w) = 0" "s_deleted s" using Inr by (auto simp: id_high_water_def txn_value_def split: if_splits)
      then show ?thesis using os Inr assms(3) by (auto simp: same_store_def)
    next
      case (Some v)
      then have nd: "\<not> s_deleted s" using Inr by (auto simp: txn_value_def split: if_splits)
      show ?thesis
      proof (cases "0 \<in> h_token ` set (tx_handles w)")
        case False
        then show ?thesis using os Inr nd assms(3) by (auto simp: same_store_def)
      next
        case True
        obtain h w1 where o: "file_object_txn_open l (Some auth) w = (Inr h, w1)" "ready (tx_ctx w1)" "same_store w w1"
            "handle_entry_of h w1 = Some \<lparr>h_layout = l, h_state = s, h_token = h\<rparr>" "fresh_state \<lparr>h_layout = l, h_state = s, h_token = h\<rparr> s"
          using open_reads [OF g assms(2) True Inr Some] assms(2) by (auto simp: same_store_def)
        have f: "tx_files w1 = tx_files w" using o(3) by (simp add: same_store_def)
        have run: "record_id_next h (Some auth) w1 = (res, w')" using assms(3) o(1) by simp
        have "same_store w1 w' \<and> ready (tx_ctx w') \<and> (\<forall>i. res = Inr i \<longrightarrow> i = get_uint64_be (drop 8 v) + 1 \<and> get_uint64_be (drop 8 v) < i)"
          by (rule record_id_next_spec [OF o(2,4) _ o(5) _ run]) (simp_all add: f Inr Some)
        then show ?thesis using o(3) Some by (auto simp: same_store_def id_high_water_def)
      qed
    qed
  qed
qed

lemma put_id:
  assumes "txn_good ready mac l w" "file_object_txn_put l (Some auth) (record_id_state i) w = (r, w')"
  shows "txn_good ready mac l w' \<and> tx_handles w' = tx_handles w \<and>
    ((r \<noteq> PICOKEYS_OK \<and> id_high_water mac l (tx_files w') = id_high_water mac l (tx_files w)) \<or> id_high_water mac l (tx_files w') = i)"
  using update_effect [OF assms(1), of "Put (record_id_state i)"] assms(2)
  by (auto simp: txn_apply_def register_update_def id_high_water_def)

lemma record_id_allocate_spec:
  assumes "txn_good ready mac l w" "length (tx_handles w) = 4" "file_object_record_id_allocate l (Some auth) w = (res, w')"
  shows "txn_good ready mac l w' \<and> length (tx_handles w') = 4 \<and>
    (case res of Inl _ \<Rightarrow> id_high_water mac l (tx_files w) \<le> id_high_water mac l (tx_files w')
     | Inr i \<Rightarrow> id_high_water mac l (tx_files w) < i \<and> id_high_water mac l (tx_files w') = i \<and>
         (\<forall>k\<in>{0, 1}. id_high_water mac l (without_slot l k (tx_files w')) = i))"
proof -
  obtain res0 w1 where c: "(case file_object_txn_open l (Some auth) w of (opened, w) \<Rightarrow> (case opened of Inr handle \<Rightarrow> record_id_next handle (Some auth) w
      | Inl r \<Rightarrow> (if r = PICOKEYS_ERR_FILE_NOT_FOUND then Inr 1 else Inl r, w))) = (res0, w1)" by force
  note cand = allocate_candidate [OF assms(1,2) c]
  have g1: "txn_good ready mac l w1" "length (tx_handles w1) = 4" "tx_files w1 = tx_files w"
    using cand assms(1,2) txn_good_same_store [OF assms(1), of w1] by (auto simp: same_store_def)
  show ?thesis
  proof (cases res0)
    case (Inl r)
    then have "res = Inl r" "w' = w1" using assms(3) c by (auto simp: file_object_record_id_allocate_def Let_def split: prod.splits sum.splits)
    then show ?thesis using g1 by simp
  next
    case (Inr i)
    have lt: "id_high_water mac l (tx_files w) < i" using cand Inr by blast
    obtain r2 w2 where p2: "file_object_txn_put l (Some auth) (record_id_state i) w1 = (r2, w2)" by force
    obtain r3 w3 where p3: "file_object_txn_put l (Some auth) (record_id_state i) w2 = (r3, w3)" by force
    have run: "(res, w') = (if r2 \<noteq> PICOKEYS_OK then (Inl r2, w2) else if r3 \<noteq> PICOKEYS_OK then (Inl r3, w3) else (Inr i, w3))"
      using assms(3) c Inr p2 p3 by (auto simp: file_object_record_id_allocate_def then_do_def Let_def split: prod.splits sum.splits)
    note e2 = put_id [OF g1(1) p2]
    have g2: "txn_good ready mac l w2" using e2 by blast
    note e3 = put_id [OF g2 p3]
    have "\<forall>k\<in>{0, 1}. id_high_water mac l (without_slot l k (tx_files w3)) = i" if "r2 = PICOKEYS_OK" "r3 = PICOKEYS_OK"
      using put_twice [OF g1(1), of "record_id_state i" w2 w3] p2 p3 that by (simp add: id_high_water_def)
    then show ?thesis using run e2 e3 g1 lt by (auto split: if_splits)
  qed
qed

end

section \<open>Runs\<close>

fun record_id_run ::
    "file_object_txn_layout \<Rightarrow> 'c file_object_authenticator option \<Rightarrow> outcome list list \<Rightarrow> 'c txn \<Rightarrow> (status + u64) list \<times> 'c txn" where
  "record_id_run l auth [] w = ([], w)"
| "record_id_run l auth (script # scripts) w =
    (case file_object_record_id_allocate l auth (w\<lparr>tx_script := script\<rparr>) of (r, w) \<Rightarrow>
       (case record_id_run l auth scripts w of (rs, w) \<Rightarrow> (r # rs, w)))"

definition ids_of :: "(status + u64) list \<Rightarrow> u64 list" where
  "ids_of rs = concat (map (case_sum (\<lambda>_. []) (\<lambda>i. [i])) rs)"

lemma ids_of_simps [simp]: "ids_of [] = []" "ids_of (Inl e # rs) = ids_of rs" "ids_of (Inr i # rs) = i # ids_of rs"
  by (simp_all add: ids_of_def)

context mac_authenticator
begin

lemma ids_increase:
  assumes "txn_good ready mac l w" "length (tx_handles w) = 4" "record_id_run l (Some auth) scripts w = (rs, w')"
  shows "id_high_water mac l (tx_files w) \<le> id_high_water mac l (tx_files w') \<and> sorted_wrt (<) (ids_of rs) \<and>
    (\<forall>i\<in>set (ids_of rs). id_high_water mac l (tx_files w) < i \<and> i \<le> id_high_water mac l (tx_files w')) \<and>
    (\<forall>i k. rs \<noteq> [] \<and> last rs = Inr i \<and> k \<in> {0, 1} \<longrightarrow> id_high_water mac l (without_slot l k (tx_files w')) = i)"
  using assms
proof (induction scripts arbitrary: w rs)
  case (Cons script scripts)
  obtain r w1 where a: "file_object_record_id_allocate l (Some auth) (w\<lparr>tx_script := script\<rparr>) = (r, w1)" by force
  obtain rs1 w2 where b: "record_id_run l (Some auth) scripts w1 = (rs1, w2)" by force
  have eq: "rs = r # rs1" "w' = w2" using Cons.prems(3) a b by auto
  have s: "txn_good ready mac l w1" "length (tx_handles w1) = 4"
    "case r of Inl _ \<Rightarrow> id_high_water mac l (tx_files w) \<le> id_high_water mac l (tx_files w1)
     | Inr i \<Rightarrow> id_high_water mac l (tx_files w) < i \<and> id_high_water mac l (tx_files w1) = i \<and>
         (\<forall>k\<in>{0, 1}. id_high_water mac l (without_slot l k (tx_files w1)) = i)"
    using record_id_allocate_spec [OF _ _ a] Cons.prems(1,2) by (auto split: sum.splits)
  have ih: "id_high_water mac l (tx_files w1) \<le> id_high_water mac l (tx_files w')" "sorted_wrt (<) (ids_of rs1)"
    "\<forall>i\<in>set (ids_of rs1). id_high_water mac l (tx_files w1) < i \<and> i \<le> id_high_water mac l (tx_files w')"
    "\<forall>i k. rs1 \<noteq> [] \<and> last rs1 = Inr i \<and> k \<in> {0, 1} \<longrightarrow> id_high_water mac l (without_slot l k (tx_files w')) = i"
    using Cons.IH [OF s(1,2), of rs1] b eq(2) by auto
  have last: "rs1 = [] \<Longrightarrow> w' = w1" using b eq(2) by (cases scripts) (auto split: prod.splits)
  show ?case
  proof (cases r)
    case (Inl e)
    then show ?thesis using s(3) ih eq(1) last by (auto dest: order_trans le_less_trans)
  next
    case (Inr i)
    then show ?thesis using s(3) ih eq(1) last by (auto dest: order_trans order.strict_trans)
  qed
qed simp

text \<open>The generation only grows, and grows with every update that reports success.\<close>

lemma run_generation:
  assumes "txn_good ready mac l w" "txn_run l (Some auth) us w = (rs, w')" "txn_current mac l (tx_files w) = Inr s"
  shows "\<exists>s'. txn_current mac l (tx_files w') = Inr s' \<and> s_generation s \<le> s_generation s' \<and>
    (PICOKEYS_OK \<in> set rs \<longrightarrow> s_generation s < s_generation s') \<and> tx_handles w' = tx_handles w \<and> ready (tx_ctx w')"
  using assms
proof (induction us arbitrary: w rs s)
  case Nil
  then show ?case by (simp add: txn_good_def)
next
  case (Cons x us)
  obtain script u where x: "x = (script, u)" by force
  obtain r w1 where a: "txn_apply l (Some auth) u (w\<lparr>tx_script := script\<rparr>) = (r, w1)" by force
  obtain rs1 w2 where b: "txn_run l (Some auth) us w1 = (rs1, w2)" by force
  have eq: "rs = r # rs1" "w' = w2" using Cons.prems(2) a b x by auto
  note e = update_effect [OF _ a, simplified, OF Cons.prems(1)]
  have g1: "txn_good ready mac l w1" "tx_handles w1 = tx_handles w" using e by auto
  obtain s1 where s1: "txn_current mac l (tx_files w1) = Inr s1" "s_generation s \<le> s_generation s1"
      "r = PICOKEYS_OK \<longrightarrow> s_generation s < s_generation s1"
  proof (cases "r \<noteq> PICOKEYS_OK \<and> txn_current mac l (tx_files w1) = txn_current mac l (tx_files w)")
    case True
    then show ?thesis using that Cons.prems(3) by auto
  next
    case False
    then obtain t g s1 where "next_slot mac l (tx_files w) t g" "txn_current mac l (tx_files w1) = Inr s1" "s_generation s1 = g" using e by blast
    then have "txn_current mac l (tx_files w1) = Inr s1" "s_generation s < s_generation s1" using Cons.prems(3) by (auto simp: next_slot_def)
    then show ?thesis using that [of s1] by simp
  qed
  from Cons.IH [OF g1(1) _ s1(1), of rs1] b eq(2) obtain s' where s': "txn_current mac l (tx_files w') = Inr s'" "s_generation s1 \<le> s_generation s'"
      "PICOKEYS_OK \<in> set rs1 \<longrightarrow> s_generation s1 < s_generation s'" "tx_handles w' = tx_handles w1" "ready (tx_ctx w')" by auto
  then have "s_generation s \<le> s_generation s'" "PICOKEYS_OK \<in> set rs \<longrightarrow> s_generation s < s_generation s'" 
    using s1(2,3) eq(1) by (auto dest: order_trans order.strict_trans le_less_trans less_le_trans)
  then show ?case using s' g1(2) by auto
qed

end

section \<open>Writes without failures\<close>

lemma no_failures [simp]: "tx_script w = [] \<Longrightarrow> outcome_next w = (Go, w)"
  by (simp add: outcome_next_def)

lemma remove_file_succeeds:
  assumes "tx_script w = []" "\<not> tx_static w fid"
  shows "\<exists>w'. file_object_txn_remove_file fid w = (PICOKEYS_OK, w') \<and> tx_script w' = [] \<and> tx_static w' = tx_static w"
  using assms by (auto simp: file_object_txn_remove_file_def delete_no_commit_def)

lemma replace_file_succeeds:
  assumes "tx_script w = []" "\<not> tx_static w fid"
  shows "\<exists>w'. file_object_txn_replace_file fid data w = (PICOKEYS_OK, w') \<and> tx_script w' = [] \<and> tx_static w' = tx_static w"
proof -
  obtain w1 where 1: "file_object_txn_remove_file fid w = (PICOKEYS_OK, w1)" "tx_script w1 = []" "tx_static w1 = tx_static w"
    using remove_file_succeeds [OF assms] by blast
  obtain w2 where "new_file fid w1 = (True, w2)" "tx_script w2 = []" "tx_static w2 = tx_static w1"
    using 1(2) by (cases "tx_files w1 fid") (auto simp: new_file_def)
  then show ?thesis using 1 by (auto simp: file_object_txn_replace_file_def put_data_def)
qed

lemma then_commit_succeeds: "tx_script w = [] \<Longrightarrow> then_commit (PICOKEYS_OK, w) = (PICOKEYS_OK, w)"
  by (simp add: then_commit_def then_do_def commit_sync_def)

context mac_authenticator
begin

lemma write_record_succeeds:
  assumes "ready (tx_ctx w)" "tx_script w = []" "\<not> tx_static w (pick (l_record_fid l) t)" "length data \<le> 2 ^ 32 - 1 - 32 - 16"
  shows "\<exists>tag w'. file_object_txn_write_record l auth t g g data w = (PICOKEYS_OK, tag, w') \<and> tx_script w' = [] \<and> tx_static w' = tx_static w"
proof -
  let ?h = "txn_record_header l t g g (length data)"
  obtain c where c: "file_object_txn_auth_buffer auth (tx_ctx w) ?h data = (PICOKEYS_OK, mac (?h @ data), c)"
    using auth_buffer_mac [OF assms(1)] by blast
  obtain w' where "file_object_txn_replace_file (pick (l_record_fid l) t) (?h @ data @ mac (?h @ data)) (w\<lparr>tx_ctx := c\<rparr>) = (PICOKEYS_OK, w')"
      "tx_script w' = []" "tx_static w' = tx_static w"
    using replace_file_succeeds [of "w\<lparr>tx_ctx := c\<rparr>"] assms(2,3) by auto
  then show ?thesis using assms(2,4) c by (simp add: file_object_txn_write_record_def Let_def)
qed

lemma write_commit_succeeds:
  assumes "ready (tx_ctx w)" "tx_script w = []" "\<not> tx_static w (pick (l_commit_fid l) t)"
  shows "\<exists>w'. file_object_txn_write_commit l auth t rs g i n tag deleted w = (PICOKEYS_OK, w') \<and> tx_script w' = []"
proof -
  let ?h = "txn_commit_header l t rs g i n tag deleted"
  obtain c where c: "file_object_txn_auth_buffer auth (tx_ctx w) ?h [] = (PICOKEYS_OK, mac ?h, c)"
    using auth_buffer_mac [OF assms(1), of ?h "[]"] by auto
  obtain w' where "file_object_txn_replace_file (pick (l_commit_fid l) t) (?h @ mac ?h) (w\<lparr>tx_ctx := c\<rparr>) = (PICOKEYS_OK, w')" "tx_script w' = []"
    using replace_file_succeeds [of "w\<lparr>tx_ctx := c\<rparr>"] assms(2,3) by auto
  then show ?thesis using c by (simp add: file_object_txn_write_commit_def Let_def)
qed

lemma next_state_succeeds:
  assumes "ready (tx_ctx w)" "next_slot mac l (tx_files w) t g"
  shows "\<exists>t g c. file_object_txn_next_state l auth w = (Inr (t, g), w\<lparr>tx_ctx := c\<rparr>) \<and> ready c \<and> t \<in> {0, 1}"
proof -
  obtain c where c: "ready c" "file_object_txn_recover l auth (tx_files w) (tx_ctx w) = (txn_current mac l (tx_files w), c)"
    using recover_spec [OF assms(1)] by blast
  show ?thesis
  proof (cases "txn_current mac l (tx_files w)")
    case (Inl r)
    then show ?thesis using c assms(2) by (auto simp: file_object_txn_next_state_def next_slot_def)
  next
    case (Inr s)
    have "s_generation s \<noteq> 0xffffffff"
    proof
      assume "s_generation s = 0xffffffff"
      then have "s_generation s + 1 = 0" by simp
      then show False using assms(2) Inr by (auto simp: next_slot_def)
    qed
    then show ?thesis using c assms(2) Inr other_other [of t] by (auto simp: file_object_txn_next_state_def next_slot_def other_def [symmetric])
  qed
qed

lemma put_succeeds:
  assumes "txn_good ready mac l w" "tx_script w = []" "next_slot mac l (tx_files w) t0 g0" "length data \<le> 2 ^ 32 - 1 - 32 - 16"
  shows "\<exists>w'. file_object_txn_put l (Some auth) data w = (PICOKEYS_OK, w')"
proof -
  have lv: "ready (tx_ctx w)" "file_object_txn_layout_valid w l" using assms(1) by (simp_all add: txn_good_def)
  obtain t g c where n: "file_object_txn_next_state l auth w = (Inr (t, g), w\<lparr>tx_ctx := c\<rparr>)" "ready c" "t \<in> {0, 1}"
    using next_state_succeeds [OF lv(1) assms(3)] by blast
  have st: "\<not> tx_static w (pick (l_commit_fid l) t)" "\<not> tx_static w (pick (l_record_fid l) t)"
    using lv(2) n(3) by (auto simp: file_object_txn_layout_valid_def pick_def Let_def)
  have ld: "layout_distinct l" using lv(2) by (simp add: layout_distinct_def file_object_txn_layout_valid_def Let_def)
  obtain w1 where 1: "file_object_txn_remove_file (pick (l_commit_fid l) t) (w\<lparr>tx_ctx := c\<rparr>) = (PICOKEYS_OK, w1)" "tx_script w1 = []" "tx_static w1 = tx_static w"
    using remove_file_succeeds [of "w\<lparr>tx_ctx := c\<rparr>"] assms(2) st(1) by auto
  obtain w2 where 2: "file_object_txn_remove_file (pick (l_record_fid l) t) w1 = (PICOKEYS_OK, w2)" "tx_script w2 = []" "tx_static w2 = tx_static w"
    using remove_file_succeeds [of w1] 1 st(2) by auto
  have cs: "clear_slot l t (w\<lparr>tx_ctx := c\<rparr>) = (PICOKEYS_OK, w2)" using 1(1) 2(1) by (simp add: clear_slot_def then_do_def)
  have r2: "ready (tx_ctx w2)" using clear_slot_spec [OF cs ld n(3)] n(2) by simp
  obtain tag w3 where 3: "file_object_txn_write_record l auth t g g data w2 = (PICOKEYS_OK, tag, w3)" "tx_script w3 = []" "tx_static w3 = tx_static w"
    using write_record_succeeds [OF r2 2(2) _ assms(4), of l t g] 2(3) st(2) by auto
  have r3: "ready (tx_ctx w3)" using write_record_spec [OF r2 3(1)] by blast
  obtain w4 where 4: "file_object_txn_write_commit l auth t t g g (length data) tag False w3 = (PICOKEYS_OK, w4)" "tx_script w4 = []"
    using write_commit_succeeds [OF r3 3(2), of l t t g g "length data" tag False] 3(3) st(1) by auto
  have "\<not> length data > 2 ^ 32 - 1" using assms(4) by simp
  then show ?thesis using lv(2) provided n(1) cs 3(1) 4(1) then_commit_succeeds [OF 3(2)] then_commit_succeeds [OF 4(2)]
    by (simp add: file_object_txn_put_def then_do_def)
qed

end

section \<open>Properties\<close>

context crypto_provider
begin

lemma manifests_axioms:
  "mac_authenticator (crypto_manifest_authenticator lib) (same_config prov) (crypto_auth_active lib keyed prov) (crypto_mac lib hmac prov)"
  by (rule manifests.mac_authenticator_axioms)

end

lemma manifest_mac:
  assumes "mbedtls_library lib keyed hmac gcm" "crypto_provider_ready prov"
  shows "mac_authenticator (crypto_manifest_authenticator lib) (same_config prov) (crypto_auth_active lib keyed prov) (crypto_mac lib hmac prov)"
  by (rule crypto_provider.manifests_axioms [OF crypto_providerI [OF assms]])

text \<open>
  C8. A sequence of writes and deletions of an object, each under any failures of the files and the flash below,
  acts on the object like updates of a register: there is a choice of the updates that took
  effect, which contains every one that reported success, and the contents at the end are those of the
  register. No failure leaves a mixture of old and new contents, and the store stays usable.
\<close>

theorem txn_updates_atomic:
  assumes "mbedtls_library lib keyed hmac gcm" "crypto_provider_ready prov" "txn_good (same_config prov) (crypto_mac lib hmac prov) l w"
    "txn_run l (file_object_crypto_manifest_authenticator lib prov) us w = (rs, w')"
  shows "txn_good (same_config prov) (crypto_mac lib hmac prov) l w' \<and> (\<exists>applied. length applied = length us \<and> length rs = length us \<and>
    (\<forall>i<length us. rs ! i = PICOKEYS_OK \<longrightarrow> applied ! i) \<and>
    txn_value (crypto_mac lib hmac prov) l (tx_files w') =
      register_run (zip applied (map snd us)) (txn_value (crypto_mac lib hmac prov) l (tx_files w)))"
  by (rule mac_authenticator.updates_atomic [OF manifest_mac [OF assms(1,2)] assms(3)])
    (use assms(4) in \<open>simp add: ready_accessors(1) [OF assms(2)]\<close>)

text \<open>
  C10. Without failures a write succeeds whenever the object's slots are readable and its generation is not
  exhausted, and then a free handle entry opens under a token no other handle has, through which any
  range of the bytes written is read back; a range outside is refused with the length error.
\<close>

theorem txn_put_then_read:
  assumes "mbedtls_library lib keyed hmac gcm" "crypto_provider_ready prov" "txn_good (same_config prov) (crypto_mac lib hmac prov) l w"
    "tx_script w = []" "\<exists>t g. next_slot (crypto_mac lib hmac prov) l (tx_files w) t g" "length data \<le> 2 ^ 32 - 1 - 32 - 16"
    "length (tx_handles w) = 4" "0 \<in> h_token ` set (tx_handles w)"
  defines "auth \<equiv> file_object_crypto_manifest_authenticator lib prov"
  shows "\<exists>w1 h w2. file_object_txn_put l auth data w = (PICOKEYS_OK, w1) \<and> file_object_txn_open l auth w1 = (Inr h, w2) \<and>
    h \<noteq> 0 \<and> h \<notin> h_token ` set (tx_handles w1) \<and>
    (\<forall>off n. fst (file_object_txn_read_at h auth off n w2) = (if off + n \<le> length data then Inr (slice off n data) else Inl PICOKEYS_WRONG_LENGTH))"
proof -
  note m = manifest_mac [OF assms(1,2)]
  let ?mac = "crypto_mac lib hmac prov"
  have a: "auth = Some (crypto_manifest_authenticator lib)" by (simp add: auth_def ready_accessors(1) [OF assms(2)])
  obtain w1 where 1: "file_object_txn_put l auth data w = (PICOKEYS_OK, w1)"
    using mac_authenticator.put_succeeds [OF m assms(3,4) _ assms(6)] assms(5) a by blast
  obtain s where s: "same_config prov (tx_ctx w1)" "file_object_txn_layout_valid w1 l" "tx_handles w1 = tx_handles w"
      "txn_current ?mac l (tx_files w1) = Inr s" "txn_value ?mac l (tx_files w1) = Some data"
    using mac_authenticator.put_effect [OF m, of w l data PICOKEYS_OK w1] assms(3) 1 a by (auto simp: txn_good_def)
  obtain h w2 where o: "file_object_txn_open l auth w1 = (Inr h, w2)" "h \<noteq> 0" "h \<notin> h_token ` set (tx_handles w1)" "same_config prov (tx_ctx w2)"
      "tx_files w2 = tx_files w1" "handle_entry_of h w2 = Some \<lparr>h_layout = l, h_state = s, h_token = h\<rparr>"
      "fresh_state \<lparr>h_layout = l, h_state = s, h_token = h\<rparr> s"
    using mac_authenticator.open_reads [OF m s(1,2) _ _ s(4,5)] assms(7,8) s(3) a by auto
  have "fst (file_object_txn_read_at h auth off n w2) = (if off + n \<le> length data then Inr (slice off n data) else Inl PICOKEYS_WRONG_LENGTH)" for off n
    using mac_authenticator.handle_read(1) [OF m o(4,6) _ o(7), of data off n] o(5) s(4,5) a by auto
  then show ?thesis using 1 o(1-3) by blast
qed

text \<open>
  C11. A handle does not outlive the contents it was opened on: once a later update of its object, in any sequence
  of updates with any failures, has reported success, reading or asking for information through it
  gives the stale handle error, so old bytes are never passed off as current ones.
\<close>

theorem txn_stale_handles:
  assumes "mbedtls_library lib keyed hmac gcm" "crypto_provider_ready prov"
    "txn_good (same_config prov) (crypto_mac lib hmac prov) (h_layout e) w" "handle_entry_of h w = Some e"
    "fst (file_object_txn_get_info h (file_object_crypto_manifest_authenticator lib prov) w) = Inr info"
    "txn_run (h_layout e) (file_object_crypto_manifest_authenticator lib prov) us w = (rs, w')" "PICOKEYS_OK \<in> set rs"
  shows "fst (file_object_txn_read_at h (file_object_crypto_manifest_authenticator lib prov) off n w') = Inl PICOKEYS_ERR_STALE_HANDLE \<and>
    fst (file_object_txn_get_info h (file_object_crypto_manifest_authenticator lib prov) w') = Inl PICOKEYS_ERR_STALE_HANDLE"
proof -
  note m = manifest_mac [OF assms(1,2)] and a = ready_accessors(1) [OF assms(2)]
  let ?mac = "crypto_mac lib hmac prov"
  have rd: "same_config prov (tx_ctx w)" using assms(3) by (simp add: txn_good_def)
  obtain s where s: "txn_current ?mac (h_layout e) (tx_files w) = Inr s" "fresh_state e s"
  proof -
    have "fst (file_object_txn_get_info h (Some (crypto_manifest_authenticator lib)) w) = Inr info" using assms(5) by (simp add: a)
    then show thesis using mac_authenticator.handle_stale(2) [OF m rd assms(4)] that by fastforce
  qed
  obtain s' where s': "txn_current ?mac (h_layout e) (tx_files w') = Inr s'" "s_generation s < s_generation s'"
      "tx_handles w' = tx_handles w" "same_config prov (tx_ctx w')"
    using mac_authenticator.run_generation [OF m assms(3) assms(6) [unfolded a] s(1)] assms(7) by auto
  have e': "handle_entry_of h w' = Some e"
    using assms(4) s'(3) by (auto simp: handle_entry_of_def file_object_txn_find_handle_def split: if_splits)
  have st: "\<not> fresh_state e s''" if "txn_current ?mac (h_layout e) (tx_files w') = Inr s''" for s''
    using that s' s(2) by (auto simp: fresh_state_def)
  show ?thesis unfolding a using mac_authenticator.handle_stale [OF m s'(4) e' st] by simp
qed

text \<open>
  C9. Record identifiers are never issued twice: over any sequence of allocations, each under any failures, the
  identifiers returned strictly increase and lie above every one issued before and at most at the
  counter's mark afterwards, which never goes down. After an allocation that returned, the mark
  survives the loss of either slot of the counter's object.
\<close>

theorem record_ids_increase:
  assumes "mbedtls_library lib keyed hmac gcm" "crypto_provider_ready prov" "txn_good (same_config prov) (crypto_mac lib hmac prov) l w"
    "length (tx_handles w) = 4" "record_id_run l (file_object_crypto_manifest_authenticator lib prov) scripts w = (rs, w')"
  shows "id_high_water (crypto_mac lib hmac prov) l (tx_files w) \<le> id_high_water (crypto_mac lib hmac prov) l (tx_files w') \<and>
    sorted_wrt (<) (ids_of rs) \<and>
    (\<forall>i\<in>set (ids_of rs). id_high_water (crypto_mac lib hmac prov) l (tx_files w) < i \<and> i \<le> id_high_water (crypto_mac lib hmac prov) l (tx_files w')) \<and>
    (\<forall>i k. rs \<noteq> [] \<and> last rs = Inr i \<and> k \<in> {0, 1} \<longrightarrow>
       id_high_water (crypto_mac lib hmac prov) l (without_slot l k (tx_files w')) = i)"
  by (rule mac_authenticator.ids_increase [OF manifest_mac [OF assms(1,2)] assms(3,4)])
    (use assms(5) in \<open>simp add: ready_accessors(1) [OF assms(2)]\<close>)

section \<open>Witnesses\<close>

definition demo_layout :: file_object_txn_layout where
  "demo_layout = \<lparr>l_namespace_id = 1, l_object_type = 2, l_object_id = 3, l_record_fid = (0xd001, 0xd002), l_commit_fid = (0xd003, 0xd004)\<rparr>"

definition demo_txn :: "(bytes \<times> bytes) file_object_crypto_provider txn" where
  "demo_txn = \<lparr>tx_files = Map.empty, tx_static = (\<lambda>_. False), tx_script = [], tx_ctx = plain_provider,
     tx_handles = replicate 4 zero_entry, tx_next_handle = 1\<rparr>"

abbreviation (input) demo_auth where "demo_auth \<equiv> file_object_crypto_manifest_authenticator plain_mbedtls plain_provider"
abbreviation (input) demo_mac where "demo_mac \<equiv> crypto_mac plain_mbedtls plain_hmac plain_provider"

lemma demo_txn_good: "txn_good (same_config plain_provider) mac demo_layout demo_txn"
  using ready_accessors(3) [OF plain_ready]
  by (simp add: txn_good_def demo_txn_def demo_layout_def file_object_txn_layout_valid_def txn_inv_def Let_def)

lemma demo_txn_simps: "tx_script demo_txn = []" "length (tx_handles demo_txn) = 4" "0 \<in> h_token ` set (tx_handles demo_txn)"
  "next_slot mac demo_layout (tx_files demo_txn) 0 1" "txn_current mac demo_layout (tx_files demo_txn) = Inl PICOKEYS_ERR_FILE_NOT_FOUND"
  by (simp_all add: demo_txn_def zero_entry_def next_slot_def txn_current_def commit_of_def)

theorem txn_updates_atomic_witness:
  "case txn_run demo_layout demo_auth [([], Put [1, 2]), ([Go, Fail PICOKEYS_EXEC_ERROR], Put [3]), ([], Delete)] demo_txn of (rs, w') \<Rightarrow>
     \<exists>applied. length applied = 3 \<and> length rs = 3 \<and> (\<forall>i<3. rs ! i = PICOKEYS_OK \<longrightarrow> applied ! i) \<and>
       txn_value demo_mac demo_layout (tx_files w') = register_run (zip applied [Put [1, 2], Put [3], Delete]) None"
proof -
  obtain rs w' where run: "txn_run demo_layout demo_auth [([], Put [1, 2]), ([Go, Fail PICOKEYS_EXEC_ERROR], Put [3]), ([], Delete)] demo_txn = (rs, w')" by force
  have "txn_value demo_mac demo_layout (tx_files demo_txn) = None"
    by (simp add: txn_value_def txn_current_def commit_of_def demo_txn_def)
  then show ?thesis using txn_updates_atomic [OF plain_library plain_ready demo_txn_good run] run
    by (simp add: numeral_3_eq_3)
qed

theorem txn_put_then_read_witness:
  "\<exists>w1 h w2. file_object_txn_put demo_layout demo_auth [5, 6, 7] demo_txn = (PICOKEYS_OK, w1) \<and>
    file_object_txn_open demo_layout demo_auth w1 = (Inr h, w2) \<and> h \<noteq> 0 \<and>
    fst (file_object_txn_read_at h demo_auth 1 2 w2) = Inr [6, 7] \<and>
    fst (file_object_txn_read_at h demo_auth 2 2 w2) = Inl PICOKEYS_WRONG_LENGTH"
proof -
  have "\<exists>t g. next_slot demo_mac demo_layout (tx_files demo_txn) t g" using demo_txn_simps(4) by blast
  from txn_put_then_read [OF plain_library plain_ready demo_txn_good demo_txn_simps(1) this _ demo_txn_simps(2,3), of "[5, 6, 7]"]
  obtain w1 h w2 where r: "file_object_txn_put demo_layout demo_auth [5, 6, 7] demo_txn = (PICOKEYS_OK, w1)"
      "file_object_txn_open demo_layout demo_auth w1 = (Inr h, w2)" "h \<noteq> 0"
      "\<And>off n. fst (file_object_txn_read_at h demo_auth off n w2) =
        (if off + n \<le> length [5, 6, 7 :: u8] then Inr (slice off n [5, 6, 7]) else Inl PICOKEYS_WRONG_LENGTH)" by auto
  show ?thesis using r(1-3) r(4) [of 1 2] r(4) [of 2 2] by (auto simp: slice_def)
qed

theorem record_ids_increase_witness:
  "case record_id_run demo_layout demo_auth [[], [Fail PICOKEYS_EXEC_ERROR], []] demo_txn of (rs, w') \<Rightarrow>
     sorted_wrt (<) (ids_of rs) \<and> (\<forall>i\<in>set (ids_of rs). 0 < i \<and> i \<le> id_high_water demo_mac demo_layout (tx_files w'))"
proof -
  obtain rs w' where run: "record_id_run demo_layout demo_auth [[], [Fail PICOKEYS_EXEC_ERROR], []] demo_txn = (rs, w')" by force
  have "id_high_water demo_mac demo_layout (tx_files demo_txn) = 0"
    by (simp add: id_high_water_def txn_value_def txn_current_def commit_of_def demo_txn_def)
  then show ?thesis using record_ids_increase [OF plain_library plain_ready demo_txn_good demo_txn_simps(2) run] run by simp
qed

text \<open>A store with one object of generation 1 and a handle on it.\<close>

lemma demo_opened:
  "\<exists>w h e. txn_good (same_config plain_provider) demo_mac demo_layout w \<and> handle_entry_of h w = Some e \<and> h_layout e = demo_layout \<and>
    (\<exists>info. fst (file_object_txn_get_info h demo_auth w) = Inr info) \<and> tx_script w = [] \<and> (\<exists>t g. next_slot demo_mac demo_layout (tx_files w) t g)"
proof -
  note m = manifest_mac [OF plain_library plain_ready] and a = ready_accessors(1) [OF plain_ready, of plain_mbedtls]
  obtain w0 where p: "file_object_txn_put demo_layout demo_auth [5] demo_txn = (PICOKEYS_OK, w0)"
    using mac_authenticator.put_succeeds [OF m demo_txn_good demo_txn_simps(1,4), of "[5]"] a by auto
  define w1 where "w1 = w0\<lparr>tx_script := []\<rparr>"
  have f: "tx_files w1 = tx_files w0" "tx_ctx w1 = tx_ctx w0" "tx_handles w1 = tx_handles w0"
      "file_object_txn_layout_valid w1 demo_layout = file_object_txn_layout_valid w0 demo_layout"
    by (simp_all add: w1_def file_object_txn_layout_valid_def)
  obtain t g where s0: "same_config plain_provider (tx_ctx w0)" "file_object_txn_layout_valid w0 demo_layout" "txn_inv demo_mac demo_layout (tx_files w0)"
      "tx_handles w0 = tx_handles demo_txn" "next_slot demo_mac demo_layout (tx_files demo_txn) t g"
      "txn_current demo_mac demo_layout (tx_files w0) = Inr \<lparr>s_generation = g, s_record_id = g, s_payload_size = word_of_nat (length [5 :: u8]),
         s_commit_slot = t, s_record_slot = t, s_deleted = False\<rparr>" "txn_value demo_mac demo_layout (tx_files w0) = Some [5]"
    using mac_authenticator.put_effect [OF m, of demo_txn demo_layout "[5]" PICOKEYS_OK w0] demo_txn_good p a by (auto simp: txn_good_def)
  define s where "s = \<lparr>s_generation = g, s_record_id = g, s_payload_size = word_of_nat (length [5 :: u8]), s_commit_slot = t, s_record_slot = t, s_deleted = False\<rparr>"
  have sg: "s_generation s = g" "s_commit_slot s = t" by (simp_all add: s_def)
  note s = s0(1-4) [folded f(1-4)] s0(5) sg s0(6) [folded f(1) s_def] s0(7) [folded f(1)]
  have g: "g = 1" "t \<in> {0, 1}" using s(5) demo_txn_simps(5) by (auto simp: next_slot_def)
  then have ns: "next_slot demo_mac demo_layout (tx_files w1) (other t) 2" using s(6-8) other_other [of t] by (auto simp: next_slot_def)
  obtain h w2 where o: "same_config plain_provider (tx_ctx w2)" "tx_files w2 = tx_files w1" "tx_static w2 = tx_static w1" "tx_script w2 = []"
      "handle_entry_of h w2 = Some \<lparr>h_layout = demo_layout, h_state = s, h_token = h\<rparr>" "fresh_state \<lparr>h_layout = demo_layout, h_state = s, h_token = h\<rparr> s"
    using mac_authenticator.open_reads [OF m s(1,2) _ _ s(8,9)] demo_txn_simps(2,3) s(4) by (auto simp: w1_def)
  have "txn_good (same_config plain_provider) demo_mac demo_layout w2"
    using s(2,3) o(1-3) by (simp add: txn_good_def file_object_txn_layout_valid_def Let_def)
  moreover have "\<exists>info. fst (file_object_txn_get_info h demo_auth w2) = Inr info"
    using mac_authenticator.handle_read(2) [OF m o(1,5) _ o(6)] s(8,9) o(2) a by auto
  ultimately show ?thesis using o(2,4,5) ns by (metis txn_handle_entry.select_convs(1))
qed

theorem txn_stale_handles_witness:
  "\<exists>w h w'. (\<exists>info. fst (file_object_txn_get_info h demo_auth w) = Inr info) \<and>
    txn_run demo_layout demo_auth [([], Put [9])] w = ([PICOKEYS_OK], w') \<and>
    fst (file_object_txn_read_at h demo_auth 0 1 w') = Inl PICOKEYS_ERR_STALE_HANDLE"
proof -
  obtain w h e info t g where d: "txn_good (same_config plain_provider) demo_mac (h_layout e) w" "handle_entry_of h w = Some e" "h_layout e = demo_layout"
      "fst (file_object_txn_get_info h demo_auth w) = Inr info" "tx_script w = []" "next_slot demo_mac demo_layout (tx_files w) t g"
    using demo_opened by metis
  note m = manifest_mac [OF plain_library plain_ready] and a = ready_accessors(1) [OF plain_ready, of plain_mbedtls]
  obtain w' where "file_object_txn_put demo_layout demo_auth [9] w = (PICOKEYS_OK, w')"
    using mac_authenticator.put_succeeds [OF m d(1) [unfolded d(3)] d(5,6), of "[9]"] a by auto
  moreover have "w\<lparr>tx_script := []\<rparr> = w" using d(5) by (cases w) simp
  ultimately have run: "txn_run demo_layout demo_auth [([], Put [9])] w = ([PICOKEYS_OK], w')" by (simp add: txn_apply_def)
  have "fst (file_object_txn_read_at h demo_auth 0 1 w') = Inl PICOKEYS_ERR_STALE_HANDLE"
    using txn_stale_handles [OF plain_library plain_ready d(1,2,4) run [folded d(3)], of 0 1] by simp
  with d(4) run show ?thesis by blast
qed

end
