(* ===== verification/Spec2Isabelle.thy ===== *)
theory Spec2Isabelle
  imports Object_Policy Button Apdu Tlv Object_Crypto Low_Flash File_Table Phy Usb Hid Keyboard Flash_Live Txn_Safety
begin

text \<open>
  Verification library of the Key-Wallet firmware: a FIDO security key on an ESP32 with its own display,
  keypad and PIN (\<open>FidoAuth/\<close>, built on \<open>FidoAuth/pico-keys-sdk/\<close>). File names below are relative to
  \<open>src/FidoAuth/pico-keys-sdk/src/\<close>.

  \<^bold>\<open>The program.\<close> A host talks to the key over USB. The HID transport (\<open>usb/hid/hid.c\<close>) puts 64-byte reports
  together to messages, hands a command to the worker on the other core (\<open>usb/usb.c\<close>) and cuts its
  answer into reports; commands in APDU form go through \<open>apdu.c\<close>, which chains, parses and dispatches
  them to the application that \<open>main.c\<close> selected. An operation that needs the user's consent waits in
  \<open>button.c\<close>, which asks the wallet (\<open>wallet_ui.c\<close>): the user enters the PIN on the device, under a
  retry lock kept in non-volatile storage and timed by a battery-backed clock. What the device stores goes
  through \<open>fs/\<close>: a cache of dirty flash sectors (\<open>low_flash.c\<close>), a linked list of file records on it
  (\<open>flash.c\<close>, \<open>file.c\<close>), an index of files, objects written transactionally in two slots
  (\<open>object_store_txn.c\<close>), and containers of encrypted objects (\<open>object_container.c\<close>,
  \<open>object_crypto_provider.c\<close>) under authorization policies (\<open>object_policy.c\<close>).

  \<^bold>\<open>Theories.\<close>
  \<^item> \<open>Prelude\<close>: machine integers (\<open>u8\<close> to \<open>u64\<close> are words), status codes, big-endian codecs, buffer
    writes and slices with their lemmas, search in a table.
  \<^item> \<open>Wallet_Lock\<close> (\<open>wallet_ui.c\<close>): clock registers to seconds, the persisted lock, its gate and its delay
    schedule. \<open>Wallet_UI\<close>: the state of the display task as a record and one definition per function, with one
    poll of the task as \<open>wallet_ui_task\<close>. \<open>Wallet_Safety\<close>: what a single call keeps and when an
    authorization is granted. \<open>Wallet_Runs\<close>: runs since boot, any interleaving of polls and calls
    (an inductive step relation): sound buffers, guesses that follow the schedule, PIN change and wipe only with
    the current PIN.
  \<^item> \<open>Button\<close> (\<open>button.c\<close>): the presence dialogue composed with the wallet; no run approves a request without
    a right PIN entered for it, and two ways in which the code treats a user wrongly.
  \<^item> \<open>Usb\<close> (\<open>usb/usb.c\<close>), \<open>Hid\<close> (\<open>usb/hid/hid.c\<close>), \<open>Keyboard\<close>: interface table and worker events; reassembly of
    messages against a reference, message bounds over any sequence of reports, task rounds and completed
    transmissions, isolation of channels, the reports of an answer; typing a password with TinyUSB ready or
    not.
  \<^item> \<open>Apdu\<close> (\<open>apdu.c\<close>, \<open>main.c\<close>), \<open>Tlv\<close> (\<open>tlv.c\<close>): command parsing and chaining, the pieces of a response
    over GET RESPONSE, BER-TLV walks over arbitrary bytes.
  \<^item> \<open>Low_Flash\<close> (\<open>fs/low_flash.c\<close>): the cache is one memory to its readers, programming succeeds while the
    other core runs, a commit is durable in the sectors the partition driver erases and writes, whose
    results the code ignores, so that a commit also succeeds when they fail.
  \<^item> \<open>File_Table\<close> (\<open>fs/file.c\<close>): the open-addressing index of files refines a finite map over any run.
  \<^item> \<open>Record_Chain\<close>, \<open>Flash_Store\<close>, \<open>Flash_Files\<close>, \<open>Flash_Live\<close> (\<open>fs/flash.c\<close>, \<open>fs/file.c\<close>): the list of records as a
    structure in memory; the operations on it; what they keep as long as no flash operation fails; that
    none fails by itself, which gives the refinement of a map from files to contents. The data pool starts at
    address 0 as on the ESP32, where the allocator takes address 0 for a failure.
  \<^item> \<open>Object_Container\<close> (\<open>fs/object_container.c\<close>), \<open>Object_Crypto\<close> (\<open>fs/object_crypto_provider.c\<close>): manifests and
    sealed records, built and read back; nothing else is accepted; the identity bound by the associated
    data. The callbacks the container format relies on are the locales \<open>mac_authenticator\<close> and
    \<open>record_protector\<close>; the crypto provider is shown to be an instance of both from what mbedtls documents
    (locale \<open>mbedtls_library\<close>).
  \<^item> \<open>Object_Policy\<close> (\<open>fs/object_policy.c\<close>): the decision of the policy interpreter equals its specification.
  \<^item> \<open>Object_Txn\<close> (\<open>fs/object_store_txn.c\<close>), \<open>Txn_Safety\<close>: recovery, writing and deletion of an object in two slots;
    a run of updates with any scripted failures refines a register; handles go stale; record identifiers never
    repeat. Proved in \<open>mac_authenticator\<close> and used at the crypto provider.
  \<^item> \<open>Phy\<close> (\<open>fs/phy.c\<close>): the device configuration survives being written and read.

  \<^bold>\<open>How the code is read.\<close> A struct or a group of static variables is a record, a C function one
  definition with the same name; a helper definition stands for a loop or a block of a
  function. Unsigned integers keep their width, offsets and lengths that the code has already bounded are
  \<open>nat\<close>. Errors are values: a status, a sum \<open>status + result\<close>, or \<open>None\<close> where the C code would run past a
  buffer or a table (\<open>Hid\<close>, \<open>Phy\<close>, \<open>Keyboard\<close>). Where a pointer argument may be null the model has an option. The build is the ESP32
  one; \<open>#ifdef\<close> branches of other boards are left out.

  \<^bold>\<open>Parameters.\<close> mbedtls and bcrypt functions, the partition, NVS and I2C drivers, the random source, GPIO levels, TinyUSB and
  the callbacks of applications are arguments; what is assumed of mbedtls is the locale
  \<open>mbedtls_library\<close>, and an interpretation on concrete functions shows that the assumptions can hold.

  \<^bold>\<open>Bounds and fuel.\<close> \<open>is_parent\<close> in \<open>File_Table\<close> climbs at most 256 parents, the number of values of the
  parent index. The loop that hands out a HID channel is unrolled to the two values it can need.
  The token loop of \<open>Object_Txn\<close> has six tries for four handles, which \<open>allocate_token_fresh\<close> shows to be
  enough. A wait for the other core takes the number of its task runs from a schedule, so a
  schedule stands for any timing; \<open>Flash_Live\<close> gives the length that makes every operation
  succeed (44 waits and one for each byte of the old and the new contents). \<open>st_faults\<close> in \<open>Flash_Store\<close> counts failed flash
  operations; the code does not have it, and nothing branches on it. In \<open>Object_Txn\<close> the outcome of each file
  operation comes from a script of successes and failures; power loss, reordered writes and a deletion that
  stops half-way are not among them.

  \<^bold>\<open>Not modelled.\<close> In the modelled files: the drawing of the display, \<open>low_flash_init\<close>, the metadata file of
  \<open>fs/file.c\<close> (read through raw pointers into a cache that may move) and \<open>file_delete\<close>, which calls it,
  the scan of the flash at boot, FCI output and path search, \<open>bulk_cmd\<close>, and the blocking queues between
  the threads. The CTAP2, U2F, OATH and OTP applications under \<open>FidoAuth/src/fido/\<close> are mostly calls of mbedtls and of the CBOR
  library, of whose behaviour on arbitrary input little is documented; they and the object, vault and
  resident containers that use the stores above are left out. Network, CCID, emulation, LED, random numbers,
  fuses and other boards' drivers are hardware or a third party's interface. \<open>crypt_blowfish.c\<close> is
  third-party code.
\<close>

end
